(* ===== verification/Prelude.thy ===== *)
theory Prelude
  imports "HOL-Library.Word" "HOL-Library.List_Lexorder"
begin

text \<open>
  What every component of the development shares: names for the machine integers and byte
  strings of the Rust sources, the result type of fallible functions, the standard library's
  little- and big-endian integer encodings, range access into a buffer (\<open>buf.get(a..b)\<close>,
  \<open>copy_from_slice\<close>) and three-way comparison, each with the lemmas the component proofs use.
\<close>

unbundle bit_operations_syntax

section \<open>Types\<close>

type_synonym byte = "8 word"
type_synonym bytes = "8 word list"
type_synonym u16 = "16 word"
type_synonym u32 = "32 word"
type_synonym u64 = "64 word"

text \<open>The identifiers of \<open>common/src/ids.rs\<close>.\<close>

type_synonym page_id = u32
type_synonym txn_id = u64
type_synonym table_id = u32
type_synonym index_id = u32
type_synonym lsn = u64
type_synonym rid = "page_id \<times> u16"

named_theorems codec_simps \<open>lengths and round trips of the byte-level encodings\<close>
named_theorems slice_simps \<open>reading and overwriting ranges of a buffer\<close>

section \<open>Results\<close>

text \<open>A Rust \<open>Result<T, E>\<close> is \<open>'e + 'a\<close>; \<open>and_then\<close> is the \<open>?\<close> operator.\<close>

fun and_then :: "'e + 'a \<Rightarrow> ('a \<Rightarrow> 'e + 'b) \<Rightarrow> 'e + 'b" where
  "and_then (Inl e) f = Inl e"
| "and_then (Inr x) f = f x"

fun ok_or :: "'a option \<Rightarrow> 'e \<Rightarrow> 'e + 'a" where
  "ok_or None e = Inl e"
| "ok_or (Some x) e = Inr x"

lemma and_then_cong [fundef_cong]:
  "r = r' \<Longrightarrow> (\<And>x. r' = Inr x \<Longrightarrow> f x = g x) \<Longrightarrow> and_then r f = and_then r' g"
  by (cases r') auto

lemma and_then_eq_Inr [simp]:
  "and_then r f = Inr y \<longleftrightarrow> (\<exists>x. r = Inr x \<and> f x = Inr y)"
  by (cases r) auto

lemma ok_or_eq_Inr [simp]: "ok_or r e = Inr x \<longleftrightarrow> r = Some x"
  by (cases r) auto

lemma ok_or_eq_Inl [simp]: "ok_or r e = Inl e' \<longleftrightarrow> r = None \<and> e = e'"
  by (cases r) auto

section \<open>Three-way comparison\<close>

datatype ordering = Less | Equal | Greater

definition cmp :: "'a::linorder \<Rightarrow> 'a \<Rightarrow> ordering" where
  "cmp a b = (if a < b then Less else if a = b then Equal else Greater)"

lemma cmp_simps [simp]:
  "cmp a b = Less \<longleftrightarrow> a < b"
  "cmp a b = Equal \<longleftrightarrow> a = b"
  "cmp a b = Greater \<longleftrightarrow> b < a"
  by (auto simp: cmp_def)

lemma cmp_mono_eq:
  assumes "\<And>x y. f x < f y \<longleftrightarrow> x < y" "\<And>x y. f x = f y \<longleftrightarrow> x = y"
  shows "cmp (f a) (f b) = cmp a b"
  using assms by (simp add: cmp_def)

section \<open>Fixed-width integer encodings\<close>

lemma xor_cancel [simp]:
  fixes a b c :: "'a::len word"
  shows "a XOR b = a XOR c \<longleftrightarrow> b = c" "b XOR a = c XOR a \<longleftrightarrow> b = c"
  by (metis xor.assoc xor.left_neutral xor_self_eq, metis xor.assoc xor.right_neutral xor_self_eq)

lemma unat_bound: "unat (w :: 'a::len word) < 2 ^ LENGTH('a)"
  by (rule unsigned_less)

fun nat_le :: "nat \<Rightarrow> nat \<Rightarrow> bytes" where
  "nat_le 0 x = []"
| "nat_le (Suc n) x = of_nat (x mod 256) # nat_le n (x div 256)"

fun le_nat :: "bytes \<Rightarrow> nat" where
  "le_nat [] = 0"
| "le_nat (b # bs) = unat b + 256 * le_nat bs"

lemma length_nat_le [simp, codec_simps]: "length (nat_le n x) = n"
  by (induction n arbitrary: x) auto

lemma unat_of_nat_small:
  "n < 2 ^ 16 \<Longrightarrow> unat (of_nat n :: u16) = n"
  "n < 2 ^ 32 \<Longrightarrow> unat (of_nat n :: u32) = n"
  "n < 2 ^ 64 \<Longrightarrow> unat (of_nat n :: u64) = n"
  by (simp_all add: unat_of_nat)

lemma unat_ucast_byte [simp]: "unat (ucast (b :: byte) :: u32) = unat b"
proof -
  have "unat b < 2 ^ 32" using unat_bound [of b] by simp
  then show ?thesis by (simp add: unsigned_ucast_eq take_bit_nat_eq_self)
qed

lemma unat_byte_of_nat [simp]: "unat (of_nat (x mod 256) :: byte) = x mod 256"
  by (simp add: unat_of_nat)

lemma le_nat_nat_le [codec_simps]: "le_nat (nat_le n x) = x mod 256 ^ n"
proof (induction n arbitrary: x)
  case (Suc n)
  have "x mod (256 * 256 ^ n) = 256 * (x div 256 mod 256 ^ n) + x mod 256"
    by (rule mod_mult2_eq)
  then show ?case using Suc by simp
qed simp

lemma le_nat_less: "le_nat bs < 256 ^ length bs"
proof (induction bs)
  case (Cons b bs)
  have "unat b < 256" using unat_bound [of b] by simp
  then show ?case using Cons by simp
qed simp

lemma nat_le_le_nat [codec_simps]: "nat_le (length bs) (le_nat bs) = bs"
proof (induction bs)
  case (Cons b bs)
  have "unat b < 256" using unat_bound [of b] by simp
  then show ?case using Cons by simp
qed simp

lemma nat_le_0 [simp]: "nat_le n 0 = replicate n 0"
  by (induction n) auto

lemma nat_le_inj:
  assumes "nat_le n x = nat_le n y" "x < 256 ^ n" "y < 256 ^ n"
  shows "x = y"
proof -
  have "x mod 256 ^ n = y mod 256 ^ n"
    using assms(1) by (metis le_nat_nat_le)
  then show ?thesis using assms(2,3) by simp
qed

text \<open>The sign bit of a word and the two's complement reading.\<close>

lemma unat_top_clear:
  fixes w :: "'a::len word"
  assumes "LENGTH('a) = Suc n" "\<not> bit w n"
  shows "unat w < 2 ^ n"
proof -
  have "take_bit n w = w"
    by (rule bit_word_eqI) (use assms in \<open>auto simp: bit_take_bit_iff less_Suc_eq\<close>)
  then have "unat w = take_bit n (unat w)"
    by (metis unsigned_take_bit_eq)
  then show ?thesis by (metis take_bit_nat_less_exp)
qed

lemma xor_top_bit:
  fixes w :: "'a::len word"
  assumes L: "LENGTH('a) = Suc n"
  shows "\<not> bit w n \<Longrightarrow> unat (w XOR 2 ^ n) = unat w + 2 ^ n"
    and "bit w n \<Longrightarrow> unat w = unat (w XOR 2 ^ n) + 2 ^ n"
proof -
  have exp: "unat (2 ^ n :: 'a word) = 2 ^ n"
    using unat_of_nat [of "2 ^ n", where ?'a = 'a] L by simp
  have flip: "unat (v XOR 2 ^ n) = unat v + 2 ^ n" if "\<not> bit v n" for v :: "'a word"
  proof -
    have "v AND 2 ^ n = 0"
      by (rule bit_word_eqI) (use that in \<open>auto simp: bit_and_iff bit_exp_iff\<close>)
    then have "v XOR 2 ^ n = v + 2 ^ n" by (simp add: disjunctive_add_eq_xor)
    moreover have "unat v + unat (2 ^ n :: 'a word) < 2 ^ LENGTH('a)"
      using unat_top_clear [OF L that] by (simp add: exp L)
    ultimately show ?thesis by (metis unat_add_lem exp)
  qed
  then show "\<not> bit w n \<Longrightarrow> unat (w XOR 2 ^ n) = unat w + 2 ^ n" .
  assume "bit w n"
  then have "\<not> bit (w XOR 2 ^ n) n"
    using L by (simp add: bit_xor_iff bit_exp_iff)
  from flip [OF this] show "unat w = unat (w XOR 2 ^ n) + 2 ^ n"
    by (simp add: xor.assoc)
qed

lemma uint_top_bit:
  fixes w :: "'a::len word"
  assumes L: "LENGTH('a) = Suc n"
  shows "\<not> bit w n \<Longrightarrow> uint (w XOR 2 ^ n) = uint w + 2 ^ n"
    and "bit w n \<Longrightarrow> uint w = uint (w XOR 2 ^ n) + 2 ^ n"
    and "\<not> bit w n \<Longrightarrow> uint w < 2 ^ n"
  using xor_top_bit [OF L, of w] unat_top_clear [OF L, of w]
  by (metis of_nat_add of_nat_numeral of_nat_power uint_nat,
      metis of_nat_add of_nat_numeral of_nat_power uint_nat,
      metis of_nat_less_iff of_nat_numeral of_nat_power uint_nat)

lemma sint_top_bit:
  fixes w :: "'a::len word"
  assumes L: "LENGTH('a) = Suc n"
  shows "sint w = uint (w XOR 2 ^ n) - 2 ^ n"
proof -
  have "take_bit (Suc n) (uint w + 2 ^ n) = uint (w XOR 2 ^ n)"
  proof (cases "bit w n")
    case True
    have "uint (w XOR 2 ^ n) < 2 ^ Suc n" by (metis L unsigned_less)
    then show ?thesis
      using uint_top_bit(2) [OF L True] by (simp add: take_bit_eq_mod)
  next
    case False
    then show ?thesis
      using uint_top_bit [OF L, of w] by (simp add: take_bit_eq_mod)
  qed
  then show ?thesis
    by (simp add: sint_uint L signed_take_bit_eq_take_bit_shift)
qed

text \<open>\<open>to_le_bytes\<close> and \<open>from_le_bytes\<close> at the widths the sources use.\<close>

definition u16_le :: "u16 \<Rightarrow> bytes" where "u16_le w = nat_le 2 (unat w)"
definition u32_le :: "u32 \<Rightarrow> bytes" where "u32_le w = nat_le 4 (unat w)"
definition u64_le :: "u64 \<Rightarrow> bytes" where "u64_le w = nat_le 8 (unat w)"
definition le_u16 :: "bytes \<Rightarrow> u16" where "le_u16 bs = of_nat (le_nat bs)"
definition le_u32 :: "bytes \<Rightarrow> u32" where "le_u32 bs = of_nat (le_nat bs)"
definition le_u64 :: "bytes \<Rightarrow> u64" where "le_u64 bs = of_nat (le_nat bs)"

lemma length_le [simp, codec_simps]:
  "length (u16_le a) = 2" "length (u32_le b) = 4" "length (u64_le c) = 8"
  by (simp_all add: u16_le_def u32_le_def u64_le_def)

lemma le_word_round [simp, codec_simps]:
  "le_u16 (u16_le a) = a" "le_u32 (u32_le b) = b" "le_u64 (u64_le c) = c"
  using unat_bound [of a] unat_bound [of b] unat_bound [of c]
  by (simp_all add: u16_le_def u32_le_def u64_le_def le_u16_def le_u32_def le_u64_def
      le_nat_nat_le)

lemma word_le_round:
  "length bs = 2 \<Longrightarrow> u16_le (le_u16 bs) = bs"
  "length bs = 4 \<Longrightarrow> u32_le (le_u32 bs) = bs"
  "length bs = 8 \<Longrightarrow> u64_le (le_u64 bs) = bs"
  using le_nat_less [of bs] nat_le_le_nat [of bs]
  by (auto simp: u16_le_def u32_le_def u64_le_def le_u16_def le_u32_def le_u64_def unat_of_nat)

lemma le_inj [simp]:
  "u16_le a = u16_le a' \<longleftrightarrow> a = a'"
  "u32_le b = u32_le b' \<longleftrightarrow> b = b'"
  "u64_le c = u64_le c' \<longleftrightarrow> c = c'"
  by (metis le_word_round)+

text \<open>\<open>to_be_bytes\<close> and \<open>from_be_bytes\<close>.\<close>

definition u32_be :: "u32 \<Rightarrow> bytes" where "u32_be w = rev (u32_le w)"
definition u64_be :: "u64 \<Rightarrow> bytes" where "u64_be w = rev (u64_le w)"
definition be_u32 :: "bytes \<Rightarrow> u32" where "be_u32 bs = le_u32 (rev bs)"
definition be_u64 :: "bytes \<Rightarrow> u64" where "be_u64 bs = le_u64 (rev bs)"

lemma be_simps [simp, codec_simps]:
  "length (u32_be b) = 4" "length (u64_be c) = 8"
  "be_u32 (u32_be b) = b" "be_u64 (u64_be c) = c"
  by (simp_all add: u32_be_def u64_be_def be_u32_def be_u64_def)

text \<open>Big-endian bytes of one width compare lexicographically as the numbers do.\<close>

lemma rev_nat_le_Suc:
  "rev (nat_le (Suc n) x) = of_nat (x div 256 ^ n mod 256) # rev (nat_le n x)"
proof (induction n arbitrary: x)
  case (Suc n)
  have "rev (nat_le (Suc (Suc n)) x)
      = rev (nat_le (Suc n) (x div 256)) @ [of_nat (x mod 256)]"
    by (subst nat_le.simps(2)) (simp del: nat_le.simps)
  also have "\<dots> = of_nat (x div 256 div 256 ^ n mod 256)
      # rev (nat_le n (x div 256)) @ [of_nat (x mod 256)]"
    by (simp only: Suc.IH append_Cons)
  also have "x div 256 div 256 ^ n = x div 256 ^ Suc n"
    by (simp add: div_mult2_eq [symmetric])
  finally show ?case by simp
qed simp

lemma less_iff_div_mod:
  fixes x y B :: nat
  shows "x < y \<longleftrightarrow> x div B < y div B \<or> x div B = y div B \<and> x mod B < y mod B"
proof (cases "x div B" "y div B" rule: linorder_cases)
  case less
  then show ?thesis by (metis div_le_mono linorder_not_le)
next
  case equal
  then have "x = y div B * B + x mod B" "y = y div B * B + y mod B"
    by (metis div_mult_mod_eq)+
  then show ?thesis using equal by linarith
next
  case greater
  then show ?thesis by (metis div_le_mono linorder_not_le less_imp_le not_less_iff_gr_or_eq)
qed

lemma be_nat_less_iff:
  assumes "x < 256 ^ n" "y < 256 ^ n"
  shows "rev (nat_le n x) < rev (nat_le n y) \<longleftrightarrow> x < y"
  using assms
proof (induction n arbitrary: x y)
  case (Suc n)
  let ?B = "256 ^ n :: nat"
  have low: "nat_le n z = nat_le n (z mod ?B)" for z
    by (metis length_nat_le le_nat_nat_le nat_le_le_nat)
  have hi: "z div ?B < 256" if "z < 256 ^ Suc n" for z
    using that by (simp add: less_mult_imp_div_less)
  have word: "(of_nat (z div ?B mod 256) :: byte) < of_nat (w div ?B mod 256)
      \<longleftrightarrow> z div ?B < w div ?B" if "z < 256 ^ Suc n" "w < 256 ^ Suc n" for z w
    using hi [OF that(1)] hi [OF that(2)] by (simp add: word_less_nat_alt unat_of_nat)
  have eq: "(of_nat (z div ?B mod 256) :: byte) = of_nat (w div ?B mod 256)
      \<longleftrightarrow> z div ?B = w div ?B" if "z < 256 ^ Suc n" "w < 256 ^ Suc n" for z w
    using hi [OF that(1)] hi [OF that(2)] by (simp add: word_unat_eq_iff unat_of_nat)
  have IH: "rev (nat_le n x) < rev (nat_le n y) \<longleftrightarrow> x mod ?B < y mod ?B"
    using Suc.IH [of "x mod ?B" "y mod ?B"] low [of x] low [of y] by simp
  have "x < y \<longleftrightarrow> x div ?B < y div ?B \<or> x div ?B = y div ?B \<and> x mod ?B < y mod ?B"
    by (rule less_iff_div_mod)
  then show ?case
    unfolding rev_nat_le_Suc Cons_less_Cons
    using word eq Suc.prems IH by simp
qed simp

lemma be_less_iff [simp]:
  "u32_be a < u32_be a' \<longleftrightarrow> a < a'" "u64_be b < u64_be b' \<longleftrightarrow> b < b'"
  using unat_bound [of a] unat_bound [of a'] unat_bound [of b] unat_bound [of b']
  by (simp_all add: u32_be_def u64_be_def u32_le_def u64_le_def be_nat_less_iff
      word_less_nat_alt)

lemma be_inj [simp]:
  "u32_be a = u32_be a' \<longleftrightarrow> a = a'" "u64_be b = u64_be b' \<longleftrightarrow> b = b'"
  by (metis be_simps)+

section \<open>Ranges of a buffer\<close>

text \<open>\<open>slice_at buf off len\<close> is \<open>buf.get(off..off + len)\<close>; \<open>splice buf off bs\<close> is
  \<open>buf[off..off + bs.len()].copy_from_slice(bs)\<close> on a buffer that is long enough.\<close>

definition slice_at :: "'a list \<Rightarrow> nat \<Rightarrow> nat \<Rightarrow> 'a list option" where
  "slice_at buf off len =
     (if off + len \<le> length buf then Some (take len (drop off buf)) else None)"

definition bytes_at :: "'a list \<Rightarrow> nat \<Rightarrow> nat \<Rightarrow> 'a list" where
  "bytes_at buf off len = take len (drop off buf)"

definition splice :: "'a list \<Rightarrow> nat \<Rightarrow> 'a list \<Rightarrow> 'a list" where
  "splice buf off bs = take off buf @ bs @ drop (off + length bs) buf"

lemma slice_at_eq: "off + len \<le> length buf \<Longrightarrow> slice_at buf off len = Some (bytes_at buf off len)"
  by (simp add: slice_at_def bytes_at_def)

lemma length_bytes_at [simp]: "off + len \<le> length buf \<Longrightarrow> length (bytes_at buf off len) = len"
  by (simp add: bytes_at_def)

lemma length_splice [simp, slice_simps]:
  "off + length bs \<le> length buf \<Longrightarrow> length (splice buf off bs) = length buf"
  by (simp add: splice_def)

lemma bytes_at_splice_same [simp, slice_simps]:
  "off \<le> length buf \<Longrightarrow> n = length bs \<Longrightarrow> bytes_at (splice buf off bs) off n = bs"
  by (simp add: splice_def bytes_at_def)

lemma nth_splice:
  assumes "off + length bs \<le> length buf" "i < length buf"
  shows "splice buf off bs ! i =
    (if off \<le> i \<and> i < off + length bs then bs ! (i - off) else buf ! i)"
  using assms by (auto simp: splice_def nth_append min_def)

lemma bytes_at_splice_other [slice_simps]:
  assumes "off + length bs \<le> length buf" "o2 + n \<le> length buf"
    "o2 + n \<le> off \<or> off + length bs \<le> o2"
  shows "bytes_at (splice buf off bs) o2 n = bytes_at buf o2 n"
  by (rule nth_equalityI) (use assms in \<open>auto simp: bytes_at_def nth_splice\<close>)

lemma bytes_at_splice_inside [slice_simps]:
  assumes "off + length bs \<le> length buf" "off \<le> o2" "o2 + n \<le> off + length bs"
  shows "bytes_at (splice buf off bs) o2 n = bytes_at bs (o2 - off) n"
  by (rule nth_equalityI) (use assms in \<open>auto simp: bytes_at_def nth_splice\<close>)

lemma slice_at_append_left:
  "off + len \<le> length xs \<Longrightarrow> slice_at (xs @ ys) off len = Some (bytes_at xs off len)"
  by (simp add: slice_at_def bytes_at_def)

lemma slice_at_append_at [simp]:
  "slice_at (xs @ ys @ zs) (length xs) (length ys) = Some ys"
  by (simp add: slice_at_def)

lemma bytes_at_drop: "bytes_at (drop k xs) i n = bytes_at xs (k + i) n"
  by (simp add: bytes_at_def add.commute)

lemma splice_adjacent:
  "off + length x + length y \<le> length buf \<Longrightarrow>
     splice (splice buf off x) (off + length x) y = splice buf off (x @ y)"
  by (simp add: splice_def min_absorb2 ac_simps)

lemma splice_0: "splice buf 0 x = x @ drop (length x) buf"
  by (simp add: splice_def)

lemma bytes_at_append:
  "bytes_at (x @ y) off n =
     (if off + n \<le> length x then bytes_at x off n
      else if length x \<le> off then bytes_at y (off - length x) n
      else drop off x @ take (off + n - length x) y)"
  by (auto simp: bytes_at_def add.commute)

lemma bytes_at_full [simp]: "n = length x \<Longrightarrow> bytes_at x 0 n = x"
  by (simp add: bytes_at_def)

section \<open>Stateful code that can fail\<close>

text \<open>A method with \<open>&self\<close> that changes state and returns a \<open>Result\<close>: the state it leaves is
  there on both paths.\<close>

type_synonym ('s, 'e, 'a) sresult = "'s \<Rightarrow> ('e + 'a) \<times> 's"

definition sreturn :: "'a \<Rightarrow> ('s, 'e, 'a) sresult" where
  "sreturn x s = (Inr x, s)"

definition sfail :: "'e \<Rightarrow> ('s, 'e, 'a) sresult" where
  "sfail e s = (Inl e, s)"

definition sget :: "('s \<Rightarrow> 'a) \<Rightarrow> ('s, 'e, 'a) sresult" where
  "sget f s = (Inr (f s), s)"

definition smodify :: "('s \<Rightarrow> 's) \<Rightarrow> ('s, 'e, unit) sresult" where
  "smodify f s = (Inr (), f s)"

definition slift :: "'e + 'a \<Rightarrow> ('s, 'e, 'a) sresult" where
  "slift r s = (r, s)"

definition sbind :: "('s, 'e, 'a) sresult \<Rightarrow> ('a \<Rightarrow> ('s, 'e, 'b) sresult) \<Rightarrow> ('s, 'e, 'b) sresult" where
  "sbind m f s = (case m s of (Inl e, s') \<Rightarrow> (Inl e, s') | (Inr x, s') \<Rightarrow> f x s')"

fun sforeach :: "'a list \<Rightarrow> ('a \<Rightarrow> ('s, 'e, unit) sresult) \<Rightarrow> ('s, 'e, unit) sresult" where
  "sforeach [] f = sreturn ()"
| "sforeach (x # xs) f = sbind (f x) (\<lambda>_. sforeach xs f)"

lemma sresult_simps [simp]:
  "sreturn x s = (Inr x, s)" "sfail e s = (Inl e, s)" "sget g s = (Inr (g s), s)"
  "smodify h s = (Inr (), h s)" "slift r s = (r, s)"
  by (simp_all add: sreturn_def sfail_def sget_def smodify_def slift_def)

lemma sbind_Inr: "m s = (Inr x, s') \<Longrightarrow> sbind m f s = f x s'"
  by (simp add: sbind_def)

lemma sbind_Inl: "m s = (Inl e, s') \<Longrightarrow> sbind m f s = (Inl e, s')"
  by (simp add: sbind_def)

lemma sbind_eq_Inr:
  "sbind m f s = (Inr y, s') \<longleftrightarrow> (\<exists>x t. m s = (Inr x, t) \<and> f x t = (Inr y, s'))"
  by (auto simp: sbind_def split: prod.splits sum.splits)

lemma sbind_eq_Inl:
  "sbind m f s = (Inl e, s') \<longleftrightarrow> m s = (Inl e, s') \<or> (\<exists>x t. m s = (Inr x, t) \<and> f x t = (Inl e, s'))"
  by (auto simp: sbind_def split: prod.splits sum.splits)

lemma sbind_simps [simp]:
  "sbind (sreturn x) f s = f x s" "sbind (sfail e) f s = (Inl e, s)" "sbind (sget g) f s = f (g s) s"
  "sbind (smodify h) k s = k () (h s)" "sbind (slift (Inr x)) f s = f x s"
  "sbind (slift (Inl e)) f s = (Inl e, s)"
  by (simp_all add: sbind_def)

lemma sbind_assoc: "sbind (sbind m f) g s = sbind m (\<lambda>x. sbind (f x) g) s"
  by (simp add: sbind_def split: prod.splits sum.splits)

lemma sbind_cong [fundef_cong]:
  "s = s' \<Longrightarrow> m s' = m' s' \<Longrightarrow> (\<And>x t. m' s' = (Inr x, t) \<Longrightarrow> f x t = f' x t) \<Longrightarrow> sbind m f s = sbind m' f' s'"
  by (auto simp: sbind_def split: prod.splits sum.splits)

text \<open>Hoare-style triples for such code: partial and total.\<close>

lemma sforeach_inv:
  assumes "sforeach xs f s = (r, s')" "P s"
    "\<And>x s r s'. x \<in> set xs \<Longrightarrow> P s \<Longrightarrow> f x s = (r, s') \<Longrightarrow> P s'"
  shows "P s'"
  using assms
proof (induction xs arbitrary: s)
  case (Cons x xs)
  obtain r1 s1 where 1: "f x s = (r1, s1)" by fastforce
  have "P s1" using Cons.prems(2,3) 1 by auto
  then show ?case
    using Cons.IH [of s1] Cons.prems(1,3) 1 by (cases r1) (auto simp: sbind_def)
qed simp

end
