(* ===== verification/Types_Value.thy ===== *)
theory Types_Value
  imports Prelude
begin

text \<open>
  The column types and values of \<open>types/src/data_type.rs\<close> and \<open>types/src/value.rs\<close>. Signed
  integers are words read with \<^const>\<open>sint\<close>, an \<open>f64\<close> is its 64 bits, and a string is its UTF-8
  bytes, with the well-formedness check of \<open>String::from_utf8\<close> written out.
\<close>

type_synonym i32 = "32 word"
type_synonym i64 = "64 word"
type_synonym f64 = "64 word"

datatype data_type = TBoolean | TInteger | TBigInt | TDouble | TVarchar u32

fun fixed_width :: "data_type \<Rightarrow> nat option" where
  "fixed_width TBoolean = Some 1"
| "fixed_width TInteger = Some 4"
| "fixed_width TBigInt = Some 8"
| "fixed_width TDouble = Some 8"
| "fixed_width (TVarchar _) = None"

datatype val = VNull | VBoolean bool | VInteger i32 | VBigInt i64 | VDouble f64 | VVarchar bytes

fun value_data_type :: "val \<Rightarrow> data_type option" where
  "value_data_type VNull = None"
| "value_data_type (VBoolean _) = Some TBoolean"
| "value_data_type (VInteger _) = Some TInteger"
| "value_data_type (VBigInt _) = Some TBigInt"
| "value_data_type (VDouble _) = Some TDouble"
| "value_data_type (VVarchar s) = Some (TVarchar (of_nat (length s)))"

fun is_null :: "val \<Rightarrow> bool" where
  "is_null VNull = True"
| "is_null _ = False"

fun type_name :: "val \<Rightarrow> string" where
  "type_name VNull = ''Null''"
| "type_name (VBoolean _) = ''Boolean''"
| "type_name (VInteger _) = ''Integer''"
| "type_name (VBigInt _) = ''BigInt''"
| "type_name (VDouble _) = ''Double''"
| "type_name (VVarchar _) = ''Varchar''"

datatype value_error =
    TypeMismatch string string
  | UnorderableValue string
  | InvalidEncoding string

section \<open>Floating point bits\<close>

definition SIGN_BIT_32 :: u32 where "SIGN_BIT_32 = 2 ^ 31"
definition SIGN_BIT_64 :: u64 where "SIGN_BIT_64 = 2 ^ 63"

text \<open>IEEE 754 binary64 on bits: the magnitude is everything below the sign bit, a NaN has a
  magnitude above that of infinity, and both zeros are equal.\<close>

definition f64_magnitude :: "f64 \<Rightarrow> u64" where
  "f64_magnitude x = x AND 0x7FFFFFFFFFFFFFFF"

definition f64_is_nan :: "f64 \<Rightarrow> bool" where
  "f64_is_nan x = (0x7FF0000000000000 < f64_magnitude x)"

definition f64_rank :: "f64 \<Rightarrow> int" where
  "f64_rank x =
     (if bit x 63 then - uint (f64_magnitude x) else uint (f64_magnitude x))"

definition f64_partial_cmp :: "f64 \<Rightarrow> f64 \<Rightarrow> ordering option" where
  "f64_partial_cmp a b =
     (if f64_is_nan a \<or> f64_is_nan b then None else Some (cmp (f64_rank a) (f64_rank b)))"

definition f64_eq :: "f64 \<Rightarrow> f64 \<Rightarrow> bool" where
  "f64_eq a b = (f64_partial_cmp a b = Some Equal)"

section \<open>Comparison\<close>

fun compare_values :: "val \<Rightarrow> val \<Rightarrow> value_error + ordering option" where
  "compare_values v w =
     (if is_null v \<or> is_null w then Inr None
      else case (v, w) of
        (VBoolean a, VBoolean b) \<Rightarrow> Inr (Some (cmp a b))
      | (VInteger a, VInteger b) \<Rightarrow> Inr (Some (cmp (sint a) (sint b)))
      | (VBigInt a, VBigInt b) \<Rightarrow> Inr (Some (cmp (sint a) (sint b)))
      | (VDouble a, VDouble b) \<Rightarrow> Inr (f64_partial_cmp a b)
      | (VVarchar a, VVarchar b) \<Rightarrow> Inr (Some (cmp a b))
      | _ \<Rightarrow> Inl (TypeMismatch (type_name v) (type_name w)))"

text \<open>The derived \<open>PartialEq\<close>: floating-point equality on doubles.\<close>

fun value_eq :: "val \<Rightarrow> val \<Rightarrow> bool" where
  "value_eq (VDouble a) (VDouble b) = f64_eq a b"
| "value_eq v w = (v = w)"

section \<open>UTF-8\<close>

text \<open>The bytes of an ASCII literal.\<close>

definition ascii :: "string \<Rightarrow> bytes" where
  "ascii s = map of_char s"

definition utf8_cont :: "byte \<Rightarrow> bool" where
  "utf8_cont b = (0x80 \<le> b \<and> b \<le> 0xBF)"

fun utf8_valid :: "bytes \<Rightarrow> bool" where
  "utf8_valid [] = True"
| "utf8_valid (b # bs) =
    (if b < 0x80 then utf8_valid bs
     else if 0xC2 \<le> b \<and> b \<le> 0xDF then
       (case bs of c # r \<Rightarrow> utf8_cont c \<and> utf8_valid r | _ \<Rightarrow> False)
     else if 0xE0 \<le> b \<and> b \<le> 0xEF then
       (case bs of c # d # r \<Rightarrow>
          (if b = 0xE0 then 0xA0 \<le> c \<and> c \<le> 0xBF
           else if b = 0xED then 0x80 \<le> c \<and> c \<le> 0x9F else utf8_cont c)
          \<and> utf8_cont d \<and> utf8_valid r
        | _ \<Rightarrow> False)
     else if 0xF0 \<le> b \<and> b \<le> 0xF4 then
       (case bs of c # d # e # r \<Rightarrow>
          (if b = 0xF0 then 0x90 \<le> c \<and> c \<le> 0xBF
           else if b = 0xF4 then 0x80 \<le> c \<and> c \<le> 0x8F else utf8_cont c)
          \<and> utf8_cont d \<and> utf8_cont e \<and> utf8_valid r
        | _ \<Rightarrow> False)
     else False)"

text \<open>A Rust \<open>String\<close> is valid UTF-8 by construction.\<close>

fun wf_value :: "val \<Rightarrow> bool" where
  "wf_value (VVarchar s) = utf8_valid s"
| "wf_value _ = True"

text \<open>Column types with the value's constructor; the length bound of a varchar is not part of it.\<close>

fun of_type :: "val \<Rightarrow> data_type \<Rightarrow> bool" where
  "of_type VNull _ = True"
| "of_type (VBoolean _) TBoolean = True"
| "of_type (VInteger _) TInteger = True"
| "of_type (VBigInt _) TBigInt = True"
| "of_type (VDouble _) TDouble = True"
| "of_type (VVarchar _) (TVarchar _) = True"
| "of_type _ _ = False"

section \<open>The order is a partial order on each type\<close>

fun flip_ordering :: "ordering \<Rightarrow> ordering" where
  "flip_ordering Less = Greater"
| "flip_ordering Equal = Equal"
| "flip_ordering Greater = Less"

lemma flip_cmp: "flip_ordering (cmp a b) = cmp b a"
  by (cases "cmp a b") (auto simp: cmp_def split: if_splits)

lemma compare_values_flip:
  "compare_values v w = Inr r \<Longrightarrow> compare_values w v = Inr (map_option flip_ordering r)"
  by (cases v; cases w) (auto simp: flip_cmp f64_partial_cmp_def split: if_splits)

lemma compare_values_trans:
  "compare_values u v = Inr (Some Less) \<Longrightarrow> compare_values v w = Inr (Some Less)
    \<Longrightarrow> compare_values u w = Inr (Some Less)"
  by (cases u; cases v; cases w) (auto simp: f64_partial_cmp_def split: if_splits)

lemma compare_values_total:
  assumes "of_type v t" "of_type w t"
  shows "\<exists>r. compare_values v w = Inr r"
  using assms by (cases v; cases w; cases t) auto

lemma compare_values_Equal_iff:
  "compare_values v w = Inr (Some Equal) \<longleftrightarrow> value_eq v w \<and> v \<noteq> VNull"
  by (cases v; cases w) (auto simp: f64_eq_def signed_word_eqI)

end
