(* ===== verification/Memcomparable.thy ===== *)
theory Memcomparable
  imports Types_Value
begin

text \<open>
  The order-preserving key encoding of \<open>types/src/memcomparable.rs\<close>. The lemmas show that byte
  order on encodings is \<^const>\<open>compare_values\<close> on values, that NULL sorts first, and that
  decoding inverts encoding (up to the sign of a zero, which the encoding normalises).
\<close>

definition NULL_TAG :: byte where "NULL_TAG = 0x00"
definition VALUE_TAG :: byte where "VALUE_TAG = 0x01"

lemmas tag_defs = NULL_TAG_def VALUE_TAG_def

definition f64_zero :: f64 where "f64_zero = 0"

definition order_preserving_bits :: "f64 \<Rightarrow> u64" where
  "order_preserving_bits v =
     (let bits = (if f64_eq v f64_zero then f64_zero else v)
      in if bits AND SIGN_BIT_64 \<noteq> 0 then NOT bits else bits OR SIGN_BIT_64)"

definition NAN_REASON :: string where
  "NAN_REASON = ''NaN cannot be encoded as a memcomparable key: it has no defined ordering''"

fun encode_memcomparable :: "val \<Rightarrow> bytes \<Rightarrow> value_error + bytes" where
  "encode_memcomparable VNull buf = Inr (buf @ [NULL_TAG])"
| "encode_memcomparable (VBoolean v) buf = Inr (buf @ [VALUE_TAG] @ [if v then 1 else 0])"
| "encode_memcomparable (VInteger v) buf = Inr (buf @ [VALUE_TAG] @ u32_be (v XOR SIGN_BIT_32))"
| "encode_memcomparable (VBigInt v) buf = Inr (buf @ [VALUE_TAG] @ u64_be (v XOR SIGN_BIT_64))"
| "encode_memcomparable (VDouble v) buf =
     (if f64_is_nan v then Inl (UnorderableValue NAN_REASON)
      else Inr (buf @ [VALUE_TAG] @ u64_be (order_preserving_bits v)))"
| "encode_memcomparable (VVarchar s) buf = Inr (buf @ [VALUE_TAG] @ s)"

definition read_be_u32 :: "bytes \<Rightarrow> u32 option" where
  "read_be_u32 bs = map_option be_u32 (slice_at bs 0 4)"

definition read_be_u64 :: "bytes \<Rightarrow> u64 option" where
  "read_be_u64 bs = map_option be_u64 (slice_at bs 0 8)"

definition hex_char :: "nat \<Rightarrow> char" where
  "hex_char n = ''0123456789abcdef'' ! (n mod 16)"

definition unknown_tag_reason :: "byte \<Rightarrow> string" where
  "unknown_tag_reason tag =
     ''unknown tag byte 0x'' @ [hex_char (unat tag div 16), hex_char (unat tag)]
       @ '', expected 0x00 or 0x01''"

fun decode_memcomparable :: "bytes \<Rightarrow> data_type \<Rightarrow> value_error + val \<times> nat" where
  "decode_memcomparable [] _ = Inl (InvalidEncoding ''empty buffer, expected a tag byte'')"
| "decode_memcomparable (tag # rest) dt =
     (if tag = NULL_TAG then Inr (VNull, 1)
      else if tag \<noteq> VALUE_TAG then Inl (InvalidEncoding (unknown_tag_reason tag))
      else case dt of
        TBoolean \<Rightarrow>
          (case rest of
             [] \<Rightarrow> Inl (InvalidEncoding ''truncated boolean value'')
           | b # _ \<Rightarrow> Inr (VBoolean (b \<noteq> 0), 2))
      | TInteger \<Rightarrow>
          and_then (ok_or (read_be_u32 rest) (InvalidEncoding ''truncated integer value''))
            (\<lambda>bits. Inr (VInteger (bits XOR SIGN_BIT_32), 5))
      | TBigInt \<Rightarrow>
          and_then (ok_or (read_be_u64 rest) (InvalidEncoding ''truncated bigint value''))
            (\<lambda>bits. Inr (VBigInt (bits XOR SIGN_BIT_64), 9))
      | TDouble \<Rightarrow>
          and_then (ok_or (read_be_u64 rest) (InvalidEncoding ''truncated double value''))
            (\<lambda>bits. Inr (VDouble (if bits AND SIGN_BIT_64 \<noteq> 0
                                  then bits AND NOT SIGN_BIT_64 else NOT bits), 9))
      | TVarchar _ \<Rightarrow>
          (if utf8_valid rest then Inr (VVarchar rest, 1 + length rest)
           else Inl (InvalidEncoding ''invalid utf-8 in varchar key'')))"

section \<open>Signed integers\<close>

lemma sign_xor_less:
  "sint (a :: i32) < sint b \<longleftrightarrow> a XOR SIGN_BIT_32 < b XOR SIGN_BIT_32"
  "sint (c :: i64) < sint d \<longleftrightarrow> c XOR SIGN_BIT_64 < d XOR SIGN_BIT_64"
  by (simp_all add: sint_top_bit [of 31] sint_top_bit [of 63] SIGN_BIT_32_def SIGN_BIT_64_def
      word_less_def del: power_numeral)

section \<open>Doubles\<close>

lemma and_sign: "(x :: u64) AND SIGN_BIT_64 \<noteq> 0 \<longleftrightarrow> bit x 63"
proof -
  have "x AND 2 ^ 63 = (if bit x 63 then 2 ^ 63 else 0)"
    by (rule bit_word_eqI) (auto simp: bit_and_iff bit_exp_iff simp del: power_numeral)
  then show ?thesis by (simp add: SIGN_BIT_64_def)
qed

lemma magnitude_bits: "bit (f64_magnitude x) n \<longleftrightarrow> n < 63 \<and> bit x n"
proof -
  have "f64_magnitude x = take_bit 63 x"
    by (simp add: f64_magnitude_def take_bit_eq_mask mask_eq_exp_minus_1)
  then show ?thesis by (simp add: bit_take_bit_iff)
qed

lemma magnitude_clear: "\<not> bit x 63 \<Longrightarrow> f64_magnitude x = x"
proof (rule bit_word_eqI)
  fix n assume "\<not> bit x 63" "n < LENGTH(64)"
  then show "bit (f64_magnitude x) n = bit x n"
    by (cases "n = 63") (auto simp: magnitude_bits)
qed

lemma magnitude_set: "bit x 63 \<Longrightarrow> f64_magnitude x = x XOR 2 ^ 63"
proof (rule bit_word_eqI)
  fix n assume "bit x 63" "n < LENGTH(64)"
  then show "bit (f64_magnitude x) n = bit (x XOR 2 ^ 63) n"
    by (cases "n = 63") (auto simp: magnitude_bits bit_xor_iff bit_exp_iff simp del: power_numeral)
qed

lemma magnitude_less: "unat (f64_magnitude x) < 2 ^ 63"
  by (rule unat_top_clear) (simp_all add: magnitude_bits)

lemma uint_or_sign: "\<not> bit x 63 \<Longrightarrow> uint (x OR SIGN_BIT_64) = uint x + 2 ^ 63"
proof -
  assume x: "\<not> bit x 63"
  have "x AND 2 ^ 63 = 0"
    by (rule bit_word_eqI) (use x in \<open>auto simp: bit_and_iff bit_exp_iff simp del: power_numeral\<close>)
  then have "x OR 2 ^ 63 = x XOR 2 ^ 63"
    by (simp add: disjunctive_xor_eq_or del: power_numeral)
  then show ?thesis
    using uint_top_bit(1) [of 63 x] x by (simp add: SIGN_BIT_64_def del: power_numeral)
qed

lemma uint_not_u64: "uint (NOT (x :: u64)) = 2 ^ 64 - 1 - uint x"
proof -
  have "NOT x = - 1 - x" by (simp add: not_eq_complement)
  moreover have "uint (- 1 - x) = uint (- 1 :: u64) - uint x"
    by (rule uint_sub_lem [THEN iffD1]) (metis word_le_def word_order.extremum)
  ultimately show ?thesis by (simp add: uint_word_ariths)
qed

lemma rank_zero: "f64_rank f64_zero = 0" "\<not> f64_is_nan f64_zero"
  by (simp_all add: f64_rank_def f64_zero_def f64_magnitude_def f64_is_nan_def)

lemma f64_eq_zero: "\<not> f64_is_nan x \<Longrightarrow> f64_eq x f64_zero \<longleftrightarrow> f64_rank x = 0"
  by (simp add: f64_eq_def f64_partial_cmp_def rank_zero)

text \<open>The encoded bits as a number, in terms of the rank that orders doubles.\<close>

lemma order_preserving_bits_rank:
  assumes "\<not> f64_is_nan x"
  shows "uint (order_preserving_bits x) =
    (if f64_rank x < 0 then 2 ^ 63 - 1 + f64_rank x else 2 ^ 63 + f64_rank x)"
proof (cases "f64_rank x = 0")
  case True
  have "uint (f64_zero OR SIGN_BIT_64) = 2 ^ 63"
    using uint_or_sign [of f64_zero] by (simp add: f64_zero_def)
  then show ?thesis
    using True by (simp add: order_preserving_bits_def Let_def f64_eq_zero [OF assms] and_sign
        rank_zero) (simp add: f64_zero_def)
next
  case False
  then have nz: "order_preserving_bits x = (if bit x 63 then NOT x else x OR SIGN_BIT_64)"
    by (simp add: order_preserving_bits_def Let_def f64_eq_zero [OF assms] and_sign)
  show ?thesis
  proof (cases "bit x 63")
    case True
    define y where "y = uint (x XOR 2 ^ 63)"
    have "f64_rank x = - y"
      using True by (simp add: f64_rank_def magnitude_set y_def del: power_numeral)
    moreover have "uint x = y + 2 ^ 63"
      using uint_top_bit(2) [of 63 x] True by (simp add: y_def del: power_numeral)
    moreover have "0 \<le> y" by (simp add: y_def del: power_numeral)
    ultimately show ?thesis using False nz True uint_not_u64 [of x] by simp
  next
    case sign: False
    have "f64_rank x = uint x"
      using sign by (simp add: f64_rank_def magnitude_clear)
    then show ?thesis using nz sign uint_or_sign [OF sign] by simp
  qed
qed

lemma order_preserving_bits_less:
  assumes "\<not> f64_is_nan x" "\<not> f64_is_nan y"
  shows "order_preserving_bits x < order_preserving_bits y \<longleftrightarrow> f64_rank x < f64_rank y"
proof -
  have "order_preserving_bits x < order_preserving_bits y \<longleftrightarrow>
      uint (order_preserving_bits x) < uint (order_preserving_bits y)"
    by (simp add: word_less_def)
  then show ?thesis unfolding order_preserving_bits_rank [OF assms(1)]
      order_preserving_bits_rank [OF assms(2)] by auto
qed

section \<open>Order preservation\<close>

lemma cmp_eqI:
  assumes "a < b \<longleftrightarrow> x < y" "b < a \<longleftrightarrow> y < x"
  shows "cmp a b = cmp x y"
  using assms by (auto simp: cmp_def not_less_iff_gr_or_eq)

lemma Cons_cmp [simp]: "cmp (t # a) (t # b) = cmp a b"
  by (simp add: cmp_def)

lemma encode_memcomparable_append:
  "encode_memcomparable v buf = map_sum id (\<lambda>e. buf @ e) (encode_memcomparable v [])"
  by (cases v) simp_all

lemma encode_memcomparable_ok:
  "(\<exists>e. encode_memcomparable v buf = Inr e) \<longleftrightarrow> (\<forall>x. v = VDouble x \<longrightarrow> \<not> f64_is_nan x)"
  by (cases v) auto

lemma encode_memcomparable_cmp:
  assumes "compare_values v w = Inr (Some ord)"
  shows "\<exists>a b. encode_memcomparable v [] = Inr a \<and> encode_memcomparable w [] = Inr b
    \<and> cmp a b = ord"
  using assms
  by (cases v; cases w)
    (auto simp: f64_partial_cmp_def tag_defs split: if_splits
      intro!: cmp_eqI sign_xor_less order_preserving_bits_less simp: sign_xor_less order_preserving_bits_less)

text \<open>C6: Byte order on keys is value order. Whenever two values are comparable (same type, not
  NULL, not NaN) both encode, and comparing the encodings byte by byte gives exactly the ordering
  that \<open>Value::compare\<close> gives.\<close>

theorem memcomparable_order:
  assumes "compare_values v w = Inr (Some ord)"
  shows "\<exists>a b. encode_memcomparable v [] = Inr a \<and> encode_memcomparable w [] = Inr b
    \<and> cmp a b = ord"
  using assms by (rule encode_memcomparable_cmp)

theorem memcomparable_order_witness:
  "\<exists>a b. encode_memcomparable (VInteger (- 5)) [] = Inr a
    \<and> encode_memcomparable (VInteger 3) [] = Inr b \<and> cmp a b = Less"
  by (rule memcomparable_order) (simp add: cmp_def)

text \<open>NULL keys sort before every other key.\<close>

lemma memcomparable_null_first:
  assumes "v \<noteq> VNull" "encode_memcomparable v [] = Inr b"
    "encode_memcomparable VNull [] = Inr a"
  shows "a < b"
  using assms by (cases v) (auto simp: tag_defs split: if_splits)

lemma memcomparable_null_first_witness: "[NULL_TAG] < [VALUE_TAG, 1]"
  by (rule memcomparable_null_first [of "VBoolean True"]) simp_all

section \<open>Decoding\<close>

text \<open>The value a key decodes to: a zero loses its sign.\<close>

fun key_normal :: "val \<Rightarrow> val" where
  "key_normal (VDouble x) = VDouble (if f64_eq x f64_zero then f64_zero else x)"
| "key_normal v = v"

lemma not_not_bits: "\<not> bit x 63 \<Longrightarrow> bit (x OR SIGN_BIT_64) 63"
  "bit x 63 \<Longrightarrow> \<not> bit (NOT x) 63" for x :: u64
  by (simp_all add: bit_or_iff bit_not_iff SIGN_BIT_64_def bit_exp_iff del: power_numeral)

lemma clear_set_sign: "\<not> bit x 63 \<Longrightarrow> (x OR SIGN_BIT_64) AND NOT SIGN_BIT_64 = x" for x :: u64
  by (rule bit_word_eqI)
    (auto simp: bit_or_iff bit_and_iff bit_not_iff SIGN_BIT_64_def bit_exp_iff simp del: power_numeral)

lemma decode_order_preserving:
  "(if order_preserving_bits x AND SIGN_BIT_64 \<noteq> 0
    then order_preserving_bits x AND NOT SIGN_BIT_64 else NOT (order_preserving_bits x))
   = (if f64_eq x f64_zero then f64_zero else x)"
  by (auto simp: order_preserving_bits_def Let_def and_sign not_not_bits clear_set_sign)

text \<open>Decoding a key gives the encoded value back (a negative zero comes back as zero) and
  reports that every byte was consumed; the column type only has to match the value.\<close>

theorem memcomparable_round_trip:
  assumes "encode_memcomparable v [] = Inr bs" "of_type v t" "wf_value v"
  shows "decode_memcomparable bs t = Inr (key_normal v, length bs)"
  using assms
  by (cases v; cases t)
    (auto simp: tag_defs read_be_u32_def read_be_u64_def slice_at_def xor.assoc
      decode_order_preserving simp del: if_image_distrib split: if_splits)

theorem memcomparable_round_trip_witness:
  "decode_memcomparable [VALUE_TAG, 0x61, 0x62] (TVarchar 10) = Inr (VVarchar [0x61, 0x62], 3)"
  using memcomparable_round_trip [of "VVarchar [0x61, 0x62]" _ "TVarchar 10"] by simp

end
