(* ===== verification/Tuple_Codec.thy ===== *)
theory Tuple_Codec
  imports Types_Value
begin

text \<open>
  Row encoding of \<open>types/src/tuple.rs\<close>: a null bitmap followed by the non-null values, fixed-width
  little-endian, a varchar as a four-byte length and its bytes. The lemmas follow the encoder's
  loop, which sets bits of the bitmap while it appends the payload, and show that the decoder
  reads back every row.
\<close>

datatype tuple_error = Truncated nat nat | InvalidUtf8

type_synonym tuple = "val list"

fun div_ceil :: "nat \<Rightarrow> nat \<Rightarrow> nat" where
  "div_ceil a b = (a + b - 1) div b"

fun encode_value :: "nat \<Rightarrow> bytes \<Rightarrow> nat \<times> val \<Rightarrow> bytes" where
  "encode_value bitmap_start buf (i, VNull) =
     (let j = bitmap_start + i div 8 in buf[j := buf ! j OR push_bit (i mod 8) 1])"
| "encode_value _ buf (i, VBoolean b) = buf @ [if b then 1 else 0]"
| "encode_value _ buf (i, VInteger v) = buf @ u32_le v"
| "encode_value _ buf (i, VBigInt v) = buf @ u64_le v"
| "encode_value _ buf (i, VDouble v) = buf @ u64_le v"
| "encode_value _ buf (i, VVarchar s) = buf @ u32_le (of_nat (length s)) @ s"

definition encode_tuple :: "tuple \<Rightarrow> bytes \<Rightarrow> bytes" where
  "encode_tuple vs buf =
     foldl (encode_value (length buf)) (buf @ replicate (div_ceil (length vs) 8) 0)
       (enumerate 0 vs)"

definition take_bytes :: "bytes \<Rightarrow> nat \<Rightarrow> nat \<Rightarrow> tuple_error + bytes" where
  "take_bytes buf off len = ok_or (slice_at buf off len) (Truncated (off + len) (length buf))"

definition decode_value :: "bytes \<Rightarrow> nat \<Rightarrow> data_type \<Rightarrow> tuple_error + val \<times> nat" where
  "decode_value buf off t =
     (case t of
        TBoolean \<Rightarrow> and_then (take_bytes buf off 1) (\<lambda>bs. Inr (VBoolean (bs ! 0 \<noteq> 0), off + 1))
      | TInteger \<Rightarrow> and_then (take_bytes buf off 4) (\<lambda>bs. Inr (VInteger (le_u32 bs), off + 4))
      | TBigInt \<Rightarrow> and_then (take_bytes buf off 8) (\<lambda>bs. Inr (VBigInt (le_u64 bs), off + 8))
      | TDouble \<Rightarrow> and_then (take_bytes buf off 8) (\<lambda>bs. Inr (VDouble (le_u64 bs), off + 8))
      | TVarchar _ \<Rightarrow> and_then (take_bytes buf off 4) (\<lambda>lb.
          let len = unat (le_u32 lb) in
          and_then (take_bytes buf (off + 4) len) (\<lambda>bs.
            if utf8_valid bs then Inr (VVarchar bs, off + 4 + len) else Inl InvalidUtf8)))"

fun decode_columns ::
  "bytes \<Rightarrow> bytes \<Rightarrow> nat \<Rightarrow> nat \<Rightarrow> data_type list \<Rightarrow> tuple_error + val list" where
  "decode_columns buf bitmap i off [] = Inr []"
| "decode_columns buf bitmap i off (t # ts) =
     (if bitmap ! (i div 8) AND push_bit (i mod 8) 1 \<noteq> 0 then
        and_then (decode_columns buf bitmap (Suc i) off ts) (\<lambda>vs. Inr (VNull # vs))
      else and_then (decode_value buf off t) (\<lambda>(v, off').
        and_then (decode_columns buf bitmap (Suc i) off' ts) (\<lambda>vs. Inr (v # vs))))"

definition decode_tuple :: "bytes \<Rightarrow> data_type list \<Rightarrow> tuple_error + tuple" where
  "decode_tuple buf ts =
     (let bitmap_len = div_ceil (length ts) 8 in
      and_then (take_bytes buf 0 bitmap_len) (\<lambda>bitmap.
        decode_columns buf bitmap 0 bitmap_len ts))"

section \<open>What the encoder's loop builds\<close>

fun payload :: "val \<Rightarrow> bytes" where
  "payload VNull = []"
| "payload v = encode_value 0 [] (0, v)"

fun null_bits :: "bytes \<Rightarrow> nat \<Rightarrow> tuple \<Rightarrow> bytes" where
  "null_bits bm i [] = bm"
| "null_bits bm i (v # vs) =
     null_bits (if v = VNull then bm[i div 8 := bm ! (i div 8) OR push_bit (i mod 8) 1] else bm)
       (Suc i) vs"

lemma length_null_bits [simp]: "length (null_bits bm i vs) = length bm"
  by (induction bm i vs rule: null_bits.induct) auto

lemma encode_loop:
  assumes "i + length vs \<le> 8 * length bm"
  shows "foldl (encode_value (length pre)) (pre @ bm @ pay) (enumerate i vs)
    = pre @ null_bits bm i vs @ pay @ concat (map payload vs)"
  using assms
proof (induction vs arbitrary: i bm pay)
  case (Cons v vs)
  have i: "i div 8 < length bm" using Cons.prems by simp
  have step: "encode_value (length pre) (pre @ bm @ pay) (i, v)
      = pre @ (if v = VNull then bm[i div 8 := bm ! (i div 8) OR push_bit (i mod 8) 1] else bm)
          @ pay @ payload v"
    using i by (cases v) (simp_all add: nth_append list_update_append Let_def)
  show ?case
    using Cons.prems Cons.IH [of "Suc i" _ "pay @ payload v"] by (simp add: step)
qed simp

lemma encode_tuple_shape:
  "encode_tuple vs buf = buf @ null_bits (replicate (div_ceil (length vs) 8) 0) 0 vs
     @ concat (map payload vs)"
  using encode_loop [of 0 vs "replicate (div_ceil (length vs) 8) 0" buf "[]"]
  by (simp add: encode_tuple_def)

lemma bit_or_one_bit:
  "bit ((w :: byte) OR 2 ^ k) n \<longleftrightarrow> bit w n \<or> (k = n \<and> n < 8)"
  by (auto simp: bit_or_iff bit_exp_iff)

lemma and_one_bit: "k < 8 \<Longrightarrow> (w :: byte) AND 2 ^ k \<noteq> 0 \<longleftrightarrow> bit w k"
proof -
  assume "k < 8"
  then have "w AND 2 ^ k = (if bit w k then 2 ^ k else 0)"
    by (intro bit_word_eqI) (auto simp: bit_and_iff bit_exp_iff)
  moreover have "bit (2 ^ k :: byte) k" using \<open>k < 8\<close> by (simp add: bit_exp_iff)
  ultimately show ?thesis by (metis bit_0_eq bot_apply bot_bool_def)
qed

lemma null_bits_bit:
  assumes "i + length vs \<le> 8 * length bm" "j < 8 * length bm"
  shows "bit (null_bits bm i vs ! (j div 8)) (j mod 8) \<longleftrightarrow>
    bit (bm ! (j div 8)) (j mod 8) \<or> (i \<le> j \<and> j < i + length vs \<and> vs ! (j - i) = VNull)"
  using assms
proof (induction vs arbitrary: i bm)
  case (Cons v vs)
  let ?bm = "if v = VNull then bm[i div 8 := bm ! (i div 8) OR push_bit (i mod 8) 1] else bm"
  have "j div 8 < length bm" "i div 8 < length bm" using Cons.prems by simp_all
  moreover have "i div 8 = j div 8 \<and> i mod 8 = j mod 8 \<longleftrightarrow> i = j"
    by (metis div_mult_mod_eq)
  ultimately have "bit (?bm ! (j div 8)) (j mod 8)
      \<longleftrightarrow> bit (bm ! (j div 8)) (j mod 8) \<or> (v = VNull \<and> i = j)"
    by (auto simp: nth_list_update bit_or_one_bit)
  moreover have "bit (null_bits ?bm (Suc i) vs ! (j div 8)) (j mod 8) \<longleftrightarrow>
      bit (?bm ! (j div 8)) (j mod 8)
        \<or> (Suc i \<le> j \<and> j < Suc i + length vs \<and> vs ! (j - Suc i) = VNull)"
    by (rule Cons.IH) (use Cons.prems in auto)
  ultimately have *: "bit (null_bits bm i (v # vs) ! (j div 8)) (j mod 8) \<longleftrightarrow>
      (bit (bm ! (j div 8)) (j mod 8) \<or> (v = VNull \<and> i = j))
        \<or> (Suc i \<le> j \<and> j < Suc i + length vs \<and> vs ! (j - Suc i) = VNull)"
    by (simp only: null_bits.simps)
  show ?case
  proof (cases i j rule: linorder_cases)
    case less
    then obtain k where "j = Suc (i + k)" by (metis less_iff_Suc_add)
    then show ?thesis unfolding * by auto
  qed (use * in auto)
qed auto

section \<open>Decoding\<close>

abbreviation wf_field :: "val \<Rightarrow> data_type \<Rightarrow> bool" where
  "wf_field v t \<equiv> of_type v t \<and> wf_value v \<and> length (payload v) < 2 ^ 32"

lemma take_bytes_at [simp]:
  "take_bytes (pre @ xs @ post) (length pre) (length xs) = Inr xs"
  by (simp add: take_bytes_def)

lemma take_bytes_at':
  "n = length xs \<Longrightarrow> off = length pre \<Longrightarrow> take_bytes (pre @ xs @ post) off n = Inr xs"
  by simp

lemma decode_value_payload:
  assumes "wf_field v t" "v \<noteq> VNull"
  shows "decode_value (pre @ payload v @ post) (length pre) t
    = Inr (v, length pre + length (payload v))"
proof (cases v)
  case (VVarchar s)
  then obtain n where t: "t = TVarchar n" using assms by (cases t) auto
  have len: "length s < 2 ^ 32" using assms VVarchar by simp
  then have un: "unat (of_nat (length s) :: u32) = length s" by (simp add: unat_of_nat)
  have 1: "take_bytes (pre @ (u32_le (of_nat (length s)) @ s) @ post) (length pre) 4
      = Inr (u32_le (of_nat (length s)))"
    using take_bytes_at' [of 4 "u32_le (of_nat (length s))" "length pre" pre "s @ post"] by simp
  have 2: "take_bytes (pre @ (u32_le (of_nat (length s)) @ s) @ post) (length pre + 4) (length s)
      = Inr s"
    using take_bytes_at' [of "length s" s "length pre + 4" "pre @ u32_le (of_nat (length s))" post]
    by simp
  show ?thesis using VVarchar t assms 1 2 by (simp add: decode_value_def Let_def un)
next
  case (VBoolean b)
  then show ?thesis using assms take_bytes_at' [of 1 "[if b then 1 else 0]" "length pre" pre post]
    by (cases t) (auto simp: decode_value_def)
next
  case (VInteger w)
  then show ?thesis using assms take_bytes_at' [of 4 "u32_le w" "length pre" pre post]
    by (cases t) (auto simp: decode_value_def)
next
  case (VBigInt w)
  then show ?thesis using assms take_bytes_at' [of 8 "u64_le w" "length pre" pre post]
    by (cases t) (auto simp: decode_value_def)
next
  case (VDouble w)
  then show ?thesis using assms take_bytes_at' [of 8 "u64_le w" "length pre" pre post]
    by (cases t) (auto simp: decode_value_def)
qed (use assms in simp)

lemma decode_columns_payload:
  assumes "list_all2 wf_field vs ts"
    "\<And>j. j < length vs \<Longrightarrow>
       bitmap ! ((i + j) div 8) AND push_bit ((i + j) mod 8) 1 \<noteq> 0 \<longleftrightarrow> vs ! j = VNull"
  shows "decode_columns (pre @ concat (map payload vs) @ post) bitmap i (length pre) ts = Inr vs"
  using assms
proof (induction vs arbitrary: ts i pre)
  case (Cons v vs)
  then obtain t ts' where ts: "ts = t # ts'" "wf_field v t" "list_all2 wf_field vs ts'"
    by (auto simp: list_all2_Cons1)
  have bits: "bitmap ! ((Suc i + j) div 8) AND push_bit ((Suc i + j) mod 8) 1 \<noteq> 0
      \<longleftrightarrow> vs ! j = VNull" if "j < length vs" for j
    using Cons.prems(2) [of "Suc j"] that by simp
  have IH: "decode_columns (q @ concat (map payload vs) @ post) bitmap (Suc i) (length q) ts' = Inr vs"
    for q by (rule Cons.IH) (use ts bits in auto)
  have here: "bitmap ! (i div 8) AND push_bit (i mod 8) 1 \<noteq> 0 \<longleftrightarrow> v = VNull"
    using Cons.prems(2) [of 0] by simp
  show ?case
  proof (cases "v = VNull")
    case True
    then show ?thesis using here IH [of pre] ts by simp
  next
    case False
    have "decode_value (pre @ payload v @ concat (map payload vs) @ post) (length pre) t
        = Inr (v, length (pre @ payload v))"
      using decode_value_payload [OF ts(2) False] by simp
    moreover have "decode_columns (pre @ payload v @ concat (map payload vs) @ post) bitmap (Suc i)
        (length (pre @ payload v)) ts' = Inr vs"
      using IH [of "pre @ payload v"] by simp
    ultimately show ?thesis using here False ts by simp
  qed
qed simp

lemma decode_encode_tuple:
  assumes "list_all2 wf_field vs ts"
  shows "decode_tuple (encode_tuple vs [] @ rest) ts = Inr vs"
proof -
  let ?n = "div_ceil (length vs) 8"
  let ?bm = "null_bits (replicate ?n 0) 0 vs"
  have len: "length ts = length vs" using assms by (simp add: list_all2_lengthD)
  have fits: "length vs \<le> 8 * ?n" by simp
  have "bit (?bm ! (j div 8)) (j mod 8) \<longleftrightarrow> vs ! j = VNull" if "j < length vs" for j
  proof -
    have "j div 8 < ?n" using that by simp
    then have "\<not> bit (replicate ?n (0 :: byte) ! (j div 8)) (j mod 8)"
      by (simp del: div_ceil.simps)
    then show ?thesis
      using null_bits_bit [of 0 vs "replicate ?n 0" j] that fits by (simp del: div_ceil.simps)
  qed
  then have "decode_columns (?bm @ concat (map payload vs) @ rest) ?bm 0 (length ?bm) ts = Inr vs"
    using assms by (intro decode_columns_payload) (simp_all add: and_one_bit)
  moreover have "take_bytes (?bm @ concat (map payload vs) @ rest) 0 ?n = Inr ?bm"
    using take_bytes_at' [of ?n ?bm 0 "[]"] by (simp del: div_ceil.simps)
  ultimately show ?thesis
    by (simp add: decode_tuple_def encode_tuple_shape Let_def len del: div_ceil.simps)
qed

text \<open>C16: Every row survives storage. For values that match the column types and varchars shorter
  than 4 GiB, decoding the encoding (with anything after it) gives the row back, nulls included.\<close>

theorem tuple_round_trip:
  assumes "list_all2 wf_field vs ts"
  shows "decode_tuple (encode_tuple vs [] @ rest) ts = Inr vs"
  using assms by (rule decode_encode_tuple)

theorem tuple_round_trip_witness:
  "decode_tuple (encode_tuple [VInteger (- 7), VNull, VVarchar [0x68, 0x69], VBoolean True] [] @ [9])
     [TInteger, TDouble, TVarchar 8, TBoolean]
   = Inr [VInteger (- 7), VNull, VVarchar [0x68, 0x69], VBoolean True]"
  by (rule tuple_round_trip) simp

end
