(* ===== verification/Crc.thy ===== *)
theory Crc
  imports Prelude
begin

text \<open>
  The CRC-32 of \<open>common/src/crc.rs\<close>: the 256-entry table, the table-driven checksum, and the
  bit-at-a-time checksum it is meant to compute. The lemmas show that the two agree and that
  the checksum sees every corruption confined to a single byte.
\<close>

definition POLYNOMIAL :: u32 where
  "POLYNOMIAL = 0xEDB88320"

text \<open>One round of the inner loop of \<open>table()\<close>, and the loop.\<close>

definition crc_bit :: "u32 \<Rightarrow> u32" where
  "crc_bit crc = (if crc AND 1 \<noteq> 0 then POLYNOMIAL XOR drop_bit 1 crc else drop_bit 1 crc)"

fun crc_rounds :: "nat \<Rightarrow> u32 \<Rightarrow> u32" where
  "crc_rounds 0 crc = crc"
| "crc_rounds (Suc n) crc = crc_rounds n (crc_bit crc)"

definition crc_table :: "u32 list" where
  "crc_table = map (\<lambda>b. crc_rounds 8 (of_nat b)) [0..<256]"

definition crc32_step :: "u32 \<Rightarrow> byte \<Rightarrow> u32" where
  "crc32_step crc b = crc_table ! unat ((crc XOR ucast b) AND 0xFF) XOR drop_bit 8 crc"

definition crc32 :: "bytes \<Rightarrow> u32" where
  "crc32 data = foldl crc32_step 0xFFFFFFFF data XOR 0xFFFFFFFF"

section \<open>The reference checksum\<close>

text \<open>The definition of the reflected CRC-32: each byte is added into the low bits of the
  register, which is then shifted out bit by bit.\<close>

definition crc32_ref_step :: "u32 \<Rightarrow> byte \<Rightarrow> u32" where
  "crc32_ref_step crc b = crc_rounds 8 (crc XOR ucast b)"

definition crc32_ref :: "bytes \<Rightarrow> u32" where
  "crc32_ref data = foldl crc32_ref_step 0xFFFFFFFF data XOR 0xFFFFFFFF"

section \<open>Linearity and injectivity of a round\<close>

lemma odd_xor_word:
  fixes a b :: "'a::len word"
  shows "(a XOR b) AND 1 \<noteq> 0 \<longleftrightarrow> (a AND 1 \<noteq> 0) \<noteq> (b AND 1 \<noteq> 0)"
  by (simp add: and_one_eq mod_2_eq_odd even_xor_iff)

lemma crc_bit_xor: "crc_bit (a XOR b) = crc_bit a XOR crc_bit b"
  unfolding crc_bit_def odd_xor_word
  by (simp add: drop_bit_xor xor.assoc xor.left_commute)

lemma crc_rounds_xor: "crc_rounds n (a XOR b) = crc_rounds n a XOR crc_rounds n b"
  by (induction n arbitrary: a b) (simp_all add: crc_bit_xor)

lemma crc_bit_top: "bit (crc_bit x) 31 \<longleftrightarrow> x AND 1 \<noteq> 0"
proof -
  have "bit POLYNOMIAL 31" by (simp add: POLYNOMIAL_def)
  moreover have "\<not> bit (drop_bit 1 x) 31"
    using bit_imp_le_length [of x 32] by (auto simp: bit_drop_bit_eq)
  ultimately show ?thesis by (simp add: crc_bit_def bit_xor_iff)
qed

lemma crc_bit_inj: "crc_bit x = crc_bit y \<Longrightarrow> x = y"
proof -
  assume eq: "crc_bit x = crc_bit y"
  then have low: "x AND 1 \<noteq> 0 \<longleftrightarrow> y AND 1 \<noteq> 0"
    using crc_bit_top by metis
  then have sh: "drop_bit 1 x = drop_bit 1 y"
    using eq by (cases "x AND 1 \<noteq> 0") (simp_all add: crc_bit_def)
  show "x = y"
  proof (rule bit_word_eqI)
    fix n
    show "bit x n = bit y n"
    proof (cases n)
      case 0
      then show ?thesis using low by (simp add: bit_0 and_one_eq mod_2_eq_odd)
    next
      case (Suc m)
      then show ?thesis using sh by (metis bit_drop_bit_eq comp_apply plus_1_eq_Suc)
    qed
  qed
qed

lemma crc_rounds_inj: "crc_rounds n x = crc_rounds n y \<Longrightarrow> x = y"
  by (induction n arbitrary: x y) (auto dest: crc_bit_inj)

lemma crc_rounds_shift:
  "(\<And>i. i < n \<Longrightarrow> \<not> bit x i) \<Longrightarrow> crc_rounds n x = drop_bit n x"
proof (induction n arbitrary: x)
  case (Suc n)
  have "\<not> bit x 0" using Suc.prems by simp
  then have 1: "crc_bit x = drop_bit 1 x"
    by (simp add: crc_bit_def bit_0 and_one_eq mod_2_eq_odd)
  have "crc_rounds n (drop_bit 1 x) = drop_bit n (drop_bit 1 x)"
    by (rule Suc.IH) (simp add: bit_drop_bit_eq Suc.prems)
  then show ?case using 1 by simp
qed simp

lemma low_high_xor: "(x :: u32) = (x AND 0xFF) XOR (x AND NOT 0xFF)"
  by (rule bit_word_eqI) (auto simp: bit_simps)

lemma bit_FF: "bit (0xFF :: u32) i \<longleftrightarrow> i < 8"
proof -
  have "(0xFF :: u32) = mask 8" by (simp add: mask_eq_exp_minus_1)
  then show ?thesis by (simp only: bit_mask_iff possible_bit_word) auto
qed

lemma crc_rounds_8: "crc_rounds 8 x = crc_rounds 8 (x AND 0xFF) XOR drop_bit 8 x"
proof -
  have "crc_rounds 8 x = crc_rounds 8 (x AND 0xFF) XOR crc_rounds 8 (x AND NOT 0xFF)"
    using low_high_xor [of x] crc_rounds_xor by metis
  also have "crc_rounds 8 (x AND NOT 0xFF) = drop_bit 8 (x AND NOT 0xFF)"
    by (rule crc_rounds_shift) (simp only: bit_and_iff bit_not_iff bit_FF simp_thms)
  also have "drop_bit 8 (x AND NOT 0xFF) = drop_bit 8 x"
  proof (rule bit_word_eqI)
    fix n
    show "bit (drop_bit 8 (x AND NOT 0xFF)) n = bit (drop_bit 8 x) n"
      unfolding bit_drop_bit_eq o_def bit_and_iff bit_not_iff bit_FF
      using bit_imp_le_length [of x "8 + n"] by auto
  qed
  finally show ?thesis .
qed

section \<open>The table computes the reference\<close>

lemma crc_table_nth: "n < 256 \<Longrightarrow> crc_table ! n = crc_rounds 8 (of_nat n)"
  by (simp add: crc_table_def)

lemma unat_and_FF: "unat ((x :: u32) AND 0xFF) < 256"
proof -
  have "x AND 0xFF \<le> 0xFF" by (rule word_and_le1)
  then show ?thesis by (simp add: word_le_nat_alt)
qed

lemma crc32_step_ref: "crc32_step crc b = crc32_ref_step crc b"
proof -
  have "drop_bit 8 (crc XOR ucast b) = drop_bit 8 crc"
    by (rule bit_word_eqI) (auto simp: bit_simps dest: bit_imp_le_length)
  then show ?thesis
    using crc_rounds_8 [of "crc XOR ucast b"]
    by (simp add: crc32_step_def crc32_ref_step_def crc_table_nth unat_and_FF)
qed

section \<open>Single-byte corruption\<close>

lemma crc32_step_inj_state: "crc32_step s b = crc32_step t b \<Longrightarrow> s = t"
proof -
  assume "crc32_step s b = crc32_step t b"
  then have "s XOR ucast b = t XOR ucast b"
    unfolding crc32_step_ref crc32_ref_step_def by (rule crc_rounds_inj)
  then show ?thesis by simp
qed

lemma crc32_step_inj_byte: "crc32_step s b = crc32_step s c \<Longrightarrow> b = c"
proof -
  assume "crc32_step s b = crc32_step s c"
  then have "s XOR ucast b = s XOR (ucast c :: u32)"
    unfolding crc32_step_ref crc32_ref_step_def by (rule crc_rounds_inj)
  then have "(ucast b :: u32) = ucast c"
    by simp
  then have "unat (ucast b :: u32) = unat (ucast c :: u32)" by simp
  then show ?thesis by (simp add: word_unat_eq_iff)
qed

lemma foldl_crc32_inj: "foldl crc32_step s bs = foldl crc32_step t bs \<Longrightarrow> s = t"
  by (induction bs arbitrary: s t) (auto dest: crc32_step_inj_state)

lemma crc32_single_byte:
  assumes "b \<noteq> c"
  shows "crc32 (pre @ b # post) \<noteq> crc32 (pre @ c # post)"
proof
  assume "crc32 (pre @ b # post) = crc32 (pre @ c # post)"
  then have "foldl crc32_step (crc32_step (foldl crc32_step 0xFFFFFFFF pre) b) post
    = foldl crc32_step (crc32_step (foldl crc32_step 0xFFFFFFFF pre) c) post"
    by (simp add: crc32_def)
  then show False using foldl_crc32_inj crc32_step_inj_byte assms by blast
qed

lemma crc32_list_update:
  assumes "i < length bs" "b \<noteq> bs ! i"
  shows "crc32 (bs[i := b]) \<noteq> crc32 bs"
  using crc32_single_byte [OF assms(2), of "take i bs" "drop (Suc i) bs"] assms(1)
  by (simp add: upd_conv_take_nth_drop id_take_nth_drop [symmetric])

text \<open>C18: The table-driven checksum is the bit-serial CRC-32 of the reflected polynomial, on every
  input: the table of 256 entries holds what eight division steps compute for each byte.\<close>

theorem crc32_table_correct: "crc32 bs = crc32_ref bs"
proof -
  have "crc32_step = crc32_ref_step" by (rule ext, rule ext, rule crc32_step_ref)
  then show ?thesis by (simp add: crc32_def crc32_ref_def)
qed

end
