(* ===== verification/Page.thy ===== *)
theory Page
  imports Crc
begin

text \<open>
  Pages of \<open>storage/src/page.rs\<close>: 4096 bytes, a CRC-32 of bytes 4.. in bytes 0..4 and the LSN of
  the last logged change in bytes 4..12.
\<close>

definition PAGE_SIZE :: nat where "PAGE_SIZE = 4096"
definition CHECKSUM_END :: nat where "CHECKSUM_END = 4"
definition PAGE_LSN_OFFSET :: nat where "PAGE_LSN_OFFSET = 4"
definition PAGE_LSN_END :: nat where "PAGE_LSN_END = 12"

lemmas page_consts = PAGE_SIZE_def CHECKSUM_END_def PAGE_LSN_OFFSET_def PAGE_LSN_END_def


definition checksum_of :: "bytes \<Rightarrow> u32" where
  "checksum_of bs = crc32 (drop CHECKSUM_END bs)"

definition stamp_checksum :: "bytes \<Rightarrow> bytes" where
  "stamp_checksum bs = splice bs 0 (u32_le (checksum_of bs))"

definition checksum_ok :: "bytes \<Rightarrow> bool" where
  "checksum_ok bs =
     (if list_all (\<lambda>b. b = 0) bs then True
      else le_u32 (bytes_at bs 0 CHECKSUM_END) = checksum_of bs)"

record page =
  pg_id :: page_id
  pg_data :: bytes

definition page_new :: "page_id \<Rightarrow> page" where
  "page_new pid = \<lparr>pg_id = pid, pg_data = replicate PAGE_SIZE 0\<rparr>"

definition page_lsn :: "bytes \<Rightarrow> lsn" where
  "page_lsn bs = le_u64 (bytes_at bs PAGE_LSN_OFFSET (PAGE_LSN_END - PAGE_LSN_OFFSET))"

definition set_page_lsn :: "bytes \<Rightarrow> lsn \<Rightarrow> bytes" where
  "set_page_lsn bs l = splice bs PAGE_LSN_OFFSET (u64_le l)"

section \<open>Checksums\<close>

abbreviation wf_page :: "bytes \<Rightarrow> bool" where
  "wf_page bs \<equiv> length bs = PAGE_SIZE"

lemma wf_page_new: "wf_page (pg_data (page_new pid))"
  by (simp add: page_new_def)

lemma stamp_checksum_shape:
  "4 \<le> length bs \<Longrightarrow> stamp_checksum bs = u32_le (checksum_of bs) @ drop 4 bs"
  by (simp add: stamp_checksum_def splice_def)

lemma length_stamp_checksum [simp]:
  "4 \<le> length bs \<Longrightarrow> length (stamp_checksum bs) = length bs"
  by (simp add: stamp_checksum_def)

lemma checksum_of_stamp [simp]:
  "4 \<le> length bs \<Longrightarrow> checksum_of (stamp_checksum bs) = checksum_of bs"
  by (simp add: checksum_of_def stamp_checksum_shape CHECKSUM_END_def)

lemma stored_stamp [simp]:
  "4 \<le> length bs \<Longrightarrow> le_u32 (bytes_at (stamp_checksum bs) 0 4) = checksum_of bs"
  by (simp add: stamp_checksum_def)

lemma checksum_ok_stamp: "4 \<le> length bs \<Longrightarrow> checksum_ok (stamp_checksum bs)"
  by (simp add: checksum_ok_def CHECKSUM_END_def)

lemma stamp_checksum_idem: "4 \<le> length bs \<Longrightarrow> stamp_checksum (stamp_checksum bs) = stamp_checksum bs"
  by (simp add: stamp_checksum_shape checksum_of_def CHECKSUM_END_def)

lemma nth_stamp_checksum: "4 \<le> i \<Longrightarrow> i < length bs \<Longrightarrow> stamp_checksum bs ! i = bs ! i"
  by (simp add: stamp_checksum_shape nth_append)

lemma bytes_at_update_out: "j + n \<le> i \<Longrightarrow> bytes_at (bs[i := b]) j n = bytes_at bs j n"
  by (simp add: bytes_at_def take_drop)

lemma stored_checksum_update:
  assumes "i < 4" "4 \<le> length bs" "b \<noteq> bs ! i"
  shows "le_u32 (bytes_at (bs[i := b]) 0 4) \<noteq> le_u32 (bytes_at bs 0 4)"
proof
  assume "le_u32 (bytes_at (bs[i := b]) 0 4) = le_u32 (bytes_at bs 0 4)"
  then have "bytes_at (bs[i := b]) 0 4 = bytes_at bs 0 4"
    using assms(2) by (metis add_0 length_bytes_at length_list_update word_le_round(2))
  then have "bs[i := b] ! i = bs ! i"
    using assms(1,2) by (metis bytes_at_def drop0 nth_take)
  then show False using assms by simp
qed

lemma checksum_detects_byte:
  assumes "4 \<le> length p" "i < length p" "b \<noteq> stamp_checksum p ! i"
    "\<not> list_all (\<lambda>b. b = 0) ((stamp_checksum p)[i := b])"
  shows "\<not> checksum_ok ((stamp_checksum p)[i := b])"
proof -
  let ?s = "stamp_checksum p"
  have ok: "le_u32 (bytes_at ?s 0 4) = checksum_of ?s" using assms(1) by simp
  show ?thesis
  proof (cases "i < 4")
    case True
    have "checksum_of (?s[i := b]) = checksum_of ?s"
      using True by (simp add: checksum_of_def CHECKSUM_END_def)
    then show ?thesis
      using stored_checksum_update [OF True, of ?s b] assms ok
      by (simp add: checksum_ok_def CHECKSUM_END_def)
  next
    case False
    have "drop 4 (?s[i := b]) = (drop 4 ?s)[i - 4 := b]"
      using False by (simp add: drop_update_swap)
    moreover have "b \<noteq> drop 4 ?s ! (i - 4)"
      using False assms by simp
    ultimately have "checksum_of (?s[i := b]) \<noteq> checksum_of ?s"
      using crc32_list_update [of "i - 4" "drop 4 ?s" b] False assms
      by (simp add: checksum_of_def CHECKSUM_END_def)
    moreover have "bytes_at (?s[i := b]) 0 4 = bytes_at ?s 0 4"
      using False by (intro bytes_at_update_out) simp
    ultimately show ?thesis
      using assms ok by (simp add: checksum_ok_def CHECKSUM_END_def)
  qed
qed

section \<open>The page LSN\<close>

lemma length_set_page_lsn [simp]: "12 \<le> length bs \<Longrightarrow> length (set_page_lsn bs l) = length bs"
  by (simp add: set_page_lsn_def page_consts)

lemma page_lsn_set [simp]: "12 \<le> length bs \<Longrightarrow> page_lsn (set_page_lsn bs l) = l"
  by (simp add: set_page_lsn_def page_lsn_def page_consts)

lemma nth_set_page_lsn:
  "12 \<le> length bs \<Longrightarrow> i < length bs \<Longrightarrow> i < 4 \<or> 12 \<le> i \<Longrightarrow> set_page_lsn bs l ! i = bs ! i"
  by (auto simp: set_page_lsn_def nth_splice page_consts)

lemma page_lsn_stamp [simp]: "12 \<le> length bs \<Longrightarrow> page_lsn (stamp_checksum bs) = page_lsn bs"
  by (simp add: page_lsn_def stamp_checksum_def page_consts slice_simps)

section \<open>Guarantee\<close>

text \<open>C17: A stamped page passes the check, and changing any one of its bytes, the stored checksum
  included, makes the check fail, unless the change leaves a page of zeros (which the code accepts
  as a page that was allocated and never written).\<close>

theorem page_corruption_detected:
  assumes "4 \<le> length p" "i < length p" "b \<noteq> stamp_checksum p ! i"
    "\<not> list_all (\<lambda>b. b = 0) ((stamp_checksum p)[i := b])"
  shows "checksum_ok (stamp_checksum p) \<and> \<not> checksum_ok ((stamp_checksum p)[i := b])"
  using assms by (simp add: checksum_ok_stamp checksum_detects_byte)

theorem page_corruption_detected_witness:
  "\<not> checksum_ok ((stamp_checksum (replicate 4096 1))[100 := 7])"
proof -
  let ?s = "stamp_checksum (replicate 4096 (1 :: byte))"
  have old: "?s ! 100 = 1"
    by (subst nth_stamp_checksum) simp_all
  have len: "length ?s = 4096" by simp
  then have "?s[100 := 7] ! 100 = 7" by simp
  then have nz: "\<not> list_all (\<lambda>b. b = 0) (?s[100 := 7])"
    using len by (auto simp: list_all_length intro!: exI [of _ 100])
  show ?thesis
    using page_corruption_detected [of "replicate 4096 1" 100 7] old nz
    by simp
qed

end
