(* ===== verification/Wal_Record.thy ===== *)
theory Wal_Record
  imports Page "HOL-Library.Monad_Syntax"
begin

text \<open>
  Log records of \<open>storage/src/wal.rs\<close> and their on-disk form: length, LSN, previous LSN of the
  transaction, transaction id, tag, payload, CRC-32 and the length again. The decoder's \<open>Cursor\<close>
  is the list of bytes it has not read yet.
\<close>


definition CHECKPOINT_TXN :: txn_id where "CHECKPOINT_TXN = - 1"

definition MIN_RECORD_LEN :: nat where "MIN_RECORD_LEN = 4 + 8 + 8 + 8 + 1 + 4 + 4"

datatype log_record_kind =
    Begin
  | Commit
  | Abort
  | End
  | Update page_id u16 bytes bytes
  | AllocPage page_id
  | Clr page_id u16 bytes lsn
  | CheckpointBegin
  | CheckpointEnd "(txn_id \<times> lsn) list" "(page_id \<times> lsn) list"

fun kind_tag :: "log_record_kind \<Rightarrow> byte" where
  "kind_tag Begin = 0"
| "kind_tag Commit = 1"
| "kind_tag Abort = 2"
| "kind_tag End = 3"
| "kind_tag (Update _ _ _ _) = 4"
| "kind_tag (AllocPage _) = 5"
| "kind_tag (Clr _ _ _ _) = 6"
| "kind_tag CheckpointBegin = 7"
| "kind_tag (CheckpointEnd _ _) = 8"

definition len_u32 :: "'a list \<Rightarrow> u32" where
  "len_u32 xs = of_nat (length xs)"

fun encode_payload :: "log_record_kind \<Rightarrow> bytes" where
  "encode_payload Begin = []"
| "encode_payload Commit = []"
| "encode_payload Abort = []"
| "encode_payload End = []"
| "encode_payload CheckpointBegin = []"
| "encode_payload (Update pid off before after) =
     u32_le pid @ u16_le off @ u32_le (len_u32 before) @ before
       @ u32_le (len_u32 after) @ after"
| "encode_payload (AllocPage pid) = u32_le pid"
| "encode_payload (Clr pid off after undo_next) =
     u32_le pid @ u16_le off @ u32_le (len_u32 after) @ after @ u64_le undo_next"
| "encode_payload (CheckpointEnd att dpt) =
     u32_le (len_u32 att) @ concat (map (\<lambda>(t, l). u64_le t @ u64_le l) att)
       @ u32_le (len_u32 dpt) @ concat (map (\<lambda>(p, l). u32_le p @ u64_le l) dpt)"

type_synonym cursor = bytes

definition cur_take :: "nat \<Rightarrow> cursor \<Rightarrow> (bytes \<times> cursor) option" where
  "cur_take n c = (if n \<le> length c then Some (take n c, drop n c) else None)"

definition take_u16 :: "cursor \<Rightarrow> (u16 \<times> cursor) option" where
  "take_u16 c = do { (bs, c) \<leftarrow> cur_take 2 c; Some (le_u16 bs, c) }"

definition take_u32 :: "cursor \<Rightarrow> (u32 \<times> cursor) option" where
  "take_u32 c = do { (bs, c) \<leftarrow> cur_take 4 c; Some (le_u32 bs, c) }"

definition take_u64 :: "cursor \<Rightarrow> (u64 \<times> cursor) option" where
  "take_u64 c = do { (bs, c) \<leftarrow> cur_take 8 c; Some (le_u64 bs, c) }"

definition take_len_prefixed :: "cursor \<Rightarrow> (bytes \<times> cursor) option" where
  "take_len_prefixed c = do { (len, c) \<leftarrow> take_u32 c; cur_take (unat len) c }"

text \<open>The two counted loops of the checkpoint payload.\<close>

fun take_att :: "nat \<Rightarrow> cursor \<Rightarrow> ((txn_id \<times> lsn) list \<times> cursor) option" where
  "take_att 0 c = Some ([], c)"
| "take_att (Suc n) c = do {
     (t, c) \<leftarrow> take_u64 c;
     (l, c) \<leftarrow> take_u64 c;
     (rest, c) \<leftarrow> take_att n c;
     Some ((t, l) # rest, c) }"

fun take_dpt :: "nat \<Rightarrow> cursor \<Rightarrow> ((page_id \<times> lsn) list \<times> cursor) option" where
  "take_dpt 0 c = Some ([], c)"
| "take_dpt (Suc n) c = do {
     (p, c) \<leftarrow> take_u32 c;
     (l, c) \<leftarrow> take_u64 c;
     (rest, c) \<leftarrow> take_dpt n c;
     Some ((p, l) # rest, c) }"

definition decode_kind :: "byte \<Rightarrow> cursor \<Rightarrow> (log_record_kind \<times> cursor) option" where
  "decode_kind tag c =
     (if tag = 0 then Some (Begin, c)
      else if tag = 1 then Some (Commit, c)
      else if tag = 2 then Some (Abort, c)
      else if tag = 3 then Some (End, c)
      else if tag = 4 then do {
        (pid, c) \<leftarrow> take_u32 c;
        (off, c) \<leftarrow> take_u16 c;
        (before, c) \<leftarrow> take_len_prefixed c;
        (after, c) \<leftarrow> take_len_prefixed c;
        Some (Update pid off before after, c) }
      else if tag = 5 then do { (pid, c) \<leftarrow> take_u32 c; Some (AllocPage pid, c) }
      else if tag = 6 then do {
        (pid, c) \<leftarrow> take_u32 c;
        (off, c) \<leftarrow> take_u16 c;
        (after, c) \<leftarrow> take_len_prefixed c;
        (undo_next, c) \<leftarrow> take_u64 c;
        Some (Clr pid off after undo_next, c) }
      else if tag = 7 then Some (CheckpointBegin, c)
      else if tag = 8 then do {
        (n, c) \<leftarrow> take_u32 c;
        (att, c) \<leftarrow> take_att (unat n) c;
        (m, c) \<leftarrow> take_u32 c;
        (dpt, c) \<leftarrow> take_dpt (unat m) c;
        Some (CheckpointEnd att dpt, c) }
      else None)"

definition decode_payload :: "byte \<Rightarrow> bytes \<Rightarrow> log_record_kind option" where
  "decode_payload tag bs = do {
     (kind, c) \<leftarrow> decode_kind tag bs;
     if c = [] then Some kind else None }"

record logged_record =
  lr_lsn :: lsn
  lr_prev :: "lsn option"
  lr_txn :: txn_id
  lr_kind :: log_record_kind

definition record_body :: "lsn \<Rightarrow> lsn option \<Rightarrow> txn_id \<Rightarrow> log_record_kind \<Rightarrow> bytes" where
  "record_body l prev txn kind =
     u64_le l @ u64_le (case prev of None \<Rightarrow> 0 | Some p \<Rightarrow> p) @ u64_le txn @ [kind_tag kind]
       @ encode_payload kind"

definition encode_record :: "lsn \<Rightarrow> lsn option \<Rightarrow> txn_id \<Rightarrow> log_record_kind \<Rightarrow> bytes" where
  "encode_record l prev txn kind =
     (let body = record_body l prev txn kind;
          total_len = (of_nat (4 + length body + 4 + 4) :: u32);
          record = u32_le total_len @ body
      in record @ u32_le (crc32 record) @ u32_le total_len)"

definition decode_record :: "bytes \<Rightarrow> nat \<Rightarrow> (logged_record \<times> nat) option" where
  "decode_record bs pos = do {
     front \<leftarrow> slice_at bs pos 4;
     let total_len = unat (le_u32 front);
     if total_len < MIN_RECORD_LEN then None else do {
       record \<leftarrow> slice_at bs pos total_len;
       if drop (total_len - 4) record \<noteq> take 4 record then None
       else if crc32 (take (total_len - 8) record)
                 \<noteq> le_u32 (bytes_at record (total_len - 8) 4) then None
       else do {
         (l, c) \<leftarrow> take_u64 (bytes_at record 4 (total_len - 12));
         (prev_raw, c) \<leftarrow> take_u64 c;
         (txn, c) \<leftarrow> take_u64 c;
         (tag, c) \<leftarrow> cur_take 1 c;
         kind \<leftarrow> decode_payload (hd tag) c;
         Some (\<lparr>lr_lsn = l, lr_prev = (if prev_raw \<noteq> 0 then Some prev_raw else None),
                lr_txn = txn, lr_kind = kind\<rparr>, total_len) } } }"

section \<open>Payloads\<close>

lemma cur_take_append [simp]: "cur_take (length xs) (xs @ c) = Some (xs, c)"
  by (simp add: cur_take_def)

lemma take_word_append [simp]:
  "take_u16 (u16_le a @ c) = Some (a, c)"
  "take_u32 (u32_le b @ c) = Some (b, c)"
  "take_u64 (u64_le d @ c) = Some (d, c)"
  by (simp_all add: take_u16_def take_u32_def take_u64_def cur_take_def)

lemma unat_len_u32 [simp]: "length xs < 2 ^ 32 \<Longrightarrow> unat (len_u32 xs) = length xs"
  by (simp add: len_u32_def unat_of_nat)

lemma take_len_prefixed_append [simp]:
  "length xs < 2 ^ 32 \<Longrightarrow> take_len_prefixed (u32_le (len_u32 xs) @ xs @ c) = Some (xs, c)"
  by (simp add: take_len_prefixed_def)

lemma take_att_append [simp]:
  "take_att (length att) (concat (map (\<lambda>(t, l). u64_le t @ u64_le l) att) @ c) = Some (att, c)"
  by (induction att) auto

lemma take_dpt_append [simp]:
  "take_dpt (length dpt) (concat (map (\<lambda>(p, l). u32_le p @ u64_le l) dpt) @ c) = Some (dpt, c)"
  by (induction dpt) auto

fun wf_kind :: "log_record_kind \<Rightarrow> bool" where
  "wf_kind (Update _ _ before after) = (length before < 2 ^ 32 \<and> length after < 2 ^ 32)"
| "wf_kind (Clr _ _ after _) = (length after < 2 ^ 32)"
| "wf_kind (CheckpointEnd att dpt) = (length att < 2 ^ 32 \<and> length dpt < 2 ^ 32)"
| "wf_kind _ = True"

lemma decode_kind_encode:
  "wf_kind kind \<Longrightarrow> decode_kind (kind_tag kind) (encode_payload kind @ c) = Some (kind, c)"
  by (cases kind) (simp_all add: decode_kind_def del: power_numeral)

lemma decode_payload_encode:
  "wf_kind kind \<Longrightarrow> decode_payload (kind_tag kind) (encode_payload kind) = Some kind"
  using decode_kind_encode [of kind "[]"] by (simp add: decode_payload_def)

lemma length_concat_const: "(\<And>x. x \<in> set xs \<Longrightarrow> length (f x) = k) \<Longrightarrow> length (concat (map f xs)) = k * length xs"
  by (induction xs) auto

lemma wf_kind_small: "length (encode_payload kind) < 2 ^ 32 \<Longrightarrow> wf_kind kind"
proof (cases kind)
  case (CheckpointEnd att dpt)
  have "length (concat (map (\<lambda>(t, l). u64_le t @ u64_le l) att)) = 16 * length att"
    "length (concat (map (\<lambda>(p, l). u32_le p @ u64_le l) dpt)) = 12 * length dpt"
    by (rule length_concat_const, auto)+
  then show "length (encode_payload kind) < 2 ^ 32 \<Longrightarrow> wf_kind kind"
    using CheckpointEnd by (simp del: length_concat)
qed simp_all

section \<open>Records\<close>

definition wf_record :: "lsn option \<Rightarrow> log_record_kind \<Rightarrow> bool" where
  "wf_record prev kind \<longleftrightarrow> prev \<noteq> Some 0 \<and> length (encode_payload kind) + MIN_RECORD_LEN < 2 ^ 32"

definition record_len :: "log_record_kind \<Rightarrow> nat" where
  "record_len kind = MIN_RECORD_LEN + length (encode_payload kind)"

lemma length_encode_record: "length (encode_record l prev txn kind) = record_len kind"
  by (simp add: encode_record_def record_body_def MIN_RECORD_LEN_def record_len_def Let_def)

lemma record_len_bounds:
  assumes "length (encode_payload kind) + MIN_RECORD_LEN < 2 ^ 32"
  shows "unat (of_nat (record_len kind) :: u32) = record_len kind" "37 \<le> record_len kind"
proof -
  have "record_len kind < 2 ^ 32" using assms by (simp add: record_len_def)
  then show "unat (of_nat (record_len kind) :: u32) = record_len kind"
    by (rule unat_of_nat_small)
qed (simp add: record_len_def MIN_RECORD_LEN_def)

definition record_prefix :: "lsn \<Rightarrow> lsn option \<Rightarrow> txn_id \<Rightarrow> log_record_kind \<Rightarrow> bytes" where
  "record_prefix l prev txn kind = u32_le (of_nat (record_len kind)) @ record_body l prev txn kind"

lemma encode_record_shape:
  "encode_record l prev txn kind =
     record_prefix l prev txn kind @ u32_le (crc32 (record_prefix l prev txn kind))
       @ u32_le (of_nat (record_len kind))"
proof -
  have "4 + length (record_body l prev txn kind) + 4 + 4 = record_len kind"
    by (simp add: record_body_def MIN_RECORD_LEN_def record_len_def)
  then show ?thesis
    unfolding encode_record_def record_prefix_def Let_def by (simp only: append_assoc)
qed

lemma length_record_prefix [simp]:
  "length (record_prefix l prev txn kind) = record_len kind - 8"
  by (simp add: record_prefix_def record_body_def record_len_def MIN_RECORD_LEN_def)

lemma decode_encode_record:
  assumes "wf_record prev kind"
  shows "decode_record (pre @ encode_record l prev txn kind @ post) (length pre)
    = Some (\<lparr>lr_lsn = l, lr_prev = prev, lr_txn = txn, lr_kind = kind\<rparr>,
            length (encode_record l prev txn kind))"
proof -
  let ?r = "encode_record l prev txn kind"
  let ?n = "record_len kind"
  let ?p = "record_prefix l prev txn kind"
  have n: "unat (of_nat ?n :: u32) = ?n" "37 \<le> ?n"
    using assms by (intro record_len_bounds, simp add: wf_record_def)+
  have len: "length ?r = ?n" by (rule length_encode_record)
  have lp: "length ?p = ?n - 8" by simp
  have front: "take 4 ?r = u32_le (of_nat ?n)"
    by (simp add: encode_record_shape record_prefix_def)
  have s1: "slice_at (pre @ ?r @ post) (length pre) 4 = Some (u32_le (of_nat ?n))"
    using front len n(2) by (simp add: slice_at_def)
  have s2: "slice_at (pre @ ?r @ post) (length pre) ?n = Some ?r"
    using slice_at_append_at [of pre ?r post] len by simp
  have trail: "drop (?n - 4) ?r = u32_le (of_nat ?n)"
    using n(2) by (simp add: encode_record_shape)
  have pref: "take (?n - 8) ?r = ?p" "bytes_at ?r (?n - 8) 4 = u32_le (crc32 ?p)"
    by (simp_all add: encode_record_shape bytes_at_def)
  have body: "bytes_at ?r 4 (?n - 12) = record_body l prev txn kind"
  proof -
    have "length (record_body l prev txn kind) = ?n - 12"
      by (simp add: record_body_def record_len_def MIN_RECORD_LEN_def)
    then show ?thesis by (simp add: encode_record_shape record_prefix_def bytes_at_def)
  qed
  have "wf_kind kind" using assms by (intro wf_kind_small) (simp add: wf_record_def)
  moreover have "cur_take 1 (kind_tag kind # encode_payload kind)
      = Some ([kind_tag kind], encode_payload kind)" by (simp add: cur_take_def)
  moreover have "\<not> ?n < MIN_RECORD_LEN" using n(2) by (simp add: MIN_RECORD_LEN_def)
  ultimately show ?thesis
    using assms len
    by (auto simp: decode_record_def s1 s2 n(1) front trail pref body record_body_def
        decode_payload_encode wf_record_def split: option.split)
qed

text \<open>C14: A log record read at the position it was written decodes to exactly the record that was
  appended, with its length, whatever surrounds it in the log.\<close>

theorem wal_record_round_trip:
  assumes "prev \<noteq> Some 0" "length (encode_payload kind) + MIN_RECORD_LEN < 2 ^ 32"
  shows "decode_record (pre @ encode_record l prev txn kind @ post) (length pre)
    = Some (\<lparr>lr_lsn = l, lr_prev = prev, lr_txn = txn, lr_kind = kind\<rparr>,
            length (encode_record l prev txn kind))"
  using assms by (intro decode_encode_record) (simp add: wf_record_def)

theorem wal_record_round_trip_witness:
  "decode_record (replicate 16 0 @ encode_record 16 None 3 (Update 5 100 [1] [2]) @ [9]) 16
    = Some (\<lparr>lr_lsn = 16, lr_prev = None, lr_txn = 3, lr_kind = Update 5 100 [1] [2]\<rparr>, 53)"
  using wal_record_round_trip [of None "Update 5 100 [1] [2]" "replicate 16 0" 16 3 "[9]"]
  by (simp add: MIN_RECORD_LEN_def length_encode_record record_len_def)

section \<open>Corruption\<close>

lemma drop_update_at: "n \<le> i \<Longrightarrow> drop n (xs[i := b]) = (drop n xs)[i - n := b]"
  by (simp add: drop_update_swap)

text \<open>A byte after the length field: one of the two length fields, the stored checksum or the
  checksummed bytes no longer agree with the rest.\<close>

lemma altered_record_rejected:
  assumes "prev \<noteq> Some 0" "length (encode_payload kind) + MIN_RECORD_LEN < 2 ^ 32"
    and "r = encode_record l prev txn kind" "i < length r" "b \<noteq> r ! i" "4 \<le> i"
  shows "decode_record (pre @ r[i := b] @ post) (length pre) = None"
proof -
  let ?n = "record_len kind"
  let ?p = "record_prefix l prev txn kind"
  let ?r = "r[i := b]"
  have n: "unat (of_nat ?n :: u32) = ?n" "37 \<le> ?n"
    using record_len_bounds [OF assms(2)] .
  have len: "length r = ?n" using assms by (simp add: length_encode_record)
  have r: "r = ?p @ u32_le (crc32 ?p) @ u32_le (of_nat ?n)"
    using assms(3) by (simp add: encode_record_shape)
  have lp: "length ?p = ?n - 8" by simp
  have front: "take 4 ?r = u32_le (of_nat ?n)"
    using assms(6) r by (simp add: record_prefix_def)
  have s1: "slice_at (pre @ ?r @ post) (length pre) 4 = Some (u32_le (of_nat ?n))"
    using front len n(2) by (simp add: slice_at_def)
  have s2: "slice_at (pre @ ?r @ post) (length pre) ?n = Some ?r"
    using slice_at_append_at [of pre ?r post] len by simp
  have parts: "drop (?n - 4) r = u32_le (of_nat ?n)" "take (?n - 8) r = ?p"
    "bytes_at r (?n - 8) 4 = u32_le (crc32 ?p)"
    using lp n(2) by (simp_all add: r bytes_at_def)
  consider (trail) "?n - 4 \<le> i" | (crc) "?n - 8 \<le> i" "i < ?n - 4" | (body) "i < ?n - 8" by linarith
  then have "drop (?n - 4) ?r \<noteq> take 4 ?r
      \<or> crc32 (take (?n - 8) ?r) \<noteq> le_u32 (bytes_at ?r (?n - 8) 4)"
  proof cases
    case trail
    have "drop (?n - 4) ?r \<noteq> drop (?n - 4) r"
    proof
      assume "drop (?n - 4) ?r = drop (?n - 4) r"
      then have "drop (?n - 4) ?r ! (i - (?n - 4)) = drop (?n - 4) r ! (i - (?n - 4))" by simp
      then show False using trail assms(4,5) len by simp
    qed
    then show ?thesis using front parts by simp
  next
    case crc
    have "bytes_at ?r (?n - 8) 4 \<noteq> bytes_at r (?n - 8) 4"
    proof
      assume "bytes_at ?r (?n - 8) 4 = bytes_at r (?n - 8) 4"
      then have "bytes_at ?r (?n - 8) 4 ! (i - (?n - 8)) = bytes_at r (?n - 8) 4 ! (i - (?n - 8))"
        by simp
      then show False using crc assms(4,5) len by (simp add: bytes_at_def)
    qed
    moreover have "length (bytes_at ?r (?n - 8) 4) = 4" "length (bytes_at r (?n - 8) 4) = 4"
      using len n(2) by simp_all
    ultimately have "le_u32 (bytes_at ?r (?n - 8) 4) \<noteq> crc32 ?p"
      using parts(3) by (metis word_le_round(2))
    then show ?thesis using crc parts by simp
  next
    case body
    have "take (?n - 8) ?r = (take (?n - 8) r)[i := b]"
      using body by (simp add: take_update_swap)
    then have "crc32 (take (?n - 8) ?r) \<noteq> crc32 ?p"
      using crc32_list_update [of i ?p b] body parts(2) assms(5) lp by (metis nth_take)
    moreover have "bytes_at ?r (?n - 8) 4 = bytes_at r (?n - 8) 4"
      using body by (simp add: bytes_at_def)
    ultimately show ?thesis using parts(3) by simp
  qed
  then show ?thesis
    using n(2) by (simp add: decode_record_def s1 s2 n(1) Let_def)
qed

lemma overlong_record_rejected:
  assumes "length bs < unat (le_u32 (take 4 bs))"
  shows "decode_record (pre @ bs) (length pre) = None"
  using assms by (auto simp: decode_record_def slice_at_def Let_def split: Option.bind_splits)

text \<open>C15: A record in which one byte was altered is rejected, so that recovery stops in front of it
  rather than replaying a damaged record: always when the byte lies after the four bytes of the
  leading length field, and for a byte of that field when the altered length reaches beyond the end
  of the log. (An altered length that stays inside the log makes the decoder look for the checksum
  at another place, where nothing keeps a payload from holding a matching one.)\<close>

theorem wal_record_corruption_rejected:
  assumes "prev \<noteq> Some 0" "length (encode_payload kind) + MIN_RECORD_LEN < 2 ^ 32"
    and "r = encode_record l prev txn kind" "i < length r" "b \<noteq> r ! i"
    and "4 \<le> i \<or> length r + length post < unat (le_u32 (take 4 (r[i := b])))"
  shows "decode_record (pre @ r[i := b] @ post) (length pre) = None"
proof (cases "4 \<le> i")
  case True
  then show ?thesis using altered_record_rejected [OF assms(1-5)] by simp
next
  case False
  have "length r = record_len kind" using assms(3) by (simp add: length_encode_record)
  then have "4 \<le> length r" using record_len_bounds(2) [OF assms(2)] by simp
  then show ?thesis using overlong_record_rejected [of "r[i := b] @ post" pre] assms(6) False by simp
qed

text \<open>The kind byte of a commit record, and the top byte of its length.\<close>

theorem wal_record_corruption_rejected_witness:
  "decode_record ([] @ (encode_record 16 None 3 Commit)[28 := 2] @ []) 0 = None \<and>
   decode_record ([] @ (encode_record 16 None 3 Commit)[3 := 1] @ []) 0 = None"
proof -
  let ?r = "encode_record 16 None 3 Commit"
  have "4 = Suc (Suc (Suc (Suc 0)))" by simp
  then have four: "nat_le 4 37 = [37, 0, 0, 0]" by (simp only: nat_le.simps) simp
  have r: "length ?r = 37" "take 4 ?r = [37, 0, 0, 0]" "?r ! 28 = 1" "?r ! 3 = 0"
    by (simp_all add: length_encode_record record_len_def MIN_RECORD_LEN_def)
      (simp_all add: encode_record_shape record_prefix_def record_body_def nth_append record_len_def
        MIN_RECORD_LEN_def u32_le_def four)
  show ?thesis
    using wal_record_corruption_rejected [of None Commit ?r 16 3 28 2 "[]" "[]"]
      wal_record_corruption_rejected [of None Commit ?r 16 3 3 1 "[]" "[]"] r
    by (simp add: MIN_RECORD_LEN_def take_update_swap le_u32_def)
qed

end
