(* ===== verification/Storage_Base.thy ===== *)
theory Storage_Base
  imports Page Types_Value
begin

text \<open>
  The errors of \<open>storage/src/error.rs\<close> and the block device of \<open>storage/src/block_device.rs\<close>. A
  device is the bytes of its file. Reading past the end is the \<open>UnexpectedEof\<close> of
  \<open>read_exact_at\<close>; writing past the end fills the gap with zeros, as a file does. \<open>Panicked\<close> is not
  in the source's enumeration: it marks a Rust panic (an index out of range).
\<close>

datatype storage_error =
    Io string
  | BufferPoolExhausted
  | BufferPoolWaitTimedOut nat
  | CorruptPage page_id string
  | PageNotFound page_id
  | TruncatedFile nat nat nat
  | TupleTooLarge nat nat
  | KeyTooLarge nat nat
  | CorruptLogHeader string
  | ChecksumMismatch page_id u32 u32
  | DoubleWriteRestoreFailed page_id
  | InvalidDwbCapacity
  | UnorderableKey value_error
  | InPlaceUpdateOutOfBounds page_id u16 nat nat nat
  | NodeOverflow page_id nat nat
  | DatabaseLocked string
  | FlushPoisoned
  | Panicked

text \<open>Decimal formatting of a number in a message.\<close>

fun nat_str :: "nat \<Rightarrow> string" where
  "nat_str n =
     (if n < 10 then [''0123456789'' ! n] else nat_str (n div 10) @ [''0123456789'' ! (n mod 10)])"

declare nat_str.simps [simp del]

section \<open>Block devices\<close>

type_synonym device = bytes

definition dev_size :: "device \<Rightarrow> nat" where
  "dev_size d = length d"

definition dev_read_at :: "device \<Rightarrow> nat \<Rightarrow> nat \<Rightarrow> storage_error + bytes" where
  "dev_read_at d off len = ok_or (slice_at d off len) (Io ''failed to fill whole buffer'')"

definition dev_set_len :: "device \<Rightarrow> nat \<Rightarrow> device" where
  "dev_set_len d n = take n d @ replicate (n - length d) 0"

definition dev_write_at :: "device \<Rightarrow> nat \<Rightarrow> bytes \<Rightarrow> device" where
  "dev_write_at d off bs =
     (if bs = [] then d else splice (dev_set_len d (max (length d) (off + length bs))) off bs)"

lemma length_dev_set_len [simp]: "length (dev_set_len d n) = n"
  by (simp add: dev_set_len_def)

lemma dev_set_len_same [simp]: "dev_set_len d (length d) = d"
  by (simp add: dev_set_len_def)

lemma dev_write_at_end [simp]: "dev_write_at d (length d) bs = d @ bs"
  by (simp add: dev_write_at_def dev_set_len_def splice_def)

lemma dev_write_at_inside:
  "off + length bs \<le> length d \<Longrightarrow> dev_write_at d off bs = splice d off bs"
  by (cases "bs = []") (simp_all add: dev_write_at_def splice_def max_absorb1)

lemma length_dev_write_at:
  "length (dev_write_at d off bs) = (if bs = [] then length d else max (length d) (off + length bs))"
  by (simp add: dev_write_at_def)

lemma dev_read_at_eq:
  "off + len \<le> length d \<Longrightarrow> dev_read_at d off len = Inr (bytes_at d off len)"
  by (simp add: dev_read_at_def slice_at_eq)

section \<open>Devices that may fail\<close>

text \<open>A device with the outcomes of its next writes and syncs: \<open>None\<close> is success and
  \<open>Some (e, k)\<close> is the error \<open>e\<close> after the first \<open>k\<close> bytes reached the file. When the schedule is
  used up every operation succeeds.\<close>

record fdevice =
  fd_bytes :: device
  fd_faults :: "(storage_error \<times> nat) option list"

definition fd_next :: "fdevice \<Rightarrow> (storage_error \<times> nat) option \<times> fdevice" where
  "fd_next fd = (case fd_faults fd of [] \<Rightarrow> (None, fd) | f # fs \<Rightarrow> (f, fd\<lparr>fd_faults := fs\<rparr>))"

definition fd_write_at :: "nat \<Rightarrow> bytes \<Rightarrow> (fdevice, storage_error, unit) sresult" where
  "fd_write_at off bs fd =
     (case fd_next fd of
        (None, fd') \<Rightarrow> (Inr (), fd'\<lparr>fd_bytes := dev_write_at (fd_bytes fd') off bs\<rparr>)
      | (Some (e, k), fd') \<Rightarrow> (Inl e, fd'\<lparr>fd_bytes := dev_write_at (fd_bytes fd') off (take k bs)\<rparr>))"

definition fd_sync_all :: "(fdevice, storage_error, unit) sresult" where
  "fd_sync_all fd =
     (case fd_next fd of (None, fd') \<Rightarrow> (Inr (), fd') | (Some (e, _), fd') \<Rightarrow> (Inl e, fd'))"

definition fd_set_len :: "nat \<Rightarrow> (fdevice, storage_error, unit) sresult" where
  "fd_set_len n fd =
     (case fd_next fd of
        (None, fd') \<Rightarrow> (Inr (), fd'\<lparr>fd_bytes := dev_set_len (fd_bytes fd') n\<rparr>)
      | (Some (e, _), fd') \<Rightarrow> (Inl e, fd'))"

lemma fd_no_faults [simp]:
  assumes "fd_faults fd = []"
  shows "fd_write_at off bs fd = (Inr (), fd\<lparr>fd_bytes := dev_write_at (fd_bytes fd) off bs\<rparr>)"
    "fd_sync_all fd = (Inr (), fd)"
    "fd_set_len n fd = (Inr (), fd\<lparr>fd_bytes := dev_set_len (fd_bytes fd) n\<rparr>)"
  using assms by (simp_all add: fd_write_at_def fd_sync_all_def fd_set_len_def fd_next_def)

end
