(* ===== verification/Log_Manager.thy ===== *)
theory Log_Manager
  imports Wal_Record Storage_Base "HOL-Library.Finite_Map"
begin

text \<open>
  The segmented write-ahead log of \<open>storage/src/wal.rs\<close>: numbered segment files, a buffer of
  records not yet written, and the LSN space that runs through them. An LSN is the position of a
  record in that space; positions are natural numbers here and 64-bit words in the records, and
  the representation invariant keeps every position of a record below \<open>2 ^ 64\<close>. The handle cache for sealed segments
  is left out: a segment is read from its file. Device errors other than reading past the end
  are not modelled.
\<close>

definition SEGMENT_MAGIC :: bytes where
  "SEGMENT_MAGIC = map of_char ''FDBWAL01''"

definition SEGMENT_HEADER_LEN :: nat where "SEGMENT_HEADER_LEN = 16"
definition HEADER_LEN :: nat where "HEADER_LEN = SEGMENT_HEADER_LEN"
definition DEFAULT_SEGMENT_SIZE :: nat where "DEFAULT_SEGMENT_SIZE = 16 * 1024 * 1024"

lemmas wal_consts = SEGMENT_HEADER_LEN_def HEADER_LEN_def

type_synonym segment_store = "(nat, device) fmap"

record log_manager =
  lm_store :: segment_store
  lm_target :: nat
  lm_sealed :: "(nat \<times> nat) list"
  lm_active_id :: nat
  lm_active_start :: nat
  lm_buffer :: bytes
  lm_next_lsn :: nat
  lm_last_lsn :: "(txn_id, nat) fmap"
  lm_bytes_appended :: nat
  lm_durable_lsn :: nat

text \<open>\<open>store.open\<close> creates a missing file.\<close>

definition store_open :: "segment_store \<Rightarrow> nat \<Rightarrow> device" where
  "store_open st i = (case fmlookup st i of None \<Rightarrow> [] | Some d \<Rightarrow> d)"

definition active_device :: "log_manager \<Rightarrow> device" where
  "active_device lm = store_open (lm_store lm) (lm_active_id lm)"

definition write_segment_header :: "device \<Rightarrow> nat \<Rightarrow> device" where
  "write_segment_header d start =
     dev_write_at (dev_set_len d 0) 0 (SEGMENT_MAGIC @ u64_le (of_nat start))"

definition read_segment_header :: "device \<Rightarrow> storage_error + nat" where
  "read_segment_header d =
     and_then (dev_read_at d 0 SEGMENT_HEADER_LEN) (\<lambda>buf.
       if bytes_at buf 0 8 \<noteq> SEGMENT_MAGIC
       then Inl (CorruptLogHeader ''bad magic in write-ahead log segment header'')
       else Inr (unat (le_u64 (bytes_at buf 8 8))))"

section \<open>Scanning\<close>

lemma decode_record_length:
  assumes "decode_record bs pos = Some (r, len)"
  shows "0 < len" "pos + len \<le> length bs"
  using assms
  by (auto simp: decode_record_def slice_at_def MIN_RECORD_LEN_def Let_def
      split: if_splits option.splits prod.splits Option.bind_splits)

text \<open>The \<open>while let\<close> loop of \<open>scan_decoded_records\<close>: the records and the position after them.\<close>

function scan_records :: "bytes \<Rightarrow> nat \<Rightarrow> logged_record list \<times> nat" where
  "scan_records bs pos =
     (case decode_record bs pos of
        None \<Rightarrow> ([], pos)
      | Some (r, len) \<Rightarrow> (let (rs, p) = scan_records bs (pos + len) in (r # rs, p)))"
  by pat_completeness auto

termination
  by (relation "measure (\<lambda>(bs, pos). length bs - pos)")
    (use decode_record_length in \<open>force+\<close>)

declare scan_records.simps [simp del]

definition last_lsns :: "logged_record list \<Rightarrow> (txn_id, nat) fmap" where
  "last_lsns rs = foldl (\<lambda>m r. fmupd (lr_txn r) (unat (lr_lsn r)) m) fmempty rs"

definition scan_decoded_records :: "device \<Rightarrow> nat \<Rightarrow> nat \<times> nat \<times> (txn_id, nat) fmap" where
  "scan_decoded_records d start =
     (let (rs, pos) = scan_records d SEGMENT_HEADER_LEN
      in (start + (pos - SEGMENT_HEADER_LEN), pos, last_lsns rs))"

definition scan_active_segment :: "device \<Rightarrow> nat \<Rightarrow> (nat \<times> (txn_id, nat) fmap) \<times> device" where
  "scan_active_segment d start =
     (let (nxt, pos, lasts) = scan_decoded_records d start
      in ((nxt, lasts), dev_set_len d pos))"

definition sealed_length_reason :: "nat \<Rightarrow> nat \<Rightarrow> nat \<Rightarrow> string" where
  "sealed_length_reason start pos len =
     ''sealed WAL segment starting at lsn '' @ nat_str start
       @ '' does not decode to its full recorded length: valid records end at offset ''
       @ nat_str pos @ '', but the segment is '' @ nat_str len @ '' bytes''"

definition scan_sealed_segment :: "device \<Rightarrow> nat \<Rightarrow> storage_error + nat \<times> (txn_id, nat) fmap" where
  "scan_sealed_segment d start =
     (let (nxt, pos, lasts) = scan_decoded_records d start
      in if pos \<noteq> dev_size d
         then Inl (CorruptLogHeader (sealed_length_reason start pos (dev_size d)))
         else Inr (nxt, lasts))"

definition read_record_at :: "device \<Rightarrow> nat \<Rightarrow> storage_error + logged_record option" where
  "read_record_at d off =
     (if off + 4 > dev_size d then Inr None
      else and_then (dev_read_at d off 4) (\<lambda>len_buf.
        let total_len = unat (le_u32 len_buf) in
        if total_len < MIN_RECORD_LEN \<or> off + total_len > dev_size d then Inr None
        else and_then (dev_read_at d off total_len) (\<lambda>buf.
          Inr (map_option fst (decode_record buf 0)))))"

section \<open>Opening\<close>

fun bootstrap_sealed :: "segment_store \<Rightarrow> nat list
    \<Rightarrow> (nat \<times> nat) list \<times> (txn_id, nat) fmap \<times> nat option
    \<Rightarrow> storage_error + (nat \<times> nat) list \<times> (txn_id, nat) fmap \<times> nat option" where
  "bootstrap_sealed st [] acc = Inr acc"
| "bootstrap_sealed st (i # ids) (sealed, lasts, nxt) =
     and_then (read_segment_header (store_open st i)) (\<lambda>start.
       and_then (scan_sealed_segment (store_open st i) start) (\<lambda>(seg_next, contributions).
         bootstrap_sealed st ids
           (sealed @ [(i, start)], fmadd lasts contributions, Some seg_next)))"

definition bootstrap :: "segment_store \<Rightarrow> nat \<Rightarrow> nat \<Rightarrow> nat list \<Rightarrow> storage_error + log_manager" where
  "bootstrap st target active_id sealed_ids =
     and_then (bootstrap_sealed st sealed_ids ([], fmempty, None)) (\<lambda>(sealed, lasts, sealed_next).
       let d = store_open st active_id in
       if dev_size d < SEGMENT_HEADER_LEN then
         (let start = (case sealed_next of None \<Rightarrow> HEADER_LEN | Some n \<Rightarrow> n)
          in Inr \<lparr>lm_store = fmupd active_id (write_segment_header d start) st, lm_target = target,
                  lm_sealed = sealed, lm_active_id = active_id, lm_active_start = start,
                  lm_buffer = [], lm_next_lsn = start, lm_last_lsn = lasts,
                  lm_bytes_appended = 0, lm_durable_lsn = start\<rparr>)
       else and_then (read_segment_header d) (\<lambda>start.
         let ((nxt, contributions), d') = scan_active_segment d start
         in Inr \<lparr>lm_store = fmupd active_id d' st, lm_target = target,
                 lm_sealed = sealed, lm_active_id = active_id, lm_active_start = start,
                 lm_buffer = [], lm_next_lsn = nxt, lm_last_lsn = fmadd lasts contributions,
                 lm_bytes_appended = 0, lm_durable_lsn = nxt\<rparr>))"

definition open_with_store :: "segment_store \<Rightarrow> nat \<Rightarrow> storage_error + log_manager" where
  "open_with_store st target =
     (let ids = sorted_list_of_set (fset (fmdom st))
      in if ids = [] then bootstrap st target 0 []
         else bootstrap st target (last ids) (butlast ids))"

section \<open>Appending and flushing\<close>

definition append_record :: "log_manager \<Rightarrow> txn_id \<Rightarrow> log_record_kind \<Rightarrow> lsn \<times> log_manager" where
  "append_record lm txn kind =
     (let l = lm_next_lsn lm;
          prev = map_option of_nat (fmlookup (lm_last_lsn lm) txn);
          bs = encode_record (of_nat l) prev txn kind
      in (of_nat l,
          lm\<lparr>lm_next_lsn := l + length bs,
             lm_bytes_appended := lm_bytes_appended lm + length bs,
             lm_buffer := lm_buffer lm @ bs,
             lm_last_lsn := fmupd txn l (lm_last_lsn lm)\<rparr>))"

definition roll_segment :: "log_manager \<Rightarrow> log_manager" where
  "roll_segment lm =
     (let new_id = lm_active_id lm + 1;
          start = lm_next_lsn lm;
          d = write_segment_header (store_open (lm_store lm) new_id) start
      in lm\<lparr>lm_store := fmupd new_id d (lm_store lm),
            lm_sealed := lm_sealed lm @ [(lm_active_id lm, lm_active_start lm)],
            lm_active_id := new_id, lm_active_start := start\<rparr>)"

definition flush_log :: "log_manager \<Rightarrow> lsn \<Rightarrow> log_manager" where
  "flush_log lm up_to =
     (if lm_durable_lsn lm > unat up_to then lm
      else
        let d = active_device lm;
            d' = dev_write_at d (dev_size d) (lm_buffer lm);
            lm1 = lm\<lparr>lm_store := fmupd (lm_active_id lm) d' (lm_store lm),
                     lm_buffer := [], lm_durable_lsn := lm_next_lsn lm\<rparr>
        in if dev_size d' - SEGMENT_HEADER_LEN \<ge> lm_target lm then roll_segment lm1 else lm1)"

definition flush_log_all :: "log_manager \<Rightarrow> log_manager" where
  "flush_log_all lm =
     (if lm_buffer lm = [] then lm else flush_log lm (of_nat (lm_next_lsn lm)))"

definition last_lsn_for :: "log_manager \<Rightarrow> txn_id \<Rightarrow> lsn option" where
  "last_lsn_for lm txn = map_option of_nat (fmlookup (lm_last_lsn lm) txn)"

definition max_txn_id :: "log_manager \<Rightarrow> txn_id option" where
  "max_txn_id lm =
     (let ids = fset (fmdom (lm_last_lsn lm)) - {CHECKPOINT_TXN}
      in if ids = {} then None else Some (Max ids))"

section \<open>Truncating and reading\<close>

fun truncate_keep :: "nat \<Rightarrow> nat \<Rightarrow> (nat \<times> nat) list \<Rightarrow> nat" where
  "truncate_keep bound act [] = 0"
| "truncate_keep bound act (_ # rest) =
     (let segment_end = (case rest of [] \<Rightarrow> act | (_, s) # _ \<Rightarrow> s)
      in if segment_end \<le> bound then Suc (truncate_keep bound act rest) else 0)"

definition truncate_below :: "log_manager \<Rightarrow> lsn \<Rightarrow> log_manager" where
  "truncate_below lm bound =
     (let keep_from = truncate_keep (unat bound) (lm_active_start lm) (lm_sealed lm)
      in if keep_from = 0 then lm
         else lm\<lparr>lm_sealed := drop keep_from (lm_sealed lm),
                 lm_store := foldl (\<lambda>st i. fmdrop i st) (lm_store lm)
                               (map fst (take keep_from (lm_sealed lm)))\<rparr>)"

fun rposition :: "('a \<Rightarrow> bool) \<Rightarrow> 'a list \<Rightarrow> nat option" where
  "rposition P [] = None"
| "rposition P (x # xs) =
     (case rposition P xs of Some i \<Rightarrow> Some (Suc i) | None \<Rightarrow> if P x then Some 0 else None)"

text \<open>The items a \<open>LogIterator\<close> yields when it is run to its end: each pending segment is read
  whole and decoded from its header on, then the tail.\<close>

definition log_iterator_items :: "segment_store \<Rightarrow> nat list \<Rightarrow> bytes \<Rightarrow> lsn \<Rightarrow> logged_record list" where
  "log_iterator_items st pending tail from =
     filter (\<lambda>r. from \<le> lr_lsn r)
       (concat (map (\<lambda>i. fst (scan_records (store_open st i) SEGMENT_HEADER_LEN)) pending)
        @ fst (scan_records tail 0))"

definition log_iter_from :: "log_manager \<Rightarrow> lsn \<Rightarrow> logged_record list" where
  "log_iter_from lm from0 =
     (let from = max from0 (of_nat HEADER_LEN);
          start_index = (case rposition (\<lambda>(_, s). s \<le> unat from) (lm_sealed lm) of
                           None \<Rightarrow> 0 | Some i \<Rightarrow> i);
          pending = map fst (drop start_index (lm_sealed lm));
          tail = drop SEGMENT_HEADER_LEN (active_device lm) @ lm_buffer lm
      in log_iterator_items (lm_store lm) pending tail from)"

definition read_log_at :: "log_manager \<Rightarrow> lsn \<Rightarrow> storage_error + logged_record option" where
  "read_log_at lm l =
     (let off = unat l in
      if off = 0 then Inr None
      else if off \<ge> lm_durable_lsn lm then
        Inr (map_option fst (decode_record (lm_buffer lm) (off - lm_durable_lsn lm)))
      else if off \<ge> lm_active_start lm then
        read_record_at (active_device lm) (SEGMENT_HEADER_LEN + (off - lm_active_start lm))
      else case find (\<lambda>(_, s). s \<le> off) (rev (lm_sealed lm)) of
        None \<Rightarrow> Inr None
      | Some (i, s) \<Rightarrow>
          read_record_at (store_open (lm_store lm) i) (SEGMENT_HEADER_LEN + (off - s)))"

end
