(* ===== verification/Log_Rep.thy ===== *)
theory Log_Rep
  imports Log_Manager
begin

text \<open>
  What the log manager's bytes mean: the representation invariant that relates its segment files
  and buffer to the list of records appended so far, and the lemmas that append, flush, segment
  rolls, truncation, reading, iterating and reopening after a crash all respect it.
\<close>

section \<open>Runs of records\<close>

definition rec_bytes :: "logged_record \<Rightarrow> bytes" where
  "rec_bytes r = encode_record (lr_lsn r) (lr_prev r) (lr_txn r) (lr_kind r)"

definition recs_bytes :: "logged_record list \<Rightarrow> bytes" where
  "recs_bytes rs = concat (map rec_bytes rs)"

definition wf_rec :: "logged_record \<Rightarrow> bool" where
  "wf_rec r \<longleftrightarrow> wf_record (lr_prev r) (lr_kind r)"

text \<open>Records laid out back to back from position \<open>s\<close>, each carrying its own position.\<close>

fun recs_at :: "nat \<Rightarrow> logged_record list \<Rightarrow> bool" where
  "recs_at s [] = True"
| "recs_at s (r # rs) =
     (lr_lsn r = of_nat s \<and> s < 2 ^ 64 \<and> wf_rec r \<and> recs_at (s + length (rec_bytes r)) rs)"

definition recs_end :: "nat \<Rightarrow> logged_record list \<Rightarrow> nat" where
  "recs_end s rs = s + length (recs_bytes rs)"

lemma recs_bytes_simps [simp]:
  "recs_bytes [] = []"
  "recs_bytes (r # rs) = rec_bytes r @ recs_bytes rs"
  "recs_bytes (rs @ rs') = recs_bytes rs @ recs_bytes rs'"
  by (simp_all add: recs_bytes_def)

lemma recs_end_simps [simp]:
  "recs_end s [] = s"
  "recs_end s (r # rs) = recs_end (s + length (rec_bytes r)) rs"
  "recs_end s (rs @ rs') = recs_end (recs_end s rs) rs'"
  by (simp_all add: recs_end_def)

lemma recs_at_append [simp]: "recs_at s (rs @ rs') \<longleftrightarrow> recs_at s rs \<and> recs_at (recs_end s rs) rs'"
  by (induction rs arbitrary: s) auto

lemma length_rec_bytes: "37 \<le> length (rec_bytes r)"
  by (simp add: rec_bytes_def length_encode_record record_len_def MIN_RECORD_LEN_def)

lemma recs_end_ge: "s \<le> recs_end s rs"
  by (simp add: recs_end_def)

lemma decode_rec:
  "wf_rec r \<Longrightarrow> decode_record (pre @ rec_bytes r @ post) (length pre) = Some (r, length (rec_bytes r))"
  using decode_encode_record [of "lr_prev r" "lr_kind r" pre "lr_lsn r" "lr_txn r" post]
  by (simp add: rec_bytes_def wf_rec_def)

lemma scan_recs:
  assumes "recs_at s rs" "decode_record (pre @ recs_bytes rs @ junk) (length pre + length (recs_bytes rs)) = None"
  shows "scan_records (pre @ recs_bytes rs @ junk) (length pre)
    = (rs, length pre + length (recs_bytes rs))"
  using assms
proof (induction rs arbitrary: pre s)
  case Nil
  then show ?case by (subst scan_records.simps) simp
next
  case (Cons r rs)
  have "decode_record (pre @ rec_bytes r @ recs_bytes rs @ junk) (length pre)
      = Some (r, length (rec_bytes r))"
    using Cons.prems(1) decode_rec [of r pre "recs_bytes rs @ junk"] by simp
  moreover have "scan_records ((pre @ rec_bytes r) @ recs_bytes rs @ junk) (length (pre @ rec_bytes r))
      = (rs, length (pre @ rec_bytes r) + length (recs_bytes rs))"
    by (rule Cons.IH [of "s + length (rec_bytes r)"]) (use Cons.prems in \<open>auto simp: add.assoc\<close>)
  ultimately show ?case by (subst scan_records.simps) (simp add: add.assoc)
qed

lemma decode_at_end: "decode_record bs (length bs) = None"
  by (simp add: decode_record_def slice_at_def)

lemma scan_recs_exact:
  assumes "recs_at s rs"
  shows "scan_records (pre @ recs_bytes rs) (length pre) = (rs, length (pre @ recs_bytes rs))"
  using scan_recs [OF assms, of pre "[]"] decode_at_end [of "pre @ recs_bytes rs"] by simp

text \<open>A record of a run has its position as LSN and lies within the run.\<close>

lemma recs_at_lsn:
  assumes "recs_at s (xs @ r # ys)"
  shows "unat (lr_lsn r) = recs_end s xs" "wf_rec r"
  using assms by (auto simp: unat_of_nat)

lemma recs_at_range:
  assumes "recs_at s rs" "r \<in> set rs"
  shows "s \<le> unat (lr_lsn r)" "unat (lr_lsn r) < recs_end s rs"
proof -
  obtain xs ys where rs: "rs = xs @ r # ys" using assms(2) by (metis split_list)
  have l: "unat (lr_lsn r) = recs_end s xs" using recs_at_lsn(1) assms(1) rs by simp
  show "s \<le> unat (lr_lsn r)" by (simp add: l recs_end_ge)
  have "recs_end s xs + length (rec_bytes r) \<le> recs_end s rs"
    by (simp add: rs recs_end_ge)
  then show "unat (lr_lsn r) < recs_end s rs"
    using l length_rec_bytes [of r] by linarith
qed

section \<open>Segments\<close>

definition segment_header :: "nat \<Rightarrow> bytes" where
  "segment_header start = SEGMENT_MAGIC @ u64_le (of_nat start)"

definition segment_bytes :: "nat \<Rightarrow> logged_record list \<Rightarrow> bytes" where
  "segment_bytes start rs = segment_header start @ recs_bytes rs"

type_synonym segment = "nat \<times> nat \<times> logged_record list"

abbreviation seg_meta :: "segment \<Rightarrow> nat \<times> nat" where
  "seg_meta \<equiv> \<lambda>(i, s, _). (i, s)"

abbreviation seg_recs :: "segment list \<Rightarrow> logged_record list" where
  "seg_recs segs \<equiv> concat (map (\<lambda>(_, _, rs). rs) segs)"

text \<open>Segments that follow each other without a gap from position \<open>s\<close> to position \<open>e\<close>.\<close>

fun segs_at :: "nat \<Rightarrow> segment list \<Rightarrow> nat \<Rightarrow> bool" where
  "segs_at s [] e \<longleftrightarrow> s = e"
| "segs_at s ((_, st, rs) # segs) e \<longleftrightarrow> st = s \<and> recs_at s rs \<and> segs_at (recs_end s rs) segs e"

lemma segs_at_append [simp]:
  "segs_at s (segs @ segs') e \<longleftrightarrow> (\<exists>m. segs_at s segs m \<and> segs_at m segs' e)"
  by (induction segs arbitrary: s) auto

lemma segs_at_le: "segs_at s segs e \<Longrightarrow> s \<le> e"
proof (induction segs arbitrary: s)
  case (Cons seg segs)
  then show ?case using recs_end_ge order_trans by (cases seg) fastforce
qed simp

lemma segs_at_recs: "segs_at s segs e \<Longrightarrow> recs_at s (seg_recs segs) \<and> recs_end s (seg_recs segs) = e"
  by (induction segs arbitrary: s) auto

lemma segs_at_starts: "segs_at s segs e \<Longrightarrow> (i, st, rs) \<in> set segs \<Longrightarrow> s \<le> st \<and> recs_at st rs \<and> recs_end st rs \<le> e"
proof (induction segs arbitrary: s)
  case (Cons seg segs)
  then show ?case
    using recs_end_ge [of s] segs_at_le by (cases seg) (auto intro: order_trans [OF recs_end_ge])
qed simp

lemma length_segment_header [simp]: "length (segment_header start) = 16"
  by (simp add: segment_header_def SEGMENT_MAGIC_def)

lemma write_segment_header_eq [simp]: "write_segment_header d start = segment_header start"
  using dev_write_at_end [of "[]"]
  by (simp add: write_segment_header_def segment_header_def dev_set_len_def)

lemma read_segment_header_eq:
  "start < 2 ^ 64 \<Longrightarrow> read_segment_header (segment_header start @ rest) = Inr start"
  by (simp add: read_segment_header_def dev_read_at_def slice_at_def wal_consts)
    (simp add: segment_header_def bytes_at_def SEGMENT_MAGIC_def unat_of_nat)

lemma scan_segment:
  assumes "recs_at start rs"
  shows "scan_records (segment_bytes start rs) SEGMENT_HEADER_LEN = (rs, length (segment_bytes start rs))"
  using scan_recs_exact [OF assms, of "segment_header start"] by (simp add: segment_bytes_def wal_consts)

section \<open>The representation invariant\<close>

text \<open>The segment files: one per sealed segment and one for the active segment, in id order.\<close>

definition files_rep :: "segment_store \<Rightarrow> segment list \<Rightarrow> segment \<Rightarrow> bool" where
  "files_rep st segs active \<longleftrightarrow>
     (\<forall>seg \<in> set (segs @ [active]).
        fmlookup st (fst seg) = Some (segment_bytes (fst (snd seg)) (snd (snd seg)))) \<and>
     fset (fmdom st) = set (map fst (segs @ [active])) \<and>
     sorted_wrt (<) (map fst (segs @ [active]))"

definition log_rep ::
  "log_manager \<Rightarrow> nat \<Rightarrow> segment list \<Rightarrow> logged_record list \<Rightarrow> logged_record list \<Rightarrow> bool" where
  "log_rep lm base segs act buf \<longleftrightarrow>
     HEADER_LEN \<le> base \<and>
     lm_sealed lm = map seg_meta segs \<and>
     files_rep (lm_store lm) segs (lm_active_id lm, lm_active_start lm, act) \<and>
     segs_at base segs (lm_active_start lm) \<and>
     recs_at (lm_active_start lm) act \<and>
     lm_durable_lsn lm = recs_end (lm_active_start lm) act \<and>
     recs_at (lm_durable_lsn lm) buf \<and>
     lm_buffer lm = recs_bytes buf \<and>
     lm_next_lsn lm = recs_end (lm_durable_lsn lm) buf \<and>
     lm_next_lsn lm < 2 ^ 64 \<and>
     (\<forall>t v. fmlookup (lm_last_lsn lm) t = Some v \<longrightarrow> HEADER_LEN \<le> v \<and> v < lm_next_lsn lm)"

lemma log_repD:
  assumes "log_rep lm base segs act buf"
  shows "HEADER_LEN \<le> base" "lm_sealed lm = map seg_meta segs"
    "files_rep (lm_store lm) segs (lm_active_id lm, lm_active_start lm, act)"
    "segs_at base segs (lm_active_start lm)" "recs_at (lm_active_start lm) act"
    "lm_durable_lsn lm = recs_end (lm_active_start lm) act"
    "recs_at (recs_end (lm_active_start lm) act) buf" "lm_buffer lm = recs_bytes buf"
    "lm_next_lsn lm = recs_end (recs_end (lm_active_start lm) act) buf" "lm_next_lsn lm < 2 ^ 64"
    "fmlookup (lm_last_lsn lm) t = Some v \<Longrightarrow> HEADER_LEN \<le> v"
    "fmlookup (lm_last_lsn lm) t = Some v \<Longrightarrow> v < lm_next_lsn lm"
  using assms unfolding log_rep_def by metis+

lemma find_append: "find P (xs @ ys) = (case find P xs of None \<Rightarrow> find P ys | Some x \<Rightarrow> Some x)"
  by (induction xs) auto

lemma files_rep_fresh:
  assumes "files_rep st segs active" "fst active < i"
  shows "i \<notin> set (map fst (segs @ [active]))" "fmlookup st i = None"
proof -
  have "j \<le> fst active" if "j \<in> set (map fst (segs @ [active]))" for j
    using assms that by (auto simp: files_rep_def sorted_wrt_append)
  then show "i \<notin> set (map fst (segs @ [active]))" using assms(2) by (meson not_le)
  then show "fmlookup st i = None" using assms(1) unfolding files_rep_def by (metis fmdom_notD)
qed

lemma files_rep_active_fresh: "files_rep st segs active \<Longrightarrow> fst active \<notin> fst ` set segs"
  by (auto simp: files_rep_def sorted_wrt_append)

lemma files_rep_write_active:
  assumes "files_rep st segs (i, s, rs)"
  shows "files_rep (fmupd i (segment_bytes s rs') st) segs (i, s, rs')"
  using assms files_rep_active_fresh [OF assms]
  by (simp add: files_rep_def image_iff)

lemma files_rep_roll:
  assumes "files_rep st segs (i, s, rs)" "i < j"
  shows "files_rep (fmupd j (segment_bytes s' []) st) (segs @ [(i, s, rs)]) (j, s', [])"
proof -
  have "\<forall>seg \<in> set (segs @ [(i, s, rs)]). fst seg \<noteq> j"
    using files_rep_fresh(1) [OF assms(1), of j] assms(2) by auto
  then show ?thesis
    using assms unfolding files_rep_def
    by (simp add: sorted_wrt_append insert_commute) (metis less_trans)
qed

definition log_records :: "segment list \<Rightarrow> logged_record list \<Rightarrow> logged_record list \<Rightarrow> logged_record list" where
  "log_records segs act buf = seg_recs segs @ act @ buf"

lemma active_device_rep: "log_rep lm base segs act buf \<Longrightarrow> active_device lm = segment_bytes (lm_active_start lm) act"
  by (simp add: log_rep_def files_rep_def active_device_def store_open_def)

lemma log_rep_run:
  assumes "log_rep lm base segs act buf"
  shows "recs_at base (log_records segs act buf)" "recs_end base (log_records segs act buf) = lm_next_lsn lm"
  using assms segs_at_recs by (auto simp: log_rep_def log_records_def)

section \<open>Append\<close>

definition appended_record :: "log_manager \<Rightarrow> txn_id \<Rightarrow> log_record_kind \<Rightarrow> logged_record" where
  "appended_record lm txn kind =
     \<lparr>lr_lsn = of_nat (lm_next_lsn lm), lr_prev = last_lsn_for lm txn, lr_txn = txn, lr_kind = kind\<rparr>"

lemma append_record_eq:
  "append_record lm txn kind =
     (of_nat (lm_next_lsn lm),
      lm\<lparr>lm_next_lsn := lm_next_lsn lm + length (rec_bytes (appended_record lm txn kind)),
         lm_bytes_appended := lm_bytes_appended lm + length (rec_bytes (appended_record lm txn kind)),
         lm_buffer := lm_buffer lm @ rec_bytes (appended_record lm txn kind),
         lm_last_lsn := fmupd txn (lm_next_lsn lm) (lm_last_lsn lm)\<rparr>)"
  by (simp add: append_record_def appended_record_def rec_bytes_def last_lsn_for_def Let_def)

lemma log_rep_next_ge: "log_rep lm base segs act buf \<Longrightarrow> HEADER_LEN \<le> lm_next_lsn lm"
  using segs_at_le recs_end_ge order_trans unfolding log_rep_def by metis

lemma last_lsn_nonzero:
  assumes "log_rep lm base segs act buf"
  shows "last_lsn_for lm txn \<noteq> Some 0"
proof
  assume "last_lsn_for lm txn = Some 0"
  then obtain v where v: "fmlookup (lm_last_lsn lm) txn = Some v" "(of_nat v :: lsn) = 0"
    by (auto simp: last_lsn_for_def)
  then have "HEADER_LEN \<le> v" "v < 2 ^ 64"
    using assms by (fastforce simp: log_rep_def)+
  then show False using v(2) by (simp add: wal_consts unat_eq_0 [symmetric] unat_of_nat)
qed

lemma log_rep_append:
  assumes rep: "log_rep lm base segs act buf"
    and ap: "append_record lm txn kind = (l, lm')"
    and small: "length (encode_payload kind) + MIN_RECORD_LEN < 2 ^ 32" "lm_next_lsn lm' < 2 ^ 64"
  shows "log_rep lm' base segs act (buf @ [appended_record lm txn kind])"
    and "l = of_nat (lm_next_lsn lm)"
proof -
  have "wf_rec (appended_record lm txn kind)"
    using last_lsn_nonzero [OF rep] small(1)
    by (simp add: wf_rec_def wf_record_def appended_record_def)
  moreover have "lr_lsn (appended_record lm txn kind) = of_nat (lm_next_lsn lm)"
    by (simp add: appended_record_def)
  moreover have "lm_next_lsn lm < lm_next_lsn lm + length (rec_bytes (appended_record lm txn kind))"
    using length_rec_bytes [of "appended_record lm txn kind"] by linarith
  ultimately show "log_rep lm' base segs act (buf @ [appended_record lm txn kind])"
    using rep ap small(2) log_rep_next_ge [OF rep]
    unfolding log_rep_def append_record_eq by (auto simp: trans_less_add1 split: if_splits)
  show "l = of_nat (lm_next_lsn lm)" using ap by (auto simp: append_record_eq)
qed

section \<open>Flush and segment rolls\<close>

lemma log_rep_roll:
  assumes "log_rep lm base segs act []"
  shows "log_rep (roll_segment lm) base (segs @ [(lm_active_id lm, lm_active_start lm, act)]) [] []"
proof -
  let ?start = "lm_next_lsn lm"
  have "files_rep (fmupd (lm_active_id lm + 1) (segment_bytes ?start []) (lm_store lm))
      (segs @ [(lm_active_id lm, lm_active_start lm, act)]) (lm_active_id lm + 1, ?start, [])"
    by (rule files_rep_roll) (use assms in \<open>simp_all add: log_rep_def\<close>)
  then show ?thesis
    using assms by (auto simp: log_rep_def roll_segment_def Let_def segment_bytes_def)
qed

lemma log_rep_write_buffer:
  assumes rep: "log_rep lm base segs act buf"
  defines "d \<equiv> active_device lm"
  shows "log_rep (lm\<lparr>lm_store := fmupd (lm_active_id lm) (dev_write_at d (dev_size d) (lm_buffer lm)) (lm_store lm),
                     lm_buffer := [], lm_durable_lsn := lm_next_lsn lm\<rparr>) base segs (act @ buf) []"
proof -
  have "dev_write_at d (dev_size d) (lm_buffer lm) = segment_bytes (lm_active_start lm) (act @ buf)"
    unfolding d_def dev_size_def active_device_rep [OF rep] dev_write_at_end
    using rep by (simp add: log_rep_def segment_bytes_def)
  then show ?thesis
    using rep files_rep_write_active [of "lm_store lm" segs "lm_active_id lm" "lm_active_start lm" act "act @ buf"]
    by (auto simp: log_rep_def)
qed

lemma log_rep_flush:
  assumes rep: "log_rep lm base segs act buf"
  obtains segs' act' buf' where "log_rep (flush_log lm up_to) base segs' act' buf'"
    "log_records segs' act' buf' = log_records segs act buf"
    "lm_next_lsn (flush_log lm up_to) = lm_next_lsn lm"
    "lm_last_lsn (flush_log lm up_to) = lm_last_lsn lm"
    "unat up_to < lm_next_lsn lm \<Longrightarrow> unat up_to < lm_durable_lsn (flush_log lm up_to)"
proof (cases "lm_durable_lsn lm > unat up_to")
  case True
  then show ?thesis using rep by (intro that [of segs act buf]) (simp_all add: flush_log_def)
next
  case False
  let ?d = "active_device lm"
  let ?lm1 = "lm\<lparr>lm_store := fmupd (lm_active_id lm) (dev_write_at ?d (dev_size ?d) (lm_buffer lm)) (lm_store lm),
                     lm_buffer := [], lm_durable_lsn := lm_next_lsn lm\<rparr>"
  have w: "log_rep ?lm1 base segs (act @ buf) []" by (rule log_rep_write_buffer [OF rep])
  have f: "flush_log lm up_to = ?lm1 \<or> flush_log lm up_to = roll_segment ?lm1"
    using False by (simp add: flush_log_def Let_def)
  then show ?thesis
  proof
    assume "flush_log lm up_to = ?lm1"
    then show ?thesis using w by (intro that [of segs "act @ buf" "[]"]) (simp_all add: log_records_def)
  next
    assume *: "flush_log lm up_to = roll_segment ?lm1"
    show ?thesis
      using log_rep_roll [OF w] *
      by (intro that [of "segs @ [(lm_active_id lm, lm_active_start lm, act @ buf)]" "[]" "[]"])
        (simp_all add: log_records_def roll_segment_def Let_def)
  qed
qed

section \<open>Reading\<close>

lemma read_record_at_rec:
  assumes "wf_rec r"
  shows "read_record_at (pre @ rec_bytes r @ post) (length pre) = Inr (Some r)"
proof -
  let ?n = "length (rec_bytes r)"
  have n: "?n = record_len (lr_kind r)" by (simp add: rec_bytes_def length_encode_record)
  have b: "unat (of_nat ?n :: u32) = ?n" "37 \<le> ?n"
    using assms record_len_bounds [of "lr_kind r"] n by (simp_all add: wf_rec_def wf_record_def)
  have front: "take 4 (rec_bytes r) = u32_le (of_nat ?n)"
    using n by (simp add: rec_bytes_def encode_record_shape record_prefix_def)
  have r1: "dev_read_at (pre @ rec_bytes r @ post) (length pre) 4 = Inr (u32_le (of_nat ?n))"
    using b(2) front by (simp add: dev_read_at_def slice_at_def)
  have r2: "dev_read_at (pre @ rec_bytes r @ post) (length pre) ?n = Inr (rec_bytes r)"
    by (simp add: dev_read_at_def)
  have "decode_record (rec_bytes r) 0 = Some (r, ?n)"
    using decode_rec [OF assms, of "[]" "[]"] by simp
  then show ?thesis
    using b by (simp add: read_record_at_def r1 r2 dev_size_def MIN_RECORD_LEN_def Let_def)
qed

lemma read_in_segment:
  assumes "recs_at s rs" "r \<in> set rs"
  shows "read_record_at (segment_bytes s rs) (SEGMENT_HEADER_LEN + (unat (lr_lsn r) - s)) = Inr (Some r)"
proof -
  obtain xs ys where rs: "rs = xs @ r # ys" using assms(2) by (metis split_list)
  have "unat (lr_lsn r) = recs_end s xs" "wf_rec r" using recs_at_lsn assms(1) rs by auto
  then show ?thesis
    using read_record_at_rec [of r "segment_header s @ recs_bytes xs" "recs_bytes ys"]
    by (simp add: segment_bytes_def rs recs_end_def wal_consts)
qed

lemma read_in_buffer:
  assumes "recs_at s rs" "r \<in> set rs"
  shows "map_option fst (decode_record (recs_bytes rs) (unat (lr_lsn r) - s)) = Some r"
proof -
  obtain xs ys where rs: "rs = xs @ r # ys" using assms(2) by (metis split_list)
  have "unat (lr_lsn r) = recs_end s xs" "wf_rec r" using recs_at_lsn assms(1) rs by auto
  then show ?thesis
    using decode_rec [of r "recs_bytes xs" "recs_bytes ys"] by (simp add: rs recs_end_def)
qed

lemma find_sealed:
  assumes "segs_at base segs e" "(i, s, rs) \<in> set segs" "r \<in> set rs"
  shows "\<exists>j. find (\<lambda>(_, s). s \<le> unat (lr_lsn r)) (rev (map seg_meta segs)) = Some (j, s)
    \<and> (j, s, rs) \<in> set segs"
proof -
  obtain A B where segs: "segs = A @ (i, s, rs) # B" using assms(2) by (metis split_list)
  have sB: "segs_at (recs_end s rs) B e" and rs: "recs_at s rs"
    using assms(1) segs by auto
  have "\<not> s' \<le> unat (lr_lsn r)" if "(j, s', rs') \<in> set B" for j s' rs'
    using segs_at_starts [OF sB that] recs_at_range(2) [OF rs assms(3)] by linarith
  then have "find (\<lambda>(_, s). s \<le> unat (lr_lsn r)) (rev (map seg_meta B)) = None"
    by (auto simp: find_None_iff)
  then show ?thesis
    using recs_at_range(1) [OF rs assms(3)] assms(2)
    by (auto simp: segs find_append)
qed

lemma log_rep_read:
  assumes rep: "log_rep lm base segs act buf" and r: "r \<in> set (log_records segs act buf)"
  shows "read_log_at lm (lr_lsn r) = Inr (Some r)"
proof -
  let ?p = "unat (lr_lsn r)"
  have run: "recs_at base (log_records segs act buf)" by (rule log_rep_run(1) [OF rep])
  have "base \<le> ?p" using recs_at_range(1) [OF run r] .
  then have nz: "?p \<noteq> 0" using rep by (auto simp: log_rep_def wal_consts)
  have S: "segs_at base segs (lm_active_start lm)" and A: "recs_at (lm_active_start lm) act"
    and B: "recs_at (lm_durable_lsn lm) buf" and D: "lm_durable_lsn lm = recs_end (lm_active_start lm) act"
    and buf: "lm_buffer lm = recs_bytes buf"
    using log_repD [OF rep] by auto
  consider "r \<in> set buf" | "r \<in> set act" | i s rs where "(i, s, rs) \<in> set segs" "r \<in> set rs"
    using r by (auto simp: log_records_def)
  then show ?thesis
  proof cases
    case 1
    then show ?thesis
      using nz read_in_buffer [OF B 1] recs_at_range(1) [OF B 1] buf
      by (simp add: read_log_at_def Let_def)
  next
    case 2
    then show ?thesis
      using nz recs_at_range [OF A 2] D read_in_segment [OF A 2] active_device_rep [OF rep]
      by (simp add: read_log_at_def Let_def)
  next
    case 3
    have rs: "recs_at s rs" "recs_end s rs \<le> lm_active_start lm"
      using segs_at_starts [OF S 3(1)] by auto
    have lt: "?p < lm_active_start lm" using recs_at_range(2) [OF rs(1) 3(2)] rs(2) by linarith
    obtain j where j: "find (\<lambda>(_, s). s \<le> ?p) (rev (lm_sealed lm)) = Some (j, s)" "(j, s, rs) \<in> set segs"
      using find_sealed [OF S 3] rep unfolding log_rep_def by metis
    have "store_open (lm_store lm) j = segment_bytes s rs"
      using rep j(2) by (force simp: log_rep_def files_rep_def store_open_def)
    then show ?thesis
      using nz lt j(1) read_in_segment [OF rs(1) 3(2)] D recs_end_ge [of "lm_active_start lm" act]
      by (simp add: read_log_at_def Let_def)
  qed
qed

section \<open>Iterating\<close>

lemma rposition_Some: "rposition P xs = Some i \<Longrightarrow> i < length xs \<and> P (xs ! i)"
  by (induction xs arbitrary: i) (auto split: option.splits if_splits)

lemma scan_sealed_files:
  assumes "\<forall>seg \<in> set segs. fmlookup st (fst seg) = Some (segment_bytes (fst (snd seg)) (snd (snd seg)))"
    "\<forall>(i, s, rs) \<in> set segs. recs_at s rs"
  shows "concat (map (\<lambda>i. fst (scan_records (store_open st i) SEGMENT_HEADER_LEN)) (map fst segs))
    = seg_recs segs"
  using assms by (induction segs) (auto simp: store_open_def scan_segment)

lemma log_rep_iter:
  assumes rep: "log_rep lm base segs act buf"
  shows "log_iter_from lm from =
    filter (\<lambda>r. max from (of_nat HEADER_LEN) \<le> lr_lsn r) (log_records segs act buf)"
proof -
  let ?from = "max from (of_nat HEADER_LEN)"
  have S: "segs_at base segs (lm_active_start lm)" using rep by (simp add: log_rep_def)
  have tail: "scan_records (drop SEGMENT_HEADER_LEN (active_device lm) @ lm_buffer lm) 0
      = (act @ buf, length (recs_bytes (act @ buf)))"
    using scan_recs_exact [of "lm_active_start lm" "act @ buf" "[]"] active_device_rep [OF rep] log_repD [OF rep]
    by (simp add: segment_bytes_def wal_consts)
  obtain k where k: "(case rposition (\<lambda>(_, s). s \<le> unat ?from) (lm_sealed lm) of None \<Rightarrow> 0 | Some i \<Rightarrow> i) = k"
    by blast
  have skipped: "\<not> ?from \<le> lr_lsn r" if "r \<in> set (seg_recs (take k segs))" for r
  proof (cases "rposition (\<lambda>(_, s). s \<le> unat ?from) (lm_sealed lm)")
    case None
    then show ?thesis using k that by simp
  next
    case (Some i)
    then have i: "k = i" "i < length segs" "snd (lm_sealed lm ! i) \<le> unat ?from"
      using k rposition_Some [OF Some] rep by (auto simp: log_rep_def split: prod.splits)
    have split: "segs = take i segs @ segs ! i # drop (Suc i) segs"
      using i(2) by (rule id_take_nth_drop)
    obtain m where m: "segs_at base (take i segs) m" "segs_at m (segs ! i # drop (Suc i) segs) (lm_active_start lm)"
      using S by (subst (asm) split) auto
    have "fst (snd (segs ! i)) = m" using m(2) by (cases "segs ! i") auto
    then have "m \<le> unat ?from" using i(2,3) rep by (auto simp: log_rep_def split: prod.splits)
    moreover have "unat (lr_lsn r) < m"
      using segs_at_recs [OF m(1)] recs_at_range(2) that i(1) by metis
    ultimately show ?thesis by (simp add: word_le_nat_alt)
  qed
  have pend: "concat (map (\<lambda>i. fst (scan_records (store_open (lm_store lm) i) SEGMENT_HEADER_LEN))
      (map fst (drop k (lm_sealed lm)))) = seg_recs (drop k segs)"
  proof -
    have "map fst (drop k (lm_sealed lm)) = map fst (drop k segs)"
      using rep by (simp add: log_rep_def drop_map split_def)
    moreover have "\<forall>seg \<in> set (drop k segs). fmlookup (lm_store lm) (fst seg)
        = Some (segment_bytes (fst (snd seg)) (snd (snd seg)))"
      using rep set_drop_subset [of k segs] by (auto simp: log_rep_def files_rep_def)
    moreover have "\<forall>(i, s, rs) \<in> set (drop k segs). recs_at s rs"
      using segs_at_starts [OF S] set_drop_subset [of k segs] by blast
    ultimately show ?thesis using scan_sealed_files by metis
  qed
  have "log_records segs act buf = seg_recs (take k segs) @ seg_recs (drop k segs) @ act @ buf"
    unfolding log_records_def by (metis append.assoc append_take_drop_id concat_append map_append)
  moreover have "filter (\<lambda>r. ?from \<le> lr_lsn r) (seg_recs (take k segs)) = []"
    using skipped by (simp only: filter_empty_conv) blast
  ultimately show ?thesis
    unfolding log_iter_from_def log_iterator_items_def Let_def k pend tail by simp
qed

section \<open>Truncation\<close>

definition log_start :: "log_manager \<Rightarrow> nat" where
  "log_start lm = (case lm_sealed lm of [] \<Rightarrow> lm_active_start lm | (_, s) # _ \<Rightarrow> s)"

lemma log_rep_start:
  assumes "log_rep lm base segs act buf"
  shows "log_start lm = base"
  using log_repD(2,4) [OF assms] by (cases segs) (auto simp: log_start_def)

lemma truncate_keep_segs:
  assumes "segs_at base segs e" and "k = truncate_keep b e (map seg_meta segs)"
  shows "\<exists>m. segs_at base (take k segs) m \<and> segs_at m (drop k segs) e \<and> (0 < k \<longrightarrow> m \<le> b)"
  using assms
proof (induction segs arbitrary: base k)
  case (Cons seg segs)
  obtain i s rs where seg: "seg = (i, s, rs)" by (cases seg)
  have s: "s = base" "recs_at base rs" "segs_at (recs_end base rs) segs e"
    using Cons.prems(1) seg by auto
  have fin: "(case map seg_meta segs of [] \<Rightarrow> e | (_, s) # _ \<Rightarrow> s) = recs_end base rs"
    using s(3) by (cases segs) auto
  show ?case
  proof (cases "recs_end base rs \<le> b")
    case True
    let ?k = "truncate_keep b e (map seg_meta segs)"
    obtain m where m: "segs_at (recs_end base rs) (take ?k segs) m" "segs_at m (drop ?k segs) e"
      "0 < ?k \<longrightarrow> m \<le> b" using Cons.IH [OF s(3)] by blast
    have "m \<le> b" using m True by (cases "?k = 0") auto
    then show ?thesis
      using Cons.prems(2) seg s m fin True by (intro exI [of _ m]) simp
  next
    case False
    then show ?thesis using Cons.prems seg fin by simp
  qed
qed simp

lemma fmlookup_fold_drop:
  "fmlookup (foldl (\<lambda>st i. fmdrop i st) st is) j = (if j \<in> set is then None else fmlookup st j)"
  by (induction "is" arbitrary: st) auto

lemma fmdom_fold_drop: "fset (fmdom (foldl (\<lambda>st i. fmdrop i st) st is)) = fset (fmdom st) - set is"
  by (auto simp: fmlookup_dom_iff fmlookup_fold_drop split: if_splits)

lemma files_rep_drop:
  assumes "files_rep st (A @ B) active"
  shows "files_rep (foldl (\<lambda>st i. fmdrop i st) st (map fst A)) B active"
proof -
  have sep: "fst seg \<notin> fst ` set A" if "seg \<in> set (B @ [active])" for seg
    using assms that by (fastforce simp: files_rep_def sorted_wrt_append)
  then have "fst active \<notin> fst ` set A" "fst ` set B \<inter> fst ` set A = {}" by auto
  then have "fset (fmdom st) - set (map fst A) = set (map fst (B @ [active]))"
    using assms unfolding files_rep_def by auto
  then show ?thesis
    using assms sep unfolding files_rep_def
    by (simp add: fmlookup_fold_drop fmdom_fold_drop sorted_wrt_append)
qed

lemma log_rep_truncate:
  assumes rep: "log_rep lm base segs act buf"
  obtains k base' where "log_rep (truncate_below lm b) base' (drop k segs) act buf"
    "\<And>r. r \<in> set (seg_recs (take k segs)) \<Longrightarrow> lr_lsn r < b"
    "\<And>r. r \<in> set (seg_recs (take k segs)) \<Longrightarrow> unat (lr_lsn r) < base'"
proof -
  note D = log_repD [OF rep]
  let ?k = "truncate_keep (unat b) (lm_active_start lm) (lm_sealed lm)"
  obtain m where m: "segs_at base (take ?k segs) m" "segs_at m (drop ?k segs) (lm_active_start lm)"
    "0 < ?k \<longrightarrow> m \<le> unat b"
    using truncate_keep_segs [OF D(4)] D(2) by metis
  have below: "unat (lr_lsn r) < m" if "r \<in> set (seg_recs (take ?k segs))" for r
    using segs_at_recs [OF m(1)] recs_at_range(2) that by metis
  have files: "files_rep (foldl (\<lambda>st i. fmdrop i st) (lm_store lm) (map fst (take ?k segs)))
      (drop ?k segs) (lm_active_id lm, lm_active_start lm, act)"
    by (rule files_rep_drop) (use D(3) in simp)
  have "HEADER_LEN \<le> m" using segs_at_le [OF m(1)] D(1) by simp
  moreover have "map fst (take ?k (lm_sealed lm)) = map fst (take ?k segs)"
    by (simp add: D(2) take_map split_def)
  ultimately have rep': "log_rep (truncate_below lm b) m (drop ?k segs) act buf"
    using rep m files D(2)
    by (auto simp: truncate_below_def Let_def log_rep_def drop_map)
  show ?thesis
  proof (rule that [OF rep'])
    fix r assume r: "r \<in> set (seg_recs (take ?k segs))"
    then have "0 < ?k" by (cases "?k = 0") auto
    then show "lr_lsn r < b" using below [OF r] m(3) by (simp add: word_less_nat_alt)
    show "unat (lr_lsn r) < m" by (rule below [OF r])
  qed
qed

section \<open>Reopening after a crash\<close>

lemma last_lsns_snoc: "last_lsns (rs @ [r]) = fmupd (lr_txn r) (unat (lr_lsn r)) (last_lsns rs)"
  by (simp add: last_lsns_def)

lemma last_lsns_append: "last_lsns (a @ b) = fmadd (last_lsns a) (last_lsns b)"
proof (induction b rule: rev_induct)
  case Nil
  then show ?case by (simp add: last_lsns_def)
next
  case (snoc r b)
  have "last_lsns (a @ b @ [r]) = fmupd (lr_txn r) (unat (lr_lsn r)) (last_lsns (a @ b))"
    using last_lsns_snoc [of "a @ b" r] by simp
  then show ?case
    using snoc by (intro fmap_ext) (auto simp: last_lsns_snoc)
qed

lemma last_lsns_in: "fmlookup (last_lsns rs) t = Some v \<Longrightarrow> \<exists>r \<in> set rs. lr_txn r = t \<and> v = unat (lr_lsn r)"
  by (induction rs rule: rev_induct) (auto simp: last_lsns_snoc last_lsns_def split: if_splits)

lemma bootstrap_sealed_segs:
  assumes "\<forall>seg \<in> set segs. fmlookup st (fst seg) = Some (segment_bytes (fst (snd seg)) (snd (snd seg)))"
    "segs_at s segs e" "e < 2 ^ 64"
  shows "bootstrap_sealed st (map fst segs) (sealed, lasts, nxt) =
    Inr (sealed @ map seg_meta segs, fmadd lasts (last_lsns (seg_recs segs)),
         if segs = [] then nxt else Some e)"
  using assms
proof (induction segs arbitrary: s sealed lasts nxt)
  case Nil
  then show ?case by (simp add: last_lsns_def)
next
  case (Cons seg segs)
  obtain i st' rs where seg: "seg = (i, st', rs)" by (cases seg)
  have s: "st' = s" "recs_at s rs" "segs_at (recs_end s rs) segs e"
    using Cons.prems(2) seg by auto
  have "s < 2 ^ 64" using Cons.prems(3) segs_at_le [OF s(3)] recs_end_ge [of s rs] by linarith
  then have hdr: "read_segment_header (store_open st i) = Inr s"
    using Cons.prems(1) seg s(1) read_segment_header_eq by (simp add: store_open_def segment_bytes_def)
  have scan: "scan_sealed_segment (store_open st i) s = Inr (recs_end s rs, last_lsns rs)"
    using Cons.prems(1) seg s(1) scan_segment [OF s(2)]
    by (simp add: store_open_def scan_sealed_segment_def scan_decoded_records_def dev_size_def
        segment_bytes_def recs_end_def wal_consts)
  have e: "segs = [] \<Longrightarrow> e = recs_end s rs" using s(3) by simp
  show ?case
    using Cons.IH [OF _ s(3) Cons.prems(3), of "sealed @ [(i, s)]" "fmadd lasts (last_lsns rs)" "Some (recs_end s rs)"]
      Cons.prems(1) e
    by (simp add: seg hdr scan s(1) last_lsns_append)
qed

lemma open_ids:
  assumes "files_rep st segs active"
  shows "sorted_list_of_set (fset (fmdom st)) = map fst (segs @ [active])"
proof -
  have "sorted_wrt (<) (map fst (segs @ [active]))"
    using assms unfolding files_rep_def by blast
  then have "sorted_list_of_set (set (map fst (segs @ [active]))) = map fst (segs @ [active])"
    unfolding strict_sorted_iff by (blast intro: sorted_list_of_set.idem_if_sorted_distinct)
  then show ?thesis using assms unfolding files_rep_def by simp
qed

text \<open>What is left after a crash: the files, with an unfinished write after the last whole record of
  the active segment. The buffer is gone.\<close>

definition crash_store :: "log_manager \<Rightarrow> bytes \<Rightarrow> segment_store" where
  "crash_store lm junk = fmupd (lm_active_id lm) (active_device lm @ junk) (lm_store lm)"

definition torn_tail :: "log_manager \<Rightarrow> bytes \<Rightarrow> bool" where
  "torn_tail lm junk \<longleftrightarrow> decode_record (active_device lm @ junk) (length (active_device lm)) = None"

lemma log_rep_reopen:
  assumes rep: "log_rep lm base segs act buf" and torn: "torn_tail lm junk"
  obtains lm' where "open_with_store (crash_store lm junk) target = Inr lm'"
    "log_rep lm' base segs act []" "lm_last_lsn lm' = last_lsns (log_records segs act [])"
    "lm_next_lsn lm' = lm_durable_lsn lm"
proof -
  note D = log_repD [OF rep]
  let ?i = "lm_active_id lm" and ?s = "lm_active_start lm"
  let ?d = "segment_bytes ?s act"
  have dev: "active_device lm = ?d" by (rule active_device_rep [OF rep])
  have ids: "sorted_list_of_set (fset (fmdom (crash_store lm junk))) = map fst segs @ [?i]"
  proof -
    have "fset (fmdom (crash_store lm junk)) = fset (fmdom (lm_store lm))"
      using D(3) by (auto simp: crash_store_def files_rep_def)
    then show ?thesis using open_ids [OF D(3)] by simp
  qed
  have files: "\<forall>seg \<in> set segs. fmlookup (crash_store lm junk) (fst seg)
      = Some (segment_bytes (fst (snd seg)) (snd (snd seg)))"
    using D(3) files_rep_active_fresh [OF D(3)]
    by (simp add: crash_store_def files_rep_def image_iff)
  have small: "?s < 2 ^ 64"
    using D(9,10) recs_end_ge order_le_less_trans by metis
  have sealed: "bootstrap_sealed (crash_store lm junk) (map fst segs) ([], fmempty, None)
      = Inr (map seg_meta segs, last_lsns (seg_recs segs), if segs = [] then None else Some ?s)"
    using bootstrap_sealed_segs [OF files D(4) small, of "[]" fmempty None] by simp
  have act: "store_open (crash_store lm junk) ?i = ?d @ junk"
    by (simp add: store_open_def crash_store_def dev)
  have scan: "scan_records (?d @ junk) SEGMENT_HEADER_LEN = (act, length ?d)"
    using scan_recs [OF D(5), of "segment_header ?s" junk] torn
    by (simp add: torn_tail_def dev segment_bytes_def wal_consts)
  have hdr: "read_segment_header (?d @ junk) = Inr ?s"
    using read_segment_header_eq [OF small] by (simp add: segment_bytes_def)
  let ?next = "recs_end ?s act"
  let ?lm' = "\<lparr>lm_store = fmupd ?i ?d (crash_store lm junk), lm_target = target,
     lm_sealed = map seg_meta segs, lm_active_id = ?i, lm_active_start = ?s, lm_buffer = [],
     lm_next_lsn = ?next, lm_last_lsn = fmadd (last_lsns (seg_recs segs)) (last_lsns act),
     lm_bytes_appended = 0, lm_durable_lsn = ?next\<rparr>"
  have "open_with_store (crash_store lm junk) target = Inr ?lm'"
    using scan
    by (simp add: open_with_store_def ids bootstrap_def sealed act hdr Let_def dev_size_def
        scan_active_segment_def scan_decoded_records_def dev_set_len_def wal_consts)
      (simp add: segment_bytes_def recs_end_def wal_consts)
  moreover have last: "fmadd (last_lsns (seg_recs segs)) (last_lsns act) = last_lsns (seg_recs segs @ act)"
    by (simp add: last_lsns_append)
  moreover have "log_rep ?lm' base segs act []"
  proof -
    have run: "recs_at base (seg_recs segs @ act)" "recs_end base (seg_recs segs @ act) = ?next"
      using segs_at_recs [OF D(4)] D(5) by simp_all
    have "HEADER_LEN \<le> v \<and> v < ?next"
      if v: "fmlookup (last_lsns (seg_recs segs @ act)) t = Some v" for t v
    proof -
      obtain r where "r \<in> set (seg_recs segs @ act)" "v = unat (lr_lsn r)"
        using last_lsns_in [OF v] by blast
      then show ?thesis using recs_at_range [OF run(1)] run(2) D(1) by fastforce
    qed
    moreover have "files_rep (fmupd ?i ?d (crash_store lm junk)) segs (?i, ?s, act)"
      using files_rep_write_active [OF D(3), of act] by (simp add: crash_store_def)
    moreover have "?next < 2 ^ 64" using D(9,10) recs_end_ge order_le_less_trans by metis
    ultimately show ?thesis using D by (simp add: log_rep_def last)
  qed
  ultimately show ?thesis using that D(6) by (simp add: log_records_def)
qed

text \<open>A crash inside a flush: a prefix of the buffer has reached the file. It consists of whole records
  and of a part of the next one, which does not decode.\<close>

lemma decode_partial_record:
  assumes "wf_rec r" "k < length (rec_bytes r)"
  shows "decode_record (pre @ take k (rec_bytes r)) (length pre) = None"
proof (cases "k < 4")
  case True
  then show ?thesis by (simp add: decode_record_def slice_at_def)
next
  case False
  let ?n = "length (rec_bytes r)"
  have n: "?n = record_len (lr_kind r)" by (simp add: rec_bytes_def length_encode_record)
  have b: "unat (of_nat ?n :: u32) = ?n"
    using assms(1) record_len_bounds [of "lr_kind r"] n by (simp add: wf_rec_def wf_record_def)
  have "take 4 (take k (rec_bytes r)) = u32_le (of_nat ?n)"
    using False n by (simp add: min_def rec_bytes_def encode_record_shape record_prefix_def)
  then show ?thesis using overlong_record_rejected [of "take k (rec_bytes r)" pre] b assms(2) by simp
qed

lemma buffer_prefix:
  assumes "recs_at s buf" "n \<le> length (recs_bytes buf)"
  shows "\<exists>b1 b2 junk. buf = b1 @ b2 \<and> take n (recs_bytes buf) = recs_bytes b1 @ junk \<and>
    (\<forall>pre. decode_record (pre @ junk) (length pre) = None) \<and>
    (\<forall>r \<in> set b2. s + n < unat (lr_lsn r) + length (rec_bytes r))"
  using assms
proof (induction buf arbitrary: s n)
  case Nil
  then show ?case by (intro exI [of _ "[]"]) (simp add: decode_at_end)
next
  case (Cons r buf)
  let ?l = "length (rec_bytes r)"
  have r: "unat (lr_lsn r) = s" "wf_rec r" "recs_at (s + ?l) buf" using Cons.prems(1) by (auto simp: unat_of_nat)
  show ?case
  proof (cases "n < ?l")
    case True
    have "s + n < unat (lr_lsn q) + length (rec_bytes q)" if "q \<in> set (r # buf)" for q
      using that True r(1) recs_at_range(1) [OF r(3), of q] by auto
    then show ?thesis
      using True decode_partial_record [OF r(2) True]
      by (intro exI [of _ "[]"] exI [of _ "r # buf"] exI [of _ "take n (rec_bytes r)"]) simp
  next
    case False
    obtain b1 b2 junk where ih: "buf = b1 @ b2" "take (n - ?l) (recs_bytes buf) = recs_bytes b1 @ junk"
      "\<forall>pre. decode_record (pre @ junk) (length pre) = None"
      "\<forall>r' \<in> set b2. s + ?l + (n - ?l) < unat (lr_lsn r') + length (rec_bytes r')"
      using Cons.IH [OF r(3), of "n - ?l"] Cons.prems(2) le_diff_conv [of n ?l "length (recs_bytes buf)"]
      unfolding recs_bytes_simps length_append add.commute [of ?l] by blast
    then show ?thesis
      using False by (intro exI [of _ "r # b1"] exI [of _ b2] exI [of _ junk]) auto
  qed
qed

lemma log_rep_advance:
  assumes rep: "log_rep lm base segs act (b1 @ b2)"
  shows "log_rep (lm\<lparr>lm_store := fmupd (lm_active_id lm) (active_device lm @ recs_bytes b1) (lm_store lm),
      lm_buffer := recs_bytes b2, lm_durable_lsn := lm_durable_lsn lm + length (recs_bytes b1)\<rparr>) base segs (act @ b1) b2"
proof -
  have "active_device lm @ recs_bytes b1 = segment_bytes (lm_active_start lm) (act @ b1)"
    by (simp add: active_device_rep [OF rep] segment_bytes_def)
  then show ?thesis
    using rep files_rep_write_active [of "lm_store lm" segs "lm_active_id lm" "lm_active_start lm" act "act @ b1"]
    by (auto simp: log_rep_def recs_end_def)
qed

text \<open>A crash inside a segment roll: the new segment's file exists, its header is incomplete.\<close>

definition roll_crash :: "log_manager \<Rightarrow> nat \<Rightarrow> segment_store" where
  "roll_crash lm m = fmupd (lm_active_id lm) (take m (active_device lm)) (lm_store lm)"

lemma log_rep_reopen_roll:
  assumes rep: "log_rep lm base segs [] []" and segs: "segs \<noteq> []" and m: "m < SEGMENT_HEADER_LEN"
  obtains lm' where "open_with_store (roll_crash lm m) target = Inr lm'"
    "log_rep lm' base segs [] []" "lm_last_lsn lm' = last_lsns (log_records segs [] [])"
    "lm_next_lsn lm' = lm_next_lsn lm"
proof -
  note D = log_repD [OF rep]
  let ?i = "lm_active_id lm" and ?s = "lm_active_start lm" and ?st = "roll_crash lm m"
  have dom: "fset (fmdom ?st) = fset (fmdom (lm_store lm))"
    using D(3) by (auto simp: roll_crash_def files_rep_def)
  then have ids: "sorted_list_of_set (fset (fmdom ?st)) = map fst segs @ [?i]" using open_ids [OF D(3)] by simp
  have files: "\<forall>seg \<in> set segs. fmlookup ?st (fst seg) = Some (segment_bytes (fst (snd seg)) (snd (snd seg)))"
    using D(3) files_rep_active_fresh [OF D(3)] by (simp add: roll_crash_def files_rep_def image_iff)
  have nxt: "lm_next_lsn lm = ?s" "?s < 2 ^ 64" using D(9,10) by simp_all
  have sealed: "bootstrap_sealed ?st (map fst segs) ([], fmempty, None)
      = Inr (map seg_meta segs, last_lsns (seg_recs segs), Some ?s)"
    using bootstrap_sealed_segs [OF files D(4) nxt(2), of "[]" fmempty None] segs by simp
  have short: "length (store_open ?st ?i) < SEGMENT_HEADER_LEN" using m by (simp add: store_open_def roll_crash_def)
  let ?lm' = "\<lparr>lm_store = fmupd ?i (segment_header ?s) ?st, lm_target = target,
     lm_sealed = map seg_meta segs, lm_active_id = ?i, lm_active_start = ?s, lm_buffer = [],
     lm_next_lsn = ?s, lm_last_lsn = last_lsns (seg_recs segs), lm_bytes_appended = 0, lm_durable_lsn = ?s\<rparr>"
  have "open_with_store ?st target = Inr ?lm'"
    using short segs by (simp add: open_with_store_def ids bootstrap_def sealed Let_def dev_size_def)
  moreover have "log_rep ?lm' base segs [] []"
  proof -
    have run: "recs_at base (seg_recs segs)" "recs_end base (seg_recs segs) = ?s"
      using segs_at_recs [OF D(4)] by simp_all
    have "HEADER_LEN \<le> v \<and> v < ?s" if v: "fmlookup (last_lsns (seg_recs segs)) t = Some v" for t v
    proof -
      obtain r where "r \<in> set (seg_recs segs)" "v = unat (lr_lsn r)" using last_lsns_in [OF v] by blast
      then show ?thesis using recs_at_range [OF run(1)] run(2) D(1) by fastforce
    qed
    moreover have "files_rep (fmupd ?i (segment_header ?s) ?st) segs (?i, ?s, [])"
      using files_rep_write_active [OF D(3), of "[]"] by (simp add: roll_crash_def segment_bytes_def)
    ultimately show ?thesis using D nxt by (simp add: log_rep_def)
  qed
  ultimately show ?thesis using that nxt by (simp add: log_records_def)
qed

text \<open>The stores a crash can leave, each with the position up to which the log has been written: a
  crash between two operations, with anything undecodable after the last record; a crash inside a
  flush, after \<open>n\<close> bytes of the buffer; a crash inside the roll at the end of a flush, after \<open>m\<close>
  bytes of the new segment's header.\<close>

inductive crash_left :: "log_manager \<Rightarrow> segment_store \<Rightarrow> nat \<Rightarrow> bool" where
  idle: "torn_tail lm junk \<Longrightarrow> crash_left lm (crash_store lm junk) (lm_durable_lsn lm)"
| flushing: "n \<le> length (lm_buffer lm) \<Longrightarrow>
     crash_left lm (crash_store lm (take n (lm_buffer lm))) (lm_durable_lsn lm + n)"
| rolling: "lm_active_id (flush_log lm up_to) \<noteq> lm_active_id lm \<Longrightarrow> m < SEGMENT_HEADER_LEN \<Longrightarrow>
     crash_left lm (roll_crash (flush_log lm up_to) m) (lm_next_lsn lm)"

definition crash_outcome :: "log_manager \<Rightarrow> segment list \<Rightarrow> logged_record list \<Rightarrow> logged_record list \<Rightarrow> nat
    \<Rightarrow> nat \<Rightarrow> log_manager \<Rightarrow> bool" where
  "crash_outcome lm segs act buf base written lm' \<longleftrightarrow>
     (\<exists>segs' act' lost. log_rep lm' base segs' act' [] \<and>
        log_records segs act buf = seg_recs segs' @ act' @ lost \<and>
        lm_last_lsn lm' = last_lsns (seg_recs segs' @ act') \<and>
        lm_durable_lsn lm \<le> lm_next_lsn lm' \<and> lm_next_lsn lm' \<le> written \<and>
        (\<forall>r \<in> set lost. written < unat (lr_lsn r) + length (rec_bytes r)))"

lemma log_rep_crash_flush:
  assumes rep: "log_rep lm base segs act buf" and n: "n \<le> length (lm_buffer lm)"
  shows "\<exists>lm'. open_with_store (crash_store lm (take n (lm_buffer lm))) target = Inr lm' \<and>
    crash_outcome lm segs act buf base (lm_durable_lsn lm + n) lm'"
proof -
  note D = log_repD [OF rep]
  obtain b1 b2 junk where b: "buf = b1 @ b2" "take n (recs_bytes buf) = recs_bytes b1 @ junk"
    "\<forall>pre. decode_record (pre @ junk) (length pre) = None"
    "\<forall>r \<in> set b2. lm_durable_lsn lm + n < unat (lr_lsn r) + length (rec_bytes r)"
    using buffer_prefix [OF D(7), of n] n D(6,8) by auto
  let ?lm1 = "lm\<lparr>lm_store := fmupd (lm_active_id lm) (active_device lm @ recs_bytes b1) (lm_store lm),
      lm_buffer := recs_bytes b2, lm_durable_lsn := lm_durable_lsn lm + length (recs_bytes b1)\<rparr>"
  have rep1: "log_rep ?lm1 base segs (act @ b1) b2" using log_rep_advance rep b(1) by simp
  have dev: "active_device ?lm1 = active_device lm @ recs_bytes b1" by (simp add: active_device_def store_open_def)
  have st: "crash_store ?lm1 junk = crash_store lm (take n (lm_buffer lm))"
    by (simp add: crash_store_def dev D(8) b(2))
  have "torn_tail ?lm1 junk" using b(3) unfolding torn_tail_def by blast
  from log_rep_reopen [OF rep1 this, of target]
  obtain lm' where lm': "open_with_store (crash_store lm (take n (lm_buffer lm))) target = Inr lm'"
    "log_rep lm' base segs (act @ b1) []" "lm_last_lsn lm' = last_lsns (log_records segs (act @ b1) [])"
    "lm_next_lsn lm' = lm_durable_lsn lm + length (recs_bytes b1)"
    unfolding st by auto
  have "length (recs_bytes b1) \<le> n" using arg_cong [OF b(2), of length] n D(8) by simp
  then show ?thesis
    using lm' b(1,4) unfolding crash_outcome_def
    by (intro exI [of _ lm'] conjI exI [of _ segs] exI [of _ "act @ b1"] exI [of _ b2]) (simp_all add: log_records_def)
qed

lemma log_rep_crash_roll:
  assumes rep: "log_rep lm base segs act buf"
    and roll: "lm_active_id (flush_log lm up_to) \<noteq> lm_active_id lm" and m: "m < SEGMENT_HEADER_LEN"
  shows "\<exists>lm'. open_with_store (roll_crash (flush_log lm up_to) m) target = Inr lm' \<and>
    crash_outcome lm segs act buf base (lm_next_lsn lm) lm'"
proof -
  let ?d = "active_device lm"
  let ?lm1 = "lm\<lparr>lm_store := fmupd (lm_active_id lm) (dev_write_at ?d (dev_size ?d) (lm_buffer lm)) (lm_store lm),
                     lm_buffer := [], lm_durable_lsn := lm_next_lsn lm\<rparr>"
  let ?segs = "segs @ [(lm_active_id lm, lm_active_start lm, act @ buf)]"
  have f: "flush_log lm up_to = roll_segment ?lm1"
    using roll by (simp add: flush_log_def Let_def split: if_splits)
  have rep1: "log_rep (flush_log lm up_to) base ?segs [] []"
    using log_rep_roll [OF log_rep_write_buffer [OF rep]] unfolding f by simp
  have nxt: "lm_next_lsn (flush_log lm up_to) = lm_next_lsn lm" by (simp add: f roll_segment_def Let_def)
  obtain lm' where lm': "open_with_store (roll_crash (flush_log lm up_to) m) target = Inr lm'"
    "log_rep lm' base ?segs [] []" "lm_last_lsn lm' = last_lsns (log_records ?segs [] [])"
    "lm_next_lsn lm' = lm_next_lsn lm"
    using log_rep_reopen_roll [OF rep1 _ m, of target] nxt by auto
  have "lm_durable_lsn lm \<le> lm_next_lsn lm" using log_repD(6,9) [OF rep] recs_end_ge by simp
  then show ?thesis
    using lm' unfolding crash_outcome_def
    by (intro exI [of _ lm'] conjI exI [of _ ?segs] exI [of _ "[]"]) (simp_all add: log_records_def)
qed

lemma log_rep_crash:
  assumes rep: "log_rep lm base segs act buf" and crash: "crash_left lm st written"
  shows "\<exists>lm'. open_with_store st target = Inr lm' \<and> crash_outcome lm segs act buf base written lm'"
  using crash
proof cases
  case (idle junk)
  note D = log_repD [OF rep]
  obtain lm' where lm': "open_with_store st target = Inr lm'"
    "log_rep lm' base segs act []" "lm_last_lsn lm' = last_lsns (log_records segs act [])"
    "lm_next_lsn lm' = lm_durable_lsn lm"
    using log_rep_reopen [OF rep idle(3)] unfolding idle(1) by blast
  have "written < unat (lr_lsn r) + length (rec_bytes r)" if "r \<in> set buf" for r
    using recs_at_range(1) [OF D(7) that] D(6) length_rec_bytes [of r] idle(2) by linarith
  then show ?thesis
    using lm' idle(2) unfolding crash_outcome_def
    by (intro exI [of _ lm'] conjI exI [of _ segs] exI [of _ act] exI [of _ buf]) (simp_all add: log_records_def)
next
  case (flushing n)
  then show ?thesis using log_rep_crash_flush [OF rep] by simp
next
  case (rolling up_to m)
  then show ?thesis using log_rep_crash_roll [OF rep] by simp
qed

section \<open>Every run of the log\<close>

lemma open_empty:
  assumes "open_with_store fmempty target = Inr lm"
  shows "log_rep lm HEADER_LEN [] [] []"
proof -
  have "lm = \<lparr>lm_store = fmupd 0 (segment_header HEADER_LEN) fmempty, lm_target = target, lm_sealed = [],
      lm_active_id = 0, lm_active_start = HEADER_LEN, lm_buffer = [], lm_next_lsn = HEADER_LEN,
      lm_last_lsn = fmempty, lm_bytes_appended = 0, lm_durable_lsn = HEADER_LEN\<rparr>"
    using assms by (simp add: open_with_store_def bootstrap_def Let_def store_open_def dev_size_def wal_consts)
  then show ?thesis by (simp add: log_rep_def files_rep_def segment_bytes_def wal_consts)
qed

text \<open>The states a log can be in, with the records it still holds: opened on an empty store, then
  any sequence of appends, flushes, truncations, and crashes followed by reopening.\<close>

inductive log_run :: "log_manager \<Rightarrow> logged_record list \<Rightarrow> bool" where
  create: "open_with_store fmempty target = Inr lm \<Longrightarrow> log_run lm []"
| append: "\<lbrakk>log_run lm rs; append_record lm txn kind = (l, lm');
     length (encode_payload kind) + MIN_RECORD_LEN < 2 ^ 32; lm_next_lsn lm' < 2 ^ 64\<rbrakk>
     \<Longrightarrow> log_run lm' (rs @ [appended_record lm txn kind])"
| flush: "log_run lm rs \<Longrightarrow> log_run (flush_log lm up_to) rs"
| flush_all: "log_run lm rs \<Longrightarrow> log_run (flush_log_all lm) rs"
| truncate: "log_run lm rs \<Longrightarrow> log_run (truncate_below lm b)
     (filter (\<lambda>r. log_start (truncate_below lm b) \<le> unat (lr_lsn r)) rs)"
| reopen: "\<lbrakk>log_run lm rs; crash_left lm st written; open_with_store st target = Inr lm'\<rbrakk>
     \<Longrightarrow> log_run lm' (filter (\<lambda>r. unat (lr_lsn r) < lm_next_lsn lm') rs)"

lemma crash_outcome_records:
  assumes rep: "log_rep lm base segs act buf" and out: "crash_outcome lm segs act buf base written lm'"
  obtains segs' act' where "log_rep lm' base segs' act' []"
    "filter (\<lambda>r. unat (lr_lsn r) < lm_next_lsn lm') (log_records segs act buf) = log_records segs' act' []"
    "lm_durable_lsn lm \<le> lm_next_lsn lm'" "lm_next_lsn lm' \<le> written"
    "\<And>r. r \<in> set (log_records segs act buf) \<Longrightarrow> unat (lr_lsn r) + length (rec_bytes r) \<le> written \<Longrightarrow>
       unat (lr_lsn r) < lm_next_lsn lm'"
proof -
  obtain segs' act' lost where o: "log_rep lm' base segs' act' []" "log_records segs act buf = (seg_recs segs' @ act') @ lost"
    "lm_durable_lsn lm \<le> lm_next_lsn lm'" "lm_next_lsn lm' \<le> written"
    "\<forall>r \<in> set lost. written < unat (lr_lsn r) + length (rec_bytes r)"
    using out unfolding crash_outcome_def by auto
  have run: "recs_at base (seg_recs segs' @ act')" "recs_end base (seg_recs segs' @ act') = lm_next_lsn lm'"
    using log_rep_run [OF o(1)] by (simp_all add: log_records_def)
  have kept: "unat (lr_lsn r) < lm_next_lsn lm'" if "r \<in> set (seg_recs segs' @ act')" for r
    using recs_at_range(2) [OF run(1) that] run(2) by simp
  have "recs_at (lm_next_lsn lm') lost"
    using log_rep_run(1) [OF rep] unfolding o(2) recs_at_append [of base "seg_recs segs' @ act'"] run(2) by blast
  then have gone: "\<not> unat (lr_lsn r) < lm_next_lsn lm'" if "r \<in> set lost" for r
    using recs_at_range(1) that by fastforce
  have "filter (\<lambda>r. unat (lr_lsn r) < lm_next_lsn lm') (log_records segs act buf) = seg_recs segs' @ act'"
    unfolding o(2) filter_append using kept gone by (simp add: filter_id_conv filter_empty_conv)
  moreover have "unat (lr_lsn r) < lm_next_lsn lm'"
    if "r \<in> set (log_records segs act buf)" "unat (lr_lsn r) + length (rec_bytes r) \<le> written" for r
    using that kept o(5) unfolding o(2) by fastforce
  ultimately show thesis using that o(1,3,4) by (simp add: log_records_def)
qed

lemma filter_after_truncate:
  assumes rep: "log_rep lm base (drop k segs) act buf"
    and below: "\<And>r. r \<in> set (seg_recs (take k segs)) \<Longrightarrow> unat (lr_lsn r) < base"
  shows "filter (\<lambda>r. base \<le> unat (lr_lsn r)) (log_records segs act buf) = log_records (drop k segs) act buf"
proof -
  have "log_records segs act buf = seg_recs (take k segs) @ log_records (drop k segs) act buf"
    unfolding log_records_def by (metis append.assoc append_take_drop_id concat_append map_append)
  moreover have "filter (\<lambda>r. base \<le> unat (lr_lsn r)) (seg_recs (take k segs)) = []"
    unfolding filter_empty_conv using below not_le by blast
  moreover have "filter (\<lambda>r. base \<le> unat (lr_lsn r)) (log_records (drop k segs) act buf)
      = log_records (drop k segs) act buf"
    using recs_at_range(1) [OF log_rep_run(1) [OF rep]] by (simp add: filter_id_conv)
  ultimately show ?thesis by simp
qed

lemma log_run_rep:
  "log_run lm rs \<Longrightarrow> \<exists>base segs act buf. log_rep lm base segs act buf \<and> rs = log_records segs act buf"
proof (induction rule: log_run.induct)
  case (create target lm)
  then show ?case using open_empty by (fastforce simp: log_records_def)
next
  case (append lm rs txn kind l lm')
  then obtain base segs act buf where rep: "log_rep lm base segs act buf" "rs = log_records segs act buf"
    by blast
  have "log_rep lm' base segs act (buf @ [appended_record lm txn kind])"
    by (rule log_rep_append(1) [OF rep(1) append.hyps(2-4)])
  then show ?case using rep(2) by (fastforce simp: log_records_def)
next
  case (flush lm rs up_to)
  then show ?case by (metis log_rep_flush)
next
  case (flush_all lm rs)
  show ?case
  proof (cases "lm_buffer lm = []")
    case True
    then show ?thesis using flush_all.IH by (simp add: flush_log_all_def)
  next
    case False
    then have "flush_log_all lm = flush_log lm (of_nat (lm_next_lsn lm))"
      by (simp add: flush_log_all_def)
    then show ?thesis using flush_all.IH log_rep_flush by metis
  qed
next
  case (truncate lm rs b)
  then obtain base segs act buf where rep: "log_rep lm base segs act buf" "rs = log_records segs act buf"
    by blast
  obtain k base' where k: "log_rep (truncate_below lm b) base' (drop k segs) act buf"
    "\<And>r. r \<in> set (seg_recs (take k segs)) \<Longrightarrow> unat (lr_lsn r) < base'"
    using log_rep_truncate [OF rep(1), of b] by metis
  then show ?case using filter_after_truncate [OF k] rep(2) log_rep_start [OF k(1)] by metis
next
  case (reopen lm rs st written target lm')
  then obtain base segs act buf where rep: "log_rep lm base segs act buf" "rs = log_records segs act buf"
    by blast
  have "crash_outcome lm segs act buf base written lm'"
    using log_rep_crash [OF rep(1) reopen.hyps(2), of target] reopen.hyps(3) by auto
  from crash_outcome_records [OF rep(1) this] show ?case using rep(2) by metis
qed

subsection \<open>A small run\<close>

text \<open>A new log; transaction 5 begins, that is flushed, and its commit record is still buffered.\<close>

definition log0 :: log_manager where
  "log0 = \<lparr>lm_store = fmupd 0 (segment_header 16) fmempty, lm_target = 4096, lm_sealed = [],
     lm_active_id = 0, lm_active_start = 16, lm_buffer = [], lm_next_lsn = 16,
     lm_last_lsn = fmempty, lm_bytes_appended = 0, lm_durable_lsn = 16\<rparr>"

definition log1 :: log_manager where "log1 = snd (append_record log0 5 Begin)"
definition log2 :: log_manager where "log2 = flush_log log1 16"
definition log3 :: log_manager where "log3 = snd (append_record log2 5 Commit)"

abbreviation begin5 :: logged_record where
  "begin5 \<equiv> \<lparr>lr_lsn = 16, lr_prev = None, lr_txn = 5, lr_kind = Begin\<rparr>"

abbreviation commit5 :: logged_record where
  "commit5 \<equiv> \<lparr>lr_lsn = 53, lr_prev = Some 16, lr_txn = 5, lr_kind = Commit\<rparr>"

lemma small_record_bytes: "length (rec_bytes begin5) = 37" "length (rec_bytes commit5) = 37"
  by (simp_all add: rec_bytes_def length_encode_record record_len_def MIN_RECORD_LEN_def)

lemma log0_run: "log_run log0 []"
  by (rule log_run.create [of 4096])
    (simp add: log0_def open_with_store_def bootstrap_def Let_def store_open_def dev_size_def wal_consts)

lemma log1_eq:
  "log1 = log0\<lparr>lm_next_lsn := 53, lm_bytes_appended := 37, lm_buffer := rec_bytes begin5,
     lm_last_lsn := fmupd 5 16 fmempty\<rparr>"
  by (simp add: log1_def append_record_eq appended_record_def last_lsn_for_def log0_def
      small_record_bytes)

lemma log2_eq:
  "log2 = log1\<lparr>lm_store := fmupd 0 (segment_header 16 @ rec_bytes begin5) fmempty, lm_buffer := [],
     lm_durable_lsn := 53\<rparr>"
  using dev_write_at_end [of "segment_header 16"]
  by (simp add: log2_def flush_log_def log1_eq Let_def log0_def active_device_def store_open_def
      dev_size_def small_record_bytes wal_consts)

lemma log3_eq:
  "log3 = log2\<lparr>lm_next_lsn := 90, lm_bytes_appended := 74, lm_buffer := rec_bytes commit5,
     lm_last_lsn := fmupd 5 53 (fmupd 5 16 fmempty)\<rparr>"
  by (simp add: log3_def append_record_eq appended_record_def last_lsn_for_def log2_eq log1_eq log0_def
      small_record_bytes)

lemma log3_run: "log_run log3 [begin5, commit5]"
proof -
  have "log_run log1 [appended_record log0 5 Begin]"
    using log_run.append [OF log0_run, of 5 Begin "of_nat (lm_next_lsn log0)" log1]
    by (simp add: log1_def append_record_eq) (simp add: log0_def MIN_RECORD_LEN_def appended_record_def
        last_lsn_for_def small_record_bytes)
  then have 2: "log_run log2 [begin5]"
    using log_run.flush by (simp add: log2_def appended_record_def last_lsn_for_def log0_def)
  have "lm_next_lsn log3 < 2 ^ 64" by (simp add: log3_eq)
  moreover have "append_record log2 5 Commit = (53, log3)"
    by (simp add: log3_def append_record_eq) (simp add: log2_eq log1_eq)
  moreover have "appended_record log2 5 Commit = commit5"
    by (simp add: appended_record_def last_lsn_for_def log2_eq log1_eq)
  ultimately show ?thesis
    using log_run.append [OF 2, of 5 Commit 53 log3] by (simp add: MIN_RECORD_LEN_def)
qed

lemma log3_torn: "torn_tail log3 [1, 2, 3]"
  by (simp add: torn_tail_def decode_record_def slice_at_def)

section \<open>What the log guarantees\<close>

text \<open>C8: Every record the log holds can be read back at its LSN, whichever segment file or buffer it
  is in, after any sequence of appends, flushes, segment rolls, truncations, crashes and
  reopenings.\<close>

theorem log_read_back:
  assumes "log_run lm rs" "r \<in> set rs"
  shows "read_log_at lm (lr_lsn r) = Inr (Some r)"
  using log_run_rep [OF assms(1)] assms(2) log_rep_read by blast

theorem log_read_back_witness: "read_log_at log3 53 = Inr (Some commit5)"
  using log_read_back [OF log3_run, of commit5] by simp

text \<open>C9: The iterator started at an LSN yields, in order and without gap, exactly the held records
  at or after that LSN (an LSN below the first record's position starts at the beginning).\<close>

theorem log_iter_complete:
  assumes "log_run lm rs"
  shows "log_iter_from lm from = filter (\<lambda>r. max from (of_nat HEADER_LEN) \<le> lr_lsn r) rs"
  using log_run_rep [OF assms] log_rep_iter by blast

theorem log_iter_complete_witness: "log_iter_from log3 20 = [commit5]"
  using log_iter_complete [OF log3_run, of 20] by (simp add: wal_consts max_def)

text \<open>C1: Durability. If the process dies at any moment (between two operations with a torn write at
  the end of the log, after any number of bytes of a flush, or inside a segment roll), reopening
  succeeds and the log holds a prefix of the records appended: all those below the durable LSN, also
  every later one whose bytes had been written in full, and none beyond what had been written. When
  no flush was under way these are exactly the records below the durable LSN: nothing that was
  flushed is lost and nothing that was only buffered reappears.\<close>

theorem log_crash_recovery:
  assumes "log_run lm rs" "crash_left lm st written"
  shows "\<exists>lm'. open_with_store st target = Inr lm' \<and>
    log_iter_from lm' 0 = filter (\<lambda>r. unat (lr_lsn r) < lm_next_lsn lm') rs \<and>
    lm_durable_lsn lm \<le> lm_next_lsn lm' \<and> lm_next_lsn lm' \<le> written \<and>
    (\<forall>r \<in> set rs. unat (lr_lsn r) + length (rec_bytes r) \<le> written \<longrightarrow> unat (lr_lsn r) < lm_next_lsn lm')"
proof -
  obtain base segs act buf where rep: "log_rep lm base segs act buf" "rs = log_records segs act buf"
    using log_run_rep [OF assms(1)] by blast
  obtain lm' where lm': "open_with_store st target = Inr lm'" "crash_outcome lm segs act buf base written lm'"
    using log_rep_crash [OF rep(1) assms(2)] by blast
  obtain segs' act' where o: "log_rep lm' base segs' act' []"
    "filter (\<lambda>r. unat (lr_lsn r) < lm_next_lsn lm') rs = log_records segs' act' []"
    "lm_durable_lsn lm \<le> lm_next_lsn lm'" "lm_next_lsn lm' \<le> written"
    "\<And>r. r \<in> set rs \<Longrightarrow> unat (lr_lsn r) + length (rec_bytes r) \<le> written \<Longrightarrow> unat (lr_lsn r) < lm_next_lsn lm'"
    using crash_outcome_records [OF rep(1) lm'(2)] rep(2) by metis
  have "(of_nat HEADER_LEN :: lsn) \<le> lr_lsn r" if "r \<in> set (log_records segs' act' [])" for r
    using recs_at_range(1) [OF log_rep_run(1) [OF o(1)] that] log_repD(1) [OF o(1)]
    by (simp add: word_le_nat_alt wal_consts)
  then have "filter (\<lambda>r. max 0 (of_nat HEADER_LEN) \<le> lr_lsn r) (log_records segs' act' []) = log_records segs' act' []"
    by (simp add: filter_id_conv max_def)
  then have "log_iter_from lm' 0 = log_records segs' act' []" using log_rep_iter [OF o(1), of 0] by simp
  then show ?thesis using lm'(1) o(2-5) by auto
qed

text \<open>The log of the small run crashes with three stray bytes after its last record; and it crashes
  when all but one byte of its buffered record have been written.\<close>

theorem log_crash_recovery_witness:
  "(\<exists>lm'. open_with_store (crash_store log3 [1, 2, 3]) 4096 = Inr lm' \<and>
      log_iter_from lm' 0 = [begin5] \<and> lm_next_lsn lm' = 53) \<and>
   (\<exists>lm'. open_with_store (crash_store log3 (take 36 (lm_buffer log3))) 4096 = Inr lm' \<and>
      begin5 \<in> set (log_iter_from lm' 0) \<and> lm_next_lsn lm' \<le> 89)"
proof -
  have d: "lm_durable_lsn log3 = 53" "36 \<le> length (lm_buffer log3)"
    using small_record_bytes by (simp_all add: log3_eq log2_eq log1_eq)
  show ?thesis
    using log_crash_recovery [OF log3_run crash_left.idle [OF log3_torn], of 4096]
      log_crash_recovery [OF log3_run crash_left.flushing [OF d(2)], of 4096] d(1) log3_torn
    by auto
qed

text \<open>Flushing up to an LSN that has been handed out makes it durable: afterwards the durable LSN
  is beyond it, and no record was added or lost by the flush.\<close>

theorem flush_makes_durable:
  assumes "log_run lm rs" "r \<in> set rs"
  shows "unat (lr_lsn r) < lm_durable_lsn (flush_log lm (lr_lsn r)) \<and> log_run (flush_log lm (lr_lsn r)) rs"
proof -
  obtain base segs act buf where rep: "log_rep lm base segs act buf" "rs = log_records segs act buf"
    using log_run_rep [OF assms(1)] by blast
  have "unat (lr_lsn r) < lm_next_lsn lm"
    using recs_at_range(2) [OF log_rep_run(1) [OF rep(1)]] log_rep_run(2) [OF rep(1)] assms(2) rep(2)
    by metis
  then show ?thesis using log_rep_flush [OF rep(1), of "lr_lsn r"] log_run.flush [OF assms(1)] by metis
qed

theorem flush_makes_durable_witness:
  "53 < lm_durable_lsn (flush_log log3 53) \<and> log_run (flush_log log3 53) [begin5, commit5]"
  using flush_makes_durable [OF log3_run, of commit5] by simp

text \<open>C10: Truncating below a bound keeps every record at or after the bound.\<close>

theorem truncate_keeps_from_bound:
  assumes "log_run lm rs" "r \<in> set rs" "b \<le> lr_lsn r"
  shows "read_log_at (truncate_below lm b) (lr_lsn r) = Inr (Some r)"
proof -
  obtain base segs act buf where rep: "log_rep lm base segs act buf" "rs = log_records segs act buf"
    using log_run_rep [OF assms(1)] by blast
  obtain k base' where k: "log_rep (truncate_below lm b) base' (drop k segs) act buf"
    "\<And>r. r \<in> set (seg_recs (take k segs)) \<Longrightarrow> lr_lsn r < b"
    using log_rep_truncate [OF rep(1), of b] by metis
  have "set (log_records segs act buf) = set (seg_recs (take k segs)) \<union> set (log_records (drop k segs) act buf)"
    unfolding log_records_def by (metis append.assoc append_take_drop_id concat_append map_append set_append)
  moreover have "r \<notin> set (seg_recs (take k segs))" using k(2) assms(3) by (meson not_le)
  ultimately have "r \<in> set (log_records (drop k segs) act buf)" using assms(2) rep(2) by blast
  then show ?thesis by (rule log_rep_read [OF k(1)])
qed

text \<open>A log with segments of 16 bytes: the first record fills the first segment, which truncating
  below 53 removes.\<close>

definition rolled0 :: log_manager where "rolled0 = log0\<lparr>lm_target := 16\<rparr>"
definition rolled1 :: log_manager where "rolled1 = flush_log (snd (append_record rolled0 5 Begin)) 16"
definition rolled2 :: log_manager where "rolled2 = snd (append_record rolled1 5 Commit)"

lemma rolled_eq:
  "lm_sealed rolled1 = [(0, 16)]" "lm_next_lsn rolled1 = 53" "lm_last_lsn rolled1 = fmupd 5 16 fmempty"
  "lm_active_start rolled1 = 53" "lm_sealed rolled2 = [(0, 16)]" "lm_active_start rolled2 = 53"
  "appended_record rolled0 5 Begin = begin5" "appended_record rolled1 5 Commit = commit5"
proof -
  show b: "appended_record rolled0 5 Begin = begin5"
    by (simp add: appended_record_def rolled0_def log0_def last_lsn_for_def)
  show *: "lm_sealed rolled1 = [(0, 16)]" "lm_next_lsn rolled1 = 53" "lm_last_lsn rolled1 = fmupd 5 16 fmempty"
    "lm_active_start rolled1 = 53"
    unfolding rolled1_def append_record_eq b
    by (simp_all add: flush_log_def roll_segment_def Let_def rolled0_def log0_def dev_size_def
        active_device_def store_open_def dev_write_at_end wal_consts small_record_bytes)
  then show "appended_record rolled1 5 Commit = commit5" by (simp add: appended_record_def last_lsn_for_def)
  show "lm_sealed rolled2 = [(0, 16)]" "lm_active_start rolled2 = 53" by (simp_all add: rolled2_def append_record_eq *)
qed

lemma rolled_run: "log_run rolled2 [begin5, commit5]"
proof -
  have "open_with_store fmempty 16 = Inr rolled0"
    by (simp add: rolled0_def log0_def open_with_store_def bootstrap_def Let_def store_open_def dev_size_def wal_consts)
  then have 0: "log_run rolled0 []" by (rule log_run.create)
  have "log_run (snd (append_record rolled0 5 Begin)) ([] @ [appended_record rolled0 5 Begin])"
    by (rule log_run.append [OF 0 prod.collapse [symmetric]])
      (simp_all add: MIN_RECORD_LEN_def append_record_eq rolled_eq small_record_bytes, simp add: rolled0_def log0_def)
  then have 1: "log_run rolled1 [begin5]" unfolding rolled1_def by (intro log_run.flush) (simp add: rolled_eq)
  have "log_run rolled2 ([begin5] @ [appended_record rolled1 5 Commit])"
    unfolding rolled2_def by (rule log_run.append [OF 1 prod.collapse [symmetric]])
      (simp_all add: MIN_RECORD_LEN_def append_record_eq rolled_eq small_record_bytes)
  then show ?thesis by (simp add: rolled_eq)
qed

theorem truncate_keeps_from_bound_witness:
  "lm_sealed rolled2 \<noteq> [] \<and> lm_sealed (truncate_below rolled2 53) = []
    \<and> read_log_at (truncate_below rolled2 53) 53 = Inr (Some commit5)"
  using truncate_keeps_from_bound [OF rolled_run, of commit5 53]
  by (simp add: truncate_below_def rolled_eq Let_def)

end
