(* ===== verification/Lock_Manager.thy ===== *)
theory Lock_Manager
  imports Wal_Record "HOL-Library.Finite_Map"
begin

text \<open>
  Strict two-phase locking of \<open>txn/src/lock_manager.rs\<close>. One call of \<open>acquire\<close> is a loop whose
  iterations each run under the state mutex and either finish the call or park the thread on the
  condition variable; an iteration is one atomic step here, and the interleavings of all threads
  are the runs of \<open>lock_step\<close>. A \<open>HashSet\<close> of resources is a distinct list whose order is the
  iteration order.
\<close>

datatype lock_mode = Shared | Exclusive

fun conflicts_with :: "lock_mode \<Rightarrow> lock_mode \<Rightarrow> bool" where
  "conflicts_with Shared Shared = False"
| "conflicts_with _ _ = True"

datatype resource = Row rid | Table table_id

record lock_state =
  holders :: "(resource, (txn_id \<times> lock_mode) list) fmap"
  held_by :: "(txn_id, resource list) fmap"
  waiting_for :: "(txn_id, resource \<times> lock_mode) fmap"
  finished :: "txn_id set"

definition lock_state_new :: lock_state where
  "lock_state_new = \<lparr>holders = fmempty, held_by = fmempty, waiting_for = fmempty, finished = {}\<rparr>"

definition holders_of :: "lock_state \<Rightarrow> resource \<Rightarrow> (txn_id \<times> lock_mode) list" where
  "holders_of st r = (case fmlookup (holders st) r of None \<Rightarrow> [] | Some hs \<Rightarrow> hs)"

definition conflicting_holders ::
  "lock_state \<Rightarrow> resource \<Rightarrow> lock_mode \<Rightarrow> txn_id \<Rightarrow> txn_id list" where
  "conflicting_holders st r mode exclude =
     map fst (filter (\<lambda>(t, held). t \<noteq> exclude \<and> conflicts_with held mode) (holders_of st r))"

definition successors :: "lock_state \<Rightarrow> txn_id \<Rightarrow> txn_id list" where
  "successors st t =
     (case fmlookup (waiting_for st) t of
        None \<Rightarrow> []
      | Some (r, mode) \<Rightarrow> conflicting_holders st r mode t)"

section \<open>Deadlock detection\<close>

definition all_holders :: "lock_state \<Rightarrow> txn_id set" where
  "all_holders st = (\<Union>hs \<in> fset (fmran (holders st)). fst ` set hs)"

lemma finite_all_holders [simp]: "finite (all_holders st)"
  by (simp add: all_holders_def)

lemma successors_in_holders: "set (successors st t) \<subseteq> all_holders st"
proof -
  have "fst ` set (holders_of st r) \<subseteq> all_holders st" for r
  proof (cases "fmlookup (holders st) r")
    case (Some hs)
    then have "hs \<in> fset (fmran (holders st))" by (metis fmranI)
    then show ?thesis using Some by (auto simp: all_holders_def holders_of_def)
  qed (simp add: holders_of_def)
  then show ?thesis
    by (fastforce simp: successors_def conflicting_holders_def split: option.splits)
qed

text \<open>The loop of \<open>would_deadlock\<close>; the vector's end, where it pushes and pops, is the head of
  the list.\<close>

function deadlock_search :: "lock_state \<Rightarrow> txn_id \<Rightarrow> txn_id set \<Rightarrow> txn_id list \<Rightarrow> bool" where
  "deadlock_search st start visited [] = False"
| "deadlock_search st start visited (t # stack) =
     (if t = start then True
      else if t \<in> visited then deadlock_search st start visited stack
      else deadlock_search st start (insert t visited) (rev (successors st t) @ stack))"
  by pat_completeness auto

termination
proof (relation "measures [\<lambda>(st, _, visited, stack). card ((set stack \<union> all_holders st) - visited),
    \<lambda>(_, _, _, stack). length stack]", goal_cases)
  case (2 st start visited t stack)
  have "card ((set stack \<union> all_holders st) - visited)
      \<le> card ((set (t # stack) \<union> all_holders st) - visited)"
    by (intro card_mono) auto
  then show ?case by auto
next
  case (3 st start visited t stack)
  have "(set (rev (successors st t) @ stack) \<union> all_holders st) - insert t visited
      \<subset> (set (t # stack) \<union> all_holders st) - visited"
    using 3 successors_in_holders [of st t] by auto
  then have "card ((set (rev (successors st t) @ stack) \<union> all_holders st) - insert t visited)
      < card ((set (t # stack) \<union> all_holders st) - visited)"
    by (intro psubset_card_mono) simp_all
  then show ?case by simp
qed simp

definition would_deadlock :: "lock_state \<Rightarrow> txn_id \<Rightarrow> txn_id list \<Rightarrow> bool" where
  "would_deadlock st start blockers = deadlock_search st start {} (rev blockers)"

section \<open>Operations\<close>

datatype acquire_outcome = Granted | DeadlockVictim | Blocked

text \<open>One iteration of the loop of \<open>acquire\<close>.\<close>

definition acquire_iteration ::
  "lock_state \<Rightarrow> txn_id \<Rightarrow> resource \<Rightarrow> lock_mode \<Rightarrow> acquire_outcome \<times> lock_state" where
  "acquire_iteration st0 t r mode =
     (let st = st0\<lparr>waiting_for := fmdrop t (waiting_for st0)\<rparr>;
          held_mode = map_option snd (find (\<lambda>(h, _). h = t) (holders_of st r))
      in if held_mode = Some Exclusive \<or> held_mode = Some mode then (Granted, st)
         else let blockers = conflicting_holders st r mode t in
           if blockers = [] then
             (Granted,
              st\<lparr>holders := fmupd r (filter (\<lambda>(h, _). h \<noteq> t) (holders_of st r) @ [(t, mode)])
                              (holders st),
                 held_by := fmupd t (List.insert r (case fmlookup (held_by st) t of
                                                      None \<Rightarrow> [] | Some rs \<Rightarrow> rs)) (held_by st)\<rparr>)
           else if would_deadlock st t blockers then (DeadlockVictim, st)
           else (Blocked, st\<lparr>waiting_for := fmupd t (r, mode) (waiting_for st)\<rparr>))"

text \<open>A call of \<open>acquire\<close> up to its first wait; \<open>None\<close> is the error \<open>LockAfterUnlock\<close>.\<close>

definition acquire_entry ::
  "lock_state \<Rightarrow> txn_id \<Rightarrow> resource \<Rightarrow> lock_mode \<Rightarrow> (acquire_outcome \<times> lock_state) option" where
  "acquire_entry st t r mode =
     (if t \<in> finished st then None else Some (acquire_iteration st t r mode))"

text \<open>The deadline has passed when the iteration is about to wait.\<close>

definition give_up :: "lock_state \<Rightarrow> txn_id \<Rightarrow> lock_state" where
  "give_up st t = st\<lparr>waiting_for := fmdrop t (waiting_for st)\<rparr>"

definition release_one :: "txn_id \<Rightarrow> (resource, (txn_id \<times> lock_mode) list) fmap \<Rightarrow> resource
    \<Rightarrow> (resource, (txn_id \<times> lock_mode) list) fmap" where
  "release_one t hm r =
     (case fmlookup hm r of
        None \<Rightarrow> hm
      | Some hs \<Rightarrow>
          let hs' = filter (\<lambda>(h, _). h \<noteq> t) hs
          in if hs' = [] then fmdrop r hm else fmupd r hs' hm)"

definition release_all :: "lock_state \<Rightarrow> txn_id \<Rightarrow> lock_state" where
  "release_all st t =
     st\<lparr>holders := (case fmlookup (held_by st) t of
                      None \<Rightarrow> holders st
                    | Some rs \<Rightarrow> foldl (release_one t) (holders st) rs),
        held_by := fmdrop t (held_by st),
        waiting_for := fmdrop t (waiting_for st),
        finished := insert t (finished st)\<rparr>"

definition prune_finished :: "lock_state \<Rightarrow> txn_id \<Rightarrow> lock_state" where
  "prune_finished st watermark = st\<lparr>finished := {t \<in> finished st. watermark \<le> t}\<rparr>"

section \<open>The search decides reachability in the waits-for graph\<close>

definition waits_for :: "lock_state \<Rightarrow> (txn_id \<times> txn_id) set" where
  "waits_for st = {(t, h). h \<in> set (successors st t)}"

lemma waits_for_iff: "(t, h) \<in> waits_for st \<longleftrightarrow> h \<in> set (successors st t)"
  by (simp add: waits_for_def)

lemma reach_leaves_closed:
  assumes "(v, goal) \<in> R\<^sup>*" "v \<in> A" "goal \<notin> A" "\<And>u w. u \<in> A \<Longrightarrow> (u, w) \<in> R \<Longrightarrow> w \<in> A \<union> B"
  shows "\<exists>b \<in> B. (b, goal) \<in> R\<^sup>*"
  using assms(1,2)
proof (induction rule: converse_rtrancl_induct)
  case base
  then show ?case using assms(3) by simp
next
  case (step u w)
  then show ?case using assms(4) [of u w] by blast
qed

lemma deadlock_search_iff:
  assumes "start \<notin> visited"
    "\<And>u w. u \<in> visited \<Longrightarrow> (u, w) \<in> waits_for st \<Longrightarrow> w \<in> visited \<union> set stack"
  shows "deadlock_search st start visited stack
    \<longleftrightarrow> (\<exists>s \<in> set stack. (s, start) \<in> (waits_for st)\<^sup>*)"
  using assms
proof (induction st start visited stack rule: deadlock_search.induct)
  case (2 st start visited t stack)
  consider "t = start" | "t \<noteq> start" "t \<in> visited" | "t \<noteq> start" "t \<notin> visited" by blast
  then show ?case
  proof cases
    case 2
    have "(\<exists>s \<in> set stack. (s, start) \<in> (waits_for st)\<^sup>*)" if "(t, start) \<in> (waits_for st)\<^sup>*"
      by (rule reach_leaves_closed [OF that 2(2)]) (use "2.prems" 2 in auto)
    moreover have "deadlock_search st start visited stack
        \<longleftrightarrow> (\<exists>s \<in> set stack. (s, start) \<in> (waits_for st)\<^sup>*)"
      by (rule "2.IH"(1)) (use "2.prems" 2 in auto)
    ultimately show ?thesis using 2 by auto
  next
    case 3
    have "deadlock_search st start (insert t visited) (rev (successors st t) @ stack)
        \<longleftrightarrow> (\<exists>s \<in> set (rev (successors st t) @ stack). (s, start) \<in> (waits_for st)\<^sup>*)"
      by (rule "2.IH"(2)) (use "2.prems" 3 in \<open>auto simp: waits_for_iff\<close>)
    moreover have "(t, start) \<in> (waits_for st)\<^sup>*
        \<longleftrightarrow> (\<exists>s \<in> set (successors st t). (s, start) \<in> (waits_for st)\<^sup>*)"
    proof
      assume "(t, start) \<in> (waits_for st)\<^sup>*"
      then show "\<exists>s \<in> set (successors st t). (s, start) \<in> (waits_for st)\<^sup>*"
        by (cases rule: converse_rtranclE) (use 3(1) in \<open>auto simp: waits_for_iff\<close>)
    qed (auto simp: waits_for_iff intro: converse_rtrancl_into_rtrancl)
    ultimately show ?thesis using 3 by auto
  qed simp
qed simp

lemma would_deadlock_iff:
  "would_deadlock st start blockers \<longleftrightarrow> (\<exists>b \<in> set blockers. (b, start) \<in> (waits_for st)\<^sup>*)"
  unfolding would_deadlock_def by (subst deadlock_search_iff) simp_all

text \<open>C13: The deadlock check answers true exactly when waiting on the given holders would close a
  cycle, that is when one of them already waits, directly or through others, for the
  requester.\<close>

theorem would_deadlock_iff_cycle:
  "would_deadlock st start blockers \<longleftrightarrow> (\<exists>b \<in> set blockers. (b, start) \<in> (waits_for st)\<^sup>*)"
  by (rule would_deadlock_iff)

section \<open>Invariants of the lock table\<close>

definition held_list :: "lock_state \<Rightarrow> txn_id \<Rightarrow> resource list" where
  "held_list st t = (case fmlookup (held_by st) t of None \<Rightarrow> [] | Some rs \<Rightarrow> rs)"

definition holds :: "lock_state \<Rightarrow> txn_id \<Rightarrow> resource \<Rightarrow> lock_mode \<Rightarrow> bool" where
  "holds st t r m \<longleftrightarrow> (t, m) \<in> set (holders_of st r)"

definition compatible :: "lock_state \<Rightarrow> bool" where
  "compatible st \<longleftrightarrow> (\<forall>r. distinct (map fst (holders_of st r))) \<and>
     (\<forall>r t m t' m'. holds st t r m \<longrightarrow> holds st t' r m' \<longrightarrow> t \<noteq> t' \<longrightarrow> \<not> conflicts_with m m')"

definition indexed :: "lock_state \<Rightarrow> bool" where
  "indexed st \<longleftrightarrow> (\<forall>t r. r \<in> set (held_list st t) \<longleftrightarrow> t \<in> fst ` set (holders_of st r))"

definition released :: "lock_state \<Rightarrow> bool" where
  "released st \<longleftrightarrow> (\<forall>t \<in> finished st. held_list st t = [] \<and> fmlookup (waiting_for st) t = None)"

definition lock_inv :: "lock_state \<Rightarrow> bool" where
  "lock_inv st \<longleftrightarrow> compatible st \<and> indexed st \<and> acyclic (waits_for st) \<and> released st"

lemmas lock_inv_defs = lock_inv_def compatible_def indexed_def released_def holds_def

lemma conflicts_with_sym: "conflicts_with m m' = conflicts_with m' m"
  by (cases m; cases m') auto

lemma lock_inv_new: "lock_inv lock_state_new"
  by (simp add: lock_inv_defs lock_state_new_def holders_of_def held_list_def waits_for_def
      successors_def acyclic_def)

subsection \<open>Dropping a wait\<close>

definition unwait :: "lock_state \<Rightarrow> txn_id \<Rightarrow> lock_state" where
  "unwait st t = st\<lparr>waiting_for := fmdrop t (waiting_for st)\<rparr>"

lemma unwait_simps [simp]:
  "holders_of (unwait st t) r = holders_of st r"
  "held_list (unwait st t) u = held_list st u"
  "finished (unwait st t) = finished st"
  "holders (unwait st t) = holders st"
  "held_by (unwait st t) = held_by st"
  "fmlookup (waiting_for (unwait st t)) u = (if u = t then None else fmlookup (waiting_for st) u)"
  "conflicting_holders (unwait st t) r m u = conflicting_holders st r m u"
  by (simp_all add: unwait_def holders_of_def held_list_def conflicting_holders_def)

lemma successors_unwait [simp]:
  "successors (unwait st t) u = (if u = t then [] else successors st u)"
  by (simp add: successors_def split: option.split)

lemma waits_for_unwait: "waits_for (unwait st t) = {(u, h) \<in> waits_for st. u \<noteq> t}"
  by (auto simp: waits_for_def split: if_splits)

lemma lock_inv_unwait: "lock_inv st \<Longrightarrow> lock_inv (unwait st t)"
  by (auto simp: lock_inv_defs waits_for_unwait elim: acyclic_subset)

lemma give_up_unwait: "give_up st t = unwait st t"
  by (simp add: give_up_def unwait_def)

subsection \<open>Granting\<close>

definition grant :: "lock_state \<Rightarrow> txn_id \<Rightarrow> resource \<Rightarrow> lock_mode \<Rightarrow> lock_state" where
  "grant st t r mode =
     st\<lparr>holders := fmupd r (filter (\<lambda>(h, _). h \<noteq> t) (holders_of st r) @ [(t, mode)]) (holders st),
        held_by := fmupd t (List.insert r (held_list st t)) (held_by st)\<rparr>"

lemma grant_simps [simp]:
  "holders_of (grant st t r mode) r' =
     (if r' = r then filter (\<lambda>(h, _). h \<noteq> t) (holders_of st r) @ [(t, mode)] else holders_of st r')"
  "held_list (grant st t r mode) u =
     (if u = t then List.insert r (held_list st t) else held_list st u)"
  "finished (grant st t r mode) = finished st"
  "waiting_for (grant st t r mode) = waiting_for st"
  by (simp_all add: grant_def holders_of_def held_list_def)

lemma fst_filter_other: "fst ` set (filter (\<lambda>(h, _). h \<noteq> t) hs) = fst ` set hs - {t}"
  by force

lemma conflicting_holders_nil:
  "conflicting_holders st r mode t = [] \<longleftrightarrow>
     (\<forall>u m. holds st u r m \<longrightarrow> u \<noteq> t \<longrightarrow> \<not> conflicts_with m mode)"
  by (auto simp: conflicting_holders_def holds_def filter_empty_conv)

lemma waits_for_grant:
  "waits_for (grant st t r mode) \<subseteq> waits_for st \<union> (UNIV \<times> {t})"
  by (auto simp: waits_for_def successors_def conflicting_holders_def split: option.splits if_splits)

lemma acyclic_into_sink:
  assumes "acyclic R" "S \<subseteq> R \<union> (UNIV \<times> {t})" "\<And>h. (t, h) \<notin> S"
  shows "acyclic S"
proof -
  have "(a, b) \<in> R\<^sup>+ \<or> b = t" if "(a, b) \<in> S\<^sup>+" for a b
    using that
  proof (induction rule: trancl_induct)
    case (base y)
    then show ?case using assms(2) by auto
  next
    case (step y z)
    then have "y \<noteq> t" using assms(3) by auto
    moreover have "(y, z) \<in> R \<or> z = t" using step.hyps(2) assms(2) by auto
    ultimately show ?case using step.IH by (auto intro: trancl_into_trancl)
  qed
  moreover have "(t, b) \<notin> S\<^sup>+" for b
    using assms(3) by (meson tranclD)
  ultimately show ?thesis using assms(1) unfolding acyclic_def by metis
qed

lemma lock_inv_grant:
  assumes inv: "lock_inv st" and idle: "fmlookup (waiting_for st) t = None"
    and free: "conflicting_holders st r mode t = []" and live: "t \<notin> finished st"
  shows "lock_inv (grant st t r mode)"
proof -
  have "compatible (grant st t r mode)"
  proof -
    have d: "distinct (map fst (holders_of st r))" for r
      using inv by (simp add: lock_inv_defs)
    have "distinct (map fst (filter (\<lambda>(h, _). h \<noteq> t) (holders_of st r) @ [(t, mode)]))"
      using d [of r] by (auto simp: distinct_map_filter)
    moreover have "\<not> conflicts_with m m'"
      if "holds (grant st t r mode) u r' m" "holds (grant st t r mode) u' r' m'" "u \<noteq> u'"
      for u r' m u' m'
      using that inv free
      by (auto simp: lock_inv_defs conflicting_holders_nil split: if_splits)
        (metis conflicts_with_sym)+
    ultimately show ?thesis using d by (simp add: compatible_def)
  qed
  moreover have "indexed (grant st t r mode)"
    using inv unfolding lock_inv_def indexed_def
    by (simp add: image_Un fst_filter_other del: set_filter)
  moreover have "acyclic (waits_for (grant st t r mode))"
    by (rule acyclic_into_sink [OF _ waits_for_grant])
      (use inv idle in \<open>auto simp: lock_inv_def waits_for_def successors_def\<close>)
  moreover have "released (grant st t r mode)"
    using inv live by (auto simp: lock_inv_defs)
  ultimately show ?thesis by (simp add: lock_inv_def)
qed

subsection \<open>Waiting\<close>

definition enqueue :: "lock_state \<Rightarrow> txn_id \<Rightarrow> resource \<Rightarrow> lock_mode \<Rightarrow> lock_state" where
  "enqueue st t r mode = st\<lparr>waiting_for := fmupd t (r, mode) (waiting_for st)\<rparr>"

lemma enqueue_simps [simp]:
  "holders_of (enqueue st t r mode) r' = holders_of st r'"
  "held_list (enqueue st t r mode) u = held_list st u"
  "finished (enqueue st t r mode) = finished st"
  "fmlookup (waiting_for (enqueue st t r mode)) u =
     (if u = t then Some (r, mode) else fmlookup (waiting_for st) u)"
  "conflicting_holders (enqueue st t r mode) r' m u = conflicting_holders st r' m u"
  by (simp_all add: enqueue_def holders_of_def held_list_def conflicting_holders_def)

lemma successors_enqueue [simp]:
  "successors (enqueue st t r mode) u =
     (if u = t then conflicting_holders st r mode t else successors st u)"
  by (simp add: successors_def split: option.split)

lemma acyclic_add_source:
  assumes "acyclic R" "\<And>b. b \<in> B \<Longrightarrow> (b, t) \<notin> R\<^sup>*"
  shows "acyclic (R \<union> {t} \<times> B)"
proof -
  have reach: "(a, c) \<in> R\<^sup>* \<or> (\<exists>b \<in> B. (a, t) \<in> R\<^sup>* \<and> (b, c) \<in> R\<^sup>*)"
    if "(a, c) \<in> (R \<union> {t} \<times> B)\<^sup>*" for a c
    using that
  proof (induction rule: rtrancl_induct)
    case (step y z)
    then show ?case
    proof (cases "(y, z) \<in> R")
      case True
      then show ?thesis using step.IH by (meson rtrancl.rtrancl_into_rtrancl)
    next
      case False
      then have "y = t" "z \<in> B" using step.hyps by auto
      then show ?thesis using step.IH assms(2) by blast
    qed
  qed simp
  show ?thesis unfolding acyclic_def
  proof (intro allI notI)
    fix x assume "(x, x) \<in> (R \<union> {t} \<times> B)\<^sup>+"
    then obtain y where xy: "(x, y) \<in> R \<union> {t} \<times> B" "(y, x) \<in> (R \<union> {t} \<times> B)\<^sup>*"
      by (meson tranclD)
    show False
    proof (cases "(x, y) \<in> R")
      case True
      then show False using reach [OF xy(2)] assms
        by (metis acyclic_def rtrancl_into_trancl2 rtrancl_trans r_into_rtrancl)
    next
      case False
      then have "x = t" "y \<in> B" using xy(1) by auto
      then show False using reach [OF xy(2)] assms(2) by blast
    qed
  qed
qed

lemma lock_inv_enqueue:
  assumes inv: "lock_inv st" and live: "t \<notin> finished st" and idle: "fmlookup (waiting_for st) t = None"
    and safe: "\<not> would_deadlock st t (conflicting_holders st r mode t)"
  shows "lock_inv (enqueue st t r mode)"
proof -
  have "waits_for (enqueue st t r mode)
      = waits_for st \<union> {t} \<times> set (conflicting_holders st r mode t)"
    using idle by (auto simp: waits_for_def successors_def [of st t] split: if_splits)
  moreover have "acyclic \<dots>"
    by (rule acyclic_add_source)
      (use inv safe in \<open>auto simp: lock_inv_def would_deadlock_iff\<close>)
  ultimately show ?thesis using inv live by (auto simp: lock_inv_defs)
qed

subsection \<open>Releasing\<close>

lemma lookup_release_one:
  "(case fmlookup (release_one t hm r) r' of None \<Rightarrow> [] | Some hs \<Rightarrow> hs) =
     (let old = (case fmlookup hm r' of None \<Rightarrow> [] | Some hs \<Rightarrow> hs)
      in if r' = r then filter (\<lambda>(h, _). h \<noteq> t) old else old)"
  by (auto simp: release_one_def Let_def split: option.split)

lemma lookup_release_fold:
  "(case fmlookup (foldl (release_one t) hm rs) r of None \<Rightarrow> [] | Some hs \<Rightarrow> hs) =
     (let old = (case fmlookup hm r of None \<Rightarrow> [] | Some hs \<Rightarrow> hs)
      in if r \<in> set rs then filter (\<lambda>(h, _). h \<noteq> t) old else old)"
proof (induction rs arbitrary: hm)
  case (Cons r' rs)
  show ?case
    unfolding foldl_Cons Cons.IH lookup_release_one by (auto simp: Let_def split_def)
qed simp

lemma holders_of_release_all:
  assumes "indexed st"
  shows "holders_of (release_all st t) r = filter (\<lambda>(h, _). h \<noteq> t) (holders_of st r)"
proof -
  have "holders_of (release_all st t) r =
      (if r \<in> set (held_list st t) then filter (\<lambda>(h, _). h \<noteq> t) (holders_of st r) else holders_of st r)"
    unfolding holders_of_def release_all_def held_list_def
    by (cases "fmlookup (held_by st) t") (simp_all add: lookup_release_fold Let_def)
  moreover have "filter (\<lambda>(h, _). h \<noteq> t) (holders_of st r) = holders_of st r"
    if "r \<notin> set (held_list st t)"
    using that assms by (force simp: indexed_def filter_id_conv)
  ultimately show ?thesis by simp
qed

lemma release_all_simps [simp]:
  "held_list (release_all st t) u = (if u = t then [] else held_list st u)"
  "finished (release_all st t) = insert t (finished st)"
  "fmlookup (waiting_for (release_all st t)) u = (if u = t then None else fmlookup (waiting_for st) u)"
  by (simp_all add: release_all_def held_list_def)

lemma lock_inv_release_all:
  assumes inv: "lock_inv st"
  shows "lock_inv (release_all st t)"
proof -
  have ix: "indexed st" using inv by (simp add: lock_inv_def)
  note h = holders_of_release_all [OF ix, of t]
  have "compatible (release_all st t)"
    using inv by (auto simp: lock_inv_defs h distinct_map_filter)
  moreover have "indexed (release_all st t)"
    using ix unfolding indexed_def by (simp add: h fst_filter_other del: set_filter)
  moreover have "waits_for (release_all st t) \<subseteq> waits_for st"
    by (fastforce simp: waits_for_def successors_def conflicting_holders_def h
        split: option.splits if_splits)
  then have "acyclic (waits_for (release_all st t))"
    using inv acyclic_subset by (auto simp: lock_inv_def)
  moreover have "released (release_all st t)"
    using inv by (auto simp: lock_inv_defs)
  ultimately show ?thesis by (simp add: lock_inv_def)
qed

lemma lock_inv_prune: "lock_inv st \<Longrightarrow> lock_inv (prune_finished st w)"
  by (auto simp: lock_inv_defs prune_finished_def holders_of_def held_list_def waits_for_def
      successors_def conflicting_holders_def)

subsection \<open>One iteration of acquire\<close>

lemma acquire_iteration_eq:
  "acquire_iteration st t r mode =
     (let st = unwait st t;
          held_mode = map_option snd (find (\<lambda>(h, _). h = t) (holders_of st r))
      in if held_mode = Some Exclusive \<or> held_mode = Some mode then (Granted, st)
         else let blockers = conflicting_holders st r mode t in
           if blockers = [] then (Granted, grant st t r mode)
           else if would_deadlock st t blockers then (DeadlockVictim, st)
           else (Blocked, enqueue st t r mode))"
  by (simp only: acquire_iteration_def unwait_def grant_def enqueue_def held_list_def Let_def)

lemma lock_inv_acquire:
  assumes "lock_inv st" "t \<notin> finished st" "acquire_iteration st t r mode = (out, st')"
  shows "lock_inv st'"
  using assms lock_inv_unwait [of st t]
  by (auto simp: acquire_iteration_eq Let_def intro: lock_inv_grant lock_inv_enqueue
      split: if_splits)

lemma acquire_waiting:
  assumes "acquire_iteration st t r mode = (out, st')"
  shows "fmlookup (waiting_for st') u =
    (if u = t then (if out = Blocked then Some (r, mode) else None) else fmlookup (waiting_for st) u)"
  using assms by (auto simp: acquire_iteration_eq Let_def split: if_splits)

lemma acquire_finished: "acquire_iteration st t r mode = (out, st') \<Longrightarrow> finished st' = finished st"
  by (auto simp: acquire_iteration_eq Let_def split: if_splits)

text \<open>What a successful call gives the caller: the mode asked for, or a stronger one.\<close>

lemma find_SomeD: "find P xs = Some x \<Longrightarrow> x \<in> set xs \<and> P x"
  by (auto simp: find_Some_iff)

lemma acquire_granted:
  assumes "acquire_iteration st t r mode = (Granted, st')"
  shows "holds st' t r mode \<or> holds st' t r Exclusive"
  using assms
  by (auto simp: acquire_iteration_eq Let_def holds_def split: if_splits dest!: find_SomeD)

section \<open>All interleavings\<close>

text \<open>The threads parked on the condition variable, with the request each will retry. The steps
  are those of callers that drive a transaction from one thread, as a session does: while a call
  for a transaction is parked there is no second call for it and no \<open>release_all\<close>. The lock manager
  itself does not enforce this; the last theorem of this theory shows what it does otherwise.\<close>

record lock_sys =
  ls_state :: lock_state
  ls_parked :: "txn_id \<Rightarrow> (resource \<times> lock_mode) option"

definition after_iteration ::
  "lock_sys \<Rightarrow> txn_id \<Rightarrow> resource \<times> lock_mode \<Rightarrow> acquire_outcome \<times> lock_state \<Rightarrow> lock_sys" where
  "after_iteration s t req res =
     \<lparr>ls_state = snd res,
      ls_parked = (ls_parked s)(t := if fst res = Blocked then Some req else None)\<rparr>"

inductive lock_step :: "lock_sys \<Rightarrow> lock_sys \<Rightarrow> bool" where
  request: "\<lbrakk>ls_parked s t = None; t \<notin> finished (ls_state s)\<rbrakk>
    \<Longrightarrow> lock_step s (after_iteration s t (r, mode) (acquire_iteration (ls_state s) t r mode))"
| wake: "ls_parked s t = Some (r, mode)
    \<Longrightarrow> lock_step s (after_iteration s t (r, mode) (acquire_iteration (ls_state s) t r mode))"
| timeout: "\<lbrakk>ls_parked s t = Some (r, mode) \<or> ls_parked s t = None \<and> t \<notin> finished (ls_state s);
      acquire_iteration (ls_state s) t r mode = (Blocked, st)\<rbrakk>
    \<Longrightarrow> lock_step s \<lparr>ls_state = give_up st t, ls_parked = (ls_parked s)(t := None)\<rparr>"
| release: "ls_parked s t = None
    \<Longrightarrow> lock_step s (s\<lparr>ls_state := release_all (ls_state s) t\<rparr>)"
| prune: "lock_step s (s\<lparr>ls_state := prune_finished (ls_state s) w\<rparr>)"

inductive lock_reachable :: "lock_sys \<Rightarrow> bool" where
  init: "lock_reachable \<lparr>ls_state = lock_state_new, ls_parked = (\<lambda>_. None)\<rparr>"
| step: "lock_reachable s \<Longrightarrow> lock_step s s' \<Longrightarrow> lock_reachable s'"

inductive_cases lock_stepE: "lock_step s s'"

definition sys_inv :: "lock_sys \<Rightarrow> bool" where
  "sys_inv s \<longleftrightarrow> lock_inv (ls_state s) \<and> ls_parked s = fmlookup (waiting_for (ls_state s))"

lemma parked_live: "sys_inv s \<Longrightarrow> ls_parked s t = Some q \<Longrightarrow> t \<notin> finished (ls_state s)"
  by (force simp: sys_inv_def lock_inv_def released_def)

lemma sys_inv_iteration:
  assumes "sys_inv s" "t \<notin> finished (ls_state s)"
  shows "sys_inv (after_iteration s t (r, mode) (acquire_iteration (ls_state s) t r mode))"
proof -
  obtain out st' where it: "acquire_iteration (ls_state s) t r mode = (out, st')"
    by (cases "acquire_iteration (ls_state s) t r mode")
  show ?thesis
    using assms lock_inv_acquire [OF _ assms(2) it] acquire_waiting [OF it]
    by (auto simp: sys_inv_def after_iteration_def it)
qed

lemma sys_inv_step: "sys_inv s \<Longrightarrow> lock_step s s' \<Longrightarrow> sys_inv s'"
proof (erule lock_stepE, goal_cases)
  case (1 t r mode)
  then show ?case by (simp add: sys_inv_iteration)
next
  case (2 t r mode)
  then show ?case by (metis parked_live sys_inv_iteration)
next
  case (3 t r mode st)
  then have live: "t \<notin> finished (ls_state s)" using parked_live by blast
  have "lock_inv (unwait st t)"
    using 3 live lock_inv_acquire lock_inv_unwait by (metis sys_inv_def)
  then show ?case
    using 3 acquire_waiting [OF 3(4)] by (auto simp: sys_inv_def give_up_unwait)
next
  case (4 t)
  then show ?case by (auto simp: sys_inv_def lock_inv_release_all)
next
  case (5 w)
  then show ?case by (simp add: sys_inv_def lock_inv_prune) (simp add: prune_finished_def)
qed

lemma sys_inv_reachable: "lock_reachable s \<Longrightarrow> sys_inv s"
  by (induction rule: lock_reachable.induct)
    (simp_all add: sys_inv_step, simp add: sys_inv_def lock_inv_new,
      simp add: lock_state_new_def fun_eq_iff)

section \<open>What the lock manager guarantees\<close>

text \<open>C5: Mutual exclusion. Whatever the interleaving of requests, wake-ups, timeouts and releases,
  two transactions hold a lock on one resource at the same time only if both hold it shared.\<close>

theorem lock_mutual_exclusion:
  assumes "lock_reachable s" "holds (ls_state s) t r m" "holds (ls_state s) t' r m'" "t \<noteq> t'"
  shows "m = Shared \<and> m' = Shared"
proof -
  have "\<not> conflicts_with m m'"
    using sys_inv_reachable [OF assms(1)] assms(2-4) unfolding sys_inv_def lock_inv_def compatible_def
    by blast
  then show ?thesis by (cases m; cases m') auto
qed

text \<open>Two readers of one table, and a writer parked behind them.\<close>

definition two_readers :: lock_sys where
  "two_readers =
     (let s0 = \<lparr>ls_state = lock_state_new, ls_parked = (\<lambda>_. None)\<rparr>;
          s1 = after_iteration s0 1 (Table 7, Shared) (acquire_iteration (ls_state s0) 1 (Table 7) Shared);
          s2 = after_iteration s1 2 (Table 7, Shared) (acquire_iteration (ls_state s1) 2 (Table 7) Shared)
      in after_iteration s2 3 (Table 7, Exclusive)
           (acquire_iteration (ls_state s2) 3 (Table 7) Exclusive))"

lemmas lock_eval = acquire_iteration_def Let_def lock_state_new_def holders_of_def
  conflicting_holders_def would_deadlock_def successors_def

lemma two_readers_steps:
  "acquire_iteration lock_state_new 1 (Table 7) Shared = (Granted,
     \<lparr>holders = fmupd (Table 7) [(1, Shared)] fmempty, held_by = fmupd 1 [Table 7] fmempty,
      waiting_for = fmempty, finished = {}\<rparr>)"
  "acquire_iteration
     \<lparr>holders = fmupd (Table 7) [(1, Shared)] fmempty, held_by = fmupd 1 [Table 7] fmempty,
      waiting_for = fmempty, finished = {}\<rparr> 2 (Table 7) Shared = (Granted,
     \<lparr>holders = fmupd (Table 7) [(1, Shared), (2, Shared)] fmempty,
      held_by = fmupd 2 [Table 7] (fmupd 1 [Table 7] fmempty),
      waiting_for = fmempty, finished = {}\<rparr>)"
  "acquire_iteration
     \<lparr>holders = fmupd (Table 7) [(1, Shared), (2, Shared)] fmempty,
      held_by = fmupd 2 [Table 7] (fmupd 1 [Table 7] fmempty),
      waiting_for = fmempty, finished = {}\<rparr> 3 (Table 7) Exclusive = (Blocked,
     \<lparr>holders = fmupd (Table 7) [(1, Shared), (2, Shared)] fmempty,
      held_by = fmupd 2 [Table 7] (fmupd 1 [Table 7] fmempty),
      waiting_for = fmupd 3 (Table 7, Exclusive) fmempty, finished = {}\<rparr>)"
  by (simp_all add: lock_eval)

lemma two_readers_eq:
  "two_readers = \<lparr>ls_state =
     \<lparr>holders = fmupd (Table 7) [(1, Shared), (2, Shared)] fmempty,
      held_by = fmupd 2 [Table 7] (fmupd 1 [Table 7] fmempty),
      waiting_for = fmupd 3 (Table 7, Exclusive) fmempty, finished = {}\<rparr>,
     ls_parked = (\<lambda>_. None)(1 := None, 2 := None, 3 := Some (Table 7, Exclusive))\<rparr>"
  by (simp add: two_readers_def Let_def after_iteration_def two_readers_steps)

lemma two_readers_reachable: "lock_reachable two_readers"
  unfolding two_readers_def Let_def
  by (intro lock_reachable.step [OF _ lock_step.request] lock_reachable.init)
    (simp_all add: two_readers_steps after_iteration_def, simp add: lock_state_new_def)

theorem lock_mutual_exclusion_witness:
  "holds (ls_state two_readers) 1 (Table 7) Shared \<and> holds (ls_state two_readers) 2 (Table 7) Shared
    \<and> (Shared = Shared \<and> Shared = Shared)"
proof -
  have "holds (ls_state two_readers) 1 (Table 7) Shared" "holds (ls_state two_readers) 2 (Table 7) Shared"
    by (simp_all add: two_readers_eq holds_def holders_of_def)
  then show ?thesis
    using lock_mutual_exclusion [OF two_readers_reachable, of 1 "Table 7" Shared 2 Shared] by simp
qed

lemma finite_waits_for: "finite (waits_for st)"
proof (rule finite_subset)
  have "t \<in> fset (fmdom (waiting_for st))" if "h \<in> set (successors st t)" for t h
    using that by (auto simp: successors_def split: option.splits dest!: sym [of "Some _"] intro: fmdomI)
  then show "waits_for st \<subseteq> fset (fmdom (waiting_for st)) \<times> all_holders st"
    using successors_in_holders [of st] by (auto simp: waits_for_def)
qed simp

lemma acquire_unblocked:
  assumes "successors st t = []" "fmlookup (waiting_for st) t = Some (r, mode)"
  shows "fst (acquire_iteration st t r mode) = Granted"
  using assms by (simp add: acquire_iteration_eq Let_def successors_def)

text \<open>C7: No deadlock. In every reachable state the waits-for graph has no cycle, and following it
  from any parked transaction leads to one that can move: either it is not parked at all, or the
  next wake-up grants its request.\<close>

theorem lock_no_deadlock:
  assumes "lock_reachable s"
  shows "acyclic (waits_for (ls_state s)) \<and>
    (\<exists>u. (t, u) \<in> (waits_for (ls_state s))\<^sup>* \<and>
      (ls_parked s u = None \<or>
       (\<exists>r mode. ls_parked s u = Some (r, mode) \<and>
                 fst (acquire_iteration (ls_state s) u r mode) = Granted)))"
proof -
  note inv = sys_inv_reachable [OF assms]
  let ?R = "waits_for (ls_state s)"
  have ac: "acyclic ?R" using inv by (simp add: sys_inv_def lock_inv_def)
  have "wf (?R\<inverse>)" by (rule finite_acyclic_wf_converse [OF finite_waits_for ac])
  then obtain u where u: "(t, u) \<in> ?R\<^sup>*" "\<And>v. (u, v) \<in> ?R \<Longrightarrow> (t, v) \<notin> ?R\<^sup>*"
    using wfE_min [of "?R\<inverse>" t "{u. (t, u) \<in> ?R\<^sup>*}"] by auto
  have "successors (ls_state s) u = []"
    using u by (metis rtrancl.rtrancl_into_rtrancl last_in_set waits_for_iff)
  then have "ls_parked s u = None \<or> (\<exists>r mode. ls_parked s u = Some (r, mode) \<and>
                 fst (acquire_iteration (ls_state s) u r mode) = Granted)"
    using inv acquire_unblocked unfolding sys_inv_def by (metis option.exhaust surj_pair)
  then show ?thesis using ac u(1) by blast
qed

theorem lock_no_deadlock_witness:
  "ls_parked two_readers 3 = Some (Table 7, Exclusive) \<and> acyclic (waits_for (ls_state two_readers))"
  using lock_no_deadlock [OF two_readers_reachable, of 3] by (simp add: two_readers_eq)

text \<open>Strictness. Once a transaction has been released it holds no lock and is not waiting for
  one, in every reachable state.\<close>

theorem lock_released_holds_nothing:
  assumes "lock_reachable s" "t \<in> finished (ls_state s)"
  shows "\<not> holds (ls_state s) t r m \<and> ls_parked s t = None"
  using sys_inv_reachable [OF assms(1)] assms(2)
  by (force simp: sys_inv_def lock_inv_def released_def indexed_def holds_def)

theorem lock_released_holds_nothing_witness:
  "1 \<in> finished (ls_state (two_readers\<lparr>ls_state := release_all (ls_state two_readers) 1\<rparr>))
    \<and> \<not> holds (ls_state (two_readers\<lparr>ls_state := release_all (ls_state two_readers) 1\<rparr>)) 1 (Table 7) Shared"
proof -
  let ?s = "two_readers\<lparr>ls_state := release_all (ls_state two_readers) 1\<rparr>"
  have "lock_reachable ?s"
    by (intro lock_reachable.step [OF two_readers_reachable lock_step.release]) (simp add: two_readers_eq)
  then show ?thesis using lock_released_holds_nothing [of ?s 1 "Table 7" Shared] by simp
qed

text \<open>A request that succeeds leaves its transaction holding the resource in the mode it asked
  for or in exclusive mode, and every other transaction's locks as they were.\<close>

theorem acquire_granted_holds:
  assumes "acquire_iteration st t r mode = (Granted, st')"
  shows "(holds st' t r mode \<or> holds st' t r Exclusive)
    \<and> (u \<noteq> t \<longrightarrow> (holds st' u r' m' \<longleftrightarrow> holds st u r' m'))"
  using acquire_granted [OF assms] assms
  by (auto simp: acquire_iteration_eq Let_def holds_def split: if_splits)

theorem acquire_granted_holds_witness:
  "acquire_iteration lock_state_new 4 (Row (2, 3)) Exclusive
     = (Granted, snd (acquire_iteration lock_state_new 4 (Row (2, 3)) Exclusive))
   \<and> holds (snd (acquire_iteration lock_state_new 4 (Row (2, 3)) Exclusive)) 4 (Row (2, 3)) Exclusive"
proof -
  let ?r = "acquire_iteration lock_state_new 4 (Row (2, 3)) Exclusive"
  have g: "?r = (Granted, snd ?r)" by (simp add: lock_eval)
  show ?thesis using acquire_granted_holds [OF g] g by blast
qed

lemma holders_of_release_many:
  "lock_inv st \<Longrightarrow> holders_of (foldl release_all st ts) r = filter (\<lambda>(h, _). h \<notin> set ts) (holders_of st r)"
proof (induction ts arbitrary: st)
  case (Cons t ts)
  then show ?case
    using lock_inv_release_all [OF Cons.prems, of t] holders_of_release_all [of st t r]
    by (simp add: lock_inv_def split_def)
qed (simp add: split_def)

lemma finished_release_many: "finished (foldl release_all st ts) = set ts \<union> finished st"
  by (induction ts arbitrary: st) auto

text \<open>C22: The finished set is consulted only when a call starts. If a transaction is released while a
  call for it is parked, a further call fails as it should, but the parked call, woken once the
  transactions it waited for have been released, is granted the lock: a finished transaction holds
  it, and there is no later \<open>release_all\<close> for it that would take the lock back.\<close>

theorem released_waiter_reacquires:
  assumes "lock_reachable s" "acquire_entry (ls_state s) t r mode = Some (Blocked, st1)"
    and "st2 = foldl release_all (release_all st1 t) (conflicting_holders (ls_state s) r mode t)"
  shows "acquire_entry st2 t r' mode' = None \<and>
    (\<exists>st3. acquire_iteration st2 t r mode = (Granted, st3) \<and> t \<in> finished st3 \<and> holds st3 t r mode)"
proof -
  let ?st = "ls_state s" and ?bs = "conflicting_holders (ls_state s) r mode t"
  have inv: "lock_inv ?st" using sys_inv_reachable [OF assms(1)] by (simp add: sys_inv_def)
  have live: "t \<notin> finished ?st" and it: "acquire_iteration ?st t r mode = (Blocked, st1)"
    using assms(2) by (auto simp: acquire_entry_def split: if_splits)
  have st1: "lock_inv st1" "holders_of st1 r = holders_of ?st r"
    using lock_inv_acquire [OF inv live it] it by (auto simp: acquire_iteration_eq Let_def split: if_splits)
  have inv1: "lock_inv (release_all st1 t)" by (rule lock_inv_release_all [OF st1(1)])
  have h: "holders_of st2 r = filter (\<lambda>(h, _). h \<noteq> t \<and> h \<notin> set ?bs) (holders_of ?st r)"
    unfolding assms(3) holders_of_release_many [OF inv1]
    using st1 holders_of_release_all [of st1 t r]
    by (simp add: lock_inv_def split_def conj_commute)
  have fin: "t \<in> finished st2" unfolding assms(3) finished_release_many by simp
  have free: "conflicting_holders st2 r mode t = []" and none: "find (\<lambda>(h, _). h = t) (holders_of st2 r) = None"
    by (force simp: conflicting_holders_def h filter_empty_conv, auto simp: h find_None_iff)
  have "acquire_iteration st2 t r mode = (Granted, grant (unwait st2 t) t r mode)"
    using free none by (simp add: acquire_iteration_eq Let_def)
  moreover have "holds (grant (unwait st2 t) t r mode) t r mode" by (simp add: holds_def)
  ultimately show ?thesis using fin acquire_finished by (fastforce simp: acquire_entry_def)
qed

text \<open>Two readers of a table; a writer waits behind them, is released, and gets the table once the
  readers are gone.\<close>

definition two_holders :: lock_sys where
  "two_holders = \<lparr>ls_state =
     \<lparr>holders = fmupd (Table 7) [(1, Shared), (2, Shared)] fmempty,
      held_by = fmupd 2 [Table 7] (fmupd 1 [Table 7] fmempty), waiting_for = fmempty, finished = {}\<rparr>,
     ls_parked = (\<lambda>_. None)(1 := None, 2 := None)\<rparr>"

lemma two_holders_reachable: "lock_reachable two_holders"
proof -
  let ?s0 = "\<lparr>ls_state = lock_state_new, ls_parked = (\<lambda>_. None)\<rparr>"
  let ?s1 = "after_iteration ?s0 1 (Table 7, Shared) (acquire_iteration (ls_state ?s0) 1 (Table 7) Shared)"
  have eq: "two_holders = after_iteration ?s1 2 (Table 7, Shared) (acquire_iteration (ls_state ?s1) 2 (Table 7) Shared)"
    by (simp add: two_holders_def after_iteration_def two_readers_steps)
  show ?thesis unfolding eq
    by (intro lock_reachable.step [OF _ lock_step.request] lock_reachable.init)
      (simp_all add: two_readers_steps after_iteration_def, simp add: lock_state_new_def)
qed

theorem released_waiter_reacquires_witness:
  "\<exists>st1 st2 st3. acquire_entry (ls_state two_holders) 3 (Table 7) Exclusive = Some (Blocked, st1)
    \<and> st2 = release_all (release_all (release_all st1 3) 1) 2
    \<and> acquire_entry st2 3 (Table 7) Exclusive = None
    \<and> acquire_iteration st2 3 (Table 7) Exclusive = (Granted, st3)
    \<and> 3 \<in> finished st3 \<and> holds st3 3 (Table 7) Exclusive"
proof -
  obtain st1 where e: "acquire_entry (ls_state two_holders) 3 (Table 7) Exclusive = Some (Blocked, st1)"
    by (simp add: acquire_entry_def two_holders_def two_readers_steps)
  have "conflicting_holders (ls_state two_holders) (Table 7) Exclusive 3 = [1, 2]"
    by (simp add: two_holders_def conflicting_holders_def holders_of_def)
  then show ?thesis using released_waiter_reacquires [OF two_holders_reachable e refl, of "Table 7" Exclusive] e by auto
qed

end
