(* ===== verification/Version_Store.thy ===== *)
theory Version_Store
  imports Lock_Manager
begin

text \<open>
  Multi-version visibility: the version chain of one row (\<open>txn/src/mvcc.rs\<close>) and the store of
  chains, write sets and prune candidates (\<open>txn/src/version_store.rs\<close>). A \<open>HashMap\<close> is a map, the
  \<open>BTreeMap\<close> of prune candidates an association list in key order.
\<close>

type_synonym timestamp = u64

record version_entry =
  creator_txn_id :: txn_id
  begin_ts :: "timestamp option"
  end_ts :: "timestamp option"

type_synonym version_chain = "version_entry list"

definition chain_push :: "version_chain \<Rightarrow> version_entry \<Rightarrow> version_chain" where
  "chain_push c e = e # c"

definition is_globally_visible :: "version_entry \<Rightarrow> timestamp \<Rightarrow> bool" where
  "is_globally_visible e read_ts =
     (case begin_ts e of
        Some b \<Rightarrow> if b \<le> read_ts
                  then (case end_ts e of Some x \<Rightarrow> read_ts < x | None \<Rightarrow> True) else False
      | None \<Rightarrow> False)"

definition visible_version :: "version_chain \<Rightarrow> timestamp \<Rightarrow> version_entry option" where
  "visible_version c read_ts = find (\<lambda>e. is_globally_visible e read_ts) c"

definition visible_version_for ::
  "version_chain \<Rightarrow> txn_id \<Rightarrow> timestamp \<Rightarrow> version_entry option" where
  "visible_version_for c reader read_ts =
     find (\<lambda>e. creator_txn_id e = reader \<or> is_globally_visible e read_ts) c"

definition mark_committed :: "version_chain \<Rightarrow> txn_id \<Rightarrow> timestamp \<Rightarrow> version_chain" where
  "mark_committed c t commit_ts =
     map (\<lambda>e. if creator_txn_id e = t then e\<lparr>begin_ts := Some commit_ts\<rparr> else e) c"

definition remove_creator :: "version_chain \<Rightarrow> txn_id \<Rightarrow> version_chain" where
  "remove_creator c t = filter (\<lambda>e. creator_txn_id e \<noteq> t) c"

definition is_prunable :: "version_chain \<Rightarrow> timestamp \<Rightarrow> bool" where
  "is_prunable c watermark =
     (case c of
        [] \<Rightarrow> True
      | newest # _ \<Rightarrow>
          (case (begin_ts newest, end_ts newest) of
             (Some b, None) \<Rightarrow> b \<le> watermark
           | _ \<Rightarrow> False))"

section \<open>The store\<close>

record version_store =
  chains :: "rid \<Rightarrow> version_chain option"
  write_sets :: "txn_id \<Rightarrow> rid list option"
  prune_candidates :: "(timestamp \<times> rid list) list"

definition version_store_new :: version_store where
  "version_store_new = \<lparr>chains = Map.empty, write_sets = Map.empty, prune_candidates = []\<rparr>"

definition or_default :: "'a list option \<Rightarrow> 'a list" where
  "or_default x = (case x of None \<Rightarrow> [] | Some xs \<Rightarrow> xs)"

fun candidates_extend ::
  "timestamp \<Rightarrow> rid list \<Rightarrow> (timestamp \<times> rid list) list \<Rightarrow> (timestamp \<times> rid list) list" where
  "candidates_extend k xs [] = [(k, xs)]"
| "candidates_extend k xs ((k', ys) # m) =
     (if k = k' then (k', ys @ xs) # m
      else if k < k' then (k, xs) # (k', ys) # m
      else (k', ys) # candidates_extend k xs m)"

definition record_insert :: "version_store \<Rightarrow> txn_id \<Rightarrow> rid \<Rightarrow> version_store" where
  "record_insert vs t r =
     vs\<lparr>chains := (chains vs)(r \<mapsto> chain_push (or_default (chains vs r))
                     \<lparr>creator_txn_id = t, begin_ts = None, end_ts = None\<rparr>),
        write_sets := (write_sets vs)(t \<mapsto> or_default (write_sets vs t) @ [r])\<rparr>"

fun commit_chains :: "txn_id \<Rightarrow> timestamp \<Rightarrow> rid list \<Rightarrow> (rid \<Rightarrow> version_chain option)
    \<Rightarrow> (rid \<Rightarrow> version_chain option)" where
  "commit_chains t ts [] cs = cs"
| "commit_chains t ts (r # rs) cs =
     commit_chains t ts rs
       (case cs r of None \<Rightarrow> cs | Some c \<Rightarrow> cs(r \<mapsto> mark_committed c t ts))"

definition commit_versions :: "version_store \<Rightarrow> txn_id \<Rightarrow> timestamp \<Rightarrow> version_store" where
  "commit_versions vs t commit_ts =
     (case write_sets vs t of
        None \<Rightarrow> vs
      | Some rids \<Rightarrow>
          vs\<lparr>chains := commit_chains t commit_ts rids (chains vs),
             write_sets := (write_sets vs)(t := None),
             prune_candidates := candidates_extend commit_ts rids (prune_candidates vs)\<rparr>)"

text \<open>The loop of \<open>abort_versions\<close>: the chains without the transaction's entries, and the rows
  whose chain it found empty.\<close>

fun abort_chains :: "txn_id \<Rightarrow> rid list \<Rightarrow> (rid \<Rightarrow> version_chain option) \<times> rid list
    \<Rightarrow> (rid \<Rightarrow> version_chain option) \<times> rid list" where
  "abort_chains t [] acc = acc"
| "abort_chains t (r # rs) (cs, emptied) =
     abort_chains t rs
       (case cs r of
          None \<Rightarrow> (cs, emptied)
        | Some c \<Rightarrow>
            let c' = remove_creator c t
            in (cs(r \<mapsto> c'), if c' = [] then emptied @ [r] else emptied))"

definition abort_versions :: "version_store \<Rightarrow> txn_id \<Rightarrow> timestamp \<Rightarrow> version_store" where
  "abort_versions vs t next =
     (case write_sets vs t of
        None \<Rightarrow> vs
      | Some rids \<Rightarrow>
          let (cs, emptied) = abort_chains t rids (chains vs, [])
          in vs\<lparr>chains := cs, write_sets := (write_sets vs)(t := None),
                prune_candidates :=
                  (if emptied = [] then prune_candidates vs
                   else candidates_extend next emptied (prune_candidates vs))\<rparr>)"

definition prune_chain ::
  "timestamp \<Rightarrow> (rid \<Rightarrow> version_chain option) \<Rightarrow> rid \<Rightarrow> (rid \<Rightarrow> version_chain option)" where
  "prune_chain watermark cs r =
     (case cs r of
        None \<Rightarrow> cs
      | Some c \<Rightarrow> if is_prunable c watermark then cs(r := None) else cs)"

definition prune_versions :: "version_store \<Rightarrow> timestamp \<Rightarrow> version_store" where
  "prune_versions vs watermark =
     (let due = filter (\<lambda>(ts, _). ts \<le> watermark) (prune_candidates vs)
      in vs\<lparr>chains := foldl (prune_chain watermark) (chains vs) (concat (map snd due)),
            prune_candidates := filter (\<lambda>(ts, _). \<not> ts \<le> watermark) (prune_candidates vs)\<rparr>)"

definition is_visible :: "version_store \<Rightarrow> rid \<Rightarrow> timestamp \<Rightarrow> bool" where
  "is_visible vs r read_ts =
     (case chains vs r of Some c \<Rightarrow> visible_version c read_ts \<noteq> None | None \<Rightarrow> True)"

definition is_visible_to :: "version_store \<Rightarrow> rid \<Rightarrow> txn_id \<Rightarrow> timestamp \<Rightarrow> bool" where
  "is_visible_to vs r reader read_ts =
     (case chains vs r of
        Some c \<Rightarrow> visible_version_for c reader read_ts \<noteq> None | None \<Rightarrow> True)"

section \<open>Reading the loops\<close>

lemma mark_committed_idem [simp]:
  "mark_committed (mark_committed c t ts) t ts = mark_committed c t ts"
  by (simp add: mark_committed_def)

lemma remove_creator_idem [simp]: "remove_creator (remove_creator c t) t = remove_creator c t"
  by (simp add: remove_creator_def)

lemma commit_chains_lookup:
  "commit_chains t ts rs cs r =
     (if r \<in> set rs then map_option (\<lambda>c. mark_committed c t ts) (cs r) else cs r)"
proof (induction rs arbitrary: cs r)
  case (Cons r' rs)
  show ?case
    by (cases "cs r'"; cases "r = r'") (simp_all add: Cons.IH)
qed simp

lemma abort_chains_lookup:
  "fst (abort_chains t rs (cs, emptied)) r =
     (if r \<in> set rs then map_option (\<lambda>c. remove_creator c t) (cs r) else cs r)"
proof (induction rs arbitrary: cs emptied r)
  case (Cons r' rs)
  show ?case
    by (cases "cs r'"; cases "r = r'") (simp_all add: Cons.IH Let_def)
qed simp

lemma prune_fold_lookup:
  "foldl (prune_chain w) cs rs r =
     (if r \<in> set rs then (case cs r of Some c \<Rightarrow> if is_prunable c w then None else Some c | None \<Rightarrow> None)
      else cs r)"
  by (induction rs arbitrary: cs) (auto simp: prune_chain_def split: option.splits)

lemma visible_version_for_iff:
  "visible_version_for c reader ts \<noteq> None
    \<longleftrightarrow> (\<exists>e \<in> set c. creator_txn_id e = reader \<or> is_globally_visible e ts)"
  by (auto simp: visible_version_for_def find_None_iff)

lemma is_visible_to_iff:
  "is_visible_to vs r reader ts \<longleftrightarrow>
     (\<forall>c. chains vs r = Some c \<longrightarrow>
        (\<exists>e \<in> set c. creator_txn_id e = reader \<or> is_globally_visible e ts))"
  using visible_version_for_iff by (auto simp: is_visible_to_def split: option.splits)

lemma prunable_visible:
  assumes "is_prunable c w" "c \<noteq> []" "w \<le> ts"
  shows "\<exists>e \<in> set c. is_globally_visible e ts"
  using assms
  by (cases c) (auto simp: is_prunable_def is_globally_visible_def split: option.splits)

section \<open>Visibility\<close>

text \<open>A transaction sees its own insert at once and, until it commits, nobody else does: after
  \<open>record_insert\<close> on a fresh row only the inserter sees the row.\<close>

theorem insert_private_until_commit:
  assumes "chains vs r = None \<or> chains vs r = Some []"
  shows "is_visible_to (record_insert vs t r) r reader ts \<longleftrightarrow> reader = t"
  using assms
  by (auto simp: is_visible_to_iff record_insert_def chain_push_def or_default_def
      is_globally_visible_def)

theorem insert_private_until_commit_witness:
  "is_visible_to (record_insert version_store_new 4 (1, 0)) (1, 0) 9 100 \<longleftrightarrow> (9 :: txn_id) = 4"
  by (rule insert_private_until_commit) (simp add: version_store_new_def)

text \<open>Commit publishes at its timestamp. When a transaction's freshly inserted row commits, the
  row is visible to exactly the snapshots taken at or after the commit timestamp, and to the
  transaction itself.\<close>

theorem commit_visible_from_timestamp:
  assumes "chains vs r = None \<or> chains vs r = Some []"
  shows "is_visible_to (commit_versions (record_insert vs t r) t commit_ts) r reader ts
    \<longleftrightarrow> reader = t \<or> commit_ts \<le> ts"
  using assms
  by (auto simp: is_visible_to_iff commit_versions_def record_insert_def chain_push_def
      or_default_def commit_chains_lookup mark_committed_def is_globally_visible_def)

theorem commit_visible_from_timestamp_witness:
  "is_visible_to (commit_versions (record_insert version_store_new 4 (1, 0)) 4 50) (1, 0) 9 100
    \<longleftrightarrow> (9 :: txn_id) = 4 \<or> (50 :: timestamp) \<le> 100"
  by (rule commit_visible_from_timestamp) (simp add: version_store_new_def)

text \<open>The states a store goes through, with the transactions that have ended: inserts of running
  transactions, commits and aborts that end one, and prunings.\<close>

inductive store_run :: "version_store \<Rightarrow> txn_id set \<Rightarrow> bool" where
  store_create: "store_run version_store_new {}"
| store_insert: "store_run vs ended \<Longrightarrow> t \<notin> ended \<Longrightarrow> store_run (record_insert vs t r) ended"
| store_commit: "store_run vs ended \<Longrightarrow> t \<notin> ended \<Longrightarrow> store_run (commit_versions vs t ts) (insert t ended)"
| store_abort: "store_run vs ended \<Longrightarrow> t \<notin> ended \<Longrightarrow> store_run (abort_versions vs t ts) (insert t ended)"
| store_prune: "store_run vs ended \<Longrightarrow> store_run (prune_versions vs w) ended"

text \<open>The versions of a running transaction have no timestamp and are found through its write set.\<close>

definition pending_ok :: "version_store \<Rightarrow> txn_id set \<Rightarrow> bool" where
  "pending_ok vs ended \<longleftrightarrow> (\<forall>r c e. chains vs r = Some c \<longrightarrow> e \<in> set c \<longrightarrow> creator_txn_id e \<notin> ended \<longrightarrow>
     begin_ts e = None \<and> r \<in> set (or_default (write_sets vs (creator_txn_id e))))"

lemma pending_okD:
  "pending_ok vs ended \<Longrightarrow> chains vs r = Some c \<Longrightarrow> e \<in> set c \<Longrightarrow> creator_txn_id e \<notin> ended \<Longrightarrow>
     begin_ts e = None \<and> r \<in> set (or_default (write_sets vs (creator_txn_id e)))"
  unfolding pending_ok_def by blast

lemma pending_okI:
  "(\<And>r c e. chains vs r = Some c \<Longrightarrow> e \<in> set c \<Longrightarrow> creator_txn_id e \<notin> ended \<Longrightarrow>
     begin_ts e = None \<and> r \<in> set (or_default (write_sets vs (creator_txn_id e)))) \<Longrightarrow> pending_ok vs ended"
  unfolding pending_ok_def by blast

lemma pending_insert:
  assumes "pending_ok vs ended"
  shows "pending_ok (record_insert vs t r) ended"
proof (rule pending_okI)
  fix q c e
  assume c: "chains (record_insert vs t r) q = Some c" and e: "e \<in> set c" "creator_txn_id e \<notin> ended"
  let ?new = "\<lparr>creator_txn_id = t, begin_ts = None, end_ts = None\<rparr>"
  consider (new) "q = r" "e = ?new" | (old) d where "chains vs q = Some d" "e \<in> set d"
    using c e(1) by (auto simp: record_insert_def chain_push_def or_default_def split: if_splits option.splits)
  then show "begin_ts e = None \<and> q \<in> set (or_default (write_sets (record_insert vs t r) (creator_txn_id e)))"
  proof cases
    case new
    then show ?thesis unfolding new by (simp add: record_insert_def or_default_def)
  next
    case old
    then show ?thesis using pending_okD [OF assms old e(2)] by (auto simp: record_insert_def or_default_def)
  qed
qed

lemma commit_chains_of:
  "chains (commit_versions vs t ts) r =
     (if r \<in> set (or_default (write_sets vs t)) then map_option (\<lambda>c. mark_committed c t ts) (chains vs r) else chains vs r)"
  "write_sets (commit_versions vs t ts) = (write_sets vs)(t := None)"
  by (cases "write_sets vs t"; auto simp: commit_versions_def commit_chains_lookup or_default_def)+

lemma abort_chains_of:
  "chains (abort_versions vs t ts) r =
     (if r \<in> set (or_default (write_sets vs t)) then map_option (\<lambda>c. remove_creator c t) (chains vs r) else chains vs r)"
  "write_sets (abort_versions vs t ts) = (write_sets vs)(t := None)"
proof -
  show "write_sets (abort_versions vs t ts) = (write_sets vs)(t := None)"
    by (cases "write_sets vs t") (auto simp: abort_versions_def split: prod.split)
  show "chains (abort_versions vs t ts) r =
     (if r \<in> set (or_default (write_sets vs t)) then map_option (\<lambda>c. remove_creator c t) (chains vs r) else chains vs r)"
  proof (cases "write_sets vs t")
    case (Some rids)
    have "chains (abort_versions vs t ts) = fst (abort_chains t rids (chains vs, []))"
      by (simp add: abort_versions_def Some split: prod.split)
    then show ?thesis by (simp add: abort_chains_lookup or_default_def Some)
  qed (simp add: abort_versions_def or_default_def)
qed

lemma prune_sub: "chains (prune_versions vs w) r = Some c \<Longrightarrow> chains vs r = Some c"
  by (auto simp: prune_versions_def Let_def prune_fold_lookup split: if_splits option.splits)

lemma store_run_pending: "store_run vs ended \<Longrightarrow> pending_ok vs ended"
proof (induction rule: store_run.induct)
  case store_create
  then show ?case by (simp add: pending_ok_def version_store_new_def)
next
  case (store_insert vs ended t r)
  then show ?case by (simp add: pending_insert)
next
  case (store_commit vs ended t ts)
  show ?case
    by (rule pending_okI)
      (use pending_okD [OF store_commit.IH] in \<open>fastforce simp: commit_chains_of mark_committed_def split: if_splits\<close>)
next
  case (store_abort vs ended t ts)
  show ?case
    by (rule pending_okI)
      (use pending_okD [OF store_abort.IH] in \<open>fastforce simp: abort_chains_of remove_creator_def split: if_splits\<close>)
next
  case (store_prune vs ended w)
  have "write_sets (prune_versions vs w) = write_sets vs" by (simp add: prune_versions_def Let_def)
  then show ?case by (intro pending_okI) (metis pending_okD [OF store_prune.IH] prune_sub)
qed

text \<open>C21: Rollback. When a running transaction of any run of the store aborts, every chain is kept
  but none has a version of the transaction any more; no other transaction's answer about any row
  changes; and the transaction itself is left with the answers of a plain snapshot. (What a later
  pruning of a chain that the abort emptied can change is stated below.)\<close>

theorem abort_undoes_versions:
  assumes "store_run vs ended" "t \<notin> ended"
  shows "chains (abort_versions vs t next) r = map_option (filter (\<lambda>e. creator_txn_id e \<noteq> t)) (chains vs r)
    \<and> is_visible_to (abort_versions vs t next) r reader ts
        = (if reader = t then is_visible vs r ts else is_visible_to vs r reader ts)"
proof -
  have ok: "pending_ok vs ended" by (rule store_run_pending [OF assms(1)])
  have ch: "chains (abort_versions vs t next) r = map_option (filter (\<lambda>e. creator_txn_id e \<noteq> t)) (chains vs r)"
  proof (cases "chains vs r")
    case (Some c)
    have "remove_creator c t = c" if "r \<notin> set (or_default (write_sets vs t))"
      using pending_okD [OF ok Some] that assms(2) by (auto simp: remove_creator_def filter_id_conv)
    then show ?thesis using Some by (auto simp: abort_chains_of remove_creator_def)
  qed (simp add: abort_chains_of)
  have hidden: "\<not> is_globally_visible e ts" if "chains vs r = Some c" "e \<in> set c" "creator_txn_id e = t" for c e
    using pending_okD [OF ok that(1,2)] that(3) assms(2) by (simp add: is_globally_visible_def)
  have "is_visible vs r ts \<longleftrightarrow> (\<forall>c. chains vs r = Some c \<longrightarrow> (\<exists>e \<in> set c. is_globally_visible e ts))"
    by (auto simp: is_visible_def visible_version_def find_None_iff split: option.splits)
  then show ?thesis
    using ch hidden by (cases "chains vs r") (auto simp: is_visible_to_iff)
qed

text \<open>Transaction 4 committed a row at 50, transaction 7 put another version on top of it and added a
  second row, and rolls back.\<close>

definition two_writers :: version_store where
  "two_writers = record_insert (record_insert
     (commit_versions (record_insert version_store_new 4 (1, 0)) 4 50) 7 (1, 0)) 7 (1, 1)"

theorem abort_undoes_versions_witness:
  "is_visible_to (abort_versions two_writers 7 60) (1, 0) 7 100
    \<and> \<not> is_visible_to (abort_versions two_writers 7 60) (1, 1) 7 100
    \<and> \<not> is_visible_to (abort_versions two_writers 7 60) (1, 0) 9 40"
proof -
  have run: "store_run two_writers {4}" "7 \<notin> {4 :: txn_id}" unfolding two_writers_def by (auto intro!: store_run.intros)
  have ch: "chains two_writers (1, 0) = Some [\<lparr>creator_txn_id = 7, begin_ts = None, end_ts = None\<rparr>,
      \<lparr>creator_txn_id = 4, begin_ts = Some 50, end_ts = None\<rparr>]"
    "chains two_writers (1, 1) = Some [\<lparr>creator_txn_id = 7, begin_ts = None, end_ts = None\<rparr>]"
    by (simp_all add: two_writers_def record_insert_def version_store_new_def chain_push_def or_default_def
        commit_versions_def mark_committed_def)
  have "(9 :: txn_id) \<noteq> 7" "(9 :: txn_id) \<noteq> 4" by simp_all
  then show ?thesis
    using abort_undoes_versions [OF run, of 60 "(1, 0)" 7 100] abort_undoes_versions [OF run, of 60 "(1, 1)" 7 100]
      abort_undoes_versions [OF run, of 60 "(1, 0)" 9 40]
    by (simp add: ch is_visible_def is_visible_to_def visible_version_def visible_version_for_def is_globally_visible_def)
qed

text \<open>C20: Another transaction's commit does not disturb a snapshot taken before it: the rows a reader
  with an older snapshot sees are the same before and after.\<close>

theorem commit_preserves_older_snapshots:
  assumes "reader \<noteq> t" "ts < commit_ts"
    and "\<And>r c e. chains vs r = Some c \<Longrightarrow> e \<in> set c \<Longrightarrow> creator_txn_id e = t \<Longrightarrow> begin_ts e = None"
  shows "is_visible_to (commit_versions vs t commit_ts) r reader ts = is_visible_to vs r reader ts"
proof (cases "write_sets vs t")
  case (Some rids)
  let ?mark = "\<lambda>e. if creator_txn_id e = t then e\<lparr>begin_ts := Some commit_ts\<rparr> else e"
  have "(\<exists>e \<in> set (mark_committed c t commit_ts). creator_txn_id e = reader \<or> is_globally_visible e ts)
      \<longleftrightarrow> (\<exists>e \<in> set c. creator_txn_id e = reader \<or> is_globally_visible e ts)"
    if c: "chains vs r = Some c" for c
  proof -
    have "(creator_txn_id (?mark e) = reader \<or> is_globally_visible (?mark e) ts)
        \<longleftrightarrow> (creator_txn_id e = reader \<or> is_globally_visible e ts)" if "e \<in> set c" for e
      using assms(1,2) assms(3) [OF c that] by (auto simp: is_globally_visible_def)
    then show ?thesis
      by (simp add: mark_committed_def del: if_image_distrib cong: bex_cong_simp)
  qed
  then show ?thesis
    using Some by (auto simp: is_visible_to_iff commit_versions_def commit_chains_lookup)
qed (simp add: commit_versions_def)

theorem commit_preserves_older_snapshots_witness:
  "is_visible_to (commit_versions (record_insert version_store_new 4 (1, 0)) 4 50) (1, 0) 9 40
    = is_visible_to (record_insert version_store_new 4 (1, 0)) (1, 0) 9 40"
  by (rule commit_preserves_older_snapshots)
    (auto simp: record_insert_def version_store_new_def chain_push_def or_default_def
      split: if_splits)

text \<open>C19: What pruning at a watermark can change for a reader whose snapshot is at or after it. A row
  that still has a version keeps its answer, whether its chain is dropped or not. A row whose chain
  is empty (every insert into its slot rolled back) becomes visible if it is enrolled at or below
  the watermark, and keeps its answer otherwise.\<close>

theorem prune_preserves_visibility:
  assumes "watermark \<le> ts"
  shows "is_visible_to (prune_versions vs watermark) r reader ts =
    (is_visible_to vs r reader ts \<or>
      chains vs r = Some [] \<and> (\<exists>(k, rids) \<in> set (prune_candidates vs). k \<le> watermark \<and> r \<in> set rids))"
proof -
  let ?due = "concat (map snd (filter (\<lambda>(k, _). k \<le> watermark) (prune_candidates vs)))"
  have due: "r \<in> set ?due \<longleftrightarrow> (\<exists>(k, rids) \<in> set (prune_candidates vs). k \<le> watermark \<and> r \<in> set rids)" by force
  have ch: "chains (prune_versions vs watermark) r =
      (if r \<in> set ?due then (case chains vs r of Some c \<Rightarrow> if is_prunable c watermark then None else Some c | None \<Rightarrow> None)
       else chains vs r)"
    by (simp add: prune_versions_def Let_def prune_fold_lookup del: set_concat)
  show ?thesis
  proof (cases "chains vs r")
    case None
    then show ?thesis using ch by (simp add: is_visible_to_def del: set_concat)
  next
    case (Some c)
    show ?thesis
    proof (cases "c = []")
      case True
      then show ?thesis using ch Some due by (auto simp: is_visible_to_def visible_version_for_def is_prunable_def simp del: set_concat)
    next
      case False
      then show ?thesis
        using ch Some prunable_visible [of c watermark ts, OF _ False assms]
        by (auto simp: is_visible_to_iff simp del: set_concat split: if_splits)
    qed
  qed
qed

text \<open>A committed row whose chain is dropped, and a rolled-back one that is enrolled later.\<close>

theorem prune_preserves_visibility_witness:
  "is_visible_to (prune_versions (commit_versions (record_insert version_store_new 4 (1, 0)) 4 50) 60) (1, 0) 9 60
   \<and> \<not> is_visible_to (prune_versions (abort_versions (record_insert version_store_new 4 (1, 0)) 4 70) 60) (1, 0) 9 60"
  using prune_preserves_visibility [of 60 60 "commit_versions (record_insert version_store_new 4 (1, 0)) 4 50" "(1, 0)" 9]
    prune_preserves_visibility [of 60 60 "abort_versions (record_insert version_store_new 4 (1, 0)) 4 70" "(1, 0)" 9]
  by (simp add: commit_versions_def abort_versions_def record_insert_def version_store_new_def chain_push_def
      or_default_def mark_committed_def remove_creator_def is_visible_to_def visible_version_for_def
      is_globally_visible_def Let_def)

text \<open>One row slot, filled and rolled back by transaction 1 (stamped 10), then filled and rolled back
  again by transaction 2 (stamped 15).\<close>

definition twice_aborted :: "rid \<Rightarrow> version_store" where
  "twice_aborted r =
     abort_versions (record_insert
       (abort_versions (record_insert version_store_new 1 r) 1 10) 2 r) 2 15"

text \<open>C23: An emptied chain can be dropped too early. If a row's slot is reused after an abort and the
  second insert aborts as well, the first abort's enrolment is still queued; pruning at a watermark
  between the two stamps drops the chain, and a reader whose snapshot (12) is older than the second
  abort (stamped 15) then sees the rolled-back row.\<close>

theorem stale_enrolment_unhides_aborted_row:
  "prune_candidates (twice_aborted r) = [(10, [r]), (15, [r])]
    \<and> \<not> is_visible_to (twice_aborted r) r 3 12
    \<and> is_visible_to (prune_versions (twice_aborted r) 12) r 3 12"
  by (simp add: twice_aborted_def abort_versions_def record_insert_def version_store_new_def
      chain_push_def or_default_def remove_creator_def is_visible_to_def visible_version_for_def
      prune_versions_def prune_chain_def is_prunable_def Let_def)

end
