(* ===== verification/Replacer.thy ===== *)
theory Replacer
  imports Prelude "HOL-Library.Finite_Map"
begin

text \<open>
  The page replacement policy of \<open>storage/src/replacer.rs\<close>: the \<open>Replacer\<close> trait as a locale that
  holds what the buffer pool relies on, and \<open>LruKReplacer\<close> as its implementation. The frame table is
  a finite map; a scan of it runs over a list of its entries, and \<open>victim_order_irrelevant\<close> shows that
  the order the hash map yields them in does not matter. The clock is a natural number: it counts
  accesses and stays below \<open>2 ^ 64\<close> in any run that can be carried out.
\<close>

type_synonym frame_id = nat

record frame_entry =
  fe_history :: "nat list"
  fe_evictable :: bool

record lru_k_replacer =
  lr_k :: nat
  lr_capacity :: nat
  lr_frames :: "(frame_id, frame_entry) fmap"
  lr_clock :: nat

definition lru_new :: "nat \<Rightarrow> nat \<Rightarrow> lru_k_replacer" where
  "lru_new capacity k = \<lparr>lr_k = k, lr_capacity = capacity, lr_frames = fmempty, lr_clock = 0\<rparr>"

definition record_access :: "lru_k_replacer \<Rightarrow> frame_id \<Rightarrow> lru_k_replacer" where
  "record_access r f =
     (let clock = lr_clock r + 1;
          e = (case fmlookup (lr_frames r) f of
                 None \<Rightarrow> \<lparr>fe_history = [], fe_evictable = False\<rparr> | Some e \<Rightarrow> e);
          h = fe_history e @ [clock];
          h' = (if length h > lr_k r then tl h else h)
      in r\<lparr>lr_clock := clock, lr_frames := fmupd f (e\<lparr>fe_history := h'\<rparr>) (lr_frames r)\<rparr>)"

definition set_evictable :: "lru_k_replacer \<Rightarrow> frame_id \<Rightarrow> bool \<Rightarrow> lru_k_replacer" where
  "set_evictable r f ev =
     (case fmlookup (lr_frames r) f of
        None \<Rightarrow> r
      | Some e \<Rightarrow> r\<lparr>lr_frames := fmupd f (e\<lparr>fe_evictable := ev\<rparr>) (lr_frames r)\<rparr>)"

text \<open>The pair \<open>(is_inf, metric)\<close> of an entry and the comparison of such pairs.\<close>

definition entry_metric :: "nat \<Rightarrow> nat \<Rightarrow> frame_entry \<Rightarrow> bool \<times> nat" where
  "entry_metric k clock e =
     (if length (fe_history e) < k
      then (True, 2 ^ 64 - 1 - (if fe_history e = [] then 0 else last (fe_history e)))
      else (False, clock - (if fe_history e = [] then 0 else hd (fe_history e))))"

definition metric_gt :: "bool \<times> nat \<Rightarrow> bool \<times> nat \<Rightarrow> bool" where
  "metric_gt a b = (fst a \<and> \<not> fst b \<or> fst a = fst b \<and> snd a > snd b)"

fun evict_scan :: "nat \<Rightarrow> nat \<Rightarrow> (frame_id \<Rightarrow> bool) \<Rightarrow> (frame_id \<times> bool \<times> nat) option
    \<Rightarrow> (frame_id \<times> frame_entry) list \<Rightarrow> (frame_id \<times> bool \<times> nat) option" where
  "evict_scan k clock accept best [] = best"
| "evict_scan k clock accept best ((f, e) # rest) =
     (if \<not> fe_evictable e \<or> \<not> accept f then evict_scan k clock accept best rest
      else
        let m = entry_metric k clock e;
            is_better = (case best of None \<Rightarrow> True | Some (_, b) \<Rightarrow> metric_gt m b)
        in evict_scan k clock accept (if is_better then Some (f, m) else best) rest)"

definition frame_entries :: "lru_k_replacer \<Rightarrow> (frame_id \<times> frame_entry) list" where
  "frame_entries r =
     map (\<lambda>f. (f, the (fmlookup (lr_frames r) f))) (sorted_list_of_fset (fmdom (lr_frames r)))"

definition evict_where :: "lru_k_replacer \<Rightarrow> (frame_id \<Rightarrow> bool) \<Rightarrow> frame_id option \<times> lru_k_replacer" where
  "evict_where r accept =
     (case map_option fst (evict_scan (lr_k r) (lr_clock r) accept None (frame_entries r)) of
        None \<Rightarrow> (None, r)
      | Some f \<Rightarrow> (Some f, r\<lparr>lr_frames := fmdrop f (lr_frames r)\<rparr>))"

definition evict :: "lru_k_replacer \<Rightarrow> frame_id option \<times> lru_k_replacer" where
  "evict r = evict_where r (\<lambda>_. True)"

definition remove_frame :: "lru_k_replacer \<Rightarrow> frame_id \<Rightarrow> lru_k_replacer" where
  "remove_frame r f = r\<lparr>lr_frames := fmdrop f (lr_frames r)\<rparr>"

definition replacer_size :: "lru_k_replacer \<Rightarrow> nat" where
  "replacer_size r = length (filter (\<lambda>(_, e). fe_evictable e) (frame_entries r))"

section \<open>The interface\<close>

text \<open>What the buffer pool relies on: the frames tracked, the evictable ones among them, and how each
  operation changes the two sets.\<close>

locale replacer =
  fixes tracked :: "'r \<Rightarrow> frame_id set"
    and evictable :: "'r \<Rightarrow> frame_id set"
    and access :: "'r \<Rightarrow> frame_id \<Rightarrow> 'r"
    and set_ev :: "'r \<Rightarrow> frame_id \<Rightarrow> bool \<Rightarrow> 'r"
    and evict_if :: "'r \<Rightarrow> (frame_id \<Rightarrow> bool) \<Rightarrow> frame_id option \<times> 'r"
  assumes evictable_tracked: "evictable r \<subseteq> tracked r"
    and access_tracked: "tracked (access r f) = insert f (tracked r)"
    and access_evictable: "evictable (access r f) = evictable r"
    and set_ev_tracked: "tracked (set_ev r f b) = tracked r"
    and set_ev_evictable: "evictable (set_ev r f b) =
          (if b then evictable r \<union> ({f} \<inter> tracked r) else evictable r - {f})"
    and evict_none: "evict_if r P = (None, r') \<Longrightarrow> r' = r \<and> (\<forall>f \<in> evictable r. \<not> P f)"
    and evict_some: "evict_if r P = (Some f, r') \<Longrightarrow> f \<in> evictable r \<and> P f \<and>
          tracked r' = tracked r - {f} \<and> evictable r' = evictable r - {f}"
begin

definition pin :: "'r \<Rightarrow> frame_id \<Rightarrow> 'r" where
  "pin r f = set_ev (access r f) f False"

definition unpin :: "'r \<Rightarrow> frame_id \<Rightarrow> 'r" where
  "unpin r f = set_ev r f True"

definition readmit :: "'r \<Rightarrow> frame_id \<Rightarrow> 'r" where
  "readmit r f = set_ev (access r f) f True"

lemma pin_effect: "tracked (pin r f) = insert f (tracked r) \<and> evictable (pin r f) = evictable r - {f}"
  by (simp add: pin_def set_ev_tracked set_ev_evictable access_tracked access_evictable)

lemma unpin_effect:
  "f \<in> tracked r \<Longrightarrow> tracked (unpin r f) = tracked r \<and> evictable (unpin r f) = insert f (evictable r)"
  by (auto simp: unpin_def set_ev_tracked set_ev_evictable)

lemma readmit_effect:
  "tracked (readmit r f) = insert f (tracked r) \<and> evictable (readmit r f) = insert f (evictable r)"
  by (auto simp: readmit_def set_ev_tracked set_ev_evictable access_tracked access_evictable)

text \<open>A pinned frame is never the victim, and a frame is found whenever one is evictable.\<close>

lemma pinned_not_victim: "evict_if (pin r f) P = (Some g, r') \<Longrightarrow> g \<noteq> f"
  using evict_some [of "pin r f" P g r'] pin_effect [of r f] by auto

lemma victim_exists: "f \<in> evictable r \<Longrightarrow> P f \<Longrightarrow> \<exists>g r'. evict_if r P = (Some g, r')"
  using evict_none [of r P] by (cases "evict_if r P"; cases "fst (evict_if r P)") auto

end

section \<open>The least recently used frames\<close>

definition tracked_frames :: "lru_k_replacer \<Rightarrow> frame_id set" where
  "tracked_frames r = fset (fmdom (lr_frames r))"

definition evictable_frames :: "lru_k_replacer \<Rightarrow> frame_id set" where
  "evictable_frames r = {f. \<exists>e. fmlookup (lr_frames r) f = Some e \<and> fe_evictable e}"

definition frame_metric :: "lru_k_replacer \<Rightarrow> frame_id \<Rightarrow> bool \<times> nat" where
  "frame_metric r f = entry_metric (lr_k r) (lr_clock r) (the (fmlookup (lr_frames r) f))"

lemma set_frame_entries: "set (frame_entries r) = {(f, e). fmlookup (lr_frames r) f = Some e}"
  by (auto simp: frame_entries_def image_iff fmlookup_dom_iff)

lemma metric_gt_trans: "metric_gt a b \<Longrightarrow> metric_gt b c \<Longrightarrow> metric_gt a c"
  by (auto simp: metric_gt_def)

lemma metric_gt_total: "metric_gt a b \<or> a = b \<or> metric_gt b a"
  by (cases a; cases b) (auto simp: metric_gt_def)

lemma metric_gt_irrefl [simp]: "\<not> metric_gt a a"
  by (simp add: metric_gt_def)

lemma evict_scan_none:
  "evict_scan k c P best xs = None \<longleftrightarrow> best = None \<and> (\<forall>(f, e) \<in> set xs. \<not> (fe_evictable e \<and> P f))"
proof (induction xs arbitrary: best)
  case (Cons x xs)
  obtain g e where x: "x = (g, e)" by (cases x)
  have "(if (case best of None \<Rightarrow> True | Some (_, b) \<Rightarrow> Q b) then Some (g, m) else best) \<noteq> None" for Q m
    by (cases best) auto
  then show ?case using Cons.IH by (simp add: x Let_def)
qed simp

lemma evict_scan_source:
  "evict_scan k c P best xs = Some (f, m) \<Longrightarrow>
     best = Some (f, m) \<or> (\<exists>e. (f, e) \<in> set xs \<and> fe_evictable e \<and> P f \<and> m = entry_metric k c e)"
  by (induction xs arbitrary: best) (force simp: Let_def split: if_splits)+

lemma evict_scan_max:
  "evict_scan k c P best xs = Some (f, m) \<Longrightarrow>
     (\<forall>g b. best = Some (g, b) \<longrightarrow> \<not> metric_gt b m) \<and>
     (\<forall>(g, e) \<in> set xs. fe_evictable e \<and> P g \<longrightarrow> \<not> metric_gt (entry_metric k c e) m)"
proof (induction xs arbitrary: best)
  case Nil
  then show ?case by simp
next
  case (Cons x xs)
  obtain g e where x: "x = (g, e)" by (cases x)
  show ?case
  proof (cases "fe_evictable e \<and> P g")
    case False
    then show ?thesis using Cons.IH [of best] Cons.prems by (auto simp: x)
  next
    case True
    let ?m = "entry_metric k c e"
    let ?best = "if (case best of None \<Rightarrow> True | Some (_, b) \<Rightarrow> metric_gt ?m b) then Some (g, ?m) else best"
    have rest: "evict_scan k c P ?best xs = Some (f, m)"
      using Cons.prems True by (simp add: x Let_def)
    have ih: "?best = Some (h, b) \<Longrightarrow> \<not> metric_gt b m" for h b
      using Cons.IH [OF rest] by blast
    have ih2: "\<forall>(g, e) \<in> set xs. fe_evictable e \<and> P g \<longrightarrow> \<not> metric_gt (entry_metric k c e) m"
      using Cons.IH [OF rest] by simp
    have 1: "\<not> metric_gt ?m m"
    proof (cases "case best of None \<Rightarrow> True | Some (_, b) \<Rightarrow> metric_gt ?m b")
      case True
      then show ?thesis using ih [of g ?m] by simp
    next
      case False
      then obtain h b where b: "best = Some (h, b)" "\<not> metric_gt ?m b" by (auto split: option.splits)
      then have "\<not> metric_gt b m" using ih [of h b] by simp
      then show ?thesis using b(2) metric_gt_trans metric_gt_total by metis
    qed
    have 2: "\<not> metric_gt b m" if "best = Some (h, b)" for h b
      using ih [of h b] 1 that metric_gt_trans [of ?m b m] by (cases "metric_gt ?m b") auto
    show ?thesis using ih2 1 2 by (auto simp: x)
  qed
qed

lemma evict_where_none:
  "evict_where r P = (None, r') \<longleftrightarrow> r' = r \<and> (\<forall>f \<in> evictable_frames r. \<not> P f)"
  using evict_scan_none [of "lr_k r" "lr_clock r" P None "frame_entries r"]
  by (auto simp: evict_where_def evictable_frames_def set_frame_entries split: option.splits)

lemma evict_where_some:
  assumes "evict_where r P = (Some f, r')"
  shows "f \<in> evictable_frames r" "P f" "r' = r\<lparr>lr_frames := fmdrop f (lr_frames r)\<rparr>"
    "g \<in> evictable_frames r \<Longrightarrow> P g \<Longrightarrow> \<not> metric_gt (frame_metric r g) (frame_metric r f)"
proof -
  obtain m where sc: "evict_scan (lr_k r) (lr_clock r) P None (frame_entries r) = Some (f, m)"
    and r': "r' = r\<lparr>lr_frames := fmdrop f (lr_frames r)\<rparr>"
    using assms by (auto simp: evict_where_def split: option.splits)
  show "r' = r\<lparr>lr_frames := fmdrop f (lr_frames r)\<rparr>" by (rule r')
  obtain e where e: "fmlookup (lr_frames r) f = Some e" "fe_evictable e" "P f"
    "m = entry_metric (lr_k r) (lr_clock r) e"
    using evict_scan_source [OF sc] by (auto simp: set_frame_entries)
  then show "f \<in> evictable_frames r" "P f" by (auto simp: evictable_frames_def)
  show "\<not> metric_gt (frame_metric r g) (frame_metric r f)" if "g \<in> evictable_frames r" "P g"
    using evict_scan_max [OF sc] that e by (auto simp: evictable_frames_def set_frame_entries frame_metric_def)
qed

interpretation lruk: replacer tracked_frames evictable_frames record_access set_evictable evict_where
proof
  fix r :: lru_k_replacer and f b P r'
  show "evictable_frames r \<subseteq> tracked_frames r"
    by (auto simp: evictable_frames_def tracked_frames_def intro: fmdomI)
  show "tracked_frames (record_access r f) = insert f (tracked_frames r)"
    by (simp add: record_access_def tracked_frames_def Let_def)
  show "evictable_frames (record_access r f) = evictable_frames r"
    by (auto simp: record_access_def evictable_frames_def Let_def split: option.splits)
  show "tracked_frames (set_evictable r f b) = tracked_frames r"
    by (auto simp: set_evictable_def tracked_frames_def split: option.splits) (meson fmdomI)
  show "evictable_frames (set_evictable r f b) =
      (if b then evictable_frames r \<union> ({f} \<inter> tracked_frames r) else evictable_frames r - {f})"
    by (auto simp: set_evictable_def evictable_frames_def tracked_frames_def fmlookup_dom_iff
        split: option.splits if_splits intro: fmdomI)
  show "evict_where r P = (None, r') \<Longrightarrow> r' = r \<and> (\<forall>f \<in> evictable_frames r. \<not> P f)"
    by (simp add: evict_where_none)
  show "evict_where r P = (Some f, r') \<Longrightarrow> f \<in> evictable_frames r \<and> P f \<and>
      tracked_frames r' = tracked_frames r - {f} \<and> evictable_frames r' = evictable_frames r - {f}"
    using evict_where_some [of r P f r']
    by (auto simp: tracked_frames_def evictable_frames_def split: if_splits)
qed

section \<open>Reachable replacers\<close>

text \<open>Access times are distinct: the metrics of two frames differ, so the scan has one best entry.\<close>

definition lru_wf :: "lru_k_replacer \<Rightarrow> bool" where
  "lru_wf r \<longleftrightarrow> 0 < lr_k r \<and>
     (\<forall>f e. fmlookup (lr_frames r) f = Some e \<longrightarrow> fe_history e \<noteq> [] \<and> set (fe_history e) \<subseteq> {..lr_clock r}) \<and>
     (\<forall>f g e d. fmlookup (lr_frames r) f = Some e \<longrightarrow> fmlookup (lr_frames r) g = Some d \<longrightarrow> f \<noteq> g \<longrightarrow>
        set (fe_history e) \<inter> set (fe_history d) = {})"

text \<open>The history of a replacer, newest event first: which frame was accessed, and which frame
  stopped being tracked. The time of an access is its rank among all accesses, and \<open>access_times\<close>
  lists the accesses of a frame since it was last dropped, newest first.\<close>

datatype replacer_event = Accessed frame_id | Dropped frame_id

fun ticks :: "replacer_event list \<Rightarrow> nat" where
  "ticks [] = 0"
| "ticks (Accessed _ # evs) = Suc (ticks evs)"
| "ticks (Dropped _ # evs) = ticks evs"

fun access_times :: "replacer_event list \<Rightarrow> frame_id \<Rightarrow> nat list" where
  "access_times [] f = []"
| "access_times (Accessed g # evs) f =
     (if g = f then Suc (ticks evs) # access_times evs f else access_times evs f)"
| "access_times (Dropped g # evs) f = (if g = f then [] else access_times evs f)"

inductive lru_run :: "replacer_event list \<Rightarrow> lru_k_replacer \<Rightarrow> bool" where
  lru_create: "0 < k \<Longrightarrow> lru_run [] (lru_new capacity k)"
| lru_access: "lru_run evs r \<Longrightarrow> lru_run (Accessed f # evs) (record_access r f)"
| lru_set_ev: "lru_run evs r \<Longrightarrow> lru_run evs (set_evictable r f b)"
| lru_evict: "lru_run evs r \<Longrightarrow> evict_where r P = (Some f, r') \<Longrightarrow> lru_run (Dropped f # evs) r'"
| lru_remove: "lru_run evs r \<Longrightarrow> lru_run (Dropped f # evs) (remove_frame r f)"

text \<open>The LRU-K policy, on the access times of two frames: a frame with fewer than \<open>k\<close> accesses is
  given up before one with \<open>k\<close>; two of the former are ordered by their latest access, two of the
  latter by their \<open>k\<close>-th latest access, the older one first.\<close>

definition given_up_before :: "nat \<Rightarrow> nat list \<Rightarrow> nat list \<Rightarrow> bool" where
  "given_up_before k as bs \<longleftrightarrow>
     (if length as < k then k \<le> length bs \<or> hd as < hd bs
      else k \<le> length bs \<and> as ! (k - 1) < bs ! (k - 1))"

lemma lru_wf_access:
  assumes "lru_wf r"
  shows "lru_wf (record_access r f)"
proof -
  define e where "e = (case fmlookup (lr_frames r) f of
      None \<Rightarrow> \<lparr>fe_history = [], fe_evictable = False\<rparr> | Some e \<Rightarrow> e)"
  define h where "h = fe_history e @ [lr_clock r + 1]"
  define h' where "h' = (if length h > lr_k r then tl h else h)"
  have old: "set (fe_history e) \<subseteq> {..lr_clock r}"
    using assms by (auto simp: e_def lru_wf_def split: option.splits)
  have other: "set (fe_history e) \<inter> set (fe_history d) = {}"
    if "fmlookup (lr_frames r) g = Some d" "g \<noteq> f" for g d
    using assms that unfolding lru_wf_def e_def by (cases "fmlookup (lr_frames r) f") auto
  have bound: "set (fe_history d) \<subseteq> {..lr_clock r}" if "fmlookup (lr_frames r) g = Some d" for g d
    using assms that unfolding lru_wf_def by blast
  have sub: "set h' \<subseteq> insert (lr_clock r + 1) (set (fe_history e))"
    unfolding h'_def h_def by (auto dest: list.set_sel(2)) (cases "fe_history e"; auto)+
  have ne: "h' \<noteq> []"
    using assms unfolding h'_def h_def lru_wf_def by (cases "fe_history e") auto
  have eq: "record_access r f = r\<lparr>lr_clock := lr_clock r + 1,
      lr_frames := fmupd f (e\<lparr>fe_history := h'\<rparr>) (lr_frames r)\<rparr>"
    unfolding record_access_def Let_def e_def h'_def h_def by simp
  have b': "set h' \<subseteq> {..lr_clock r + 1}" using sub old by (auto dest!: subsetD)
  have d': "set h' \<inter> set (fe_history d) = {}" if "fmlookup (lr_frames r) g = Some d" "g \<noteq> f" for g d
    using sub other [OF that] bound [OF that(1)] by fastforce
  have dd: "set (fe_history d1) \<inter> set (fe_history d2) = {}"
    if "fmlookup (lr_frames r) g1 = Some d1" "fmlookup (lr_frames r) g2 = Some d2" "g1 \<noteq> g2" for g1 g2 d1 d2
    using assms that unfolding lru_wf_def by blast
  have nd: "fe_history d \<noteq> []" if "fmlookup (lr_frames r) g = Some d" for g d
    using assms that unfolding lru_wf_def by blast
  show ?thesis
    unfolding lru_wf_def eq
  proof (intro conjI allI impI, goal_cases)
    case 1
    then show ?case using assms by (simp add: lru_wf_def)
  next
    case (2 g d)
    then show ?case using ne nd by (auto split: if_splits)
  next
    case (3 g d)
    then show ?case using b' bound [of g d] by (auto split: if_splits)
  next
    case (4 g1 g2 d1 d2)
    then show ?case using d' [of g1 d1] d' [of g2 d2] dd [of g1 d1 g2 d2]
      by (auto simp: Int_commute split: if_splits)
  qed
qed

lemma lru_wf_drop: "lru_wf r \<Longrightarrow> lru_wf (r\<lparr>lr_frames := fmdrop f (lr_frames r)\<rparr>)"
  by (auto simp: lru_wf_def split: if_splits)

lemma lru_wf_set_ev: "lru_wf r \<Longrightarrow> lru_wf (set_evictable r f b)"
proof (cases "fmlookup (lr_frames r) f")
  case None
  then show "lru_wf r \<Longrightarrow> ?thesis" by (simp add: set_evictable_def)
next
  case (Some e)
  then show "lru_wf r \<Longrightarrow> ?thesis"
    unfolding lru_wf_def set_evictable_def by (simp split: if_splits)
qed

lemma lru_run_wf: "lru_run evs r \<Longrightarrow> lru_wf r"
proof (induction rule: lru_run.induct)
  case (lru_create k capacity)
  then show ?case by (simp add: lru_wf_def lru_new_def)
next
  case (lru_evict evs r P f r')
  then show ?case using evict_where_some(3) [OF lru_evict.hyps(2)] by (simp add: lru_wf_drop)
qed (auto simp: lru_wf_access lru_wf_set_ev lru_wf_drop remove_frame_def)

text \<open>What the replacer keeps of its history: the last \<open>k\<close> access times of every tracked frame.\<close>

definition remembers :: "replacer_event list \<Rightarrow> lru_k_replacer \<Rightarrow> bool" where
  "remembers evs r \<longleftrightarrow> lr_clock r = ticks evs \<and>
     (\<forall>f. fmlookup (lr_frames r) f = None \<longrightarrow> access_times evs f = []) \<and>
     (\<forall>f e. fmlookup (lr_frames r) f = Some e \<longrightarrow> fe_history e = rev (take (lr_k r) (access_times evs f)))"

lemma history_window:
  assumes "0 < k" "h = rev (take k ts) @ [t]"
  shows "(if length h > k then tl h else h) = rev (take k (t # ts))"
proof (cases "k \<le> length ts")
  case True
  obtain j where k: "k = Suc j" using assms(1) by (cases k) auto
  have "take k ts = take j ts @ [ts ! j]" using True k by (simp add: take_Suc_conv_app_nth)
  then show ?thesis using True assms(2) k by simp
next
  case False
  then show ?thesis using assms by (auto simp: min_def take_Cons' split: if_splits)
qed

lemma remembers_access:
  assumes "remembers evs r" "0 < lr_k r"
  shows "remembers (Accessed f # evs) (record_access r f)"
proof -
  define e where "e = (case fmlookup (lr_frames r) f of
      None \<Rightarrow> \<lparr>fe_history = [], fe_evictable = False\<rparr> | Some e \<Rightarrow> e)"
  have clock: "lr_clock r = ticks evs" using assms(1) by (simp add: remembers_def)
  have e: "fe_history e = rev (take (lr_k r) (access_times evs f))"
    using assms(1) unfolding remembers_def e_def by (auto split: option.splits)
  note w = history_window [OF assms(2), of _ "access_times evs f" "Suc (ticks evs)", folded e]
  show ?thesis
    using assms(1) clock w unfolding remembers_def record_access_def Let_def e_def [symmetric]
    by (auto split: option.splits)
qed

lemma remembers_drop:
  "remembers evs r \<Longrightarrow> remembers (Dropped f # evs) (r\<lparr>lr_frames := fmdrop f (lr_frames r)\<rparr>)"
  by (simp add: remembers_def)

lemma remembers_set_ev: "remembers evs r \<Longrightarrow> remembers evs (set_evictable r f b)"
  by (auto simp: remembers_def set_evictable_def split: option.splits)

lemma lru_run_remembers: "lru_run evs r \<Longrightarrow> remembers evs r"
proof (induction rule: lru_run.induct)
  case (lru_create k capacity)
  then show ?case by (simp add: remembers_def lru_new_def)
next
  case (lru_access evs r f)
  then show ?case using lru_run_wf [of evs r] by (simp add: remembers_access lru_wf_def)
next
  case (lru_evict evs r P f r')
  then show ?case using evict_where_some(3) [OF lru_evict.hyps(2)] by (simp add: remembers_drop)
qed (simp_all add: remembers_set_ev remembers_drop remove_frame_def)

lemma metric_gives_up:
  assumes "remembers evs r" "lru_wf r" "lr_clock r < 2 ^ 64" "f \<in> tracked_frames r" "g \<in> tracked_frames r"
    "metric_gt (frame_metric r f) (frame_metric r g)"
  shows "given_up_before (lr_k r) (access_times evs f) (access_times evs g)"
proof -
  let ?k = "lr_k r"
  obtain e d where e: "fmlookup (lr_frames r) f = Some e" and d: "fmlookup (lr_frames r) g = Some d"
    using assms(4,5) by (auto simp: tracked_frames_def fmlookup_dom_iff)
  have k: "0 < ?k" and ne: "fe_history e \<noteq> []" "fe_history d \<noteq> []"
    and le: "set (fe_history e) \<subseteq> {..lr_clock r}" "set (fe_history d) \<subseteq> {..lr_clock r}"
    using assms(2) e d unfolding lru_wf_def by blast+
  have h: "fe_history e = rev (take ?k (access_times evs f))" "fe_history d = rev (take ?k (access_times evs g))"
    using assms(1) e d unfolding remembers_def by blast+
  have bnd: "last (fe_history e) \<le> lr_clock r" "hd (fe_history e) \<le> lr_clock r"
    "last (fe_history d) \<le> lr_clock r" "hd (fe_history d) \<le> lr_clock r"
    using le ne by (auto dest!: subsetD)
  have ends: "last (rev (take ?k ts)) = hd ts" "?k \<le> length ts \<Longrightarrow> hd (rev (take ?k ts)) = ts ! (?k - 1)"
    if "ts \<noteq> []" for ts :: "nat list"
    using k that by (simp_all add: last_rev hd_take hd_rev last_conv_nth min_def)
  have ts: "access_times evs f \<noteq> []" "access_times evs g \<noteq> []" using ne h by auto
  define x y where "x = access_times evs f" and "y = access_times evs g"
  have m: "entry_metric ?k (lr_clock r) c =
      (if length ts < ?k then (True, 2 ^ 64 - 1 - hd ts) else (False, lr_clock r - ts ! (?k - 1)))"
    if "fe_history c = rev (take ?k ts)" "ts \<noteq> []" for c ts
    using ends [OF that(2)] that k by (simp add: entry_metric_def last_rev)
  have "hd x \<le> lr_clock r" "hd y \<le> lr_clock r"
    "?k \<le> length x \<Longrightarrow> x ! (?k - 1) \<le> lr_clock r" "?k \<le> length y \<Longrightarrow> y ! (?k - 1) \<le> lr_clock r"
    using bnd ends [OF ts(1)] ends [OF ts(2)] by (simp_all add: h x_def y_def)
  then show ?thesis
    using assms(3,6) unfolding frame_metric_def e d option.sel m [OF h(1) ts(1)] m [OF h(2) ts(2)]
      x_def [symmetric] y_def [symmetric] metric_gt_def given_up_before_def
    by (cases "length x < ?k"; cases "length y < ?k") auto
qed

lemma frame_metric_inj:
  assumes "lru_wf r" "lr_clock r < 2 ^ 64"
    "f \<in> tracked_frames r" "g \<in> tracked_frames r" "frame_metric r f = frame_metric r g"
  shows "f = g"
proof (rule ccontr)
  assume "f \<noteq> g"
  obtain e d where e: "fmlookup (lr_frames r) f = Some e" and d: "fmlookup (lr_frames r) g = Some d"
    using assms(3,4) by (auto simp: tracked_frames_def fmlookup_dom_iff)
  have ne: "fe_history e \<noteq> []" "fe_history d \<noteq> []"
    and le: "set (fe_history e) \<subseteq> {..lr_clock r}" "set (fe_history d) \<subseteq> {..lr_clock r}"
    using assms(1) e d unfolding lru_wf_def by blast+
  have dis: "set (fe_history e) \<inter> set (fe_history d) = {}"
    using assms(1) e d \<open>f \<noteq> g\<close> unfolding lru_wf_def by blast
  have "last (fe_history e) \<le> lr_clock r" "hd (fe_history e) \<le> lr_clock r"
    "last (fe_history d) \<le> lr_clock r" "hd (fe_history d) \<le> lr_clock r"
    using le ne by (auto dest!: subsetD)
  then have "last (fe_history e) = last (fe_history d) \<or> hd (fe_history e) = hd (fe_history d)"
    using assms(2,5) ne e d by (auto simp: frame_metric_def entry_metric_def split: if_splits)
  then show False using dis ne by (metis disjoint_iff hd_in_set last_in_set)
qed

lemma lru_victim_best:
  assumes "lru_run evs r" "lr_clock r < 2 ^ 64" "evict_where r P = (Some f, r')"
    "g \<in> evictable_frames r" "P g" "g \<noteq> f"
  shows "metric_gt (frame_metric r f) (frame_metric r g)"
  using evict_where_some [OF assms(3)] frame_metric_inj [OF lru_run_wf [OF assms(1)] assms(2), of f g]
    metric_gt_total [of "frame_metric r f" "frame_metric r g"] assms(4-6) lruk.evictable_tracked
  by blast

text \<open>The order in which the table yields its entries does not matter.\<close>

lemma victim_order_irrelevant:
  assumes "lru_run evs r" "lr_clock r < 2 ^ 64" "set xs = set (frame_entries r)"
  shows "map_option fst (evict_scan (lr_k r) (lr_clock r) P None xs) = fst (evict_where r P)"
proof (cases "evict_scan (lr_k r) (lr_clock r) P None xs")
  case None
  then have "fst (evict_where r P) = None"
    using evict_scan_none [of "lr_k r" "lr_clock r" P None] assms(3)
    by (metis (no_types, lifting) evict_where_def fst_conv option.case(1) option.map(1))
  then show ?thesis using None by simp
next
  case (Some b)
  obtain f m where b: "b = (f, m)" by (cases b) auto
  obtain e where e: "fmlookup (lr_frames r) f = Some e" "fe_evictable e" "P f" "m = frame_metric r f"
    using evict_scan_source [OF Some [unfolded b]] assms(3) by (auto simp: set_frame_entries frame_metric_def)
  have fe: "f \<in> evictable_frames r" using e by (auto simp: evictable_frames_def)
  obtain g r' where g: "evict_where r P = (Some g, r')"
    using lruk.victim_exists [OF fe, of P] e(3) by blast
  have "\<not> metric_gt (frame_metric r g) m"
    using evict_scan_max [OF Some [unfolded b]] evict_where_some(1,2) [OF g] assms(3)
    by (fastforce simp: evictable_frames_def set_frame_entries frame_metric_def)
  then have "f = g" using lru_victim_best [OF assms(1,2) g fe e(3)] e(4) by blast
  then show ?thesis using Some b g by simp
qed

text \<open>C12: The LRU-K victim. In any run of the replacer, the frame chosen is evictable and accepted,
  and by the access times of the run it is given up before every other evictable and accepted
  frame: a frame with fewer than K accesses since it was last dropped comes before one with K, among
  the former the one whose latest access is oldest, among the latter the one whose K-th latest
  access is oldest. A frame is found whenever one is evictable and accepted.\<close>

theorem lru_k_victim:
  assumes "lru_run evs r" "ticks evs < 2 ^ 64"
  shows "case evict_where r P of
      (None, r') \<Rightarrow> r' = r \<and> {f \<in> evictable_frames r. P f} = {}
    | (Some f, r') \<Rightarrow> f \<in> evictable_frames r \<and> P f \<and> evictable_frames r' = evictable_frames r - {f} \<and>
        {g \<in> evictable_frames r. P g \<and> g \<noteq> f}
          \<subseteq> {g. given_up_before (lr_k r) (access_times evs f) (access_times evs g)}"
proof -
  have mem: "remembers evs r" "lru_wf r" using assms(1) by (simp_all add: lru_run_remembers lru_run_wf)
  then have clock: "lr_clock r < 2 ^ 64" using assms(2) by (simp add: remembers_def)
  have order: "given_up_before (lr_k r) (access_times evs f) (access_times evs g)"
    if "evict_where r P = (Some f, r')" "g \<in> evictable_frames r" "P g" "g \<noteq> f" for f g r'
    using metric_gives_up [OF mem clock _ _ lru_victim_best [OF assms(1) clock that]]
      evict_where_some(1) [OF that(1)] that(2) lruk.evictable_tracked by blast
  show ?thesis
    using order evict_where_none [of r P] lruk.evict_some [of r P]
    by (cases "evict_where r P"; cases "fst (evict_where r P)") auto
qed

definition two_frames :: lru_k_replacer where
  "two_frames = set_evictable (set_evictable
     (record_access (record_access (record_access (record_access (lru_new 4 2) 0) 1) 1) 0) 0 True) 1 True"

text \<open>Both frames have two accesses, frame 1 the second and third, frame 0 the first and fourth:
  the victim is frame 0, although it is the one used last.\<close>

theorem lru_k_victim_witness: "fst (evict_where two_frames (\<lambda>_. True)) = Some 0"
proof -
  define evs where "evs = [Accessed 0, Accessed 1, Accessed 1, Accessed 0]"
  have run: "lru_run evs two_frames" unfolding two_frames_def evs_def by (intro lru_run.intros) simp
  have t: "access_times evs 0 = [4, 1]" "access_times evs 1 = [3, 2]" "ticks evs < 2 ^ 64"
    by (simp_all add: evs_def)
  have eq: "lr_k two_frames = 2" "evictable_frames two_frames = {0, 1}"
    by (auto simp: evictable_frames_def two_frames_def record_access_def set_evictable_def lru_new_def
        Let_def split: if_splits)
  obtain v r' where v: "evict_where two_frames (\<lambda>_. True) = (v, r')" by fastforce
  show ?thesis
  proof (cases v)
    case None
    then have "0 \<notin> evictable_frames two_frames" using lru_k_victim [OF run t(3), of "\<lambda>_. True"] by (simp add: v)
    then show ?thesis by (simp add: eq)
  next
    case (Some f)
    then have f: "f \<in> {0, 1}" and sub: "{g \<in> {0, 1}. g \<noteq> f}
        \<subseteq> {g. given_up_before 2 (access_times evs f) (access_times evs g)}"
      using lru_k_victim [OF run t(3), of "\<lambda>_. True"] by (simp_all only: v eq prod.case option.case simp_thms)
    have "f \<noteq> 1"
    proof
      assume "f = 1"
      then have "given_up_before 2 (access_times evs 1) (access_times evs 0)"
        using subsetD [OF sub, of 0] by simp
      then show False unfolding t(1,2) by (simp add: given_up_before_def)
    qed
    then show ?thesis using f Some v by simp
  qed
qed

end
