(* ===== verification/Disk.thy ===== *)
theory Disk
  imports Storage_Base
begin

text \<open>
  The database file of \<open>storage/src/disk.rs\<close>: an array of pages behind a header page, reading with
  the checksum verified, writing with the checksum stamped, and the allocation counter. The device
  may fail on any write; the atomics and the mutex are plain fields, since each method here is one
  atomic section as far as its own fields go.
\<close>

definition DISK_MAGIC :: bytes where "DISK_MAGIC = map of_char ''FERRODB'' @ [0]"
definition HEADER_VERSION :: u32 where "HEADER_VERSION = 11"

definition MAGIC_OFFSET :: nat where "MAGIC_OFFSET = 12"
definition VERSION_OFFSET :: nat where "VERSION_OFFSET = 20"
definition CATALOG_FIRST_PAGE_OFFSET :: nat where "CATALOG_FIRST_PAGE_OFFSET = 24"
definition PAGE_SIZE_OFFSET :: nat where "PAGE_SIZE_OFFSET = 28"
definition PAGE_SIZE_RANGE_END :: nat where "PAGE_SIZE_RANGE_END = 32"
definition LAST_CHECKPOINT_LSN_OFFSET :: nat where "LAST_CHECKPOINT_LSN_OFFSET = 32"
definition INDEX_CATALOG_FIRST_PAGE_OFFSET :: nat where "INDEX_CATALOG_FIRST_PAGE_OFFSET = 40"

lemmas disk_header_consts = MAGIC_OFFSET_def VERSION_OFFSET_def CATALOG_FIRST_PAGE_OFFSET_def
  PAGE_SIZE_OFFSET_def PAGE_SIZE_RANGE_END_def LAST_CHECKPOINT_LSN_OFFSET_def
  INDEX_CATALOG_FIRST_PAGE_OFFSET_def

record disk_manager =
  dm_device :: fdevice
  dm_page_size :: nat
  dm_next_page_id :: u32
  dm_extended_len :: nat

definition dm_on :: "(fdevice, storage_error, 'a) sresult \<Rightarrow> (disk_manager, storage_error, 'a) sresult" where
  "dm_on m dm = (let (r, fd) = m (dm_device dm) in (r, dm\<lparr>dm_device := fd\<rparr>))"

abbreviation dm_bytes :: "disk_manager \<Rightarrow> bytes" where
  "dm_bytes dm \<equiv> fd_bytes (dm_device dm)"

definition disk_read_u32 :: "bytes \<Rightarrow> nat \<Rightarrow> u32" where
  "disk_read_u32 buf at = le_u32 (bytes_at buf at 4)"

definition disk_header :: "nat \<Rightarrow> bytes" where
  "disk_header page_size =
     (let buf = replicate PAGE_SIZE 0;
          buf = splice buf MAGIC_OFFSET DISK_MAGIC;
          buf = splice buf VERSION_OFFSET (u32_le HEADER_VERSION);
          buf = splice buf CATALOG_FIRST_PAGE_OFFSET (u32_le (- 1));
          buf = splice buf INDEX_CATALOG_FIRST_PAGE_OFFSET (u32_le (- 1));
          buf = splice buf PAGE_SIZE_OFFSET (u32_le (of_nat page_size))
      in stamp_checksum buf)"

definition write_header :: "(disk_manager, storage_error, unit) sresult" where
  "write_header dm = dm_on (fd_write_at 0 (disk_header (dm_page_size dm))) dm"

definition version_reason :: "u32 \<Rightarrow> string" where
  "version_reason version =
     ''unsupported on-disk format version '' @ nat_str (unat version)
       @ '': this build reads and writes version '' @ nat_str (unat HEADER_VERSION)"

definition page_size_reason :: "u32 \<Rightarrow> nat \<Rightarrow> string" where
  "page_size_reason stored page_size =
     ''page size mismatch: database was created with page_size '' @ nat_str (unat stored)
       @ '', but '' @ nat_str page_size @ '' was requested''"

definition disk_open_with_device :: "fdevice \<Rightarrow> nat \<Rightarrow> storage_error + disk_manager" where
  "disk_open_with_device fd page_size =
     (let device_len = dev_size (fd_bytes fd) in
      if device_len = 0 then
        (case write_header \<lparr>dm_device = fd, dm_page_size = page_size, dm_next_page_id = 1,
                            dm_extended_len = page_size\<rparr> of
           (Inl e, _) \<Rightarrow> Inl e
         | (Inr _, dm) \<Rightarrow> Inr dm)
      else if page_size = 0 then Inl Panicked
      else if device_len mod page_size \<noteq> 0 then
        Inl (TruncatedFile device_len (device_len div page_size * page_size) page_size)
      else
        and_then (dev_read_at (fd_bytes fd) 0 PAGE_SIZE_RANGE_END) (\<lambda>header_buf.
          if bytes_at header_buf MAGIC_OFFSET 8 \<noteq> DISK_MAGIC then
            Inl (CorruptPage 0 ''bad magic in database header'')
          else
            let version = disk_read_u32 header_buf VERSION_OFFSET in
            if version \<noteq> HEADER_VERSION then Inl (CorruptPage 0 (version_reason version))
            else
              let stored_page_size = disk_read_u32 header_buf PAGE_SIZE_OFFSET in
              if unat stored_page_size \<noteq> page_size then
                Inl (CorruptPage 0 (page_size_reason stored_page_size page_size))
              else
                Inr \<lparr>dm_device = fd, dm_page_size = page_size,
                     dm_next_page_id = of_nat (device_len div page_size),
                     dm_extended_len = device_len\<rparr>))"

definition disk_offset_of :: "disk_manager \<Rightarrow> page_id \<Rightarrow> nat" where
  "disk_offset_of dm pid = unat pid * dm_page_size dm"

definition read_page_unchecked :: "disk_manager \<Rightarrow> page_id \<Rightarrow> storage_error + bytes" where
  "read_page_unchecked dm pid =
     (if disk_offset_of dm pid + dm_page_size dm > dev_size (dm_bytes dm)
      then Inl (PageNotFound pid)
      else dev_read_at (dm_bytes dm) (disk_offset_of dm pid) PAGE_SIZE)"

definition read_page :: "disk_manager \<Rightarrow> page_id \<Rightarrow> storage_error + bytes" where
  "read_page dm pid =
     and_then (read_page_unchecked dm pid) (\<lambda>data.
       if \<not> checksum_ok data
       then Inl (ChecksumMismatch pid (disk_read_u32 data 0) (checksum_of data))
       else Inr data)"

definition write_page :: "page_id \<Rightarrow> bytes \<Rightarrow> (disk_manager, storage_error, unit) sresult" where
  "write_page pid data dm = dm_on (fd_write_at (disk_offset_of dm pid) (stamp_checksum data)) dm"

definition extend_to_at_least :: "nat \<Rightarrow> (disk_manager, storage_error, unit) sresult" where
  "extend_to_at_least target_len dm =
     (if dm_extended_len dm < target_len
      then sbind (dm_on (fd_set_len target_len)) (\<lambda>_. smodify (\<lambda>dm. dm\<lparr>dm_extended_len := target_len\<rparr>)) dm
      else (Inr (), dm))"

definition allocate_page :: "(disk_manager, storage_error, page_id) sresult" where
  "allocate_page dm =
     (let pid = dm_next_page_id dm in
      sbind (extend_to_at_least ((unat pid + 1) * dm_page_size dm)) (\<lambda>_. sreturn pid)
        (dm\<lparr>dm_next_page_id := pid + 1\<rparr>))"

text \<open>\<open>page_id.0 + 1\<close> overflows only for the last page id, which a file cannot reach: the
  model keeps the wrap-around of a release build.\<close>

definition ensure_allocated :: "page_id \<Rightarrow> (disk_manager, storage_error, unit) sresult" where
  "ensure_allocated pid dm =
     (let needed = pid + 1 in
      if dm_next_page_id dm < needed
      then extend_to_at_least (unat needed * dm_page_size dm) (dm\<lparr>dm_next_page_id := needed\<rparr>)
      else (Inr (), dm))"

definition disk_sync :: "(disk_manager, storage_error, unit) sresult" where
  "disk_sync = dm_on fd_sync_all"

section \<open>The array of pages\<close>

definition page_at :: "disk_manager \<Rightarrow> page_id \<Rightarrow> bytes" where
  "page_at dm pid = bytes_at (dm_bytes dm) (unat pid * PAGE_SIZE) PAGE_SIZE"

text \<open>The state of a manager whose device works: whole pages up to the allocation counter.\<close>

definition disk_inv :: "disk_manager \<Rightarrow> bool" where
  "disk_inv dm \<longleftrightarrow> dm_page_size dm = PAGE_SIZE \<and> fd_faults (dm_device dm) = [] \<and>
     length (dm_bytes dm) = unat (dm_next_page_id dm) * PAGE_SIZE \<and>
     dm_extended_len dm = length (dm_bytes dm) \<and> 0 < dm_next_page_id dm"

lemma page_end_le: "p < (q :: nat) \<Longrightarrow> p * n + n \<le> q * n"
  by (metis Suc_leI add.commute mult_Suc mult_le_mono1)

lemma page_ranges_apart: "p \<noteq> (q :: nat) \<Longrightarrow> p * n + n \<le> q * n \<or> q * n + n \<le> p * n"
  using page_end_le [of p q n] page_end_le [of q p n] by arith

lemma disk_inv_page_fits:
  "disk_inv dm \<Longrightarrow> pid < dm_next_page_id dm \<Longrightarrow> unat pid * PAGE_SIZE + PAGE_SIZE \<le> length (dm_bytes dm)"
  by (simp add: disk_inv_def page_end_le word_less_nat_alt)

lemma length_page_at [simp]:
  "disk_inv dm \<Longrightarrow> pid < dm_next_page_id dm \<Longrightarrow> length (page_at dm pid) = PAGE_SIZE"
  using disk_inv_page_fits unfolding page_at_def by (intro length_bytes_at) blast

lemma read_page_unchecked_eq:
  assumes "disk_inv dm"
  shows "read_page_unchecked dm pid =
    (if pid < dm_next_page_id dm then Inr (page_at dm pid) else Inl (PageNotFound pid))"
proof (cases "pid < dm_next_page_id dm")
  case True
  then show ?thesis
    using disk_inv_page_fits [OF assms True] assms
    by (simp add: read_page_unchecked_def disk_offset_of_def dev_size_def disk_inv_def dev_read_at_eq
        page_at_def)
next
  case False
  then have "length (dm_bytes dm) \<le> unat pid * PAGE_SIZE"
    using assms by (simp add: disk_inv_def word_less_nat_alt)
  then show ?thesis
    using False assms
    by (simp add: read_page_unchecked_def disk_offset_of_def dev_size_def disk_inv_def PAGE_SIZE_def)
qed

lemma read_page_eq:
  assumes "disk_inv dm" "pid < dm_next_page_id dm" "checksum_ok (page_at dm pid)"
  shows "read_page dm pid = Inr (page_at dm pid)"
  using assms by (simp add: read_page_def read_page_unchecked_eq)

lemma write_page_eq:
  assumes "disk_inv dm" "pid < dm_next_page_id dm" "length data = PAGE_SIZE"
  obtains dm' where "write_page pid data dm = (Inr (), dm')" "disk_inv dm'"
    "dm_next_page_id dm' = dm_next_page_id dm" "page_at dm' pid = stamp_checksum data"
    "\<And>q. q < dm_next_page_id dm \<Longrightarrow> q \<noteq> pid \<Longrightarrow> page_at dm' q = page_at dm q"
proof -
  let ?off = "unat pid * PAGE_SIZE"
  let ?s = "stamp_checksum data"
  let ?dm' = "dm\<lparr>dm_device := dm_device dm\<lparr>fd_bytes := splice (dm_bytes dm) ?off ?s\<rparr>\<rparr>"
  have s: "length ?s = PAGE_SIZE" using assms(3) by (simp add: PAGE_SIZE_def)
  have fits: "?off + length ?s \<le> length (dm_bytes dm)"
    using disk_inv_page_fits [OF assms(1,2)] s by simp
  have "write_page pid data dm = (Inr (), ?dm')"
    using assms(1) dev_write_at_inside [OF fits]
    by (simp add: write_page_def dm_on_def disk_offset_of_def disk_inv_def Let_def)
  moreover have "disk_inv ?dm'" using assms(1) fits by (simp add: disk_inv_def)
  moreover have "page_at ?dm' pid = ?s" using fits s by (simp add: page_at_def)
  moreover have "page_at ?dm' q = page_at dm q" if "q < dm_next_page_id dm" "q \<noteq> pid" for q
  proof -
    have "unat q \<noteq> unat pid" using that(2) by (simp add: word_unat_eq_iff)
    then show ?thesis
      using page_ranges_apart [of "unat q" "unat pid" PAGE_SIZE] s fits
        disk_inv_page_fits [OF assms(1) that(1)]
      by (simp add: page_at_def bytes_at_splice_other)
  qed
  ultimately show thesis using that by simp
qed

lemma unat_plus_1: "(w :: 'a::len word) \<noteq> - 1 \<Longrightarrow> unat (w + 1) = unat w + 1"
  by (metis Suc_eq_plus1 add.commute add.inverse_unique unatSuc)

lemma set_len_page_at:
  assumes "disk_inv dm" "n = unat p * PAGE_SIZE" "unat (dm_next_page_id dm) \<le> unat p"
  shows "q < dm_next_page_id dm \<Longrightarrow>
      bytes_at (dev_set_len (dm_bytes dm) n) (unat q * PAGE_SIZE) PAGE_SIZE = page_at dm q"
    and "dm_next_page_id dm \<le> q \<Longrightarrow> q < p \<Longrightarrow>
      bytes_at (dev_set_len (dm_bytes dm) n) (unat q * PAGE_SIZE) PAGE_SIZE = replicate PAGE_SIZE 0"
proof -
  have len: "length (dm_bytes dm) \<le> n"
    using assms by (simp add: disk_inv_def)
  have eq: "dev_set_len (dm_bytes dm) n = dm_bytes dm @ replicate (n - length (dm_bytes dm)) 0"
    using len by (simp add: dev_set_len_def)
  show "bytes_at (dev_set_len (dm_bytes dm) n) (unat q * PAGE_SIZE) PAGE_SIZE = page_at dm q"
    if "q < dm_next_page_id dm"
    using disk_inv_page_fits [OF assms(1) that] by (simp add: eq bytes_at_def page_at_def)
  show "bytes_at (dev_set_len (dm_bytes dm) n) (unat q * PAGE_SIZE) PAGE_SIZE = replicate PAGE_SIZE 0"
    if "dm_next_page_id dm \<le> q" "q < p"
  proof -
    have 1: "length (dm_bytes dm) \<le> unat q * PAGE_SIZE"
      using assms(1) that(1) by (simp add: disk_inv_def word_le_nat_alt)
    have 2: "unat q * PAGE_SIZE + PAGE_SIZE \<le> n"
      using that(2) assms(2) by (simp add: page_end_le word_less_nat_alt)
    show ?thesis using 1 2 by (simp add: eq bytes_at_def min_def)
  qed
qed

lemma extend_disk:
  assumes "disk_inv dm" "dm_next_page_id dm < p"
  obtains dm' where
    "extend_to_at_least (unat p * PAGE_SIZE) (dm\<lparr>dm_next_page_id := p\<rparr>) = (Inr (), dm')"
    "disk_inv dm'" "dm_next_page_id dm' = p"
    "\<And>q. q < dm_next_page_id dm \<Longrightarrow> page_at dm' q = page_at dm q"
    "\<And>q. dm_next_page_id dm \<le> q \<Longrightarrow> q < p \<Longrightarrow> page_at dm' q = replicate PAGE_SIZE 0"
proof -
  let ?n = "unat p * PAGE_SIZE"
  let ?dm' = "dm\<lparr>dm_next_page_id := p,
    dm_device := dm_device dm\<lparr>fd_bytes := dev_set_len (dm_bytes dm) ?n\<rparr>, dm_extended_len := ?n\<rparr>"
  have le: "unat (dm_next_page_id dm) \<le> unat p" "unat (dm_next_page_id dm) < unat p"
    using assms(2) by (auto simp: word_less_nat_alt)
  have "extend_to_at_least ?n (dm\<lparr>dm_next_page_id := p\<rparr>) = (Inr (), ?dm')"
    using assms(1) le(2)
    by (simp add: extend_to_at_least_def sbind_def dm_on_def disk_inv_def Let_def PAGE_SIZE_def)
  moreover have "disk_inv ?dm'"
    using assms by (auto simp: disk_inv_def word_greater_zero_iff)
  moreover have "page_at ?dm' q = page_at dm q" if "q < dm_next_page_id dm" for q
    using set_len_page_at(1) [OF assms(1) refl le(1) that] by (simp add: page_at_def)
  moreover have "page_at ?dm' q = replicate PAGE_SIZE 0" if "dm_next_page_id dm \<le> q" "q < p" for q
    using set_len_page_at(2) [OF assms(1) refl le(1) that] by (simp add: page_at_def)
  ultimately show thesis using that by simp
qed

lemma allocate_page_eq:
  assumes "disk_inv dm" "dm_next_page_id dm \<noteq> - 1"
  obtains dm' where "allocate_page dm = (Inr (dm_next_page_id dm), dm')" "disk_inv dm'"
    "dm_next_page_id dm' = dm_next_page_id dm + 1"
    "\<And>q. q < dm_next_page_id dm \<Longrightarrow> page_at dm' q = page_at dm q"
    "page_at dm' (dm_next_page_id dm) = replicate PAGE_SIZE 0"
proof -
  let ?p = "dm_next_page_id dm"
  have lt: "?p < ?p + 1" and u: "unat (?p + 1) = unat ?p + 1"
    using assms(2) unat_plus_1 [of ?p] by (simp_all add: word_less_nat_alt)
  obtain dm' where dm': "extend_to_at_least (unat (?p + 1) * PAGE_SIZE) (dm\<lparr>dm_next_page_id := ?p + 1\<rparr>) = (Inr (), dm')"
    "disk_inv dm'" "dm_next_page_id dm' = ?p + 1"
    "\<And>q. q < ?p \<Longrightarrow> page_at dm' q = page_at dm q"
    "\<And>q. ?p \<le> q \<Longrightarrow> q < ?p + 1 \<Longrightarrow> page_at dm' q = replicate PAGE_SIZE 0"
    using extend_disk [OF assms(1) lt] by blast
  have "allocate_page dm = (Inr ?p, dm')"
    using dm'(1) assms(1) u by (simp add: allocate_page_def Let_def sbind_Inr disk_inv_def)
  then show thesis using that dm'(2-4) dm'(5) [of ?p] lt by simp
qed

lemma ensure_allocated_eq:
  assumes "disk_inv dm" "pid \<noteq> - 1"
  obtains dm' where "ensure_allocated pid dm = (Inr (), dm')" "disk_inv dm'"
    "dm_next_page_id dm' = max (dm_next_page_id dm) (pid + 1)" "pid < dm_next_page_id dm'"
    "\<And>q. q < dm_next_page_id dm \<Longrightarrow> page_at dm' q = page_at dm q"
    "\<And>q. dm_next_page_id dm \<le> q \<Longrightarrow> q < pid + 1 \<Longrightarrow> page_at dm' q = replicate PAGE_SIZE 0"
proof (cases "dm_next_page_id dm < pid + 1")
  case True
  have lt: "pid < pid + 1" using unat_plus_1 [OF assms(2)] by (simp add: word_less_nat_alt)
  obtain dm' where dm': "extend_to_at_least (unat (pid + 1) * PAGE_SIZE) (dm\<lparr>dm_next_page_id := pid + 1\<rparr>) = (Inr (), dm')"
    "disk_inv dm'" "dm_next_page_id dm' = pid + 1"
    "\<And>q. q < dm_next_page_id dm \<Longrightarrow> page_at dm' q = page_at dm q"
    "\<And>q. dm_next_page_id dm \<le> q \<Longrightarrow> q < pid + 1 \<Longrightarrow> page_at dm' q = replicate PAGE_SIZE 0"
    using extend_disk [OF assms(1) True] by blast
  show thesis
    by (rule that [of dm'])
      (use dm' assms(1) True lt in \<open>simp_all add: ensure_allocated_def Let_def disk_inv_def max_absorb2 less_imp_le\<close>)
next
  case False
  have lt: "pid < pid + 1" using unat_plus_1 [OF assms(2)] by (simp add: word_less_nat_alt)
  show thesis
    by (rule that [of dm]) (use assms False lt in \<open>auto simp: ensure_allocated_def Let_def max_def not_less\<close>)
qed

section \<open>Creating and reopening the file\<close>

lemma checksum_ok_header: "checksum_ok (disk_header n)"
  unfolding disk_header_def Let_def
  by (rule checksum_ok_stamp) (simp add: disk_header_consts PAGE_SIZE_def DISK_MAGIC_def)

text \<open>The fields of page 0 that \<open>open_with_device\<close> reads.\<close>

definition header_fields_ok :: "bytes \<Rightarrow> bool" where
  "header_fields_ok b \<longleftrightarrow> bytes_at b MAGIC_OFFSET 8 = DISK_MAGIC \<and>
     disk_read_u32 b VERSION_OFFSET = HEADER_VERSION \<and>
     disk_read_u32 b PAGE_SIZE_OFFSET = of_nat PAGE_SIZE"

lemma length_DISK_MAGIC [simp]: "length DISK_MAGIC = 8"
  by (simp add: DISK_MAGIC_def)

lemma length_disk_header [simp]: "length (disk_header n) = PAGE_SIZE"
  by (simp add: disk_header_def Let_def disk_header_consts PAGE_SIZE_def)

lemma bytes_at_stamp:
  "4 \<le> length bs \<Longrightarrow> 4 \<le> off \<Longrightarrow> off + n \<le> length bs \<Longrightarrow> bytes_at (stamp_checksum bs) off n = bytes_at bs off n"
  by (simp add: stamp_checksum_def bytes_at_splice_other)

lemma header_fields_ok_new: "header_fields_ok (disk_header PAGE_SIZE)"
  by (simp add: header_fields_ok_def disk_header_def Let_def disk_read_u32_def bytes_at_stamp
      slice_simps disk_header_consts PAGE_SIZE_def)

lemma header_fields_ok_stamp [simp]: "length b = PAGE_SIZE \<Longrightarrow> header_fields_ok (stamp_checksum b) = header_fields_ok b"
  by (simp add: header_fields_ok_def disk_read_u32_def bytes_at_stamp disk_header_consts PAGE_SIZE_def)

lemma disk_create:
  assumes "fd_bytes fd = []" "fd_faults fd = []"
  obtains dm where "disk_open_with_device fd PAGE_SIZE = Inr dm" "disk_inv dm"
    "dm_next_page_id dm = 1" "page_at dm 0 = disk_header PAGE_SIZE"
proof -
  let ?dm = "\<lparr>dm_device = fd\<lparr>fd_bytes := disk_header PAGE_SIZE\<rparr>, dm_page_size = PAGE_SIZE,
    dm_next_page_id = 1, dm_extended_len = PAGE_SIZE\<rparr>"
  have "disk_open_with_device fd PAGE_SIZE = Inr ?dm"
    using assms dev_write_at_end [of "[]" "disk_header PAGE_SIZE"]
    by (simp add: disk_open_with_device_def dev_size_def write_header_def dm_on_def)
  moreover have "disk_inv ?dm" using assms by (simp add: disk_inv_def)
  ultimately show thesis using that by (simp add: page_at_def bytes_at_def)
qed

lemma disk_reopen_eq:
  assumes "disk_inv dm" "header_fields_ok (page_at dm 0)"
  shows "disk_open_with_device (dm_device dm) PAGE_SIZE = Inr dm"
proof -
  let ?bs = "dm_bytes dm"
  have pos: "0 < unat (dm_next_page_id dm)" using assms(1) by (simp add: disk_inv_def unat_gt_0 word_greater_zero_iff)
  have len: "length ?bs = unat (dm_next_page_id dm) * PAGE_SIZE" using assms(1) by (simp add: disk_inv_def)
  then have long: "PAGE_SIZE \<le> length ?bs" using pos by (simp add: Suc_leI)
  have hdr: "bytes_at (bytes_at ?bs 0 PAGE_SIZE_RANGE_END) off n = bytes_at (page_at dm 0) off n"
    if "off + n \<le> 32" for off n
    using that by (simp add: page_at_def bytes_at_def disk_header_consts PAGE_SIZE_def take_drop min_def)
  have rd: "dev_read_at ?bs 0 PAGE_SIZE_RANGE_END = Inr (bytes_at ?bs 0 PAGE_SIZE_RANGE_END)"
    using long by (intro dev_read_at_eq) (simp add: disk_header_consts PAGE_SIZE_def)
  have sz: "unat (of_nat PAGE_SIZE :: u32) = PAGE_SIZE" by (simp add: PAGE_SIZE_def)
  have dm: "\<lparr>dm_device = dm_device dm, dm_page_size = PAGE_SIZE,
      dm_next_page_id = of_nat (length ?bs div PAGE_SIZE), dm_extended_len = length ?bs\<rparr> = dm"
    using assms(1) len by (cases dm) (simp add: disk_inv_def PAGE_SIZE_def)
  show ?thesis
    using assms(2) long rd hdr [of MAGIC_OFFSET 8] hdr [of VERSION_OFFSET 4] hdr [of PAGE_SIZE_OFFSET 4] dm len sz
    by (simp add: disk_open_with_device_def dev_size_def header_fields_ok_def disk_read_u32_def
        disk_header_consts PAGE_SIZE_def Let_def)
qed

end
