(* ===== verification/Double_Write.thy ===== *)
theory Double_Write
  imports Disk
begin

text \<open>
  The double-write buffer of \<open>storage/src/dwb.rs\<close> and the repair of torn pages from it at start-up,
  \<open>recover_double_write\<close> of \<open>storage/src/recovery.rs\<close>.
\<close>

definition DWB_MAGIC :: bytes where "DWB_MAGIC = map of_char ''FDBDWB02''"
definition ENTRY_COUNT_OFFSET :: nat where "ENTRY_COUNT_OFFSET = 8"
definition ENTRIES_OFFSET :: nat where "ENTRIES_OFFSET = ENTRY_COUNT_OFFSET + 4"
definition ENTRY_SIZE :: nat where "ENTRY_SIZE = 8"
definition DWB_DEFAULT_CAPACITY :: nat where "DWB_DEFAULT_CAPACITY = 64"

lemmas dwb_consts = ENTRY_COUNT_OFFSET_def ENTRIES_OFFSET_def ENTRY_SIZE_def

record double_write_buffer =
  dw_device :: fdevice
  dw_capacity :: nat

definition dw_on :: "(fdevice, storage_error, 'a) sresult \<Rightarrow> (double_write_buffer, storage_error, 'a) sresult" where
  "dw_on m dw = (let (r, fd) = m (dw_device dw) in (r, dw\<lparr>dw_device := fd\<rparr>))"

abbreviation dw_bytes :: "double_write_buffer \<Rightarrow> bytes" where
  "dw_bytes dw \<equiv> fd_bytes (dw_device dw)"

definition dwb_open_with_device :: "fdevice \<Rightarrow> nat \<Rightarrow> storage_error + double_write_buffer" where
  "dwb_open_with_device fd capacity =
     (if capacity = 0 then Inl InvalidDwbCapacity
      else
        let expected_len = (1 + capacity) * PAGE_SIZE in
        if dev_size (fd_bytes fd) < expected_len then
          (case fd_set_len expected_len fd of
             (Inl e, _) \<Rightarrow> Inl e
           | (Inr _, fd') \<Rightarrow> Inr \<lparr>dw_device = fd', dw_capacity = capacity\<rparr>)
        else Inr \<lparr>dw_device = fd, dw_capacity = capacity\<rparr>)"

definition offset_of_slot :: "nat \<Rightarrow> nat" where
  "offset_of_slot index = (1 + index) * PAGE_SIZE"

fun write_entries :: "bytes \<Rightarrow> nat \<Rightarrow> (page_id \<times> u32) list \<Rightarrow> bytes" where
  "write_entries buf i [] = buf"
| "write_entries buf i ((pid, slot_crc) # es) =
     (let at = ENTRIES_OFFSET + i * ENTRY_SIZE
      in write_entries (splice (splice buf at (u32_le pid)) (at + 4) (u32_le slot_crc)) (Suc i) es)"

definition encode_header :: "(page_id \<times> u32) list \<Rightarrow> bytes" where
  "encode_header entries =
     (let buf = splice (replicate PAGE_SIZE 0) 0 DWB_MAGIC;
          buf = splice buf ENTRY_COUNT_OFFSET (u32_le (of_nat (length entries)));
          buf = write_entries buf 0 entries;
          content_end = ENTRIES_OFFSET + length entries * ENTRY_SIZE;
          crc = crc32 (take content_end buf)
      in splice buf content_end (u32_le crc))"

definition decode_header :: "bytes \<Rightarrow> nat \<Rightarrow> (page_id \<times> u32) list option" where
  "decode_header header capacity =
     (if bytes_at header 0 8 \<noteq> DWB_MAGIC then None
      else
        let count = unat (disk_read_u32 header ENTRY_COUNT_OFFSET) in
        if count = 0 \<or> count > capacity then None
        else
          let content_end = ENTRIES_OFFSET + count * ENTRY_SIZE in
          if content_end + 4 > PAGE_SIZE then None
          else if crc32 (take content_end header) \<noteq> disk_read_u32 header content_end then None
          else Some (map (\<lambda>i. let at = ENTRIES_OFFSET + i * ENTRY_SIZE
                              in (disk_read_u32 header at, disk_read_u32 header (at + 4))) [0..<count]))"

fun write_slots :: "nat \<Rightarrow> page list \<Rightarrow> (double_write_buffer, storage_error, unit) sresult" where
  "write_slots index [] = sreturn ()"
| "write_slots index (p # ps) =
     sbind (dw_on (fd_write_at (offset_of_slot index) (stamp_checksum (pg_data p))))
       (\<lambda>_. write_slots (Suc index) ps)"

definition batch_entries :: "page list \<Rightarrow> (page_id \<times> u32) list" where
  "batch_entries pages = map (\<lambda>p. (pg_id p, crc32 (stamp_checksum (pg_data p)))) pages"

definition write_batch :: "page list \<Rightarrow> (double_write_buffer, storage_error, unit) sresult" where
  "write_batch pages =
     sbind (write_slots 0 pages) (\<lambda>_.
     sbind (dw_on (fd_write_at 0 (encode_header (batch_entries pages)))) (\<lambda>_.
       dw_on fd_sync_all))"

definition clear_batch :: "(double_write_buffer, storage_error, unit) sresult" where
  "clear_batch =
     sbind (dw_on (fd_write_at 0 (encode_header []))) (\<lambda>_. dw_on fd_sync_all)"

definition read_batch :: "double_write_buffer \<Rightarrow> storage_error + (page_id \<times> u32) list option" where
  "read_batch dw =
     and_then (dev_read_at (dw_bytes dw) 0 PAGE_SIZE) (\<lambda>header. Inr (decode_header header (dw_capacity dw)))"

definition read_slot :: "double_write_buffer \<Rightarrow> nat \<Rightarrow> storage_error + bytes" where
  "read_slot dw index = dev_read_at (dw_bytes dw) (offset_of_slot index) PAGE_SIZE"

section \<open>Repair at start-up\<close>

text \<open>The loop over the entries: it writes back the slots of pages whose checksum fails, and
  yields the pages it restored.\<close>

fun restore_entries :: "double_write_buffer \<Rightarrow> (page_id \<times> u32) list \<Rightarrow> nat \<Rightarrow> (page_id \<times> u32) list
    \<Rightarrow> (disk_manager, storage_error, page_id list) sresult" where
  "restore_entries dw entries index [] = sreturn []"
| "restore_entries dw entries index ((pid, slot_crc) # es) =
     sbind (slift (read_slot dw index)) (\<lambda>slot.
       let actual_crc = crc32 slot in
       if actual_crc \<noteq> slot_crc then
         if list_ex (\<lambda>(_, other_crc). other_crc = actual_crc) entries
         then sfail (DoubleWriteRestoreFailed pid)
         else restore_entries dw entries (Suc index) es
       else if list_all (\<lambda>b. b = 0) slot then restore_entries dw entries (Suc index) es
       else sbind (sget (\<lambda>dm. read_page_unchecked dm pid)) (\<lambda>res.
         case res of
           Inr real_page \<Rightarrow>
             if \<not> checksum_ok real_page then
               sbind (write_page pid slot) (\<lambda>_.
               sbind (restore_entries dw entries (Suc index) es) (\<lambda>restored. sreturn (pid # restored)))
             else restore_entries dw entries (Suc index) es
         | Inl (PageNotFound _) \<Rightarrow> restore_entries dw entries (Suc index) es
         | Inl err \<Rightarrow> sfail err))"

fun check_restored :: "page_id list \<Rightarrow> disk_manager \<Rightarrow> storage_error + unit" where
  "check_restored [] dm = Inr ()"
| "check_restored (pid # pids) dm =
     and_then (read_page_unchecked dm pid) (\<lambda>check.
       if \<not> checksum_ok check then Inl (DoubleWriteRestoreFailed pid) else check_restored pids dm)"

definition recover_double_write ::
    "disk_manager \<times> double_write_buffer \<Rightarrow> (storage_error + unit) \<times> disk_manager \<times> double_write_buffer" where
  "recover_double_write = (\<lambda>(dm, dw).
     case read_batch dw of
       Inl e \<Rightarrow> (Inl e, dm, dw)
     | Inr None \<Rightarrow> (Inr (), dm, dw)
     | Inr (Some entries) \<Rightarrow>
         (case restore_entries dw entries 0 entries dm of
            (Inl e, dm') \<Rightarrow> (Inl e, dm', dw)
          | (Inr restored, dm') \<Rightarrow>
              (case disk_sync dm' of
                 (Inl e, dm'') \<Rightarrow> (Inl e, dm'', dw)
               | (Inr _, dm'') \<Rightarrow>
                   (case check_restored restored dm'' of
                      Inl e \<Rightarrow> (Inl e, dm'', dw)
                    | Inr _ \<Rightarrow> (case clear_batch dw of (r, dw') \<Rightarrow> (r, dm'', dw'))))))"

section \<open>The header\<close>

definition entry_bytes :: "(page_id \<times> u32) list \<Rightarrow> bytes" where
  "entry_bytes es = concat (map (\<lambda>(pid, crc). u32_le pid @ u32_le crc) es)"

lemma entry_bytes_simps [simp]:
  "entry_bytes [] = []" "entry_bytes ((pid, crc) # es) = u32_le pid @ u32_le crc @ entry_bytes es"
  by (simp_all add: entry_bytes_def)

lemma length_entry_bytes [simp]: "length (entry_bytes es) = length es * 8"
  by (induction es) auto

lemma write_entries_splice:
  "ENTRIES_OFFSET + (i + length es) * 8 \<le> length buf \<Longrightarrow>
     write_entries buf i es = splice buf (ENTRIES_OFFSET + i * 8) (entry_bytes es)"
proof (induction es arbitrary: buf i)
  case Nil
  then show ?case by (simp add: splice_def)
next
  case (Cons e es)
  obtain pid crc where e: "e = (pid, crc)" by (cases e)
  let ?at = "ENTRIES_OFFSET + i * 8"
  have 1: "splice (splice buf ?at (u32_le pid)) (?at + 4) (u32_le crc) = splice buf ?at (u32_le pid @ u32_le crc)"
    using splice_adjacent [of ?at "u32_le pid" "u32_le crc" buf] Cons.prems by simp
  have "write_entries (splice buf ?at (u32_le pid @ u32_le crc)) (Suc i) es =
      splice (splice buf ?at (u32_le pid @ u32_le crc)) (?at + 8) (entry_bytes es)"
    using Cons.IH [of "Suc i" "splice buf ?at (u32_le pid @ u32_le crc)"] Cons.prems
    by (simp add: ac_simps)
  also have "\<dots> = splice buf ?at ((u32_le pid @ u32_le crc) @ entry_bytes es)"
    using splice_adjacent [of ?at "u32_le pid @ u32_le crc" "entry_bytes es" buf] Cons.prems by simp
  finally show ?case by (simp add: e 1 ENTRY_SIZE_def Let_def)
qed

definition header_content :: "(page_id \<times> u32) list \<Rightarrow> bytes" where
  "header_content es = DWB_MAGIC @ u32_le (of_nat (length es)) @ entry_bytes es"

lemma length_DWB_MAGIC [simp]: "length DWB_MAGIC = 8"
  by (simp add: DWB_MAGIC_def)

lemma length_header_content [simp]: "length (header_content es) = 12 + length es * 8"
  by (simp add: header_content_def)

lemma encode_header_eq:
  assumes "12 + length es * 8 + 4 \<le> PAGE_SIZE"
  shows "encode_header es = header_content es @ u32_le (crc32 (header_content es))
    @ replicate (PAGE_SIZE - (12 + length es * 8 + 4)) 0"
proof -
  let ?z = "replicate PAGE_SIZE (0 :: byte)" and ?n = "u32_le (of_nat (length es))"
  have 1: "splice (splice ?z 0 DWB_MAGIC) ENTRY_COUNT_OFFSET ?n = splice ?z 0 (DWB_MAGIC @ ?n)"
    using splice_adjacent [of 0 DWB_MAGIC ?n ?z] assms by (simp add: dwb_consts)
  have 2: "write_entries (splice ?z 0 (DWB_MAGIC @ ?n)) 0 es = splice ?z 0 (header_content es)"
    using splice_adjacent [of 0 "DWB_MAGIC @ ?n" "entry_bytes es" ?z] assms
    by (subst write_entries_splice) (simp_all add: dwb_consts header_content_def)
  have 3: "take (ENTRIES_OFFSET + length es * ENTRY_SIZE) (splice ?z 0 (header_content es)) = header_content es"
    by (simp add: splice_0 dwb_consts)
  show ?thesis
    unfolding encode_header_def Let_def 1 2 3
    using splice_adjacent [of 0 "header_content es" "u32_le (crc32 (header_content es))" ?z] assms
    by (simp add: dwb_consts splice_0)
qed

lemma entry_bytes_at:
  "i < length es \<Longrightarrow> bytes_at (entry_bytes es @ post) (i * 8) 4 = u32_le (fst (es ! i)) \<and>
     bytes_at (entry_bytes es @ post) (i * 8 + 4) 4 = u32_le (snd (es ! i))"
proof (induction es arbitrary: i)
  case (Cons e es)
  obtain pid crc where e: "e = (pid, crc)" by (cases e)
  show ?case
  proof (cases i)
    case 0
    then show ?thesis by (simp add: e bytes_at_append)
  next
    case (Suc j)
    then show ?thesis using Cons.IH [of j] Cons.prems by (simp add: e bytes_at_append add.commute)
  qed
qed simp

lemma decode_encode_header:
  assumes "es \<noteq> []" "length es \<le> capacity" "12 + length es * 8 + 4 \<le> PAGE_SIZE"
  shows "decode_header (encode_header es) capacity = Some es"
proof -
  let ?post = "u32_le (crc32 (header_content es)) @ replicate (PAGE_SIZE - (12 + length es * 8 + 4)) 0"
  let ?h = "encode_header es"
  have h: "?h = DWB_MAGIC @ u32_le (of_nat (length es)) @ entry_bytes es @ ?post"
    using encode_header_eq [OF assms(3)] by (simp add: header_content_def)
  have small: "length es < 2 ^ 32" using assms(3) by (simp add: PAGE_SIZE_def)
  have cnt: "unat (disk_read_u32 ?h ENTRY_COUNT_OFFSET) = length es"
    using small by (simp add: h disk_read_u32_def bytes_at_append dwb_consts unat_of_nat_small)
  have crc: "disk_read_u32 ?h (ENTRIES_OFFSET + length es * ENTRY_SIZE) = crc32 (header_content es)"
    by (simp add: h disk_read_u32_def bytes_at_append dwb_consts)
  have tk: "take (ENTRIES_OFFSET + length es * ENTRY_SIZE) ?h = header_content es"
    using encode_header_eq [OF assms(3)] by (simp add: dwb_consts)
  have ent: "disk_read_u32 ?h (ENTRIES_OFFSET + i * ENTRY_SIZE) = fst (es ! i) \<and>
      disk_read_u32 ?h (ENTRIES_OFFSET + i * ENTRY_SIZE + 4) = snd (es ! i)" if "i < length es" for i
    using entry_bytes_at [OF that, of ?post]
    by (simp add: h disk_read_u32_def bytes_at_append [of DWB_MAGIC] bytes_at_append [of "u32_le (of_nat (length es))"]
        dwb_consts add.commute)
  have "map (\<lambda>i. (disk_read_u32 ?h (ENTRIES_OFFSET + i * ENTRY_SIZE),
      disk_read_u32 ?h (ENTRIES_OFFSET + i * ENTRY_SIZE + 4))) [0..<length es] = es"
    using ent by (intro nth_equalityI) auto
  then show ?thesis
    using assms cnt crc tk by (simp add: decode_header_def Let_def h bytes_at_append dwb_consts)
qed

lemma decode_cleared: "decode_header (encode_header []) capacity = None"
proof -
  have "unat (disk_read_u32 (encode_header []) ENTRY_COUNT_OFFSET) = 0"
    by (simp add: encode_header_eq header_content_def PAGE_SIZE_def disk_read_u32_def bytes_at_append dwb_consts)
  then show ?thesis by (simp add: decode_header_def)
qed

section \<open>Writing a batch\<close>

definition dwb_inv :: "double_write_buffer \<Rightarrow> bool" where
  "dwb_inv dw \<longleftrightarrow> fd_faults (dw_device dw) = [] \<and> (1 + dw_capacity dw) * PAGE_SIZE \<le> length (dw_bytes dw) \<and>
     0 < dw_capacity dw \<and> 12 + dw_capacity dw * 8 + 4 \<le> PAGE_SIZE"

definition slot_at :: "double_write_buffer \<Rightarrow> nat \<Rightarrow> bytes" where
  "slot_at dw index = bytes_at (dw_bytes dw) (offset_of_slot index) PAGE_SIZE"

definition dwb_header :: "double_write_buffer \<Rightarrow> bytes" where
  "dwb_header dw = bytes_at (dw_bytes dw) 0 PAGE_SIZE"

lemma slot_fits:
  "dwb_inv dw \<Longrightarrow> index < dw_capacity dw \<Longrightarrow> offset_of_slot index + PAGE_SIZE \<le> length (dw_bytes dw)"
  using page_end_le [of "1 + index" "1 + dw_capacity dw" PAGE_SIZE] by (simp add: dwb_inv_def offset_of_slot_def)

lemma read_slot_eq: "dwb_inv dw \<Longrightarrow> index < dw_capacity dw \<Longrightarrow> read_slot dw index = Inr (slot_at dw index)"
  unfolding read_slot_def slot_at_def by (intro dev_read_at_eq slot_fits)

lemma read_batch_eq: "dwb_inv dw \<Longrightarrow> read_batch dw = Inr (decode_header (dwb_header dw) (dw_capacity dw))"
  by (simp add: read_batch_def dwb_header_def dev_read_at_eq dwb_inv_def)

text \<open>One write of a page-sized block at a page-aligned offset.\<close>

lemma dwb_block_write:
  assumes "dwb_inv dw" "length b = PAGE_SIZE" "k \<le> dw_capacity dw"
  obtains dw' where "dw_on (fd_write_at (k * PAGE_SIZE) b) dw = (Inr (), dw')" "dwb_inv dw'"
    "dw_capacity dw' = dw_capacity dw"
    "\<And>j. j \<le> dw_capacity dw \<Longrightarrow> bytes_at (dw_bytes dw') (j * PAGE_SIZE) PAGE_SIZE =
       (if j = k then b else bytes_at (dw_bytes dw) (j * PAGE_SIZE) PAGE_SIZE)"
proof -
  let ?dw' = "dw\<lparr>dw_device := dw_device dw\<lparr>fd_bytes := splice (dw_bytes dw) (k * PAGE_SIZE) b\<rparr>\<rparr>"
  have len: "j * PAGE_SIZE + PAGE_SIZE \<le> length (dw_bytes dw)" if "j \<le> dw_capacity dw" for j
    using page_end_le [OF le_imp_less_Suc [OF that], of PAGE_SIZE] assms(1) unfolding dwb_inv_def plus_1_eq_Suc by linarith
  have fits: "k * PAGE_SIZE + length b \<le> length (dw_bytes dw)" using len assms(2,3) by simp
  have "dw_on (fd_write_at (k * PAGE_SIZE) b) dw = (Inr (), ?dw')"
    using assms(1) dev_write_at_inside [OF fits] by (simp add: dw_on_def dwb_inv_def Let_def)
  moreover have "dwb_inv ?dw'" using assms(1) fits by (simp add: dwb_inv_def)
  moreover have "bytes_at (dw_bytes ?dw') (j * PAGE_SIZE) PAGE_SIZE =
      (if j = k then b else bytes_at (dw_bytes dw) (j * PAGE_SIZE) PAGE_SIZE)" if "j \<le> dw_capacity dw" for j
    using page_ranges_apart [of j k PAGE_SIZE] len [OF that] fits assms(2)
    by (auto simp: bytes_at_splice_other)
  ultimately show thesis using that by simp
qed

lemma write_slots_eq:
  assumes "dwb_inv dw" "index + length ps \<le> dw_capacity dw" "\<And>p. p \<in> set ps \<Longrightarrow> length (pg_data p) = PAGE_SIZE"
  obtains dw' where "write_slots index ps dw = (Inr (), dw')" "dwb_inv dw'"
    "dw_capacity dw' = dw_capacity dw"
    "\<And>j. j < length ps \<Longrightarrow> slot_at dw' (index + j) = stamp_checksum (pg_data (ps ! j))"
    "\<And>j. j < index \<Longrightarrow> slot_at dw' j = slot_at dw j"
proof -
  have "\<exists>dw'. write_slots index ps dw = (Inr (), dw') \<and> dwb_inv dw' \<and> dw_capacity dw' = dw_capacity dw \<and>
    (\<forall>j < length ps. slot_at dw' (index + j) = stamp_checksum (pg_data (ps ! j))) \<and>
    (\<forall>j < index. slot_at dw' j = slot_at dw j)"
    using assms
  proof (induction ps arbitrary: index dw)
    case (Cons p ps)
    let ?b = "stamp_checksum (pg_data p)"
    have b: "length ?b = PAGE_SIZE" using Cons.prems(3) [of p] by (simp add: PAGE_SIZE_def)
    obtain dw1 where 1: "dw_on (fd_write_at (offset_of_slot index) ?b) dw = (Inr (), dw1)" "dwb_inv dw1"
      "dw_capacity dw1 = dw_capacity dw"
      "\<And>j. j \<le> dw_capacity dw \<Longrightarrow> bytes_at (dw_bytes dw1) (j * PAGE_SIZE) PAGE_SIZE =
         (if j = 1 + index then ?b else bytes_at (dw_bytes dw) (j * PAGE_SIZE) PAGE_SIZE)"
      using dwb_block_write [OF Cons.prems(1) b, of "1 + index"] Cons.prems(2)
      unfolding offset_of_slot_def by auto
    have slot1: "slot_at dw1 j = (if j = index then ?b else slot_at dw j)" if "j < dw_capacity dw" for j
      using 1(4) [of "1 + j"] that by (simp add: slot_at_def offset_of_slot_def)
    obtain dw' where dw': "write_slots (Suc index) ps dw1 = (Inr (), dw')" "dwb_inv dw'"
      "dw_capacity dw' = dw_capacity dw1"
      "\<forall>j < length ps. slot_at dw' (Suc index + j) = stamp_checksum (pg_data (ps ! j))"
      "\<forall>j < Suc index. slot_at dw' j = slot_at dw1 j"
      using Cons.IH [OF 1(2), of "Suc index"] 1(3) Cons.prems(2,3) by auto
    have "slot_at dw' (index + j) = stamp_checksum (pg_data ((p # ps) ! j))" if "j < length (p # ps)" for j
      using dw'(4,5) slot1 [of index] that Cons.prems(2) by (cases j) auto
    moreover have "slot_at dw' j = slot_at dw j" if "j < index" for j
      using dw'(5) slot1 [of j] that Cons.prems(2) by simp
    ultimately show ?case
      using 1(1,3) dw'(1,2,3) by (auto simp: sbind_Inr)
  qed simp
  then show thesis using that by blast
qed

definition batch_ready :: "double_write_buffer \<Rightarrow> page list \<Rightarrow> bool" where
  "batch_ready dw ps \<longleftrightarrow> dwb_inv dw \<and> dwb_header dw = encode_header (batch_entries ps) \<and>
     ps \<noteq> [] \<and> length ps \<le> dw_capacity dw \<and>
     (\<forall>j < length ps. slot_at dw j = stamp_checksum (pg_data (ps ! j)))"

lemma length_encode_header:
  "12 + length es * 8 + 4 \<le> PAGE_SIZE \<Longrightarrow> length (encode_header es) = PAGE_SIZE"
  by (simp add: encode_header_eq)

lemma dwb_header_write:
  assumes "dwb_inv dw" "length h = PAGE_SIZE"
  obtains dw' where "sbind (dw_on (fd_write_at 0 h)) (\<lambda>_. dw_on fd_sync_all) dw = (Inr (), dw')"
    "dwb_inv dw'" "dw_capacity dw' = dw_capacity dw" "dwb_header dw' = h"
    "\<And>j. j < dw_capacity dw \<Longrightarrow> slot_at dw' j = slot_at dw j"
proof -
  obtain dw' where dw': "dw_on (fd_write_at (0 * PAGE_SIZE) h) dw = (Inr (), dw')" "dwb_inv dw'"
    "dw_capacity dw' = dw_capacity dw"
    "\<And>j. j \<le> dw_capacity dw \<Longrightarrow> bytes_at (dw_bytes dw') (j * PAGE_SIZE) PAGE_SIZE =
       (if j = 0 then h else bytes_at (dw_bytes dw) (j * PAGE_SIZE) PAGE_SIZE)"
    using dwb_block_write [OF assms, of 0] by auto
  have "dw_on fd_sync_all dw' = (Inr (), dw')" using dw'(2) by (simp add: dw_on_def dwb_inv_def)
  then show thesis
    using that [of dw'] dw' dw'(4) [of 0] dw'(4) [of "1 + _"]
    by (simp add: sbind_Inr dwb_header_def slot_at_def offset_of_slot_def)
qed

lemma write_batch_ready:
  assumes "dwb_inv dw" "ps \<noteq> []" "length ps \<le> dw_capacity dw"
    "\<And>p. p \<in> set ps \<Longrightarrow> length (pg_data p) = PAGE_SIZE"
  obtains dw' where "write_batch ps dw = (Inr (), dw')" "batch_ready dw' ps" "dw_capacity dw' = dw_capacity dw"
proof -
  obtain dw1 where 1: "write_slots 0 ps dw = (Inr (), dw1)" "dwb_inv dw1" "dw_capacity dw1 = dw_capacity dw"
    "\<And>j. j < length ps \<Longrightarrow> slot_at dw1 j = stamp_checksum (pg_data (ps ! j))"
    using write_slots_eq [OF assms(1), of 0 ps] assms(3,4) by auto
  have fit: "12 + length (batch_entries ps) * 8 + 4 \<le> PAGE_SIZE"
    using assms(1,3) by (simp add: dwb_inv_def batch_entries_def)
  obtain dw' where dw': "sbind (dw_on (fd_write_at 0 (encode_header (batch_entries ps)))) (\<lambda>_. dw_on fd_sync_all) dw1 = (Inr (), dw')"
    "dwb_inv dw'" "dw_capacity dw' = dw_capacity dw1" "dwb_header dw' = encode_header (batch_entries ps)"
    "\<And>j. j < dw_capacity dw1 \<Longrightarrow> slot_at dw' j = slot_at dw1 j"
    using dwb_header_write [OF 1(2) length_encode_header [OF fit]] by blast
  show thesis
    by (rule that [of dw']) (use 1 dw' assms(2,3) in \<open>auto simp: write_batch_def sbind_Inr batch_ready_def\<close>)
qed

lemma clear_batch_eq:
  assumes "dwb_inv dw"
  obtains dw' where "clear_batch dw = (Inr (), dw')" "dwb_inv dw'" "dw_capacity dw' = dw_capacity dw"
    "read_batch dw' = Inr None"
proof -
  have len: "length (encode_header []) = PAGE_SIZE" by (simp add: length_encode_header PAGE_SIZE_def)
  obtain dw' where dw': "sbind (dw_on (fd_write_at 0 (encode_header []))) (\<lambda>_. dw_on fd_sync_all) dw = (Inr (), dw')"
    "dwb_inv dw'" "dw_capacity dw' = dw_capacity dw" "dwb_header dw' = encode_header []"
    using dwb_header_write [OF assms len] by blast
  show thesis by (rule that [of dw']) (use dw' in \<open>simp_all add: clear_batch_def read_batch_eq decode_cleared\<close>)
qed

section \<open>The repair\<close>

text \<open>What a page of the file becomes: it stays when its checksum holds, and is taken from the batch
  when it does not and the batch has it.\<close>

definition repaired :: "page list \<Rightarrow> page_id \<Rightarrow> bytes \<Rightarrow> bytes" where
  "repaired ps pid b =
     (if checksum_ok b then b
      else case find (\<lambda>p. pg_id p = pid) ps of Some p \<Rightarrow> stamp_checksum (pg_data p) | None \<Rightarrow> b)"

definition sound_image :: "page \<Rightarrow> bool" where
  "sound_image p \<longleftrightarrow> length (pg_data p) = PAGE_SIZE \<and> \<not> list_all (\<lambda>b. b = 0) (stamp_checksum (pg_data p))"

lemma checksum_ok_image: "sound_image p \<Longrightarrow> checksum_ok (stamp_checksum (pg_data p))"
  by (simp add: sound_image_def checksum_ok_stamp PAGE_SIZE_def)

lemma repaired_simps:
  "repaired [] pid b = b" "checksum_ok b \<Longrightarrow> repaired ps pid b = b"
  "pg_id p \<noteq> pid \<Longrightarrow> repaired (p # ps) pid b = repaired ps pid b"
  "\<not> checksum_ok b \<Longrightarrow> repaired (p # ps) (pg_id p) b = stamp_checksum (pg_data p)"
  by (simp_all add: repaired_def)

lemma restore_entries_eq:
  assumes "disk_inv dm" "\<And>j. j < length ps \<Longrightarrow> read_slot dw (index + j) = Inr (stamp_checksum (pg_data (ps ! j)))"
    "\<And>p. p \<in> set ps \<Longrightarrow> sound_image p"
  shows "\<exists>restored dm'. restore_entries dw entries index (batch_entries ps) dm = (Inr restored, dm') \<and>
    disk_inv dm' \<and> dm_next_page_id dm' = dm_next_page_id dm \<and>
    (\<forall>q < dm_next_page_id dm. page_at dm' q = repaired ps q (page_at dm q)) \<and>
    (\<forall>q \<in> set restored. q < dm_next_page_id dm \<and> checksum_ok (page_at dm' q))"
  using assms
proof (induction ps arbitrary: index dm)
  case Nil
  then show ?case by (simp add: batch_entries_def repaired_simps)
next
  case (Cons p ps)
  let ?slot = "stamp_checksum (pg_data p)" and ?pid = "pg_id p"
  let ?step = "\<lambda>es. restore_entries dw entries index ((?pid, crc32 ?slot) # es) dm"
  have snd: "sound_image p" using Cons.prems(3) by simp
  have slot: "read_slot dw index = Inr ?slot" using Cons.prems(2) [of 0] by simp
  have rest: "\<And>j. j < length ps \<Longrightarrow> read_slot dw (Suc index + j) = Inr (stamp_checksum (pg_data (ps ! j)))"
    "\<And>q. q \<in> set ps \<Longrightarrow> sound_image q"
    using Cons.prems(2) [of "Suc _"] Cons.prems(3) by auto
  have unfold: "?step es = (case read_page_unchecked dm ?pid of
      Inr real_page \<Rightarrow>
        if \<not> checksum_ok real_page then
          sbind (write_page ?pid ?slot) (\<lambda>_.
            sbind (restore_entries dw entries (Suc index) es) (\<lambda>restored. sreturn (?pid # restored))) dm
        else restore_entries dw entries (Suc index) es dm
    | Inl (PageNotFound _) \<Rightarrow> restore_entries dw entries (Suc index) es dm
    | Inl err \<Rightarrow> (Inl err, dm))" for es
    using slot snd by (auto simp: sound_image_def split: sum.splits storage_error.splits)
  have ents: "batch_entries (p # ps) = (?pid, crc32 ?slot) # batch_entries ps"
    by (simp add: batch_entries_def)
  show ?case
  proof (cases "?pid < dm_next_page_id dm \<and> \<not> checksum_ok (page_at dm ?pid)")
    case False
    then have go: "?step (batch_entries ps) = restore_entries dw entries (Suc index) (batch_entries ps) dm"
      using unfold [of "batch_entries ps"] read_page_unchecked_eq [OF Cons.prems(1), of ?pid] by (auto split: if_splits)
    have same: "repaired (p # ps) q (page_at dm q) = repaired ps q (page_at dm q)"
      if "q < dm_next_page_id dm" for q
      using False that by (cases "q = ?pid") (auto simp: repaired_simps)
    show ?thesis
      using Cons.IH [OF Cons.prems(1) rest] same unfolding ents go by simp
  next
    case True
    have len: "length ?slot = PAGE_SIZE" using snd by (simp add: sound_image_def PAGE_SIZE_def)
    have "stamp_checksum ?slot = ?slot"
      using snd by (intro stamp_checksum_idem) (simp add: sound_image_def PAGE_SIZE_def)
    then obtain dm1 where dm1: "write_page ?pid ?slot dm = (Inr (), dm1)" "disk_inv dm1"
      "dm_next_page_id dm1 = dm_next_page_id dm" "page_at dm1 ?pid = ?slot"
      "\<And>q. q < dm_next_page_id dm \<Longrightarrow> q \<noteq> ?pid \<Longrightarrow> page_at dm1 q = page_at dm q"
      using write_page_eq [OF Cons.prems(1) _ len, of ?pid] True by metis
    obtain restored dm' where ih: "restore_entries dw entries (Suc index) (batch_entries ps) dm1 = (Inr restored, dm')"
      "disk_inv dm'" "dm_next_page_id dm' = dm_next_page_id dm1"
      "\<forall>q < dm_next_page_id dm1. page_at dm' q = repaired ps q (page_at dm1 q)"
      "\<forall>q \<in> set restored. q < dm_next_page_id dm1 \<and> checksum_ok (page_at dm' q)"
      using Cons.IH [OF dm1(2) rest] by blast
    have go: "?step (batch_entries ps) = (Inr (?pid # restored), dm')"
      using unfold [of "batch_entries ps"] read_page_unchecked_eq [OF Cons.prems(1), of ?pid] True dm1(1) ih(1)
      by (simp add: sbind_Inr)
    have pid: "page_at dm' ?pid = ?slot"
      using ih(4) dm1(3,4) True checksum_ok_image [OF snd] by (simp add: repaired_simps)
    have "page_at dm' q = repaired (p # ps) q (page_at dm q)" if "q < dm_next_page_id dm" for q
      using ih(4) dm1(3,5) pid True that by (cases "q = ?pid") (auto simp: repaired_simps)
    then show ?thesis
      using ih(2,3,5) dm1(3) pid True checksum_ok_image [OF snd] unfolding ents go by auto
  qed
qed

lemma check_restored_eq:
  "disk_inv dm \<Longrightarrow> \<forall>q \<in> set pids. q < dm_next_page_id dm \<and> checksum_ok (page_at dm q) \<Longrightarrow>
     check_restored pids dm = Inr ()"
  by (induction pids) (auto simp: read_page_unchecked_eq)

lemma recover_batch:
  assumes "batch_ready dw ps" "disk_inv dm" "\<And>p. p \<in> set ps \<Longrightarrow> sound_image p"
  shows "\<exists>dm' dw'. recover_double_write (dm, dw) = (Inr (), dm', dw') \<and>
    disk_inv dm' \<and> dm_next_page_id dm' = dm_next_page_id dm \<and>
    (\<forall>q < dm_next_page_id dm. page_at dm' q = repaired ps q (page_at dm q)) \<and>
    dwb_inv dw' \<and> read_batch dw' = Inr None"
proof -
  note b = assms(1) [unfolded batch_ready_def]
  have "12 + length (batch_entries ps) * 8 + 4 \<le> PAGE_SIZE" "batch_entries ps \<noteq> []"
    "length (batch_entries ps) \<le> dw_capacity dw"
    using b by (auto simp: dwb_inv_def batch_entries_def)
  from decode_encode_header [OF this(2,3,1)] have rb: "read_batch dw = Inr (Some (batch_entries ps))"
    using b by (simp add: read_batch_eq)
  have sl: "\<And>j. j < length ps \<Longrightarrow> read_slot dw (0 + j) = Inr (stamp_checksum (pg_data (ps ! j)))"
    using b by (simp add: read_slot_eq)
  obtain restored dm' where r: "restore_entries dw (batch_entries ps) 0 (batch_entries ps) dm = (Inr restored, dm')"
    "disk_inv dm'" "dm_next_page_id dm' = dm_next_page_id dm"
    "\<forall>q < dm_next_page_id dm. page_at dm' q = repaired ps q (page_at dm q)"
    "\<forall>q \<in> set restored. q < dm_next_page_id dm \<and> checksum_ok (page_at dm' q)"
    using restore_entries_eq [OF assms(2) sl assms(3), of "batch_entries ps"] by blast
  have sync: "disk_sync dm' = (Inr (), dm')" using r(2) by (simp add: disk_sync_def dm_on_def disk_inv_def)
  have chk: "check_restored restored dm' = Inr ()" using check_restored_eq r(2,3,5) by simp
  obtain dw' where cl: "clear_batch dw = (Inr (), dw')" "dwb_inv dw'" "read_batch dw' = Inr None"
    using clear_batch_eq b by blast
  have "recover_double_write (dm, dw) = (Inr (), dm', dw')"
    by (simp add: recover_double_write_def rb r(1) sync chk cl(1))
  then show ?thesis using r cl by blast
qed

lemma recover_nothing:
  "dwb_inv dw \<Longrightarrow> decode_header (dwb_header dw) (dw_capacity dw) = None \<Longrightarrow>
     recover_double_write (dm, dw) = (Inr (), dm, dw)"
  by (simp add: recover_double_write_def read_batch_eq)

text \<open>C11: Torn pages. Once a batch of page images is in the double-write buffer, the pages may be
  overwritten in place with anything, in part or in whole: recovery succeeds and leaves every page
  of the batch with a valid checksum, either as it was found (if its checksum holds) or equal to
  the stamped image; pages outside the batch are not touched, and the buffer is empty afterwards.\<close>

theorem torn_pages_repaired:
  assumes "dwb_inv dw" "ps \<noteq> []" "length ps \<le> dw_capacity dw" "\<forall>p \<in> set ps. sound_image p" "disk_inv dm"
  shows "\<exists>dw1 dm' dw'. write_batch ps dw = (Inr (), dw1) \<and>
    recover_double_write (dm, dw1) = (Inr (), dm', dw') \<and> read_batch dw' = Inr None \<and>
    (\<forall>q < dm_next_page_id dm. page_at dm' q = repaired ps q (page_at dm q)) \<and>
    (\<forall>p \<in> set ps. pg_id p < dm_next_page_id dm \<longrightarrow> checksum_ok (page_at dm' (pg_id p)))"
proof -
  obtain dw1 where dw1: "write_batch ps dw = (Inr (), dw1)" "batch_ready dw1 ps"
    using write_batch_ready [OF assms(1-3)] assms(4) by (auto simp: sound_image_def)
  obtain dm' dw' where r: "recover_double_write (dm, dw1) = (Inr (), dm', dw')" "read_batch dw' = Inr None"
    "\<forall>q < dm_next_page_id dm. page_at dm' q = repaired ps q (page_at dm q)"
    using recover_batch [OF dw1(2) assms(5)] assms(4) by blast
  have "checksum_ok (repaired ps (pg_id p) b)" if "p \<in> set ps" for p b
  proof (cases "find (\<lambda>q. pg_id q = pg_id p) ps")
    case None
    then show ?thesis using that by (auto simp: find_None_iff)
  next
    case (Some q)
    then have "q \<in> set ps" by (auto simp: find_Some_iff)
    then show ?thesis using Some assms(4) checksum_ok_image by (simp add: repaired_def)
  qed
  then show ?thesis using dw1(1) r by auto
qed

theorem torn_pages_repaired_witness:
  "\<exists>dw1 dm' dw'. write_batch [\<lparr>pg_id = 0, pg_data = replicate PAGE_SIZE 1\<rparr>]
      \<lparr>dw_device = \<lparr>fd_bytes = replicate 8192 0, fd_faults = []\<rparr>, dw_capacity = 1\<rparr> = (Inr (), dw1) \<and>
    recover_double_write (\<lparr>dm_device = \<lparr>fd_bytes = replicate PAGE_SIZE 7, fd_faults = []\<rparr>,
      dm_page_size = PAGE_SIZE, dm_next_page_id = 1, dm_extended_len = PAGE_SIZE\<rparr>, dw1) = (Inr (), dm', dw') \<and>
    read_batch dw' = Inr None \<and> checksum_ok (page_at dm' 0)"
proof -
  let ?dw = "\<lparr>dw_device = \<lparr>fd_bytes = replicate 8192 0, fd_faults = []\<rparr>, dw_capacity = 1\<rparr>"
  let ?p = "\<lparr>pg_id = 0, pg_data = replicate PAGE_SIZE 1\<rparr> :: page"
  let ?dm = "\<lparr>dm_device = \<lparr>fd_bytes = replicate PAGE_SIZE 7, fd_faults = []\<rparr>,
      dm_page_size = PAGE_SIZE, dm_next_page_id = 1, dm_extended_len = PAGE_SIZE\<rparr>"
  have "stamp_checksum (pg_data ?p) ! 100 = 1" "100 < length (stamp_checksum (pg_data ?p))"
    using nth_stamp_checksum [of 100 "pg_data ?p"] by (simp_all add: PAGE_SIZE_def)
  then have "sound_image ?p" by (auto simp: sound_image_def list_all_length intro!: exI [of _ 100])
  moreover have "dwb_inv ?dw" by (simp add: dwb_inv_def PAGE_SIZE_def)
  moreover have "disk_inv ?dm" by (simp add: disk_inv_def)
  ultimately show ?thesis using torn_pages_repaired [of ?dw "[?p]" ?dm] by auto
qed

end
