(* ===== verification/Buffer_Pool.thy ===== *)
theory Buffer_Pool
  imports Replacer Double_Write Log_Manager "HOL-Library.FSet"
begin

text \<open>
  The buffer pool of \<open>storage/src/buffer.rs\<close> as one thread drives it: frames, the page table, the
  free list, the replacer, the flush of dirty pages through the log and the double-write buffer, and
  the page guards. A method runs from its call to its return with no other thread in between, so a
  wait on a condition variable can only end by its deadline; that is an error here at once, with the
  configured limit as the time waited.
  The debug-only bookkeeping of held guards and the metrics are left out.
\<close>

record frame =
  fr_page :: page
  fr_pin :: nat
  fr_dirty :: lsn

record buffer_pool =
  bp_disk :: disk_manager
  bp_dwb :: double_write_buffer
  bp_log :: log_manager
  bp_frames :: "frame list"
  bp_page_table :: "(page_id, frame_id) fmap"
  bp_frame_page :: "page_id option list"
  bp_free_list :: "frame_id list"
  bp_replacer :: lru_k_replacer
  bp_owned :: "bool list"
  bp_loading :: "page_id fset"
  bp_evicting :: "page_id fset"
  bp_frame_wait_ms :: nat
  bp_flush_poisoned :: bool
  bp_flush_in_flight :: bool

type_synonym 'a pool_m = "(buffer_pool, storage_error, 'a) sresult"

definition pool_new :: "disk_manager \<Rightarrow> double_write_buffer \<Rightarrow> log_manager \<Rightarrow> nat \<Rightarrow> lru_k_replacer \<Rightarrow> buffer_pool" where
  "pool_new dm dw lm pool_size rep =
     \<lparr>bp_disk = dm, bp_dwb = dw, bp_log = lm,
      bp_frames = replicate pool_size \<lparr>fr_page = page_new 0, fr_pin = 0, fr_dirty = 0\<rparr>,
      bp_page_table = fmempty, bp_frame_page = replicate pool_size None,
      bp_free_list = [0..<pool_size], bp_replacer = rep, bp_owned = replicate pool_size False,
      bp_loading = {||}, bp_evicting = {||}, bp_frame_wait_ms = 30000,
      bp_flush_poisoned = False, bp_flush_in_flight = False\<rparr>"

section \<open>Parts of the pool\<close>

definition on_disk :: "(disk_manager, storage_error, 'a) sresult \<Rightarrow> 'a pool_m" where
  "on_disk m bp = (let (r, dm) = m (bp_disk bp) in (r, bp\<lparr>bp_disk := dm\<rparr>))"

definition on_dwb :: "(double_write_buffer, storage_error, 'a) sresult \<Rightarrow> 'a pool_m" where
  "on_dwb m bp = (let (r, dw) = m (bp_dwb bp) in (r, bp\<lparr>bp_dwb := dw\<rparr>))"

abbreviation frame_at :: "buffer_pool \<Rightarrow> frame_id \<Rightarrow> frame" where
  "frame_at bp f \<equiv> bp_frames bp ! f"

abbreviation frame_data :: "buffer_pool \<Rightarrow> frame_id \<Rightarrow> bytes" where
  "frame_data bp f \<equiv> pg_data (fr_page (frame_at bp f))"

definition set_frame :: "frame_id \<Rightarrow> frame \<Rightarrow> buffer_pool \<Rightarrow> buffer_pool" where
  "set_frame f fr bp = bp\<lparr>bp_frames := (bp_frames bp)[f := fr]\<rparr>"

definition set_owned :: "frame_id \<Rightarrow> bool \<Rightarrow> buffer_pool \<Rightarrow> buffer_pool" where
  "set_owned f b bp = bp\<lparr>bp_owned := (bp_owned bp)[f := b]\<rparr>"

definition append_log :: "txn_id \<Rightarrow> log_record_kind \<Rightarrow> lsn pool_m" where
  "append_log txn kind bp = (let (l, lm) = append_record (bp_log bp) txn kind in (Inr l, bp\<lparr>bp_log := lm\<rparr>))"

definition pool_flush_log :: "lsn \<Rightarrow> unit pool_m" where
  "pool_flush_log up_to = smodify (\<lambda>bp. bp\<lparr>bp_log := flush_log (bp_log bp) up_to\<rparr>)"

definition pool_flush_log_all :: "unit pool_m" where
  "pool_flush_log_all = smodify (\<lambda>bp. bp\<lparr>bp_log := flush_log_all (bp_log bp)\<rparr>)"

section \<open>Pinning\<close>

definition pin_locked :: "frame_id \<Rightarrow> buffer_pool \<Rightarrow> buffer_pool" where
  "pin_locked f bp =
     (let bp = set_frame f ((frame_at bp f)\<lparr>fr_pin := fr_pin (frame_at bp f) + 1\<rparr>) bp
      in bp\<lparr>bp_replacer := set_evictable (record_access (bp_replacer bp) f) f False\<rparr>)"

definition pin_if_cached :: "page_id \<Rightarrow> buffer_pool \<Rightarrow> frame_id option \<times> buffer_pool" where
  "pin_if_cached pid bp =
     (if pid |\<in>| bp_evicting bp then (None, bp)
      else case fmlookup (bp_page_table bp) pid of
        None \<Rightarrow> (None, bp)
      | Some f \<Rightarrow> (Some f, pin_locked f bp))"

definition unpin_frame :: "frame_id \<Rightarrow> buffer_pool \<Rightarrow> buffer_pool" where
  "unpin_frame f bp =
     (let current = fr_pin (frame_at bp f) in
      if current = 0 then bp
      else
        let bp' = set_frame f ((frame_at bp f)\<lparr>fr_pin := current - 1\<rparr>) bp in
        if current - 1 = 0 \<and> \<not> bp_owned bp' ! f
        then bp'\<lparr>bp_replacer := set_evictable (bp_replacer bp') f True\<rparr>
        else bp')"

section \<open>Flushing\<close>

definition max_page_lsn :: "page list \<Rightarrow> lsn" where
  "max_page_lsn snapshot = foldl max 0 (map (\<lambda>p. page_lsn (pg_data p)) snapshot)"

definition mark_clean :: "frame_id \<Rightarrow> page \<Rightarrow> buffer_pool \<Rightarrow> buffer_pool" where
  "mark_clean f snap bp =
     (if page_lsn (frame_data bp f) = page_lsn (pg_data snap)
      then set_frame f ((frame_at bp f)\<lparr>fr_dirty := 0\<rparr>) bp
      else bp)"

fun mark_all_clean :: "(frame_id \<times> page) list \<Rightarrow> buffer_pool \<Rightarrow> buffer_pool" where
  "mark_all_clean [] bp = bp"
| "mark_all_clean ((f, snap) # rest) bp = mark_all_clean rest (mark_clean f snap bp)"

definition write_snapshot :: "page list \<Rightarrow> unit pool_m" where
  "write_snapshot snapshot =
     sbind (sforeach snapshot (\<lambda>p. on_disk (write_page (pg_id p) (pg_data p)))) (\<lambda>_.
     sbind (on_disk disk_sync) (\<lambda>_.
       on_dwb clear_batch))"

definition poison_on_error :: "unit pool_m \<Rightarrow> unit pool_m" where
  "poison_on_error m bp =
     (case m bp of
        (Inr _, bp') \<Rightarrow> (Inr (), bp')
      | (Inl err, bp') \<Rightarrow> (Inl err, bp'\<lparr>bp_flush_poisoned := True\<rparr>))"

text \<open>The part of \<open>flush_pages_before\<close> that runs while the flush lease is held.\<close>

definition flush_leased :: "(frame_id \<times> page_id) list \<Rightarrow> unit pool_m" where
  "flush_leased pages bp =
     (let snapshot = map (\<lambda>(f, _). fr_page (frame_at bp f)) pages in
      sbind (pool_flush_log (max_page_lsn snapshot)) (\<lambda>_.
      sbind (on_dwb (write_batch snapshot)) (\<lambda>_.
      sbind (poison_on_error (write_snapshot snapshot)) (\<lambda>_.
        smodify (mark_all_clean (zip (map fst pages) snapshot))))) bp)"

definition flush_pages :: "(frame_id \<times> page_id) list \<Rightarrow> unit pool_m" where
  "flush_pages pages bp =
     (if bp_flush_poisoned bp then (Inl FlushPoisoned, bp)
      else if pages = [] then (Inr (), bp)
      else
        let (r, bp') = flush_leased pages (bp\<lparr>bp_flush_in_flight := True\<rparr>)
        in (r, bp'\<lparr>bp_flush_in_flight := False\<rparr>))"

section \<open>Finding a frame\<close>

definition release_owned_frame :: "frame_id \<Rightarrow> buffer_pool \<Rightarrow> buffer_pool" where
  "release_owned_frame f bp = (set_owned f False bp)\<lparr>bp_free_list := bp_free_list bp @ [f]\<rparr>"

definition abort_eviction :: "frame_id \<Rightarrow> page_id \<Rightarrow> buffer_pool \<Rightarrow> buffer_pool" where
  "abort_eviction f pid bp =
     (set_owned f False bp)\<lparr>bp_evicting := bp_evicting bp |-| {|pid|},
        bp_replacer := set_evictable (record_access (bp_replacer bp) f) f True\<rparr>"

definition complete_eviction :: "frame_id \<Rightarrow> page_id \<Rightarrow> buffer_pool \<Rightarrow> buffer_pool" where
  "complete_eviction f pid bp =
     bp\<lparr>bp_page_table := fmdrop pid (bp_page_table bp), bp_frame_page := (bp_frame_page bp)[f := None],
        bp_evicting := bp_evicting bp |-| {|pid|}\<rparr>"

text \<open>The victim the loop of \<open>acquire_free_frame\<close> settles on: a clean one while a flush is in
  flight, else any.\<close>

definition choose_victim :: "buffer_pool \<Rightarrow> frame_id option \<times> buffer_pool" where
  "choose_victim bp =
     (let (clean_victim, bp1) =
        (if bp_flush_in_flight bp
         then (case evict_where (bp_replacer bp) (\<lambda>f. fr_dirty (frame_at bp f) = 0) of
                 (v, r) \<Rightarrow> (v, bp\<lparr>bp_replacer := r\<rparr>))
         else (None, bp))
      in case clean_victim of
           Some f \<Rightarrow> (Some f, bp1)
         | None \<Rightarrow> (case evict (bp_replacer bp1) of (v, r) \<Rightarrow> (v, bp1\<lparr>bp_replacer := r\<rparr>)))"

definition evict_page :: "frame_id \<Rightarrow> page_id \<Rightarrow> frame_id pool_m" where
  "evict_page f pid bp =
     (if fr_dirty (frame_at bp f) \<noteq> 0 then
        (case flush_pages [(f, pid)] bp of
           (Inl err, bp') \<Rightarrow> (Inl err, abort_eviction f pid bp')
         | (Inr _, bp') \<Rightarrow> (Inr f, complete_eviction f pid bp'))
      else (Inr f, complete_eviction f pid bp))"

definition acquire_free_frame :: "frame_id pool_m" where
  "acquire_free_frame bp =
     (if bp_free_list bp \<noteq> [] then
        (let f = last (bp_free_list bp)
         in (Inr f, set_owned f True (bp\<lparr>bp_free_list := butlast (bp_free_list bp)\<rparr>)))
      else case choose_victim bp of
        (None, bp') \<Rightarrow> (Inl (BufferPoolWaitTimedOut (bp_frame_wait_ms bp')), bp')
      | (Some f, bp') \<Rightarrow>
          (case bp_frame_page bp' ! f of
             None \<Rightarrow> (Inr f, set_owned f True bp')
           | Some pid \<Rightarrow>
               evict_page f pid (set_owned f True (bp'\<lparr>bp_evicting := finsert pid (bp_evicting bp')\<rparr>))))"

definition try_install :: "frame_id \<Rightarrow> page_id \<Rightarrow> page \<Rightarrow> lsn option \<Rightarrow> buffer_pool \<Rightarrow> frame_id \<times> buffer_pool" where
  "try_install f pid page dirty_since bp =
     (case fmlookup (bp_page_table bp) pid of
        Some winner \<Rightarrow> (winner, pin_locked winner (release_owned_frame f bp))
      | None \<Rightarrow>
          let bp1 = set_frame f ((frame_at bp f)\<lparr>fr_page := page,
                      fr_dirty := (case dirty_since of None \<Rightarrow> 0 | Some l \<Rightarrow> l)\<rparr>) bp;
              bp2 = set_owned f False (bp1\<lparr>bp_page_table := fmupd pid f (bp_page_table bp1),
                      bp_frame_page := (bp_frame_page bp1)[f := Some pid]\<rparr>)
          in (f, pin_locked f bp2))"

definition load_page :: "page_id \<Rightarrow> frame_id pool_m" where
  "load_page pid =
     sbind acquire_free_frame (\<lambda>f bp.
       case read_page (bp_disk bp) pid of
         Inr data \<Rightarrow> (case try_install f pid \<lparr>pg_id = pid, pg_data = data\<rparr> None bp of (g, bp') \<Rightarrow> (Inr g, bp'))
       | Inl err \<Rightarrow> (Inl err, release_owned_frame f bp))"

definition fetch_frame :: "page_id \<Rightarrow> frame_id pool_m" where
  "fetch_frame pid bp =
     (case pin_if_cached pid bp of
        (Some f, bp') \<Rightarrow> (Inr f, bp')
      | (None, bp') \<Rightarrow>
          if pid |\<in>| bp_evicting bp' \<or> pid |\<in>| bp_loading bp'
          then (Inl (BufferPoolWaitTimedOut (bp_frame_wait_ms bp')), bp')
          else
            let (r, bp'') = load_page pid (bp'\<lparr>bp_loading := finsert pid (bp_loading bp')\<rparr>)
            in (r, bp''\<lparr>bp_loading := bp_loading bp'' |-| {|pid|}\<rparr>))"

text \<open>\<open>fetch_page\<close> or \<open>fetch_page_read\<close>, the use of the guard, and its drop at the end of the scope,
  also when the use fails.\<close>

definition with_page :: "page_id \<Rightarrow> (frame_id \<Rightarrow> 'a pool_m) \<Rightarrow> 'a pool_m" where
  "with_page pid body =
     sbind (fetch_frame pid) (\<lambda>f bp. let (r, bp') = body f bp in (r, unpin_frame f bp'))"

definition new_page :: "txn_id \<Rightarrow> (page_id \<times> frame_id) pool_m" where
  "new_page txn =
     sbind (on_disk allocate_page) (\<lambda>pid.
     sbind (append_log txn (AllocPage pid)) (\<lambda>l.
     sbind acquire_free_frame (\<lambda>f bp.
       case try_install f pid (page_new pid) (Some l) bp of (g, bp') \<Rightarrow> (Inr (pid, g), bp'))))"

section \<open>Writing through a guard\<close>

definition store_bytes :: "frame_id \<Rightarrow> nat \<Rightarrow> bytes \<Rightarrow> lsn \<Rightarrow> buffer_pool \<Rightarrow> buffer_pool" where
  "store_bytes f off bs l bp =
     (let fr = frame_at bp f;
          data = set_page_lsn (splice (pg_data (fr_page fr)) off bs) l
      in set_frame f (fr\<lparr>fr_page := (fr_page fr)\<lparr>pg_data := data\<rparr>,
           fr_dirty := (if fr_dirty fr = 0 then l else fr_dirty fr)\<rparr>) bp)"

text \<open>Slicing a page out of range panics, before anything is logged.\<close>

definition guard_write :: "frame_id \<Rightarrow> page_id \<Rightarrow> txn_id \<Rightarrow> nat \<Rightarrow> bytes \<Rightarrow> unit pool_m" where
  "guard_write f pid txn off bs bp =
     (case slice_at (frame_data bp f) off (length bs) of
        None \<Rightarrow> (Inl Panicked, bp)
      | Some before \<Rightarrow>
          sbind (append_log txn (Update pid (of_nat off) before bs)) (\<lambda>l.
            smodify (store_bytes f off bs l)) bp)"

definition stamp_write :: "page_id \<Rightarrow> nat \<Rightarrow> bytes \<Rightarrow> lsn \<Rightarrow> unit pool_m" where
  "stamp_write pid off bs l =
     with_page pid (\<lambda>f bp.
       if off + length bs \<le> length (frame_data bp f) then (Inr (), store_bytes f off bs l bp)
       else (Inl Panicked, bp))"

section \<open>Operations on the whole pool\<close>

definition flush_page :: "page_id \<Rightarrow> unit pool_m" where
  "flush_page pid bp =
     (case fmlookup (bp_page_table bp) pid of
        None \<Rightarrow> (Inr (), bp)
      | Some f \<Rightarrow> if fr_dirty (frame_at bp f) \<noteq> 0 then flush_pages [(f, pid)] bp else (Inr (), bp))"

definition dirty_frames :: "buffer_pool \<Rightarrow> (frame_id \<times> page_id) list" where
  "dirty_frames bp =
     List.map_filter (\<lambda>f. case bp_frame_page bp ! f of
         None \<Rightarrow> None
       | Some pid \<Rightarrow> if fr_dirty (frame_at bp f) \<noteq> 0 then Some (f, pid) else None)
       [0..<length (bp_frame_page bp)]"

fun chunks :: "nat \<Rightarrow> 'a list \<Rightarrow> 'a list list" where
  "chunks n [] = []"
| "chunks n (x # xs) = (x # take (n - 1) xs) # chunks n (drop (n - 1) xs)"

definition flush_all :: "unit pool_m" where
  "flush_all bp = sforeach (chunks (dw_capacity (bp_dwb bp)) (dirty_frames bp)) flush_pages bp"

definition dirty_page_table :: "buffer_pool \<Rightarrow> (page_id \<times> lsn) list" where
  "dirty_page_table bp =
     map (\<lambda>(f, pid). (pid, fr_dirty (frame_at bp f))) (dirty_frames bp)"

definition pool_page_lsn :: "page_id \<Rightarrow> lsn pool_m" where
  "pool_page_lsn pid = with_page pid (\<lambda>f. sget (\<lambda>bp. page_lsn (frame_data bp f)))"

definition ensure_page_allocated :: "page_id \<Rightarrow> unit pool_m" where
  "ensure_page_allocated pid = on_disk (ensure_allocated pid)"

definition first_page_field :: "nat \<Rightarrow> page_id option pool_m" where
  "first_page_field off = with_page 0 (\<lambda>f. sget (\<lambda>bp.
     let raw = disk_read_u32 (frame_data bp f) off in if raw \<noteq> - 1 then Some raw else None))"

definition catalog_first_page :: "page_id option pool_m" where
  "catalog_first_page = first_page_field CATALOG_FIRST_PAGE_OFFSET"

definition set_catalog_first_page :: "txn_id \<Rightarrow> page_id \<Rightarrow> unit pool_m" where
  "set_catalog_first_page txn pid =
     with_page 0 (\<lambda>f. guard_write f 0 txn CATALOG_FIRST_PAGE_OFFSET (u32_le pid))"

definition index_catalog_first_page :: "page_id option pool_m" where
  "index_catalog_first_page = first_page_field INDEX_CATALOG_FIRST_PAGE_OFFSET"

definition set_index_catalog_first_page :: "txn_id \<Rightarrow> page_id \<Rightarrow> unit pool_m" where
  "set_index_catalog_first_page txn pid =
     with_page 0 (\<lambda>f. guard_write f 0 txn INDEX_CATALOG_FIRST_PAGE_OFFSET (u32_le pid))"

definition last_checkpoint_lsn :: "lsn option pool_m" where
  "last_checkpoint_lsn = with_page 0 (\<lambda>f. sget (\<lambda>bp.
     let raw = le_u64 (bytes_at (frame_data bp f) LAST_CHECKPOINT_LSN_OFFSET 8)
     in if raw \<noteq> 0 then Some raw else None))"

definition set_last_checkpoint_lsn :: "txn_id \<Rightarrow> lsn \<Rightarrow> unit pool_m" where
  "set_last_checkpoint_lsn txn l =
     with_page 0 (\<lambda>f. guard_write f 0 txn LAST_CHECKPOINT_LSN_OFFSET (u64_le l))"

end
