(* ===== verification/Pool_Inv.thy ===== *)
theory Pool_Inv
  imports Buffer_Pool Log_Rep
begin

text \<open>
  The buffer pool as a store of pages: its representation invariant, the abstract view (a map from
  page ids to contents, with the checksum bytes normalised) and, for each operation, that it keeps
  the invariant and what it does to the view. The frame bookkeeping is kept apart from the contents:
  \<open>index_inv\<close> relates page table, frame table, free list and replacer, and \<open>content_inv\<close> relates
  frames, file and log, the write-ahead rule included.
\<close>

section \<open>The invariant\<close>

abbreviation nframes :: "buffer_pool \<Rightarrow> nat" where
  "nframes bp \<equiv> length (bp_frames bp)"

text \<open>\<open>own\<close> is a frame taken out for a page that is being loaded, if there is one.\<close>

definition index_inv :: "frame_id option \<Rightarrow> buffer_pool \<Rightarrow> bool" where
  "index_inv own bp \<longleftrightarrow>
     length (bp_frame_page bp) = nframes bp \<and>
     bp_owned bp = map (\<lambda>f. own = Some f) [0..<nframes bp] \<and>
     bp_evicting bp = {||} \<and>
     (\<forall>p f. fmlookup (bp_page_table bp) p = Some f \<longleftrightarrow> f < nframes bp \<and> bp_frame_page bp ! f = Some p) \<and>
     distinct (bp_free_list bp) \<and>
     set (bp_free_list bp) = {f. f < nframes bp \<and> bp_frame_page bp ! f = None \<and> own \<noteq> Some f} \<and>
     (\<forall>f. own = Some f \<longrightarrow> f < nframes bp \<and> bp_frame_page bp ! f = None) \<and>
     tracked_frames (bp_replacer bp) = {f. f < nframes bp \<and> bp_frame_page bp ! f \<noteq> None} \<and>
     evictable_frames (bp_replacer bp) =
       {f. f < nframes bp \<and> bp_frame_page bp ! f \<noteq> None \<and> fr_pin (frame_at bp f) = 0} \<and>
     (\<forall>f < nframes bp. bp_frame_page bp ! f = None \<longrightarrow> fr_pin (frame_at bp f) = 0)"

definition storage_ok :: "buffer_pool \<Rightarrow> bool" where
  "storage_ok bp \<longleftrightarrow> disk_inv (bp_disk bp) \<and> dwb_inv (bp_dwb bp) \<and> (\<exists>rs. log_run (bp_log bp) rs) \<and>
     \<not> bp_flush_poisoned bp \<and> \<not> bp_flush_in_flight bp"

abbreviation next_page :: "buffer_pool \<Rightarrow> page_id" where
  "next_page bp \<equiv> dm_next_page_id (bp_disk bp)"

text \<open>A frame that holds page \<open>p\<close>. A clean frame agrees with the file.\<close>

definition frame_holds :: "buffer_pool \<Rightarrow> frame_id \<Rightarrow> page_id \<Rightarrow> bool" where
  "frame_holds bp f p \<longleftrightarrow> pg_id (fr_page (frame_at bp f)) = p \<and> length (frame_data bp f) = PAGE_SIZE \<and>
     p < next_page bp \<and> unat (page_lsn (frame_data bp f)) < lm_next_lsn (bp_log bp) \<and>
     (fr_dirty (frame_at bp f) = 0 \<longrightarrow> stamp_checksum (page_at (bp_disk bp) p) = stamp_checksum (frame_data bp f))"

text \<open>The write-ahead rule: no page of the file carries an LSN at or beyond the durable end of the
  log.\<close>

definition disk_content :: "buffer_pool \<Rightarrow> bool" where
  "disk_content bp \<longleftrightarrow> (\<forall>p < next_page bp. checksum_ok (page_at (bp_disk bp) p) \<and>
     unat (page_lsn (page_at (bp_disk bp) p)) < lm_durable_lsn (bp_log bp))"

definition content_inv :: "buffer_pool \<Rightarrow> bool" where
  "content_inv bp \<longleftrightarrow> storage_ok bp \<and> disk_content bp \<and>
     (\<forall>f p. f < nframes bp \<longrightarrow> bp_frame_page bp ! f = Some p \<longrightarrow> frame_holds bp f p)"

definition pool_inv :: "buffer_pool \<Rightarrow> bool" where
  "pool_inv bp \<longleftrightarrow> index_inv None bp \<and> content_inv bp \<and> bp_loading bp = {||}"

section \<open>The view\<close>

definition pool_view :: "buffer_pool \<Rightarrow> page_id \<Rightarrow> bytes option" where
  "pool_view bp p =
     (if p < next_page bp then
        Some (stamp_checksum (case fmlookup (bp_page_table bp) p of
            Some f \<Rightarrow> frame_data bp f | None \<Rightarrow> page_at (bp_disk bp) p))
      else None)"

definition pool_pins :: "buffer_pool \<Rightarrow> page_id \<Rightarrow> nat" where
  "pool_pins bp p = (case fmlookup (bp_page_table bp) p of None \<Rightarrow> 0 | Some f \<Rightarrow> fr_pin (frame_at bp f))"

lemma index_invD:
  assumes "index_inv own bp"
  shows "length (bp_frame_page bp) = nframes bp" "length (bp_owned bp) = nframes bp"
    "bp_evicting bp = {||}"
    "fmlookup (bp_page_table bp) p = Some f \<longleftrightarrow> f < nframes bp \<and> bp_frame_page bp ! f = Some p"
    "distinct (bp_free_list bp)"
    "set (bp_free_list bp) = {f. f < nframes bp \<and> bp_frame_page bp ! f = None \<and> own \<noteq> Some f}"
    "tracked_frames (bp_replacer bp) = {f. f < nframes bp \<and> bp_frame_page bp ! f \<noteq> None}"
    "evictable_frames (bp_replacer bp) =
       {f. f < nframes bp \<and> bp_frame_page bp ! f \<noteq> None \<and> fr_pin (frame_at bp f) = 0}"
    "f < nframes bp \<Longrightarrow> bp_frame_page bp ! f = None \<Longrightarrow> fr_pin (frame_at bp f) = 0"
    "own = Some g \<Longrightarrow> g < nframes bp \<and> bp_frame_page bp ! g = None"
    "f < nframes bp \<Longrightarrow> bp_owned bp ! f \<longleftrightarrow> own = Some f"
  using assms unfolding index_inv_def by auto

lemma index_invI:
  assumes "length (bp_frame_page bp) = nframes bp" "length (bp_owned bp) = nframes bp"
    "\<And>f. f < nframes bp \<Longrightarrow> bp_owned bp ! f \<longleftrightarrow> own = Some f"
    "bp_evicting bp = {||}"
    "\<And>p f. fmlookup (bp_page_table bp) p = Some f \<longleftrightarrow> f < nframes bp \<and> bp_frame_page bp ! f = Some p"
    "distinct (bp_free_list bp)"
    "\<And>f. f \<in> set (bp_free_list bp) \<longleftrightarrow> f < nframes bp \<and> bp_frame_page bp ! f = None \<and> own \<noteq> Some f"
    "\<And>f. own = Some f \<Longrightarrow> f < nframes bp \<and> bp_frame_page bp ! f = None"
    "\<And>f. f \<in> tracked_frames (bp_replacer bp) \<longleftrightarrow> f < nframes bp \<and> bp_frame_page bp ! f \<noteq> None"
    "\<And>f. f \<in> evictable_frames (bp_replacer bp) \<longleftrightarrow>
       f < nframes bp \<and> bp_frame_page bp ! f \<noteq> None \<and> fr_pin (frame_at bp f) = 0"
    "\<And>f. f < nframes bp \<Longrightarrow> bp_frame_page bp ! f = None \<Longrightarrow> fr_pin (frame_at bp f) = 0"
  shows "index_inv own bp"
proof -
  have "bp_owned bp = map (\<lambda>f. own = Some f) [0..<nframes bp]"
    using assms(2,3) by (intro nth_equalityI) simp_all
  moreover have "set (bp_free_list bp) = {f. f < nframes bp \<and> bp_frame_page bp ! f = None \<and> own \<noteq> Some f}"
    using assms(7) by blast
  moreover have "tracked_frames (bp_replacer bp) = {f. f < nframes bp \<and> bp_frame_page bp ! f \<noteq> None}"
    using assms(9) by blast
  moreover have "evictable_frames (bp_replacer bp) =
       {f. f < nframes bp \<and> bp_frame_page bp ! f \<noteq> None \<and> fr_pin (frame_at bp f) = 0}"
    using assms(10) by blast
  ultimately show ?thesis
    unfolding index_inv_def by (intro conjI allI impI) (simp_all add: assms(1,4,5,6,8,11))
qed

lemma index_inv_sets:
  assumes "index_inv own bp"
  shows "f \<in> set (bp_free_list bp) \<longleftrightarrow> f < nframes bp \<and> bp_frame_page bp ! f = None \<and> own \<noteq> Some f"
    "f \<in> tracked_frames (bp_replacer bp) \<longleftrightarrow> f < nframes bp \<and> bp_frame_page bp ! f \<noteq> None"
    "f \<in> evictable_frames (bp_replacer bp) \<longleftrightarrow>
       f < nframes bp \<and> bp_frame_page bp ! f \<noteq> None \<and> fr_pin (frame_at bp f) = 0"
  using index_invD(6-8) [OF assms] by blast+

lemma page_table_none:
  assumes "index_inv own bp" "fmlookup (bp_page_table bp) p = None" "f < nframes bp"
  shows "bp_frame_page bp ! f \<noteq> Some p"
  using index_invD(4) [OF assms(1), of p f] assms(2,3) by auto

section \<open>The log under the pool\<close>

lemma log_run_bounds:
  assumes "log_run lm rs"
  shows "HEADER_LEN \<le> lm_durable_lsn lm" "lm_durable_lsn lm \<le> lm_next_lsn lm" "lm_next_lsn lm < 2 ^ 64"
proof -
  obtain base segs act buf where rep: "log_rep lm base segs act buf"
    using log_run_rep [OF assms] by blast
  note D = log_repD [OF rep]
  have "base \<le> lm_active_start lm" using segs_at_recs [OF D(4)] by (simp add: recs_end_def)
  then show "HEADER_LEN \<le> lm_durable_lsn lm" using D(1,6) by (simp add: recs_end_def)
  show "lm_durable_lsn lm \<le> lm_next_lsn lm" using D(6,9) by (simp add: recs_end_def)
  show "lm_next_lsn lm < 2 ^ 64" by (rule D(10))
qed

lemma log_run_flush:
  assumes "log_run lm rs"
  shows "log_run (flush_log lm l) rs" "lm_next_lsn (flush_log lm l) = lm_next_lsn lm"
    "lm_last_lsn (flush_log lm l) = lm_last_lsn lm"
    "lm_durable_lsn lm \<le> lm_durable_lsn (flush_log lm l)"
    "unat l < lm_next_lsn lm \<Longrightarrow> unat l < lm_durable_lsn (flush_log lm l)"
proof -
  obtain base segs act buf where rep: "log_rep lm base segs act buf"
    using log_run_rep [OF assms] by blast
  show "log_run (flush_log lm l) rs" by (rule log_run.flush [OF assms])
  show "lm_next_lsn (flush_log lm l) = lm_next_lsn lm" "lm_last_lsn (flush_log lm l) = lm_last_lsn lm"
    "unat l < lm_next_lsn lm \<Longrightarrow> unat l < lm_durable_lsn (flush_log lm l)"
    using log_rep_flush [OF rep, of l] by metis+
  show "lm_durable_lsn lm \<le> lm_durable_lsn (flush_log lm l)"
    using log_run_bounds(2) [OF assms] by (simp add: flush_log_def roll_segment_def Let_def)
qed

lemma log_reopen_durable:
  assumes "log_run lm rs" "crash_left lm st written" "open_with_store st target = Inr lm'"
  shows "lm_durable_lsn lm \<le> lm_durable_lsn lm'" "lm_next_lsn lm' = lm_durable_lsn lm'"
proof -
  obtain base segs act buf where rep: "log_rep lm base segs act buf"
    using log_run_rep [OF assms(1)] by blast
  have "crash_outcome lm segs act buf base written lm'"
    using log_rep_crash [OF rep assms(2), of target] assms(3) by auto
  from crash_outcome_records [OF rep this]
  obtain segs' act' where r: "log_rep lm' base segs' act' []" "lm_durable_lsn lm \<le> lm_next_lsn lm'" by blast
  show "lm_next_lsn lm' = lm_durable_lsn lm'" using log_repD(6,9) [OF r(1)] by simp
  then show "lm_durable_lsn lm \<le> lm_durable_lsn lm'" using r(2) by simp
qed

section \<open>Flushing\<close>

lemma stamp_stamp [simp]: "length b = PAGE_SIZE \<Longrightarrow> stamp_checksum (stamp_checksum b) = stamp_checksum b"
  by (simp add: stamp_checksum_idem PAGE_SIZE_def)

lemma length_stamp_page [simp]: "length b = PAGE_SIZE \<Longrightarrow> length (stamp_checksum b) = PAGE_SIZE"
  by (simp add: PAGE_SIZE_def)

lemma page_lsn_stamp_page [simp]: "length b = PAGE_SIZE \<Longrightarrow> page_lsn (stamp_checksum b) = page_lsn b"
  by (simp add: PAGE_SIZE_def)

lemma checksum_ok_stamp_page [simp]: "length b = PAGE_SIZE \<Longrightarrow> checksum_ok (stamp_checksum b)"
  by (simp add: checksum_ok_stamp PAGE_SIZE_def)

text \<open>Writing the snapshot to the file.\<close>

definition image_of :: "page list \<Rightarrow> page_id \<Rightarrow> bytes \<Rightarrow> bytes" where
  "image_of ps q b = foldl (\<lambda>b p. if pg_id p = q then stamp_checksum (pg_data p) else b) b ps"

lemma image_of_simps [simp]:
  "image_of [] q b = b"
  "image_of (p # ps) q b = image_of ps q (if pg_id p = q then stamp_checksum (pg_data p) else b)"
  by (simp_all add: image_of_def)

lemma write_pages_eq:
  assumes "disk_inv (bp_disk bp)" "\<And>p. p \<in> set ps \<Longrightarrow> length (pg_data p) = PAGE_SIZE \<and> pg_id p < next_page bp"
  shows "\<exists>dm'. sforeach ps (\<lambda>p. on_disk (write_page (pg_id p) (pg_data p))) bp = (Inr (), bp\<lparr>bp_disk := dm'\<rparr>) \<and>
    disk_inv dm' \<and> dm_next_page_id dm' = next_page bp \<and>
    (\<forall>q < next_page bp. page_at dm' q = image_of ps q (page_at (bp_disk bp) q))"
  using assms
proof (induction ps arbitrary: bp)
  case Nil
  then show ?case by (intro exI [of _ "bp_disk bp"]) simp
next
  case (Cons p ps)
  obtain dm1 where 1: "write_page (pg_id p) (pg_data p) (bp_disk bp) = (Inr (), dm1)" "disk_inv dm1"
    "dm_next_page_id dm1 = next_page bp" "page_at dm1 (pg_id p) = stamp_checksum (pg_data p)"
    "\<And>q. q < next_page bp \<Longrightarrow> q \<noteq> pg_id p \<Longrightarrow> page_at dm1 q = page_at (bp_disk bp) q"
    using write_page_eq [OF Cons.prems(1), of "pg_id p" "pg_data p"] Cons.prems(2) [of p] by auto
  have step: "on_disk (write_page (pg_id p) (pg_data p)) bp = (Inr (), bp\<lparr>bp_disk := dm1\<rparr>)"
    by (simp add: on_disk_def 1(1))
  obtain dm' where ih: "sforeach ps (\<lambda>p. on_disk (write_page (pg_id p) (pg_data p))) (bp\<lparr>bp_disk := dm1\<rparr>)
      = (Inr (), bp\<lparr>bp_disk := dm'\<rparr>)" "disk_inv dm'" "dm_next_page_id dm' = next_page bp"
    "\<forall>q < next_page bp. page_at dm' q = image_of ps q (page_at dm1 q)"
    using Cons.IH [of "bp\<lparr>bp_disk := dm1\<rparr>"] 1(2,3) Cons.prems(2) by auto
  have "page_at dm1 q = (if pg_id p = q then stamp_checksum (pg_data p) else page_at (bp_disk bp) q)"
    if "q < next_page bp" for q
    using 1(4,5) that by auto
  then show ?case using ih step by (auto simp: sbind_Inr intro!: exI [of _ dm'])
qed

lemma image_of_distinct:
  assumes "distinct (map pg_id ps)"
  shows "p \<in> set ps \<Longrightarrow> image_of ps (pg_id p) b = stamp_checksum (pg_data p)"
    and "q \<notin> pg_id ` set ps \<Longrightarrow> image_of ps q b = b"
proof -
  have other: "q \<notin> pg_id ` set ps \<Longrightarrow> image_of ps q b = b" for q b ps
    by (induction ps arbitrary: b) auto
  then show "q \<notin> pg_id ` set ps \<Longrightarrow> image_of ps q b = b" .
  show "p \<in> set ps \<Longrightarrow> image_of ps (pg_id p) b = stamp_checksum (pg_data p)"
    using assms by (induction ps arbitrary: b) (auto simp: other)
qed

lemma max_page_lsn_ge: "p \<in> set ps \<Longrightarrow> page_lsn (pg_data p) \<le> max_page_lsn ps"
proof -
  have "l \<le> foldl max l ls \<and> (\<forall>x \<in> set ls. x \<le> foldl max l ls)" for l :: lsn and ls
  proof (induction ls arbitrary: l)
    case (Cons a ls)
    show ?case using Cons.IH [of "max l a"] by (simp add: max.bounded_iff) 
  qed simp
  then show "p \<in> set ps \<Longrightarrow> ?thesis" by (auto simp: max_page_lsn_def)
qed

lemma max_page_lsn_less:
  assumes "\<And>p. p \<in> set ps \<Longrightarrow> unat (page_lsn (pg_data p)) < n" "0 < n"
  shows "unat (max_page_lsn ps) < n"
proof -
  have "unat l < n \<Longrightarrow> (\<And>x. x \<in> set ls \<Longrightarrow> unat x < n) \<Longrightarrow> unat (foldl max l ls) < n" for l :: lsn and ls
    by (induction ls arbitrary: l) (auto simp: max_def)
  from this [of 0 "map (\<lambda>p. page_lsn (pg_data p)) ps"] show ?thesis
    using assms by (auto simp: max_page_lsn_def)
qed

definition clean_frames :: "frame_id set \<Rightarrow> frame list \<Rightarrow> frame list" where
  "clean_frames F frs = map (\<lambda>(f, fr). if f \<in> F then fr\<lparr>fr_dirty := 0\<rparr> else fr) (zip [0..<length frs] frs)"

lemma length_clean_frames [simp]: "length (clean_frames F frs) = length frs"
  by (simp add: clean_frames_def)

lemma nth_clean_frames [simp]:
  "f < length frs \<Longrightarrow> clean_frames F frs ! f = (if f \<in> F then (frs ! f)\<lparr>fr_dirty := 0\<rparr> else frs ! f)"
  by (simp add: clean_frames_def)

lemma mark_all_clean_eq:
  "(\<And>f. f \<in> set fs \<Longrightarrow> f < nframes bp) \<Longrightarrow>
     mark_all_clean (zip fs (map (\<lambda>f. fr_page (frame_at bp f)) fs)) bp
       = bp\<lparr>bp_frames := clean_frames (set fs) (bp_frames bp)\<rparr>"
proof (induction fs arbitrary: bp)
  case Nil
  have "clean_frames {} (bp_frames bp) = bp_frames bp" by (rule nth_equalityI) simp_all
  then show ?case by simp
next
  case (Cons f fs)
  let ?bp1 = "set_frame f ((frame_at bp f)\<lparr>fr_dirty := 0\<rparr>) bp"
  have snap: "map (\<lambda>g. fr_page (frame_at bp g)) fs = map (\<lambda>g. fr_page (frame_at ?bp1 g)) fs"
    using Cons.prems by (auto simp: set_frame_def nth_list_update)
  have fr: "clean_frames (set fs) (bp_frames ?bp1) = clean_frames (set (f # fs)) (bp_frames bp)"
    using Cons.prems [of f] by (intro nth_equalityI) (auto simp: set_frame_def nth_list_update)
  show ?case
    using Cons.IH [of ?bp1] Cons.prems fr
    by (simp add: mark_clean_def snap) (simp add: set_frame_def)
qed

text \<open>A flush of frames that hold distinct pages: log first, then the double-write buffer, then the
  file, and the frames are clean.\<close>

definition flush_effect :: "(frame_id \<times> page_id) list \<Rightarrow> buffer_pool \<Rightarrow> disk_manager \<Rightarrow> double_write_buffer
    \<Rightarrow> log_manager \<Rightarrow> bool" where
  "flush_effect pages bp dm' dw' lm' \<longleftrightarrow>
     disk_inv dm' \<and> dm_next_page_id dm' = next_page bp \<and> dwb_inv dw' \<and>
     dw_capacity dw' = dw_capacity (bp_dwb bp) \<and>
     (\<forall>rs. log_run (bp_log bp) rs \<longrightarrow> log_run lm' rs) \<and> lm_next_lsn lm' = lm_next_lsn (bp_log bp) \<and>
     lm_last_lsn lm' = lm_last_lsn (bp_log bp) \<and> lm_durable_lsn (bp_log bp) \<le> lm_durable_lsn lm' \<and>
     (\<forall>f p. (f, p) \<in> set pages \<longrightarrow> unat (page_lsn (frame_data bp f)) < lm_durable_lsn lm' \<and>
        page_at dm' p = stamp_checksum (frame_data bp f)) \<and>
     (\<forall>p. p \<notin> snd ` set pages \<longrightarrow> p < next_page bp \<longrightarrow> page_at dm' p = page_at (bp_disk bp) p)"

lemma flush_effectD:
  assumes "flush_effect pages bp dm' dw' lm'"
  shows "disk_inv dm'" "dm_next_page_id dm' = next_page bp" "dwb_inv dw'"
    "dw_capacity dw' = dw_capacity (bp_dwb bp)"
    "log_run (bp_log bp) rs \<Longrightarrow> log_run lm' rs" "lm_next_lsn lm' = lm_next_lsn (bp_log bp)"
    "lm_last_lsn lm' = lm_last_lsn (bp_log bp)"
    "lm_durable_lsn (bp_log bp) \<le> lm_durable_lsn lm'"
    "(f, p) \<in> set pages \<Longrightarrow> unat (page_lsn (frame_data bp f)) < lm_durable_lsn lm'"
    "(f, p) \<in> set pages \<Longrightarrow> page_at dm' p = stamp_checksum (frame_data bp f)"
    "p \<notin> snd ` set pages \<Longrightarrow> p < next_page bp \<Longrightarrow> page_at dm' p = page_at (bp_disk bp) p"
  using assms unfolding flush_effect_def by metis+

definition flushed_pool :: "(frame_id \<times> page_id) list \<Rightarrow> buffer_pool \<Rightarrow> disk_manager \<Rightarrow> double_write_buffer
    \<Rightarrow> log_manager \<Rightarrow> buffer_pool" where
  "flushed_pool pages bp dm' dw' lm' = bp\<lparr>bp_disk := dm', bp_dwb := dw', bp_log := lm',
     bp_frames := clean_frames (set (map fst pages)) (bp_frames bp)\<rparr>"

lemma flush_pages_eq:
  assumes st: "storage_ok bp" and ne: "pages \<noteq> []" and cap: "length pages \<le> dw_capacity (bp_dwb bp)"
    and dist: "distinct (map snd pages)"
    and holds: "\<And>f p. (f, p) \<in> set pages \<Longrightarrow> f < nframes bp \<and> frame_holds bp f p"
  shows "\<exists>dm' dw' lm'. flush_pages pages bp = (Inr (), flushed_pool pages bp dm' dw' lm') \<and>
    flush_effect pages bp dm' dw' lm'"
proof -
  define snap where "snap = map (\<lambda>(f, _). fr_page (frame_at bp f)) pages"
  define fs where "fs = map fst pages"
  define lm' where "lm' = flush_log (bp_log bp) (max_page_lsn snap)"
  obtain rs where rs: "log_run (bp_log bp) rs" using st by (auto simp: storage_ok_def)
  have snap: "snap = map (\<lambda>f. fr_page (frame_at bp f)) fs" by (simp add: snap_def fs_def case_prod_unfold)
  have inr: "f < nframes bp" if "f \<in> set fs" for f using that holds by (auto simp: fs_def)
  have len: "length snap = length pages" "snap \<noteq> []" using ne by (simp_all add: snap_def)
  have img: "length (pg_data q) = PAGE_SIZE \<and> pg_id q < next_page bp \<and>
      unat (page_lsn (pg_data q)) < lm_next_lsn (bp_log bp)" if "q \<in> set snap" for q
    using that holds by (auto simp: frame_holds_def snap_def)
  have ids: "map pg_id snap = map snd pages"
    using holds by (auto simp: frame_holds_def case_prod_unfold snap_def)
  have pos: "0 < lm_next_lsn (bp_log bp)" using log_run_bounds [OF rs] by (simp add: wal_consts)
  have max: "unat (max_page_lsn snap) < lm_next_lsn (bp_log bp)"
    using max_page_lsn_less [of snap] img pos by blast
  obtain dw1 where dw1: "write_batch snap (bp_dwb bp) = (Inr (), dw1)" "batch_ready dw1 snap"
      "dw_capacity dw1 = dw_capacity (bp_dwb bp)"
    using write_batch_ready [of "bp_dwb bp" snap] st ne cap img len by (auto simp: storage_ok_def)
  obtain dw' where dw': "clear_batch dw1 = (Inr (), dw')" "dwb_inv dw'" "dw_capacity dw' = dw_capacity dw1"
    using clear_batch_eq [of dw1] dw1(2) by (auto simp: batch_ready_def)
  let ?bp1 = "bp\<lparr>bp_flush_in_flight := True, bp_log := lm', bp_dwb := dw1\<rparr>"
  obtain dm' where dm': "sforeach snap (\<lambda>p. on_disk (write_page (pg_id p) (pg_data p))) ?bp1
      = (Inr (), ?bp1\<lparr>bp_disk := dm'\<rparr>)" "disk_inv dm'" "dm_next_page_id dm' = next_page bp"
    "\<forall>q < next_page bp. page_at dm' q = image_of snap q (page_at (bp_disk bp) q)"
    using write_pages_eq [of ?bp1 snap] st img by (auto simp: storage_ok_def)
  let ?bp2 = "?bp1\<lparr>bp_disk := dm', bp_dwb := dw'\<rparr>"
  have sync: "disk_sync dm' = (Inr (), dm')" using dm'(2) by (simp add: disk_sync_def dm_on_def disk_inv_def)
  have ws: "write_snapshot snap ?bp1 = (Inr (), ?bp2)"
    by (simp only: write_snapshot_def sbind_def dm'(1) prod.case sum.case)
      (simp add: on_disk_def on_dwb_def sync dw'(1))
  have clean: "mark_all_clean (zip fs snap) ?bp2 = ?bp2\<lparr>bp_frames := clean_frames (set fs) (bp_frames bp)\<rparr>"
    using mark_all_clean_eq [of fs ?bp2] inr by (simp add: snap)
  have go: "flush_pages pages bp = (Inr (), bp\<lparr>bp_disk := dm', bp_dwb := dw', bp_log := lm',
      bp_frames := clean_frames (set fs) (bp_frames bp)\<rparr>)"
    using st ne ws clean dw1(1)
    by (simp add: flush_pages_def flush_leased_def storage_ok_def Let_def sbind_def pool_flush_log_def
        on_dwb_def poison_on_error_def snap_def [symmetric] fs_def [symmetric] lm'_def [symmetric])
  have pg: "page_at dm' p = stamp_checksum (frame_data bp f)" if "(f, p) \<in> set pages" for f p
  proof -
    have fp: "fr_page (frame_at bp f) \<in> set snap" "pg_id (fr_page (frame_at bp f)) = p" "p < next_page bp"
      using that holds [OF that] by (force simp: frame_holds_def snap_def)+
    then show ?thesis
      using dm'(4) image_of_distinct(1) [of snap "fr_page (frame_at bp f)"] dist ids by auto
  qed
  have other: "page_at dm' p = page_at (bp_disk bp) p" if "p \<notin> snd ` set pages" "p < next_page bp" for p
  proof -
    have "p \<notin> pg_id ` set snap" using that(1) ids by (metis set_map)
    then show ?thesis using dm'(4) image_of_distinct(2) [of snap p] dist ids that(2) by auto
  qed
  have dur: "unat (page_lsn (frame_data bp f)) < lm_durable_lsn lm'" if "(f, p) \<in> set pages" for f p
  proof -
    have "fr_page (frame_at bp f) \<in> set snap" using that by (force simp: snap_def)
    then have "page_lsn (frame_data bp f) \<le> max_page_lsn snap" by (rule max_page_lsn_ge)
    then show ?thesis
      using log_run_flush(5) [OF rs max] unfolding lm'_def by (meson le_less_trans word_le_nat_alt)
  qed
  have runs: "log_run lm' rs'" if "log_run (bp_log bp) rs'" for rs'
    unfolding lm'_def by (rule log_run_flush(1) [OF that])
  have "flush_effect pages bp dm' dw' lm'"
    using dm'(2,3) dw'(2,3) dw1(3) log_run_flush(2-4) [OF rs, of "max_page_lsn snap"] runs pg other dur
    by (simp add: flush_effect_def lm'_def [symmetric])
  moreover have "flush_pages pages bp = (Inr (), flushed_pool pages bp dm' dw' lm')"
    using go by (simp add: flushed_pool_def fs_def)
  ultimately show ?thesis by blast
qed

text \<open>Frames other than the flushed ones keep what they hold, and the view does not change.\<close>

lemma frame_holds_cong:
  assumes "frame_holds bp f p" "frame_at bp' f = frame_at bp f" "next_page bp \<le> next_page bp'"
    "lm_next_lsn (bp_log bp) \<le> lm_next_lsn (bp_log bp')" "page_at (bp_disk bp') p = page_at (bp_disk bp) p"
  shows "frame_holds bp' f p"
  using assms by (auto simp: frame_holds_def)

lemma flush_pages_content:
  assumes ci: "content_inv bp" and cap: "length pages \<le> dw_capacity (bp_dwb bp)"
    and dist: "distinct (map snd pages)" and ne: "pages \<noteq> []"
    and fp: "\<And>f p. (f, p) \<in> set pages \<Longrightarrow> f < nframes bp \<and> bp_frame_page bp ! f = Some p"
    and ii: "\<And>p f g. f < nframes bp \<Longrightarrow> g < nframes bp \<Longrightarrow> bp_frame_page bp ! f = Some p \<Longrightarrow>
       bp_frame_page bp ! g = Some p \<Longrightarrow> f = g"
  shows "\<exists>dm' dw' lm'. flush_pages pages bp = (Inr (), flushed_pool pages bp dm' dw' lm') \<and>
    flush_effect pages bp dm' dw' lm' \<and> content_inv (flushed_pool pages bp dm' dw' lm')"
proof -
  have holds: "f < nframes bp \<and> frame_holds bp f p" if "(f, p) \<in> set pages" for f p
    using ci fp [OF that] by (auto simp: content_inv_def)
  have st: "storage_ok bp" using ci by (simp add: content_inv_def)
  obtain dm' dw' lm' where go: "flush_pages pages bp = (Inr (), flushed_pool pages bp dm' dw' lm')"
    and eff: "flush_effect pages bp dm' dw' lm'"
    using flush_pages_eq [OF st ne cap dist holds] by blast
  note F = flush_effectD [OF eff]
  let ?bp' = "flushed_pool pages bp dm' dw' lm'"
  have sel: "bp_disk ?bp' = dm'" "bp_dwb ?bp' = dw'" "bp_log ?bp' = lm'" "nframes ?bp' = nframes bp"
    "bp_frame_page ?bp' = bp_frame_page bp"
    "bp_frames ?bp' = clean_frames (set (map fst pages)) (bp_frames bp)"
    by (simp_all add: flushed_pool_def)
  have len: "length (frame_data bp f) = PAGE_SIZE" if "(f, p) \<in> set pages" for f p
    using holds [OF that] by (simp add: frame_holds_def)
  have sto: "storage_ok ?bp'" using st F(1,3,5) by (auto simp: storage_ok_def flushed_pool_def)
  have dc: "disk_content ?bp'"
    unfolding disk_content_def sel
  proof (intro allI impI)
    fix p assume p: "p < dm_next_page_id dm'"
    show "checksum_ok (page_at dm' p) \<and> unat (page_lsn (page_at dm' p)) < lm_durable_lsn lm'"
    proof (cases "p \<in> snd ` set pages")
      case True
      then obtain f where f: "(f, p) \<in> set pages" by auto
      then show ?thesis using F(9,10) [OF f] len [OF f] by simp
    next
      case False
      then show ?thesis using F(2,8) F(11) [OF False] p ci by (force simp: content_inv_def disk_content_def)
    qed
  qed
  have fh: "frame_holds ?bp' f p" if "f < nframes bp" "bp_frame_page bp ! f = Some p" for f p
  proof (cases "f \<in> set (map fst pages)")
    case True
    then obtain q where q: "(f, q) \<in> set pages" by auto
    then have "q = p" using fp [OF q] that by simp
    then show ?thesis
      using holds [OF q] F(2,6) F(10) [OF q] len [OF q] True that(1) by (simp add: frame_holds_def sel)
  next
    case False
    have hold: "frame_holds bp f p" using ci that by (simp add: content_inv_def)
    have "p \<notin> snd ` set pages"
    proof
      assume "p \<in> snd ` set pages"
      then obtain g where g: "(g, p) \<in> set pages" by auto
      then have "g = f" using ii [of g f p] fp [OF g] that by auto
      then show False using g False by force
    qed
    moreover have "p < next_page bp" using hold by (simp add: frame_holds_def)
    ultimately show ?thesis
      by (intro frame_holds_cong [OF hold]) (use False that(1) F(2,6,11) in \<open>simp_all add: sel\<close>)
  qed
  have "content_inv ?bp'" using sto dc fh by (simp add: content_inv_def sel)
  then show ?thesis using go eff by blast
qed

section \<open>Steps that do not change the view\<close>

definition log_same :: "log_manager \<Rightarrow> log_manager \<Rightarrow> bool" where
  "log_same lm lm' \<longleftrightarrow> (\<forall>rs. log_run lm rs \<longrightarrow> log_run lm' rs) \<and> lm_next_lsn lm' = lm_next_lsn lm \<and>
     lm_last_lsn lm' = lm_last_lsn lm"

text \<open>The LSN since which a cached page is dirty, 0 for a page that is clean or not cached.\<close>

definition rec_lsn :: "buffer_pool \<Rightarrow> page_id \<Rightarrow> lsn" where
  "rec_lsn bp p = (case fmlookup (bp_page_table bp) p of None \<Rightarrow> 0 | Some f \<Rightarrow> fr_dirty (frame_at bp f))"

text \<open>A page of the file changes only by being brought up to date with the view, and no page gets dirty.\<close>

definition stutter :: "buffer_pool \<Rightarrow> buffer_pool \<Rightarrow> bool" where
  "stutter bp bp' \<longleftrightarrow> pool_view bp' = pool_view bp \<and> nframes bp' = nframes bp \<and>
     next_page bp' = next_page bp \<and> log_same (bp_log bp) (bp_log bp') \<and>
     dw_capacity (bp_dwb bp') = dw_capacity (bp_dwb bp) \<and>
     (\<forall>p < next_page bp. page_at (bp_disk bp') p = page_at (bp_disk bp) p \<or>
        pool_view bp p = Some (page_at (bp_disk bp') p)) \<and>
     (\<forall>p. rec_lsn bp' p = rec_lsn bp p \<or> rec_lsn bp' p = 0)"

lemma log_same_refl [simp]: "log_same lm lm"
  by (simp add: log_same_def)

lemma log_same_flush_effect: "flush_effect pages bp dm' dw' lm' \<Longrightarrow> log_same (bp_log bp) lm'"
  using flush_effectD(5-7) by (simp add: log_same_def)

lemma stutter_refl [simp]: "stutter bp bp"
  by (simp add: stutter_def)

lemma stutter_trans: "stutter a b \<Longrightarrow> stutter b c \<Longrightarrow> stutter a c"
  unfolding stutter_def log_same_def by simp metis

text \<open>Fields of the index that contents and view do not depend on.\<close>

lemma content_inv_index [simp]:
  "content_inv (bp\<lparr>bp_free_list := a\<rparr>) = content_inv bp" "content_inv (bp\<lparr>bp_owned := b\<rparr>) = content_inv bp"
  "content_inv (bp\<lparr>bp_evicting := c\<rparr>) = content_inv bp" "content_inv (bp\<lparr>bp_loading := c\<rparr>) = content_inv bp"
  "content_inv (bp\<lparr>bp_replacer := d\<rparr>) = content_inv bp"
  "content_inv (bp\<lparr>bp_page_table := e\<rparr>) = content_inv bp"
  by (simp_all add: content_inv_def storage_ok_def disk_content_def frame_holds_def)

lemma pool_view_index [simp]:
  "pool_view (bp\<lparr>bp_free_list := a\<rparr>) = pool_view bp" "pool_view (bp\<lparr>bp_owned := b\<rparr>) = pool_view bp"
  "pool_view (bp\<lparr>bp_evicting := c\<rparr>) = pool_view bp" "pool_view (bp\<lparr>bp_loading := c\<rparr>) = pool_view bp"
  "pool_view (bp\<lparr>bp_replacer := d\<rparr>) = pool_view bp" "pool_view (bp\<lparr>bp_frame_page := e\<rparr>) = pool_view bp"
  by (simp_all add: pool_view_def fun_eq_iff cong: option.case_cong)

lemma pool_pins_index [simp]:
  "pool_pins (bp\<lparr>bp_free_list := a\<rparr>) = pool_pins bp" "pool_pins (bp\<lparr>bp_owned := b\<rparr>) = pool_pins bp"
  "pool_pins (bp\<lparr>bp_evicting := c\<rparr>) = pool_pins bp" "pool_pins (bp\<lparr>bp_loading := c\<rparr>) = pool_pins bp"
  "pool_pins (bp\<lparr>bp_replacer := d\<rparr>) = pool_pins bp" "pool_pins (bp\<lparr>bp_frame_page := e\<rparr>) = pool_pins bp"
  by (simp_all add: pool_pins_def fun_eq_iff cong: option.case_cong)

lemma rec_lsn_index [simp]:
  "rec_lsn (bp\<lparr>bp_free_list := a\<rparr>) = rec_lsn bp" "rec_lsn (bp\<lparr>bp_owned := b\<rparr>) = rec_lsn bp"
  "rec_lsn (bp\<lparr>bp_evicting := c\<rparr>) = rec_lsn bp" "rec_lsn (bp\<lparr>bp_loading := c\<rparr>) = rec_lsn bp"
  "rec_lsn (bp\<lparr>bp_replacer := d\<rparr>) = rec_lsn bp" "rec_lsn (bp\<lparr>bp_frame_page := e\<rparr>) = rec_lsn bp"
  "rec_lsn (bp\<lparr>bp_disk := g\<rparr>) = rec_lsn bp" "rec_lsn (bp\<lparr>bp_dwb := h\<rparr>) = rec_lsn bp" "rec_lsn (bp\<lparr>bp_log := i\<rparr>) = rec_lsn bp"
  by (simp_all add: rec_lsn_def fun_eq_iff cong: option.case_cong)

lemma content_inv_unmap: "content_inv bp \<Longrightarrow> content_inv (bp\<lparr>bp_frame_page := (bp_frame_page bp)[f := None]\<rparr>)"
  unfolding content_inv_def storage_ok_def disk_content_def frame_holds_def
  by (auto simp: nth_list_update split: if_splits)
    (metis list_update_beyond not_le nth_list_update option.distinct(1))+

section \<open>Eviction\<close>

text \<open>Bringing the file up to date with a frame, if it is dirty.\<close>

lemma clean_victim:
  assumes ci: "content_inv bp" and f: "f < nframes bp" "bp_frame_page bp ! f = Some pid"
    and inj: "\<And>p f g. f < nframes bp \<Longrightarrow> g < nframes bp \<Longrightarrow> bp_frame_page bp ! f = Some p \<Longrightarrow>
       bp_frame_page bp ! g = Some p \<Longrightarrow> f = g"
  shows "\<exists>dm' dw' lm' frs'. evict_page f pid bp =
      (Inr f, complete_eviction f pid (bp\<lparr>bp_disk := dm', bp_dwb := dw', bp_log := lm', bp_frames := frs'\<rparr>)) \<and>
    content_inv (bp\<lparr>bp_disk := dm', bp_dwb := dw', bp_log := lm', bp_frames := frs'\<rparr>) \<and>
    dm_next_page_id dm' = next_page bp \<and> log_same (bp_log bp) lm' \<and> dw_capacity dw' = dw_capacity (bp_dwb bp) \<and>
    length frs' = nframes bp \<and> (\<forall>g < nframes bp. fr_pin (frs' ! g) = fr_pin (frame_at bp g) \<and> fr_page (frs' ! g) = fr_page (frame_at bp g)) \<and>
    (\<forall>g < nframes bp. fr_dirty (frs' ! g) = fr_dirty (frame_at bp g) \<or> fr_dirty (frs' ! g) = 0) \<and>
    stamp_checksum (page_at dm' pid) = stamp_checksum (frame_data bp f) \<and>
    (page_at dm' pid = page_at (bp_disk bp) pid \<or> page_at dm' pid = stamp_checksum (frame_data bp f)) \<and>
    (\<forall>q < next_page bp. q \<noteq> pid \<longrightarrow> page_at dm' q = page_at (bp_disk bp) q)"
proof (cases "fr_dirty (frame_at bp f) = 0")
  case True
  have "frame_holds bp f pid" using ci f by (simp add: content_inv_def)
  then show ?thesis
    using True ci
    by (intro exI [of _ "bp_disk bp"] exI [of _ "bp_dwb bp"] exI [of _ "bp_log bp"] exI [of _ "bp_frames bp"])
      (simp add: evict_page_def frame_holds_def)
next
  case False
  have "1 \<le> dw_capacity (bp_dwb bp)" using ci by (simp add: content_inv_def storage_ok_def dwb_inv_def)
  then obtain dm' dw' lm' where F: "flush_pages [(f, pid)] bp = (Inr (), flushed_pool [(f, pid)] bp dm' dw' lm')"
    "flush_effect [(f, pid)] bp dm' dw' lm'" "content_inv (flushed_pool [(f, pid)] bp dm' dw' lm')"
    using flush_pages_content [OF ci, of "[(f, pid)]"] f inj by auto
  have len: "length (frame_data bp f) = PAGE_SIZE"
    using ci f by (auto simp: content_inv_def frame_holds_def)
  let ?frs = "clean_frames {f} (bp_frames bp)"
  show ?thesis
    using False F flush_effectD(2,4,10,11) [OF F(2)] log_same_flush_effect [OF F(2)] len
    by (intro exI [of _ dm'] exI [of _ dw'] exI [of _ lm'] exI [of _ ?frs])
      (simp add: evict_page_def flushed_pool_def)
qed

text \<open>A pinned page stays in its frame.\<close>

definition pins_stay :: "buffer_pool \<Rightarrow> buffer_pool \<Rightarrow> bool" where
  "pins_stay bp bp' \<longleftrightarrow> (\<forall>q g. fmlookup (bp_page_table bp) q = Some g \<longrightarrow> 0 < pool_pins bp q \<longrightarrow>
     fmlookup (bp_page_table bp') q = Some g)"

lemma pins_stay_refl: "bp_page_table bp' = bp_page_table bp \<Longrightarrow> pins_stay bp bp'"
  by (simp add: pins_stay_def)

text \<open>What taking a frame out of the pool leaves.\<close>

definition acquired :: "buffer_pool \<Rightarrow> frame_id \<Rightarrow> buffer_pool \<Rightarrow> bool" where
  "acquired bp f bp' \<longleftrightarrow> index_inv (Some f) bp' \<and> content_inv bp' \<and> stutter bp bp' \<and>
     pool_pins bp' = pool_pins bp \<and> bp_loading bp' = bp_loading bp \<and> pins_stay bp bp' \<and>
     (\<forall>p. fmlookup (bp_page_table bp) p = None \<longrightarrow> fmlookup (bp_page_table bp') p = None)"

lemma acquire_from_free_list:
  assumes ii: "index_inv None bp" and ci: "content_inv bp" and free: "bp_free_list bp \<noteq> []"
  shows "\<exists>f bp'. acquire_free_frame bp = (Inr f, bp') \<and> acquired bp f bp'"
proof -
  let ?f = "last (bp_free_list bp)"
  let ?bp' = "set_owned ?f True (bp\<lparr>bp_free_list := butlast (bp_free_list bp)\<rparr>)"
  note D = index_invD [OF ii]
  have f: "?f < nframes bp" "bp_frame_page bp ! ?f = None"
    using D(6) last_in_set [OF free] by auto
  have free': "set (butlast (bp_free_list bp)) = set (bp_free_list bp) - {?f}"
    using D(5) free by (metis append_butlast_last_id distinct_append distinct_butlast Diff_insert_absorb
        set_append list.simps(15) empty_set Un_insert_right Un_empty_right disjoint_insert(1))
  have own: "(bp_owned bp)[?f := True] = map (\<lambda>g. Some ?f = Some g) [0..<nframes bp]"
    using ii f(1) by (intro nth_equalityI) (auto simp: index_inv_def nth_list_update)
  have "index_inv (Some ?f) ?bp'"
    using ii f free' own D(5,6) unfolding index_inv_def set_owned_def
    by (auto simp: distinct_butlast)
  then show ?thesis
    using free ci by (auto simp: acquire_free_frame_def acquired_def set_owned_def stutter_def Let_def pins_stay_def)
qed

lemma index_inv_complete_eviction:
  assumes ii: "index_inv None bp" and f: "f < nframes bp" "bp_frame_page bp ! f = Some pid" "fr_pin (frame_at bp f) = 0"
    and free: "bp_free_list bp = []"
    and r: "tracked_frames r = tracked_frames (bp_replacer bp) - {f}"
      "evictable_frames r = evictable_frames (bp_replacer bp) - {f}"
    and frs: "length frs = nframes bp" "\<And>g. g < nframes bp \<Longrightarrow> fr_pin (frs ! g) = fr_pin (frame_at bp g)"
  shows "index_inv (Some f) (complete_eviction f pid ((set_owned f True (bp\<lparr>bp_replacer := r,
    bp_evicting := {|pid|}\<rparr>))\<lparr>bp_disk := dm, bp_dwb := dw, bp_log := lm, bp_frames := frs\<rparr>))"
proof -
  note D = index_invD [OF ii] and S = index_inv_sets [OF ii]
  let ?bp' = "complete_eviction f pid ((set_owned f True (bp\<lparr>bp_replacer := r,
    bp_evicting := {|pid|}\<rparr>))\<lparr>bp_disk := dm, bp_dwb := dw, bp_log := lm, bp_frames := frs\<rparr>)"
  have sel: "bp_frames ?bp' = frs" "bp_frame_page ?bp' = (bp_frame_page bp)[f := None]"
    "bp_owned ?bp' = (bp_owned bp)[f := True]" "bp_evicting ?bp' = {||}" "bp_free_list ?bp' = []"
    "bp_page_table ?bp' = fmdrop pid (bp_page_table bp)" "bp_replacer ?bp' = r"
    using free by (simp_all add: complete_eviction_def set_owned_def)
  have fp: "(bp_frame_page bp)[f := None] ! g = (if g = f then None else bp_frame_page bp ! g)" for g
    using D(1) f(1) by (simp add: nth_list_update)
  have own: "(bp_owned bp)[f := True] ! g = (g = f)" if "g < nframes bp" for g
    using D(2) D(11) [OF that] f(1) by (simp add: nth_list_update)
  have pt: "(fmlookup (fmdrop pid (bp_page_table bp)) p = Some g) \<longleftrightarrow>
      g < nframes bp \<and> (bp_frame_page bp)[f := None] ! g = Some p" for p g
    using D(4) [of p g] D(4) [of pid f] D(4) [of pid g] f unfolding fp by auto
  have full: False if "g < nframes bp" "bp_frame_page bp ! g = None" for g
    using S(1) [of g] free that by simp
  show ?thesis
    by (rule index_invI; unfold sel frs(1) fp)
      (use D(1,2) own pt [unfolded fp] frs(2) S(2,3) r f in \<open>auto split: if_splits dest: full\<close>)
qed

lemma view_complete_eviction:
  assumes ii: "index_inv None bp" and ci: "content_inv bp" and f: "f < nframes bp" "bp_frame_page bp ! f = Some pid"
    and nxt: "dm_next_page_id dm' = next_page bp"
    and frs: "length frs = nframes bp" "\<And>g. g < nframes bp \<Longrightarrow> fr_page (frs ! g) = fr_page (frame_at bp g)"
    and pid: "stamp_checksum (page_at dm' pid) = stamp_checksum (frame_data bp f)"
    and other: "\<And>q. q < next_page bp \<Longrightarrow> q \<noteq> pid \<Longrightarrow> page_at dm' q = page_at (bp_disk bp) q"
  shows "pool_view (bp\<lparr>bp_disk := dm', bp_frames := frs, bp_page_table := fmdrop pid (bp_page_table bp)\<rparr>) = pool_view bp"
proof
  fix p
  have a: "fmlookup (bp_page_table bp) pid = Some f" using index_invD(4) [OF ii, of pid f] f by simp
  have b: "g < nframes bp" if "fmlookup (bp_page_table bp) p = Some g" for g
    using index_invD(4) [OF ii, of p g] that by simp
  show "pool_view (bp\<lparr>bp_disk := dm', bp_frames := frs, bp_page_table := fmdrop pid (bp_page_table bp)\<rparr>) p = pool_view bp p"
    using a b nxt frs pid other [of p]
    by (cases "p = pid"; cases "fmlookup (bp_page_table bp) p") (auto simp: pool_view_def)
qed

lemma pins_complete_eviction:
  assumes ii: "index_inv None bp" and f: "f < nframes bp" "bp_frame_page bp ! f = Some pid" "fr_pin (frame_at bp f) = 0"
    and frs: "\<And>g. g < nframes bp \<Longrightarrow> fr_pin (frs ! g) = fr_pin (frame_at bp g)"
  shows "pool_pins (bp\<lparr>bp_frames := frs, bp_page_table := fmdrop pid (bp_page_table bp)\<rparr>) = pool_pins bp"
proof
  fix p
  have a: "fmlookup (bp_page_table bp) pid = Some f" using index_invD(4) [OF ii, of pid f] f by simp
  have b: "g < nframes bp" if "fmlookup (bp_page_table bp) p = Some g" for g
    using index_invD(4) [OF ii, of p g] that by simp
  show "pool_pins (bp\<lparr>bp_frames := frs, bp_page_table := fmdrop pid (bp_page_table bp)\<rparr>) p = pool_pins bp p"
    using a b f(3) frs
    by (cases "p = pid"; cases "fmlookup (bp_page_table bp) p") (auto simp: pool_pins_def)
qed

lemma acquire_by_eviction:
  assumes ii: "index_inv None bp" and ci: "content_inv bp" and free: "bp_free_list bp = []"
    and idle: "f0 < nframes bp" "fr_pin (frame_at bp f0) = 0"
  shows "\<exists>f bp'. acquire_free_frame bp = (Inr f, bp') \<and> acquired bp f bp'"
proof -
  note D = index_invD [OF ii]
  have "f0 \<in> evictable_frames (bp_replacer bp)" using D(6,8) free idle by auto
  then obtain f r where ev: "evict_where (bp_replacer bp) (\<lambda>_. True) = (Some f, r)"
    using lruk.victim_exists [of f0 "bp_replacer bp" "\<lambda>_. True"] by auto
  note V = lruk.evict_some [OF ev]
  obtain pid where f: "f < nframes bp" "bp_frame_page bp ! f = Some pid" "fr_pin (frame_at bp f) = 0"
    using V D(8) by auto
  let ?bp1 = "set_owned f True (bp\<lparr>bp_replacer := r, bp_evicting := {|pid|}\<rparr>)"
  have inj: "g = h" if "g < nframes ?bp1" "h < nframes ?bp1" "bp_frame_page ?bp1 ! g = Some q"
    "bp_frame_page ?bp1 ! h = Some q" for q g h
    using D(4) [of q g] D(4) [of q h] that by (simp add: set_owned_def)
  have ci1: "content_inv ?bp1" using ci by (simp add: set_owned_def)
  obtain dm' dw' lm' frs where E:
    "evict_page f pid ?bp1 =
      (Inr f, complete_eviction f pid (?bp1\<lparr>bp_disk := dm', bp_dwb := dw', bp_log := lm', bp_frames := frs\<rparr>))"
    "content_inv (?bp1\<lparr>bp_disk := dm', bp_dwb := dw', bp_log := lm', bp_frames := frs\<rparr>)"
    "dm_next_page_id dm' = next_page bp" "log_same (bp_log bp) lm'" "dw_capacity dw' = dw_capacity (bp_dwb bp)"
    "length frs = nframes bp"
    "\<forall>g < nframes bp. fr_pin (frs ! g) = fr_pin (frame_at bp g) \<and> fr_page (frs ! g) = fr_page (frame_at bp g)"
    "stamp_checksum (page_at dm' pid) = stamp_checksum (frame_data bp f)"
    "\<forall>q < next_page bp. q \<noteq> pid \<longrightarrow> page_at dm' q = page_at (bp_disk bp) q"
    "page_at dm' pid = page_at (bp_disk bp) pid \<or> page_at dm' pid = stamp_checksum (frame_data bp f)"
    "\<forall>g < nframes bp. fr_dirty (frs ! g) = fr_dirty (frame_at bp g) \<or> fr_dirty (frs ! g) = 0"
    using clean_victim [OF ci1, of f pid] f inj unfolding set_owned_def by auto
  let ?bp' = "complete_eviction f pid (?bp1\<lparr>bp_disk := dm', bp_dwb := dw', bp_log := lm', bp_frames := frs\<rparr>)"
  have go: "acquire_free_frame bp = (Inr f, ?bp')"
    using free ci ev f(2) E(1) D(3)
    by (simp add: acquire_free_frame_def choose_victim_def evict_def content_inv_def storage_ok_def)
  have "content_inv ?bp'"
    using content_inv_unmap [OF E(2), of f]
    by (simp add: complete_eviction_def content_inv_def storage_ok_def disk_content_def frame_holds_def)
  moreover have "index_inv (Some f) ?bp'"
    by (rule index_inv_complete_eviction [OF ii f free]) (use V E(6,7) in simp_all)
  moreover have "pool_view ?bp' = pool_view bp"
  proof -
    have "pool_view ?bp' = pool_view (bp\<lparr>bp_disk := dm', bp_frames := frs,
        bp_page_table := fmdrop pid (bp_page_table bp)\<rparr>)"
      by (simp add: complete_eviction_def set_owned_def pool_view_def fun_eq_iff cong: option.case_cong)
    also have "\<dots> = pool_view bp"
      by (rule view_complete_eviction [OF ii ci f(1,2) E(3,6) _ E(8)]) (use E(7,9) in simp_all)
    finally show ?thesis .
  qed
  moreover have "pool_pins ?bp' = pool_pins bp"
  proof -
    have "pool_pins ?bp' = pool_pins (bp\<lparr>bp_frames := frs, bp_page_table := fmdrop pid (bp_page_table bp)\<rparr>)"
      by (simp add: complete_eviction_def set_owned_def pool_pins_def fun_eq_iff cong: option.case_cong)
    also have "\<dots> = pool_pins bp"
      by (rule pins_complete_eviction [OF ii f]) (use E(7) in simp)
    finally show ?thesis .
  qed
  moreover have "page_at dm' q = page_at (bp_disk bp) q \<or> pool_view bp q = Some (page_at dm' q)"
    if "q < next_page bp" for q
  proof (cases "q = pid")
    case True
    have "fmlookup (bp_page_table bp) pid = Some f" using D(4) [of pid f] f by simp
    then show ?thesis using True E(10) that by (auto simp: pool_view_def)
  next
    case False
    then show ?thesis using E(9) that by simp
  qed
  moreover have "rec_lsn ?bp' q = rec_lsn bp q \<or> rec_lsn ?bp' q = 0" for q
  proof -
    have "rec_lsn ?bp' q = (if q = pid then 0 else case fmlookup (bp_page_table bp) q of None \<Rightarrow> 0 | Some g \<Rightarrow> fr_dirty (frs ! g))"
      by (simp add: rec_lsn_def complete_eviction_def set_owned_def cong: option.case_cong)
    moreover have "g < nframes bp" if "fmlookup (bp_page_table bp) q = Some g" for g using D(4) [of q g] that by simp
    ultimately show ?thesis
      using E(11) by (cases "fmlookup (bp_page_table bp) q") (simp_all add: rec_lsn_def [of bp])
  qed
  moreover have "pins_stay bp ?bp'"
    using D(4) [of pid f] f by (auto simp: pins_stay_def pool_pins_def complete_eviction_def set_owned_def)
  ultimately have "acquired bp f ?bp'"
    using E(3,4,5,6) by (simp add: acquired_def stutter_def complete_eviction_def set_owned_def)
  then show ?thesis using go by blast
qed

lemma acquire_frame:
  assumes "index_inv None bp" "content_inv bp" "f0 < nframes bp" "fr_pin (frame_at bp f0) = 0"
  shows "\<exists>f bp'. acquire_free_frame bp = (Inr f, bp') \<and> acquired bp f bp'"
  using acquire_from_free_list [OF assms(1,2)] acquire_by_eviction [OF assms(1,2) _ assms(3,4)] by blast

end
