(* ===== verification/Pool_Ops.thy ===== *)
theory Pool_Ops
  imports Pool_Inv
begin

text \<open>
  The operations of the buffer pool against its invariant and view: fetching and dropping a page,
  allocating one, writing through a guard, flushing; and the interface \<open>page_store\<close> through which the
  heap, the index and recovery use them.
\<close>

section \<open>Pinning and unpinning\<close>

lemma pin_sets:
  "tracked_frames (set_evictable (record_access r f) f False) = insert f (tracked_frames r)"
  "evictable_frames (set_evictable (record_access r f) f False) = evictable_frames r - {f}"
  using lruk.pin_effect [of r f] unfolding lruk.pin_def by blast+

lemma unpin_sets:
  assumes "f \<in> tracked_frames r"
  shows "tracked_frames (set_evictable r f True) = tracked_frames r"
    "evictable_frames (set_evictable r f True) = insert f (evictable_frames r)"
  using lruk.unpin_effect [OF assms] unfolding lruk.unpin_def by blast+

text \<open>A change of pin counts only.\<close>

lemma nth_list_update_if: "xs[i := x] ! j = (if i = j \<and> i < length xs then x else xs ! j)"
  by (cases "i < length xs") (simp_all add: nth_list_update list_update_beyond)

definition repin :: "frame_id \<Rightarrow> nat \<Rightarrow> buffer_pool \<Rightarrow> buffer_pool" where
  "repin f k bp = set_frame f ((frame_at bp f)\<lparr>fr_pin := k\<rparr>) bp"

lemma repin_simps [simp]:
  "nframes (repin f k bp) = nframes bp" "bp_frame_page (repin f k bp) = bp_frame_page bp"
  "bp_page_table (repin f k bp) = bp_page_table bp" "bp_disk (repin f k bp) = bp_disk bp"
  "bp_dwb (repin f k bp) = bp_dwb bp" "bp_log (repin f k bp) = bp_log bp"
  "bp_free_list (repin f k bp) = bp_free_list bp" "bp_replacer (repin f k bp) = bp_replacer bp"
  "bp_owned (repin f k bp) = bp_owned bp" "bp_evicting (repin f k bp) = bp_evicting bp"
  "bp_loading (repin f k bp) = bp_loading bp" "bp_flush_poisoned (repin f k bp) = bp_flush_poisoned bp"
  "bp_flush_in_flight (repin f k bp) = bp_flush_in_flight bp"
  by (simp_all add: repin_def set_frame_def)

lemma repin_frame:
  "fr_page (frame_at (repin f k bp) g) = fr_page (frame_at bp g)"
  "fr_dirty (frame_at (repin f k bp) g) = fr_dirty (frame_at bp g)"
  "f < nframes bp \<Longrightarrow> fr_pin (frame_at (repin f k bp) g) = (if g = f then k else fr_pin (frame_at bp g))"
  by (auto simp: repin_def set_frame_def nth_list_update_if)

lemma content_inv_repin [simp]: "content_inv (repin f k bp) = content_inv bp"
  by (simp add: content_inv_def storage_ok_def disk_content_def frame_holds_def repin_frame)

lemma pool_view_repin [simp]: "pool_view (repin f k bp) = pool_view bp"
  by (simp add: pool_view_def fun_eq_iff repin_frame cong: option.case_cong)

lemma rec_lsn_repin [simp]: "rec_lsn (repin f k bp) = rec_lsn bp"
  by (simp add: rec_lsn_def fun_eq_iff repin_frame cong: option.case_cong)

lemma pool_pins_repin:
  assumes "index_inv own bp" "fmlookup (bp_page_table bp) p = Some f"
  shows "pool_pins (repin f k bp) = (pool_pins bp)(p := k)"
proof
  fix q
  have f: "f < nframes bp" "bp_frame_page bp ! f = Some p"
    using index_invD(4) [OF assms(1), of p f] assms(2) by simp_all
  have "q = p" if "fmlookup (bp_page_table bp) q = Some f"
    using index_invD(4) [OF assms(1), of q f] that f(2) by simp
  then show "pool_pins (repin f k bp) q = ((pool_pins bp)(p := k)) q"
    using assms(2) f(1) by (cases "fmlookup (bp_page_table bp) q") (auto simp: pool_pins_def repin_frame)
qed

lemma pin_locked_eq:
  "pin_locked f bp = (repin f (Suc (fr_pin (frame_at bp f))) bp)
     \<lparr>bp_replacer := set_evictable (record_access (bp_replacer bp) f) f False\<rparr>"
  by (simp add: pin_locked_def repin_def set_frame_def Let_def)

lemma index_inv_pin:
  assumes ii: "index_inv own bp" and f: "f < nframes bp" "bp_frame_page bp ! f = Some p"
  shows "index_inv own (pin_locked f bp)"
proof -
  note D = index_invD [OF ii] and S = index_inv_sets [OF ii]
  show ?thesis
    unfolding pin_locked_eq
    by (rule index_invI)
      (use D S f in \<open>auto simp: repin_frame pin_sets\<close>)
qed

lemma pin_locked_effect:
  assumes ii: "index_inv own bp" and ci: "content_inv bp" and pt: "fmlookup (bp_page_table bp) p = Some f"
  shows "index_inv own (pin_locked f bp)" "content_inv (pin_locked f bp)" "stutter bp (pin_locked f bp)"
    "pool_pins (pin_locked f bp) = (pool_pins bp)(p := Suc (pool_pins bp p))"
    "bp_page_table (pin_locked f bp) = bp_page_table bp" "bp_loading (pin_locked f bp) = bp_loading bp"
proof -
  have f: "f < nframes bp" "bp_frame_page bp ! f = Some p" using index_invD(4) [OF ii, of p f] pt by simp_all
  show "index_inv own (pin_locked f bp)" by (rule index_inv_pin [OF ii f])
  show "content_inv (pin_locked f bp)" using ci by (simp add: pin_locked_eq)
  show "stutter bp (pin_locked f bp)" by (simp add: stutter_def pin_locked_eq)
  show "pool_pins (pin_locked f bp) = (pool_pins bp)(p := Suc (pool_pins bp p))"
    using pool_pins_repin [OF ii pt] pt by (simp add: pin_locked_eq pool_pins_def)
  show "bp_page_table (pin_locked f bp) = bp_page_table bp" "bp_loading (pin_locked f bp) = bp_loading bp"
    by (simp_all add: pin_locked_eq)
qed

lemma unpin_frame_table [simp]: "bp_page_table (unpin_frame f bp) = bp_page_table bp"
  by (simp add: unpin_frame_def set_frame_def Let_def)

lemma unpin_frame_effect:
  assumes ii: "index_inv None bp" and ci: "content_inv bp" and pt: "fmlookup (bp_page_table bp) p = Some f"
    and pos: "0 < pool_pins bp p"
  shows "index_inv None (unpin_frame f bp)" "content_inv (unpin_frame f bp)" "stutter bp (unpin_frame f bp)"
    "pool_pins (unpin_frame f bp) = (pool_pins bp)(p := pool_pins bp p - 1)"
    "bp_loading (unpin_frame f bp) = bp_loading bp"
proof -
  have f: "f < nframes bp" "bp_frame_page bp ! f = Some p" using index_invD(4) [OF ii, of p f] pt by simp_all
  note D = index_invD [OF ii] and S = index_inv_sets [OF ii]
  let ?k = "fr_pin (frame_at bp f)"
  have k: "?k = pool_pins bp p" "0 < ?k" using pt pos by (simp_all add: pool_pins_def)
  have tr: "f \<in> tracked_frames (bp_replacer bp)" using S(2) f by simp
  define rep' where "rep' = (if ?k - 1 = 0 then set_evictable (bp_replacer bp) f True else bp_replacer bp)"
  have eq: "unpin_frame f bp = (repin f (?k - 1) bp)\<lparr>bp_replacer := rep'\<rparr>"
    using k(2) D(11) [OF f(1)] by (simp add: unpin_frame_def repin_def [symmetric] Let_def rep'_def)
  have sets: "tracked_frames rep' = tracked_frames (bp_replacer bp)"
    "evictable_frames rep' = (if ?k - 1 = 0 then insert f (evictable_frames (bp_replacer bp)) else evictable_frames (bp_replacer bp))"
    using unpin_sets [OF tr] by (simp_all add: rep'_def)
  show "index_inv None (unpin_frame f bp)"
    unfolding eq by (rule index_invI) (use D S f k sets in \<open>auto simp: repin_frame split: if_splits\<close>)
  show "content_inv (unpin_frame f bp)" "stutter bp (unpin_frame f bp)" "bp_loading (unpin_frame f bp) = bp_loading bp"
    using ci by (simp_all add: eq stutter_def)
  show "pool_pins (unpin_frame f bp) = (pool_pins bp)(p := pool_pins bp p - 1)"
    using pool_pins_repin [OF ii pt] k by (simp add: eq)
qed

section \<open>Loading a page\<close>

definition installed :: "frame_id \<Rightarrow> page_id \<Rightarrow> bytes \<Rightarrow> lsn \<Rightarrow> buffer_pool \<Rightarrow> buffer_pool" where
  "installed f p data d bp = set_owned f False ((set_frame f ((frame_at bp f)\<lparr>fr_page := \<lparr>pg_id = p, pg_data = data\<rparr>,
     fr_dirty := d\<rparr>) bp)\<lparr>bp_page_table := fmupd p f (bp_page_table bp), bp_frame_page := (bp_frame_page bp)[f := Some p]\<rparr>)"

lemma installed_table [simp]: "bp_page_table (pin_locked f (installed f p data d bp)) = fmupd p f (bp_page_table bp)"
  by (simp add: pin_locked_eq repin_def installed_def set_owned_def set_frame_def)

lemma try_install_eq:
  assumes "fmlookup (bp_page_table bp) p = None"
  shows "try_install f p \<lparr>pg_id = p, pg_data = data\<rparr> dirty bp =
    (f, pin_locked f (installed f p data (case dirty of None \<Rightarrow> 0 | Some l \<Rightarrow> l) bp))"
  using assms by (simp add: try_install_def installed_def Let_def set_frame_def)

text \<open>The frame is mapped but not yet tracked by the replacer until it is pinned.\<close>

lemma install_effect:
  assumes ii: "index_inv (Some f) bp" and ci: "content_inv bp" and pt: "fmlookup (bp_page_table bp) p = None"
    and data: "length data = PAGE_SIZE" "p < next_page bp" "unat (page_lsn data) < lm_next_lsn (bp_log bp)"
      "d = 0 \<Longrightarrow> stamp_checksum (page_at (bp_disk bp) p) = stamp_checksum data"
  defines "bp' \<equiv> pin_locked f (installed f p data d bp)"
  shows "index_inv None bp'" "content_inv bp'" "fmlookup (bp_page_table bp') p = Some f"
    "pool_pins bp' = (pool_pins bp)(p := 1)" "pool_view bp' = (pool_view bp)(p \<mapsto> stamp_checksum data)"
    "bp_loading bp' = bp_loading bp" "nframes bp' = nframes bp" "bp_disk bp' = bp_disk bp" "bp_dwb bp' = bp_dwb bp"
    "bp_log bp' = bp_log bp" "rec_lsn bp' = (rec_lsn bp)(p := d)"
proof -
  note D = index_invD [OF ii] and S = index_inv_sets [OF ii]
  have f: "f < nframes bp" "bp_frame_page bp ! f = None" "fr_pin (frame_at bp f) = 0"
    using D(10) [of f] D(9) [of f] by simp_all
  have nm: "bp_frame_page bp ! g \<noteq> Some p" if "g < nframes bp" for g
    using page_table_none [OF ii pt that] .
  let ?fr = "(frame_at bp f)\<lparr>fr_page := \<lparr>pg_id = p, pg_data = data\<rparr>, fr_dirty := d, fr_pin := 1\<rparr>"
  have sel: "bp_frames bp' = (bp_frames bp)[f := ?fr]" "bp_frame_page bp' = (bp_frame_page bp)[f := Some p]"
    "bp_page_table bp' = fmupd p f (bp_page_table bp)" "bp_owned bp' = (bp_owned bp)[f := False]"
    "bp_free_list bp' = bp_free_list bp" "bp_evicting bp' = bp_evicting bp" "bp_disk bp' = bp_disk bp"
    "bp_dwb bp' = bp_dwb bp" "bp_log bp' = bp_log bp" "bp_loading bp' = bp_loading bp"
    "bp_flush_poisoned bp' = bp_flush_poisoned bp" "bp_flush_in_flight bp' = bp_flush_in_flight bp"
    "bp_replacer bp' = set_evictable (record_access (bp_replacer bp) f) f False"
    using f by (simp_all add: bp'_def pin_locked_eq installed_def set_owned_def set_frame_def repin_def)
  then show "fmlookup (bp_page_table bp') p = Some f" "bp_loading bp' = bp_loading bp" "nframes bp' = nframes bp"
    "bp_disk bp' = bp_disk bp" "bp_dwb bp' = bp_dwb bp" "bp_log bp' = bp_log bp" by simp_all
  have frs: "frame_at bp' g = (if g = f then ?fr else frame_at bp g)" for g
    using f(1) by (simp add: sel nth_list_update)
  have fp: "bp_frame_page bp' ! g = (if g = f then Some p else bp_frame_page bp ! g)" for g
    using f(1) D(1) by (simp add: sel nth_list_update)
  have own: "bp_owned bp' ! g = False" if "g < nframes bp" for g
    using D(2) D(11) [OF that] f(1) by (simp add: sel nth_list_update)
  have lens: "nframes bp' = nframes bp" "length (bp_frame_page bp') = nframes bp" "length (bp_owned bp') = nframes bp"
    using D(1,2) by (simp_all add: sel)
  show "index_inv None bp'"
  proof (rule index_invI; (unfold lens fp frs)?)
    fix q g
    show "fmlookup (bp_page_table bp') q = Some g \<longleftrightarrow> g < nframes bp \<and> (if g = f then Some p else bp_frame_page bp ! g) = Some q"
      using D(4) [of q g] nm [of g] f pt by (auto simp: sel)
  qed (use D(3,5,9) S f own in \<open>auto simp: sel pin_sets split: if_splits\<close>)
  have "frame_holds bp' g q" if "g < nframes bp" "bp_frame_page bp' ! g = Some q" for g q
  proof (cases "g = f")
    case True
    then show ?thesis using that(2) data by (auto simp: frame_holds_def frs fp sel(7,9))
  next
    case False
    then have "frame_holds bp g q" using ci that by (simp add: content_inv_def fp)
    then show ?thesis by (rule frame_holds_cong) (use False in \<open>simp_all add: frs sel(7,9)\<close>)
  qed
  then show "content_inv bp'"
    using ci lens by (simp add: content_inv_def storage_ok_def disk_content_def sel)
  have pt': "g \<noteq> f" if "fmlookup (bp_page_table bp) q = Some g" for q g
    using D(4) [of q g] that f(2) by auto
  show "pool_pins bp' = (pool_pins bp)(p := 1)"
    by (auto simp: fun_eq_iff pool_pins_def frs sel(3) pt' split: option.splits)
  show "rec_lsn bp' = (rec_lsn bp)(p := d)"
    by (auto simp: fun_eq_iff rec_lsn_def frs sel(3) pt' split: option.splits)
  show "pool_view bp' = (pool_view bp)(p \<mapsto> stamp_checksum data)"
    using data(2) by (auto simp: fun_eq_iff pool_view_def frs sel(3,7) pt' split: option.splits)
qed

lemma release_effect:
  assumes ii: "index_inv (Some f) bp"
  shows "index_inv None (release_owned_frame f bp)" "content_inv (release_owned_frame f bp) = content_inv bp"
    "stutter bp (release_owned_frame f bp)" "pool_pins (release_owned_frame f bp) = pool_pins bp"
    "bp_loading (release_owned_frame f bp) = bp_loading bp"
proof -
  note D = index_invD [OF ii] and S = index_inv_sets [OF ii]
  have f: "f < nframes bp" "bp_frame_page bp ! f = None" "f \<notin> set (bp_free_list bp)"
    using D(10) [of f] S(1) [of f] by simp_all
  have own: "(bp_owned bp)[f := False] ! g = False" if "g < nframes bp" for g
    using D(2) D(11) [OF that] f(1) by (simp add: nth_list_update)
  show "index_inv None (release_owned_frame f bp)"
    by (rule index_invI) (use D S f own in \<open>auto simp: release_owned_frame_def set_owned_def\<close>)
qed (simp_all add: release_owned_frame_def set_owned_def stutter_def)

section \<open>Fetching\<close>

text \<open>A frame can be found when fewer pages are pinned than there are frames.\<close>

definition pinned_pages :: "buffer_pool \<Rightarrow> page_id set" where
  "pinned_pages bp = {p. 0 < pool_pins bp p}"

lemma idle_frame:
  assumes ii: "index_inv own bp" and few: "card (pinned_pages bp) < nframes bp"
  shows "\<exists>f < nframes bp. fr_pin (frame_at bp f) = 0"
proof (rule ccontr)
  assume none: "\<not> ?thesis"
  note D = index_invD [OF ii]
  have busy: "\<exists>p. bp_frame_page bp ! f = Some p" if "f < nframes bp" for f
    using none D(9) [OF that] that by (cases "bp_frame_page bp ! f") auto
  let ?page = "\<lambda>f. the (bp_frame_page bp ! f)"
  have "inj_on ?page {..<nframes bp}"
  proof (rule inj_onI)
    fix f g assume fg: "f \<in> {..<nframes bp}" "g \<in> {..<nframes bp}" "?page f = ?page g"
    then obtain p where "bp_frame_page bp ! f = Some p" "bp_frame_page bp ! g = Some p"
      using busy by (metis lessThan_iff option.sel)
    then show "f = g" using D(4) [of p f] D(4) [of p g] fg by simp
  qed
  moreover have "?page ` {..<nframes bp} \<subseteq> pinned_pages bp"
  proof (rule image_subsetI)
    fix f assume "f \<in> {..<nframes bp}"
    then have f: "f < nframes bp" by simp
    obtain p where p: "bp_frame_page bp ! f = Some p" using busy [OF f] by blast
    then have "fmlookup (bp_page_table bp) p = Some f" using D(4) [of p f] f by simp
    then show "?page f \<in> pinned_pages bp" using none f p by (simp add: pinned_pages_def pool_pins_def)
  qed
  moreover have "finite (pinned_pages bp)"
    by (rule finite_subset [of _ "fset (fmdom (bp_page_table bp))"])
      (auto simp: pinned_pages_def pool_pins_def fmlookup_dom_iff split: option.splits)
  ultimately have "nframes bp \<le> card (pinned_pages bp)"
    using card_inj_on_le [of ?page "{..<nframes bp}"] by simp
  then show False using few by simp
qed

definition fetched :: "buffer_pool \<Rightarrow> page_id \<Rightarrow> frame_id \<Rightarrow> buffer_pool \<Rightarrow> bool" where
  "fetched bp p f bp' \<longleftrightarrow> pool_inv bp' \<and> stutter bp bp' \<and> fmlookup (bp_page_table bp') p = Some f \<and>
     pool_pins bp' = (pool_pins bp)(p := Suc (pool_pins bp p)) \<and> pins_stay bp bp'"

lemma stutter_loading [simp]:
  "stutter bp (bp'\<lparr>bp_loading := l\<rparr>) = stutter bp bp'" "stutter (bp\<lparr>bp_loading := l\<rparr>) bp' = stutter bp bp'"
  by (simp_all add: stutter_def)

lemma index_inv_loading [simp]: "index_inv own (bp\<lparr>bp_loading := l\<rparr>) = index_inv own bp"
  by (simp add: index_inv_def)

lemma uncached_pins: "fmlookup (bp_page_table bp) p = None \<Longrightarrow> pool_pins bp p = 0"
  by (simp add: pool_pins_def)

lemma view_of_disk:
  "p < next_page bp \<Longrightarrow> fmlookup (bp_page_table bp) p = None \<Longrightarrow>
     pool_view bp p = Some (stamp_checksum (page_at (bp_disk bp) p))"
  by (simp add: pool_view_def)

lemma fetch_cached:
  assumes "pool_inv bp" "fmlookup (bp_page_table bp) p = Some f"
  shows "fetch_frame p bp = (Inr f, pin_locked f bp)" "fetched bp p f (pin_locked f bp)"
proof -
  have ii: "index_inv None bp" and ci: "content_inv bp" and "bp_loading bp = {||}"
    using assms(1) by (simp_all add: pool_inv_def)
  then show "fetched bp p f (pin_locked f bp)"
    using pin_locked_effect [OF ii ci assms(2)] assms(2) by (simp add: fetched_def pool_inv_def pins_stay_refl)
  show "fetch_frame p bp = (Inr f, pin_locked f bp)"
    using index_invD(3) [OF ii] assms(2) by (simp add: fetch_frame_def pin_if_cached_def)
qed

lemma load_page_ok:
  assumes ii: "index_inv None bp" and ci: "content_inv bp" and pt: "fmlookup (bp_page_table bp) p = None"
    and p: "p < next_page bp" and few: "card (pinned_pages bp) < nframes bp"
  shows "\<exists>f bp'. load_page p bp = (Inr f, bp') \<and> index_inv None bp' \<and> content_inv bp' \<and> stutter bp bp' \<and>
    fmlookup (bp_page_table bp') p = Some f \<and> pool_pins bp' = (pool_pins bp)(p := 1) \<and> bp_loading bp' = bp_loading bp \<and>
    pins_stay bp bp'"
proof -
  obtain f bp1 where acq: "acquire_free_frame bp = (Inr f, bp1)" and A: "acquired bp f bp1"
    using idle_frame [OF ii few] acquire_frame [OF ii ci] by blast
  note A' = A [unfolded acquired_def]
  have p1: "p < next_page bp1" "fmlookup (bp_page_table bp1) p = None" "index_inv (Some f) bp1" "content_inv bp1"
    using A' p pt by (auto simp: stutter_def)
  have di: "disk_inv (bp_disk bp1)" and dc: "checksum_ok (page_at (bp_disk bp1) p)"
    "unat (page_lsn (page_at (bp_disk bp1) p)) < lm_durable_lsn (bp_log bp1)"
    using p1(1,4) by (simp_all add: content_inv_def storage_ok_def disk_content_def)
  have lsn: "unat (page_lsn (page_at (bp_disk bp1) p)) < lm_next_lsn (bp_log bp1)"
    using dc(2) p1(4) log_run_bounds(2) by (auto simp: content_inv_def storage_ok_def intro: less_le_trans)
  let ?data = "page_at (bp_disk bp1) p"
  let ?bp2 = "pin_locked f (installed f p ?data 0 bp1)"
  have "load_page p bp = (Inr f, ?bp2)"
    using read_page_eq [OF di p1(1) dc(1)] try_install_eq [OF p1(2), of f ?data None]
    by (simp add: load_page_def sbind_Inr [of acquire_free_frame bp, OF acq])
  moreover note I = install_effect [OF p1(3,4,2) length_page_at [OF di p1(1)] p1(1) lsn refl]
  moreover have "pool_view ?bp2 = pool_view bp1"
    using I(5) view_of_disk [OF p1(1,2)] by (simp add: fun_upd_idem)
  then have "stutter bp1 ?bp2" using I(7-11) by (simp add: stutter_def)
  then have "stutter bp ?bp2" using A' stutter_trans by blast
  moreover have "pins_stay bp ?bp2" using A' installed_table [of f p ?data 0 bp1] pt by (auto simp: pins_stay_def)
  ultimately show ?thesis using A' by auto
qed

lemma fetch_loads:
  assumes inv: "pool_inv bp" and pt: "fmlookup (bp_page_table bp) p = None"
    and p: "p < next_page bp" and few: "card (pinned_pages bp) < nframes bp"
  shows "\<exists>f bp'. fetch_frame p bp = (Inr f, bp') \<and> fetched bp p f bp'"
proof -
  have ii: "index_inv None bp" and ci: "content_inv bp" and ld: "bp_loading bp = {||}"
    using inv by (simp_all add: pool_inv_def)
  let ?bp0 = "bp\<lparr>bp_loading := {|p|}\<rparr>"
  obtain f bp1 where L: "load_page p ?bp0 = (Inr f, bp1)" "index_inv None bp1" "content_inv bp1" "stutter bp bp1"
    "fmlookup (bp_page_table bp1) p = Some f" "pool_pins bp1 = (pool_pins bp)(p := 1)" "bp_loading bp1 = {|p|}"
    "pins_stay bp bp1"
    using load_page_ok [of ?bp0 p] ii ci pt p few by (auto simp: pinned_pages_def pins_stay_def)
  have "fetch_frame p bp = (Inr f, bp1\<lparr>bp_loading := {||}\<rparr>)"
    using index_invD(3) [OF ii] pt ld L(1,7) by (simp add: fetch_frame_def pin_if_cached_def)
  moreover have "fetched bp p f (bp1\<lparr>bp_loading := {||}\<rparr>)"
    using L uncached_pins [OF pt] by (simp add: fetched_def pool_inv_def pins_stay_def)
  ultimately show ?thesis by blast
qed

lemma fetch_ok:
  assumes "pool_inv bp" "p < next_page bp" "0 < pool_pins bp p \<or> card (pinned_pages bp) < nframes bp"
  shows "\<exists>f bp'. fetch_frame p bp = (Inr f, bp') \<and> fetched bp p f bp'"
proof (cases "fmlookup (bp_page_table bp) p")
  case None
  then show ?thesis using fetch_loads [OF assms(1) None assms(2)] assms(3) uncached_pins [OF None] by auto
next
  case (Some f)
  then show ?thesis using fetch_cached [OF assms(1) Some] by blast
qed

lemma fetch_missing:
  assumes inv: "pool_inv bp" and p: "\<not> p < next_page bp" and few: "card (pinned_pages bp) < nframes bp"
  shows "\<exists>bp'. fetch_frame p bp = (Inl (PageNotFound p), bp') \<and> pool_inv bp' \<and> stutter bp bp' \<and>
    pool_pins bp' = pool_pins bp \<and> pins_stay bp bp'"
proof -
  have ii: "index_inv None bp" and ci: "content_inv bp" and ld: "bp_loading bp = {||}"
    using inv by (simp_all add: pool_inv_def)
  have pt: "fmlookup (bp_page_table bp) p = None"
  proof (rule ccontr)
    assume "fmlookup (bp_page_table bp) p \<noteq> None"
    then obtain f where "f < nframes bp" "bp_frame_page bp ! f = Some p"
      using index_invD(4) [OF ii] by auto
    then show False using ci p by (auto simp: content_inv_def frame_holds_def)
  qed
  let ?bp0 = "bp\<lparr>bp_loading := {|p|}\<rparr>"
  obtain f0 where "f0 < nframes ?bp0" "fr_pin (frame_at ?bp0 f0) = 0"
    using idle_frame [OF ii few] by auto
  then obtain f bp1 where acq: "acquire_free_frame ?bp0 = (Inr f, bp1)" and A: "acquired ?bp0 f bp1"
    using acquire_frame [of ?bp0 f0] ii ci by auto
  note A' = A [unfolded acquired_def]
  have rd: "read_page (bp_disk bp1) p = Inl (PageNotFound p)"
    using read_page_unchecked_eq [of "bp_disk bp1" p] A' p
    by (simp add: read_page_def content_inv_def storage_ok_def stutter_def)
  have "load_page p ?bp0 = (Inl (PageNotFound p), release_owned_frame f bp1)"
    using rd by (simp add: load_page_def sbind_Inr [of acquire_free_frame ?bp0, OF acq])
  then have "fetch_frame p bp = (Inl (PageNotFound p), (release_owned_frame f bp1)\<lparr>bp_loading := {||}\<rparr>)"
    using index_invD(3) [OF ii] pt ld A' by (simp add: fetch_frame_def pin_if_cached_def release_owned_frame_def set_owned_def)
  moreover have "pool_inv ((release_owned_frame f bp1)\<lparr>bp_loading := {||}\<rparr>)"
    using release_effect [of f bp1] A' by (simp add: pool_inv_def)
  moreover have "stutter bp (release_owned_frame f bp1)"
    using release_effect(3) [of f bp1] A' stutter_trans by auto
  moreover have "pins_stay bp ((release_owned_frame f bp1)\<lparr>bp_loading := {||}\<rparr>)"
    using A' by (simp add: pins_stay_def release_owned_frame_def set_owned_def)
  ultimately show ?thesis using release_effect(4) [of f bp1] A' by auto
qed

section \<open>Logging\<close>

text \<open>Room for \<open>k\<close> more records about one page each before the LSN space is used up.\<close>

definition RECORD_ROOM :: nat where "RECORD_ROOM = 16384"

definition log_room :: "nat \<Rightarrow> buffer_pool \<Rightarrow> bool" where
  "log_room k bp \<longleftrightarrow> lm_next_lsn (bp_log bp) + k * RECORD_ROOM < 2 ^ 64"

lemma log_room_mono: "log_room k bp \<Longrightarrow> j \<le> k \<Longrightarrow> log_room j bp"
  unfolding log_room_def by (meson add_le_mono1 add_left_mono le_less_trans mult_le_mono1)

lemma stutter_room: "stutter bp bp' \<Longrightarrow> log_room k bp' = log_room k bp"
  by (simp add: stutter_def log_same_def log_room_def)

lemma append_log_effect:
  assumes run: "log_run (bp_log bp) rs" and room: "log_room (Suc k) bp" and small: "record_len kind \<le> RECORD_ROOM"
  obtains lm' where "append_log txn kind bp = (Inr (of_nat (lm_next_lsn (bp_log bp))), bp\<lparr>bp_log := lm'\<rparr>)"
    "log_run lm' (rs @ [appended_record (bp_log bp) txn kind])"
    "lm_next_lsn lm' = lm_next_lsn (bp_log bp) + record_len kind"
    "lm_durable_lsn lm' = lm_durable_lsn (bp_log bp)" "log_room k (bp\<lparr>bp_log := lm'\<rparr>)"
    "lm_last_lsn lm' = fmupd txn (lm_next_lsn (bp_log bp)) (lm_last_lsn (bp_log bp))"
    "unat (of_nat (lm_next_lsn (bp_log bp)) :: lsn) = lm_next_lsn (bp_log bp)" "0 < lm_next_lsn (bp_log bp)"
proof -
  let ?lm = "bp_log bp"
  obtain l lm' where ap: "append_record ?lm txn kind = (l, lm')" by fastforce
  have len: "length (rec_bytes (appended_record ?lm txn kind)) = record_len kind"
    by (simp add: rec_bytes_def appended_record_def length_encode_record)
  have l: "l = of_nat (lm_next_lsn ?lm)" and lm': "lm_next_lsn lm' = lm_next_lsn ?lm + record_len kind"
    "lm_durable_lsn lm' = lm_durable_lsn ?lm" "lm_last_lsn lm' = fmupd txn (lm_next_lsn ?lm) (lm_last_lsn ?lm)"
    using ap len by (auto simp: append_record_eq)
  have nxt: "lm_next_lsn lm' < 2 ^ 64" "log_room k (bp\<lparr>bp_log := lm'\<rparr>)"
    using room small unfolding log_room_def lm' by (simp_all add: lm')
  have "length (encode_payload kind) + MIN_RECORD_LEN < 2 ^ 32"
    using small by (simp add: record_len_def RECORD_ROOM_def)
  then have "log_run lm' (rs @ [appended_record ?lm txn kind])" using log_run.append [OF run ap] nxt(1) by blast
  moreover have "append_log txn kind bp = (Inr (of_nat (lm_next_lsn ?lm)), bp\<lparr>bp_log := lm'\<rparr>)"
    by (simp add: append_log_def ap l)
  moreover have "unat (of_nat (lm_next_lsn ?lm) :: lsn) = lm_next_lsn ?lm"
    using log_run_bounds(3) [OF run] by (simp add: unat_of_nat_small)
  moreover have "0 < lm_next_lsn ?lm" using log_run_bounds(1,2) [OF run] by (simp add: wal_consts)
  ultimately show thesis using that [of lm'] lm' nxt(2) by blast
qed

lemma content_inv_append:
  assumes ci: "content_inv bp" and run: "\<exists>rs. log_run lm' rs"
    and lm': "lm_next_lsn (bp_log bp) \<le> lm_next_lsn lm'" "lm_durable_lsn lm' = lm_durable_lsn (bp_log bp)"
  shows "content_inv (bp\<lparr>bp_log := lm'\<rparr>)"
proof -
  have "frame_holds (bp\<lparr>bp_log := lm'\<rparr>) f p" if "f < nframes bp" "bp_frame_page bp ! f = Some p" for f p
  proof -
    have "frame_holds bp f p" using ci that by (simp add: content_inv_def)
    then show ?thesis by (rule frame_holds_cong) (use lm' in simp_all)
  qed
  then show ?thesis using ci run lm' by (simp add: content_inv_def storage_ok_def disk_content_def)
qed

lemma index_inv_storage [simp]:
  "index_inv own (bp\<lparr>bp_log := lm\<rparr>) = index_inv own bp" "index_inv own (bp\<lparr>bp_disk := dm\<rparr>) = index_inv own bp"
  by (simp_all add: index_inv_def)

lemma view_storage [simp]:
  "pool_view (bp\<lparr>bp_log := lm\<rparr>) = pool_view bp" "pool_pins (bp\<lparr>bp_log := lm\<rparr>) = pool_pins bp"
  "pool_pins (bp\<lparr>bp_disk := dm\<rparr>) = pool_pins bp"
  by (simp_all add: pool_view_def pool_pins_def fun_eq_iff cong: option.case_cong)

section \<open>Writing\<close>

text \<open>A write on the abstract page: the bytes, then the LSN, then the checksum.\<close>

definition write_bytes :: "bytes \<Rightarrow> nat \<Rightarrow> bytes \<Rightarrow> lsn \<Rightarrow> bytes" where
  "write_bytes v off bs l = stamp_checksum (set_page_lsn (splice v off bs) l)"

lemma stamp_cong: "length x = PAGE_SIZE \<Longrightarrow> length y = PAGE_SIZE \<Longrightarrow> drop 4 x = drop 4 y \<Longrightarrow> stamp_checksum x = stamp_checksum y"
  by (simp add: stamp_checksum_shape checksum_of_def CHECKSUM_END_def PAGE_SIZE_def)

lemma drop_eq_iff_nth:
  "length x = length y \<Longrightarrow> (drop k x = drop k y) = (\<forall>i. k \<le> i \<longrightarrow> i < length x \<longrightarrow> x ! i = y ! i)"
  by (auto simp: list_eq_iff_nth_eq) (metis add_diff_inverse_nat add_less_cancel_left add_less_imp_less_left diff_less_mono le_add_diff_inverse not_le)

lemma drop_4_stamp: "length d = PAGE_SIZE \<Longrightarrow> drop 4 (stamp_checksum d) = drop 4 d"
  by (simp add: stamp_checksum_shape PAGE_SIZE_def)

lemma length_page_write [simp]:
  "length d = PAGE_SIZE \<Longrightarrow> off + length bs \<le> PAGE_SIZE \<Longrightarrow> length (set_page_lsn (splice d off bs) l) = PAGE_SIZE"
  by (simp add: PAGE_SIZE_def)

lemma write_bytes_stamp:
  assumes "length d = PAGE_SIZE" "off + length bs \<le> PAGE_SIZE"
  shows "write_bytes (stamp_checksum d) off bs l = stamp_checksum (set_page_lsn (splice d off bs) l)"
  unfolding write_bytes_def
proof (rule stamp_cong)
  let ?s = "stamp_checksum d"
  have eq: "?s ! i = d ! i" if "4 \<le> i" "i < PAGE_SIZE" for i
    using that assms(1) by (simp add: nth_stamp_checksum)
  show "drop 4 (set_page_lsn (splice ?s off bs) l) = drop 4 (set_page_lsn (splice d off bs) l)"
    using assms eq
    by (subst drop_eq_iff_nth) (auto simp: set_page_lsn_def nth_splice PAGE_SIZE_def PAGE_LSN_OFFSET_def)
qed (use assms in simp_all)

lemma length_write_bytes [simp]:
  "length v = PAGE_SIZE \<Longrightarrow> off + length bs \<le> PAGE_SIZE \<Longrightarrow> length (write_bytes v off bs l) = PAGE_SIZE"
  by (simp add: write_bytes_def)

lemma page_lsn_write_bytes [simp]:
  "length v = PAGE_SIZE \<Longrightarrow> off + length bs \<le> PAGE_SIZE \<Longrightarrow> page_lsn (write_bytes v off bs l) = l"
  by (simp add: write_bytes_def) (simp add: PAGE_SIZE_def)

lemma pool_view_frame:
  assumes "pool_inv bp" "fmlookup (bp_page_table bp) p = Some f"
  shows "pool_view bp p = Some (stamp_checksum (frame_data bp f))" "length (frame_data bp f) = PAGE_SIZE"
    "f < nframes bp" "p < next_page bp" "bp_frame_page bp ! f = Some p"
proof -
  have "f < nframes bp \<and> bp_frame_page bp ! f = Some p"
    using index_invD(4) [of None bp p f] assms by (simp add: pool_inv_def)
  then show "f < nframes bp" "length (frame_data bp f) = PAGE_SIZE" "p < next_page bp" "bp_frame_page bp ! f = Some p"
    using assms(1) by (auto simp: pool_inv_def content_inv_def frame_holds_def)
  then show "pool_view bp p = Some (stamp_checksum (frame_data bp f))"
    using assms(2) by (simp add: pool_view_def)
qed

text \<open>A frame whose contents change, the pin count apart.\<close>

lemma set_frame_effect:
  assumes inv: "pool_inv bp" and pt: "fmlookup (bp_page_table bp) p = Some f"
    and fr: "fr_pin fr = fr_pin (frame_at bp f)" "pg_id (fr_page fr) = p" "length (pg_data (fr_page fr)) = PAGE_SIZE"
      "unat (page_lsn (pg_data (fr_page fr))) < lm_next_lsn (bp_log bp)" "fr_dirty fr \<noteq> 0"
  shows "pool_inv (set_frame f fr bp)" "pool_pins (set_frame f fr bp) = pool_pins bp"
    "pool_view (set_frame f fr bp) = (pool_view bp)(p \<mapsto> stamp_checksum (pg_data (fr_page fr)))"
    "frame_at (set_frame f fr bp) f = fr" "rec_lsn (set_frame f fr bp) = (rec_lsn bp)(p := fr_dirty fr)"
proof -
  let ?bp' = "set_frame f fr bp"
  have ii: "index_inv None bp" and ci: "content_inv bp" using inv by (simp_all add: pool_inv_def)
  note f = pool_view_frame(3-5) [OF inv pt] and D = index_invD [OF ii] and S = index_inv_sets [OF ii]
  have frs: "frame_at ?bp' g = (if g = f then fr else frame_at bp g)" for g
    using f(1) by (simp add: set_frame_def nth_list_update)
  then show "frame_at ?bp' f = fr" by simp
  have sel: "nframes ?bp' = nframes bp" "bp_frame_page ?bp' = bp_frame_page bp" "bp_page_table ?bp' = bp_page_table bp"
    "bp_disk ?bp' = bp_disk bp" "bp_log ?bp' = bp_log bp" "bp_loading ?bp' = bp_loading bp"
    "bp_owned ?bp' = bp_owned bp" "bp_evicting ?bp' = bp_evicting bp" "bp_free_list ?bp' = bp_free_list bp"
    "bp_replacer ?bp' = bp_replacer bp"
    by (simp_all add: set_frame_def)
  have pin: "fr_pin (frame_at ?bp' g) = fr_pin (frame_at bp g)" for g using fr(1) by (simp add: frs)
  have "index_inv None ?bp'"
    by (rule index_invI; unfold sel pin) (use D S in auto)
  moreover have "frame_holds ?bp' g q" if "g < nframes bp" "bp_frame_page bp ! g = Some q" for g q
  proof (cases "g = f")
    case True
    then show ?thesis using that f fr by (simp add: frame_holds_def frs sel)
  next
    case False
    have "frame_holds bp g q" using ci that by (simp add: content_inv_def)
    then show ?thesis by (rule frame_holds_cong) (use False in \<open>simp_all add: frs sel\<close>)
  qed
  then have "content_inv ?bp'"
    using ci by (simp add: content_inv_def storage_ok_def disk_content_def set_frame_def)
  ultimately show "pool_inv ?bp'" using inv by (simp add: pool_inv_def sel)
  have other: "g \<noteq> f" if "fmlookup (bp_page_table bp) q = Some g" "q \<noteq> p" for q g
    using D(4) [of q g] f(3) that by auto
  show "pool_pins ?bp' = pool_pins bp" by (simp add: pool_pins_def sel pin fun_eq_iff cong: option.case_cong)
  show "pool_view ?bp' = (pool_view bp)(p \<mapsto> stamp_checksum (pg_data (fr_page fr)))"
    using pt f(2) other by (auto simp: pool_view_def sel frs fun_eq_iff split: option.splits)
  show "rec_lsn ?bp' = (rec_lsn bp)(p := fr_dirty fr)"
    using pt other by (auto simp: rec_lsn_def sel frs fun_eq_iff split: option.splits)
qed

lemma store_bytes_effect:
  assumes inv: "pool_inv bp" and pt: "fmlookup (bp_page_table bp) p = Some f" and v: "pool_view bp p = Some v"
    and off: "off + length bs \<le> PAGE_SIZE" and l: "l \<noteq> 0" "unat l < lm_next_lsn (bp_log bp)"
  shows "pool_inv (store_bytes f off bs l bp)" "pool_pins (store_bytes f off bs l bp) = pool_pins bp"
    "pool_view (store_bytes f off bs l bp) = (pool_view bp)(p \<mapsto> write_bytes v off bs l)"
    "bp_page_table (store_bytes f off bs l bp) = bp_page_table bp" "bp_log (store_bytes f off bs l bp) = bp_log bp"
    "nframes (store_bytes f off bs l bp) = nframes bp" "bp_disk (store_bytes f off bs l bp) = bp_disk bp"
    "bp_dwb (store_bytes f off bs l bp) = bp_dwb bp"
    "rec_lsn (store_bytes f off bs l bp) = (rec_lsn bp)(p := if rec_lsn bp p = 0 then l else rec_lsn bp p)"
proof -
  let ?d = "frame_data bp f"
  let ?d' = "set_page_lsn (splice ?d off bs) l"
  let ?fr = "(frame_at bp f)\<lparr>fr_page := (fr_page (frame_at bp f))\<lparr>pg_data := ?d'\<rparr>,
    fr_dirty := (if fr_dirty (frame_at bp f) = 0 then l else fr_dirty (frame_at bp f))\<rparr>"
  have eq: "store_bytes f off bs l bp = set_frame f ?fr bp" by (simp add: store_bytes_def Let_def)
  have len: "length ?d = PAGE_SIZE" by (rule pool_view_frame(2) [OF inv pt])
  have "frame_holds bp f p"
    using inv pool_view_frame(3,5) [OF inv pt] by (simp add: pool_inv_def content_inv_def)
  moreover have "page_lsn ?d' = l"
    using len off page_lsn_set [of "splice ?d off bs" l] by (simp add: PAGE_SIZE_def)
  ultimately have fr: "fr_pin ?fr = fr_pin (frame_at bp f)" "pg_id (fr_page ?fr) = p" "length (pg_data (fr_page ?fr)) = PAGE_SIZE"
    "unat (page_lsn (pg_data (fr_page ?fr))) < lm_next_lsn (bp_log bp)" "fr_dirty ?fr \<noteq> 0"
    using len off l by (simp_all add: frame_holds_def)
  note E = set_frame_effect [OF inv pt fr]
  show "pool_inv (store_bytes f off bs l bp)" "pool_pins (store_bytes f off bs l bp) = pool_pins bp"
    using E(1,2) by (simp_all add: eq)
  show "rec_lsn (store_bytes f off bs l bp) = (rec_lsn bp)(p := if rec_lsn bp p = 0 then l else rec_lsn bp p)"
    using E(5) pt by (simp add: eq rec_lsn_def [of bp p])
  have "v = stamp_checksum ?d" using v pool_view_frame(1) [OF inv pt] by simp
  then show "pool_view (store_bytes f off bs l bp) = (pool_view bp)(p \<mapsto> write_bytes v off bs l)"
    using E(3) write_bytes_stamp [OF len off] by (simp add: eq)
qed (simp_all add: store_bytes_def set_frame_def Let_def)

lemma guard_write_effect:
  assumes inv: "pool_inv bp" and pt: "fmlookup (bp_page_table bp) p = Some f" and v: "pool_view bp p = Some v"
    and off: "off + length bs \<le> PAGE_SIZE" and room: "log_room (Suc k) bp" and run: "log_run (bp_log bp) rs"
  shows "\<exists>bp' before. guard_write f p txn off bs bp = (Inr (), bp') \<and> pool_inv bp' \<and> pool_pins bp' = pool_pins bp \<and>
    pool_view bp' = (pool_view bp)(p \<mapsto> write_bytes v off bs (of_nat (lm_next_lsn (bp_log bp)))) \<and>
    bp_page_table bp' = bp_page_table bp \<and> nframes bp' = nframes bp \<and> log_room k bp' \<and> bp_disk bp' = bp_disk bp \<and>
    log_run (bp_log bp') (rs @ [appended_record (bp_log bp) txn (Update p (of_nat off) before bs)]) \<and>
    (4 \<le> off \<longrightarrow> before = bytes_at v off (length bs)) \<and> length before = length bs \<and>
    rec_lsn bp' = (rec_lsn bp)(p := if rec_lsn bp p = 0 then of_nat (lm_next_lsn (bp_log bp)) else rec_lsn bp p) \<and>
    lm_durable_lsn (bp_log bp') = lm_durable_lsn (bp_log bp)"
proof -
  let ?d = "frame_data bp f"
  let ?before = "bytes_at ?d off (length bs)"
  let ?kind = "Update p (of_nat off) ?before bs"
  have len: "length ?d = PAGE_SIZE" by (rule pool_view_frame(2) [OF inv pt])
  have bl: "length ?before = length bs" using off len by simp
  have small: "record_len ?kind \<le> RECORD_ROOM"
    using off bl by (simp add: record_len_def MIN_RECORD_LEN_def RECORD_ROOM_def PAGE_SIZE_def)
  obtain lm' where A: "append_log txn ?kind bp = (Inr (of_nat (lm_next_lsn (bp_log bp))), bp\<lparr>bp_log := lm'\<rparr>)"
    "log_run lm' (rs @ [appended_record (bp_log bp) txn ?kind])"
    "lm_next_lsn lm' = lm_next_lsn (bp_log bp) + record_len ?kind"
    "lm_durable_lsn lm' = lm_durable_lsn (bp_log bp)" "log_room k (bp\<lparr>bp_log := lm'\<rparr>)"
    "unat (of_nat (lm_next_lsn (bp_log bp)) :: lsn) = lm_next_lsn (bp_log bp)" "0 < lm_next_lsn (bp_log bp)"
    using append_log_effect [OF run room small] by metis
  let ?bp1 = "bp\<lparr>bp_log := lm'\<rparr>" and ?l = "of_nat (lm_next_lsn (bp_log bp)) :: lsn"
  have inv1: "pool_inv ?bp1"
    using inv content_inv_append [of bp lm'] A(2-4) by (auto simp: pool_inv_def)
  have pt1: "fmlookup (bp_page_table ?bp1) p = Some f" "pool_view ?bp1 p = Some v" using pt v by simp_all
  have l: "?l \<noteq> 0" "unat ?l < lm_next_lsn (bp_log ?bp1)"
    using A(3,6,7) by (auto simp: record_len_def MIN_RECORD_LEN_def unat_eq_0 [symmetric])
  note W = store_bytes_effect [OF inv1 pt1 off l]
  have "guard_write f p txn off bs bp = (Inr (), store_bytes f off bs ?l ?bp1)"
    using len off A(1) by (simp add: guard_write_def slice_at_eq sbind_Inr)
  moreover have "?before = bytes_at v off (length bs)" if "4 \<le> off"
    using v pool_view_frame(1) [OF inv pt] that len off by (auto simp: bytes_at_stamp PAGE_SIZE_def)
  moreover have "log_room k (store_bytes f off bs ?l ?bp1)" using A(5) W(5) by (simp add: log_room_def)
  ultimately show ?thesis
    using W A(2,4) bl by (intro exI [of _ "store_bytes f off bs ?l ?bp1"] exI [of _ ?before]) simp
qed

lemma guard_write_out_of_range:
  assumes "pool_inv bp" "fmlookup (bp_page_table bp) p = Some f" "PAGE_SIZE < off + length bs"
  shows "guard_write f p txn off bs bp = (Inl Panicked, bp)"
  using pool_view_frame(2) [OF assms(1,2)] assms(3) by (simp add: guard_write_def slice_at_def)

section \<open>Allocation\<close>

lemma content_inv_allocate:
  assumes ci: "content_inv bp" and dm': "disk_inv dm'" "next_page bp \<le> dm_next_page_id dm'"
    and old: "\<And>q. q < next_page bp \<Longrightarrow> page_at dm' q = page_at (bp_disk bp) q"
    and new: "\<And>q. next_page bp \<le> q \<Longrightarrow> q < dm_next_page_id dm' \<Longrightarrow> page_at dm' q = replicate PAGE_SIZE 0"
  shows "content_inv (bp\<lparr>bp_disk := dm'\<rparr>)"
proof -
  have zero: "page_lsn (replicate PAGE_SIZE 0) = 0" "checksum_ok (replicate PAGE_SIZE 0)"
    by (simp_all add: page_lsn_def bytes_at_def page_consts le_u64_def checksum_ok_def list_all_iff) (simp add: numeral_eq_Suc)
  obtain rs where rs: "log_run (bp_log bp) rs" using ci by (auto simp: content_inv_def storage_ok_def)
  have dur: "0 < lm_durable_lsn (bp_log bp)" using log_run_bounds(1) [OF rs] by (simp add: wal_consts)
  have "frame_holds (bp\<lparr>bp_disk := dm'\<rparr>) f p" if "f < nframes bp" "bp_frame_page bp ! f = Some p" for f p
  proof -
    have h: "frame_holds bp f p" using ci that by (simp add: content_inv_def)
    then have "p < next_page bp" by (simp add: frame_holds_def)
    then show ?thesis by (intro frame_holds_cong [OF h]) (use dm' old in simp_all)
  qed
  moreover have "disk_content (bp\<lparr>bp_disk := dm'\<rparr>)"
    unfolding disk_content_def
  proof (intro allI impI)
    fix p assume "p < next_page (bp\<lparr>bp_disk := dm'\<rparr>)"
    then show "checksum_ok (page_at (bp_disk (bp\<lparr>bp_disk := dm'\<rparr>)) p) \<and>
      unat (page_lsn (page_at (bp_disk (bp\<lparr>bp_disk := dm'\<rparr>)) p)) < lm_durable_lsn (bp_log (bp\<lparr>bp_disk := dm'\<rparr>))"
      using ci old [of p] new [of p] zero dur
      by (cases "p < next_page bp") (simp_all add: content_inv_def disk_content_def not_less)
  qed
  ultimately show ?thesis using ci dm' by (simp add: content_inv_def storage_ok_def)
qed

abbreviation blank_page :: bytes where
  "blank_page \<equiv> stamp_checksum (replicate PAGE_SIZE 0)"

lemma view_allocate:
  assumes "index_inv None bp" "content_inv bp" "dm_next_page_id dm' = next_page bp + 1" "next_page bp \<noteq> - 1"
    and old: "\<And>q. q < next_page bp \<Longrightarrow> page_at dm' q = page_at (bp_disk bp) q"
    and new: "page_at dm' (next_page bp) = replicate PAGE_SIZE 0"
  shows "pool_view (bp\<lparr>bp_disk := dm'\<rparr>) = (pool_view bp)(next_page bp \<mapsto> blank_page)"
    "fmlookup (bp_page_table bp) (next_page bp) = None"
proof -
  let ?n = "next_page bp"
  have lt: "q < ?n + 1 \<longleftrightarrow> q < ?n \<or> q = ?n" for q
    using unat_plus_1 [OF assms(4)] by (auto simp: word_less_nat_alt word_unat_eq_iff)
  show none: "fmlookup (bp_page_table bp) ?n = None"
  proof (rule ccontr)
    assume "fmlookup (bp_page_table bp) ?n \<noteq> None"
    then obtain f where "f < nframes bp" "bp_frame_page bp ! f = Some ?n"
      using index_invD(4) [OF assms(1)] by auto
    then show False using assms(2) by (auto simp: content_inv_def frame_holds_def)
  qed
  show "pool_view (bp\<lparr>bp_disk := dm'\<rparr>) = (pool_view bp)(?n \<mapsto> blank_page)"
    using assms(3) old new none lt
    by (auto simp: pool_view_def fun_eq_iff split: option.splits)
qed

text \<open>The part of \<open>new_page\<close> before it looks for a frame.\<close>

definition page_added :: "buffer_pool \<Rightarrow> txn_id \<Rightarrow> nat \<Rightarrow> logged_record list \<Rightarrow> buffer_pool \<Rightarrow> bool" where
  "page_added bp txn k rs bp2 \<longleftrightarrow> pool_inv bp2 \<and> bp_page_table bp2 = bp_page_table bp \<and> bp_frames bp2 = bp_frames bp \<and>
     pool_view bp2 = (pool_view bp)(next_page bp \<mapsto> blank_page) \<and> pool_pins bp2 = pool_pins bp \<and>
     fmlookup (bp_page_table bp2) (next_page bp) = None \<and> next_page bp2 = next_page bp + 1 \<and> log_room k bp2 \<and>
     (\<forall>q < next_page bp. page_at (bp_disk bp2) q = page_at (bp_disk bp) q) \<and>
     page_at (bp_disk bp2) (next_page bp) = replicate PAGE_SIZE 0 \<and> rec_lsn bp2 = rec_lsn bp \<and>
     lm_next_lsn (bp_log bp) < lm_next_lsn (bp_log bp2) \<and> (of_nat (lm_next_lsn (bp_log bp)) :: lsn) \<noteq> 0 \<and>
     log_run (bp_log bp2) (rs @ [appended_record (bp_log bp) txn (AllocPage (next_page bp))])"

lemma add_page_effect:
  assumes inv: "pool_inv bp" and n: "next_page bp \<noteq> - 1" and room: "log_room (Suc k) bp" and run: "log_run (bp_log bp) rs"
  shows "\<exists>bp1 bp2. on_disk allocate_page bp = (Inr (next_page bp), bp1) \<and>
    append_log txn (AllocPage (next_page bp)) bp1 = (Inr (of_nat (lm_next_lsn (bp_log bp))), bp2) \<and> page_added bp txn k rs bp2"
proof -
  let ?p = "next_page bp"
  have ii: "index_inv None bp" and ci: "content_inv bp" and ld: "bp_loading bp = {||}"
    using inv by (simp_all add: pool_inv_def)
  have di: "disk_inv (bp_disk bp)" using ci by (simp add: content_inv_def storage_ok_def)
  obtain dm' where dm': "allocate_page (bp_disk bp) = (Inr ?p, dm')" "disk_inv dm'" "dm_next_page_id dm' = ?p + 1"
    "\<And>q. q < ?p \<Longrightarrow> page_at dm' q = page_at (bp_disk bp) q" "page_at dm' ?p = replicate PAGE_SIZE 0"
    using allocate_page_eq [OF di n] by metis
  let ?bp1 = "bp\<lparr>bp_disk := dm'\<rparr>"
  have lt: "?p < ?p + 1" using unat_plus_1 [OF n] by (simp add: word_less_nat_alt)
  have new: "page_at dm' q = replicate PAGE_SIZE 0" if "?p \<le> q" "q < dm_next_page_id dm'" for q
  proof -
    have "q = ?p" using that dm'(3) unat_plus_1 [OF n] by (simp add: word_le_nat_alt word_less_nat_alt word_unat_eq_iff)
    then show ?thesis using dm'(5) by simp
  qed
  have ci1: "content_inv ?bp1"
    by (rule content_inv_allocate [OF ci dm'(2) _ dm'(4) new]) (use dm'(3) lt in simp_all)
  note V = view_allocate [OF ii ci dm'(3) n dm'(4,5)]
  have small: "record_len (AllocPage ?p) \<le> RECORD_ROOM"
    by (simp add: record_len_def MIN_RECORD_LEN_def RECORD_ROOM_def)
  have run1: "log_run (bp_log ?bp1) rs" and room1: "log_room (Suc k) ?bp1"
    using run room by (simp_all add: log_room_def)
  obtain lm' where A: "append_log txn (AllocPage ?p) ?bp1 = (Inr (of_nat (lm_next_lsn (bp_log bp))), ?bp1\<lparr>bp_log := lm'\<rparr>)"
    "log_run lm' (rs @ [appended_record (bp_log bp) txn (AllocPage ?p)])"
    "lm_next_lsn lm' = lm_next_lsn (bp_log bp) + record_len (AllocPage ?p)"
    "lm_durable_lsn lm' = lm_durable_lsn (bp_log bp)" "log_room k (?bp1\<lparr>bp_log := lm'\<rparr>)"
    "unat (of_nat (lm_next_lsn (bp_log bp)) :: lsn) = lm_next_lsn (bp_log bp)" "0 < lm_next_lsn (bp_log bp)"
    using append_log_effect [OF run1 room1 small] by auto
  let ?bp2 = "?bp1\<lparr>bp_log := lm'\<rparr>" and ?l = "of_nat (lm_next_lsn (bp_log bp)) :: lsn"
  have ci2: "content_inv ?bp2" using content_inv_append [OF ci1, of lm'] A(2-4) by auto
  have "page_added bp txn k rs ?bp2"
    using ii ci2 ld V A(2,3,5,6,7) dm'(3-5)
    by (auto simp: page_added_def pool_inv_def pool_pins_def record_len_def MIN_RECORD_LEN_def unat_eq_0 [symmetric])
  then show ?thesis using dm'(1) A(1) by (auto simp: on_disk_def)
qed

lemma new_page_effect:
  assumes inv: "pool_inv bp" and n: "next_page bp \<noteq> - 1" and few: "card (pinned_pages bp) < nframes bp"
    and room: "log_room (Suc k) bp" and run: "log_run (bp_log bp) rs"
  shows "\<exists>f bp'. new_page txn bp = (Inr (next_page bp, f), bp') \<and> pool_inv bp' \<and>
    pool_view bp' = (pool_view bp)(next_page bp \<mapsto> blank_page) \<and>
    pool_pins bp' = (pool_pins bp)(next_page bp := 1) \<and> fmlookup (bp_page_table bp') (next_page bp) = Some f \<and>
    nframes bp' = nframes bp \<and> log_room k bp' \<and> next_page bp' = next_page bp + 1 \<and>
    log_run (bp_log bp') (rs @ [appended_record (bp_log bp) txn (AllocPage (next_page bp))]) \<and>
    (\<forall>q < next_page bp. page_at (bp_disk bp') q = page_at (bp_disk bp) q \<or> pool_view bp q = Some (page_at (bp_disk bp') q)) \<and>
    (page_at (bp_disk bp') (next_page bp) = replicate PAGE_SIZE 0 \<or> page_at (bp_disk bp') (next_page bp) = blank_page) \<and>
    (\<forall>q. q \<noteq> next_page bp \<longrightarrow> rec_lsn bp' q = rec_lsn bp q \<or> rec_lsn bp' q = 0) \<and>
    rec_lsn bp' (next_page bp) = of_nat (lm_next_lsn (bp_log bp)) \<and> pins_stay bp bp'"
proof -
  let ?p = "next_page bp" and ?l = "of_nat (lm_next_lsn (bp_log bp)) :: lsn"
  obtain bp1 bp2 where a: "on_disk allocate_page bp = (Inr ?p, bp1)" "append_log txn (AllocPage ?p) bp1 = (Inr ?l, bp2)"
    and B: "page_added bp txn k rs bp2"
    using add_page_effect [OF inv n room run, of txn] by blast
  note B' = B [unfolded page_added_def]
  have ii2: "index_inv None bp2" and ci2: "content_inv bp2" and ld2: "bp_loading bp2 = {||}"
    using B' by (simp_all add: pool_inv_def)
  have few2: "card (pinned_pages bp2) < nframes bp2" using few B' by (simp add: pinned_pages_def)
  obtain f bp3 where acq: "acquire_free_frame bp2 = (Inr f, bp3)" and Q: "acquired bp2 f bp3"
    using idle_frame [OF ii2 few2] acquire_frame [OF ii2 ci2] by blast
  note Q' = Q [unfolded acquired_def]
  have lt: "?p < ?p + 1" using unat_plus_1 [OF n] by (simp add: word_less_nat_alt)
  have q: "index_inv (Some f) bp3" "content_inv bp3" "fmlookup (bp_page_table bp3) ?p = None" "?p < next_page bp3"
    "next_page bp3 = ?p + 1" "lm_next_lsn (bp_log bp3) = lm_next_lsn (bp_log bp2)"
    using Q' B' lt by (auto simp: stutter_def log_same_def)
  have z: "length (replicate PAGE_SIZE (0::byte)) = PAGE_SIZE" "unat (page_lsn (replicate PAGE_SIZE 0)) < lm_next_lsn (bp_log bp3)"
    "?l \<noteq> 0"
    using B' q(6) by (simp_all add: page_lsn_def bytes_at_def page_consts le_u64_def unat_eq_0 [symmetric])
      (simp add: numeral_eq_Suc)
  note I = install_effect [OF q(1-3) z(1) q(4) z(2), of ?l]
  let ?bp4 = "pin_locked f (installed f ?p (replicate PAGE_SIZE 0) ?l bp3)"
  have I': "index_inv None ?bp4" "content_inv ?bp4" "fmlookup (bp_page_table ?bp4) ?p = Some f"
    "pool_pins ?bp4 = (pool_pins bp3)(?p := 1)" "pool_view ?bp4 = (pool_view bp3)(?p \<mapsto> blank_page)"
    "bp_loading ?bp4 = bp_loading bp3" "nframes ?bp4 = nframes bp3" "bp_disk ?bp4 = bp_disk bp3" "bp_log ?bp4 = bp_log bp3"
    "rec_lsn ?bp4 = (rec_lsn bp3)(?p := ?l)"
    using I z(3) by blast+
  have "new_page txn bp = (Inr (?p, f), ?bp4)"
    using a acq try_install_eq [OF q(3), of f "replicate PAGE_SIZE 0" "Some ?l"]
    by (simp add: new_page_def sbind_def page_new_def)
  moreover have "pool_view bp3 = (pool_view bp)(?p \<mapsto> blank_page)" "pool_pins bp3 = pool_pins bp"
    using Q' B' by (simp_all add: stutter_def)
  moreover have "log_room k ?bp4" using B' q(6) I'(9) by (simp add: log_room_def)
  moreover have "log_run (bp_log ?bp4) (rs @ [appended_record (bp_log bp) txn (AllocPage ?p)])"
    using B' Q' I'(9) by (simp add: stutter_def log_same_def)
  moreover have "page_at (bp_disk bp3) q = page_at (bp_disk bp) q \<or> pool_view bp q = Some (page_at (bp_disk bp3) q)"
    if "q < ?p" for q
  proof -
    have "q < next_page bp2" using that lt B' by (simp add: order.strict_trans)
    then have "page_at (bp_disk bp3) q = page_at (bp_disk bp2) q \<or> pool_view bp2 q = Some (page_at (bp_disk bp3) q)"
      using Q' by (simp add: stutter_def)
    then show ?thesis using B' that by (auto split: if_splits)
  qed
  moreover have "page_at (bp_disk bp3) ?p = replicate PAGE_SIZE 0 \<or> page_at (bp_disk bp3) ?p = blank_page"
    using Q' B' lt by (auto simp: stutter_def)
  moreover have "rec_lsn bp3 q = rec_lsn bp q \<or> rec_lsn bp3 q = 0" for q
    using Q' B' by (simp add: stutter_def)
  moreover have "pins_stay bp ?bp4" using Q' B' by (auto simp: pins_stay_def)
  ultimately show ?thesis
    using I' Q' q(5) ld2 B' by (simp add: pool_inv_def stutter_def)
qed

section \<open>The interface to the layers above\<close>

text \<open>A store of pages: what is in each page, which pages are pinned, and how many can be. The layers
  above fetch a page, read and write it through the guard, and drop the guard.\<close>

locale page_store =
  fixes inv :: "'s \<Rightarrow> bool"
    and view :: "'s \<Rightarrow> page_id \<Rightarrow> bytes option"
    and pins :: "'s \<Rightarrow> page_id \<Rightarrow> nat"
    and capacity :: "'s \<Rightarrow> nat"
    and room :: "nat \<Rightarrow> 's \<Rightarrow> bool"
    and fresh :: "'s \<Rightarrow> page_id"
    and holds :: "'s \<Rightarrow> 'f \<Rightarrow> page_id \<Rightarrow> bool"
    and data :: "'s \<Rightarrow> 'f \<Rightarrow> bytes"
    and fetch :: "page_id \<Rightarrow> ('s, storage_error, 'f) sresult"
    and unpin :: "'f \<Rightarrow> 's \<Rightarrow> 's"
    and put :: "'f \<Rightarrow> page_id \<Rightarrow> txn_id \<Rightarrow> nat \<Rightarrow> bytes \<Rightarrow> ('s, storage_error, unit) sresult"
    and alloc :: "txn_id \<Rightarrow> ('s, storage_error, page_id \<times> 'f) sresult"
  assumes data_view: "inv s \<Longrightarrow> holds s f p \<Longrightarrow> view s p = Some (stamp_checksum (data s f)) \<and> length (data s f) = PAGE_SIZE"
    and view_length: "inv s \<Longrightarrow> view s p = Some v \<Longrightarrow> length v = PAGE_SIZE \<and> stamp_checksum v = v"
    and view_range: "inv s \<Longrightarrow> view s p \<noteq> None \<longleftrightarrow> p < fresh s"
    and room_mono: "room k s \<Longrightarrow> j \<le> k \<Longrightarrow> room j s"
    and fetch_present: "inv s \<Longrightarrow> view s p \<noteq> None \<Longrightarrow> card {q. 0 < pins s q} < capacity s \<Longrightarrow>
      \<exists>f s'. fetch p s = (Inr f, s') \<and> inv s' \<and> holds s' f p \<and> pins s' = (pins s)(p := Suc (pins s p)) \<and>
        view s' = view s \<and> capacity s' = capacity s \<and> fresh s' = fresh s \<and> (\<forall>k. room k s \<longrightarrow> room k s') \<and>
        (\<forall>g q. holds s g q \<longrightarrow> 0 < pins s q \<longrightarrow> holds s' g q)"
    and fetch_absent: "inv s \<Longrightarrow> view s p = None \<Longrightarrow> card {q. 0 < pins s q} < capacity s \<Longrightarrow>
      \<exists>s'. fetch p s = (Inl (PageNotFound p), s') \<and> inv s' \<and> pins s' = pins s \<and> view s' = view s \<and>
        capacity s' = capacity s \<and> fresh s' = fresh s \<and> (\<forall>k. room k s \<longrightarrow> room k s')"
    and unpin_ok: "inv s \<Longrightarrow> holds s f p \<Longrightarrow> 0 < pins s p \<Longrightarrow>
      inv (unpin f s) \<and> pins (unpin f s) = (pins s)(p := pins s p - 1) \<and> view (unpin f s) = view s \<and>
        capacity (unpin f s) = capacity s \<and> fresh (unpin f s) = fresh s \<and> (\<forall>k. room k s \<longrightarrow> room k (unpin f s)) \<and>
        (\<forall>g q. holds s g q \<longrightarrow> holds (unpin f s) g q)"
    and write_ok: "inv s \<Longrightarrow> holds s f p \<Longrightarrow> view s p = Some v \<Longrightarrow> off + length bs \<le> PAGE_SIZE \<Longrightarrow> room (Suc k) s \<Longrightarrow>
      \<exists>l s'. put f p txn off bs s = (Inr (), s') \<and> inv s' \<and> (\<forall>g q. holds s g q \<longrightarrow> holds s' g q) \<and> pins s' = pins s \<and>
        view s' = (view s)(p \<mapsto> write_bytes v off bs l) \<and> capacity s' = capacity s \<and> fresh s' = fresh s \<and> room k s'"
    and alloc_ok: "inv s \<Longrightarrow> card {q. 0 < pins s q} < capacity s \<Longrightarrow> room (Suc k) s \<Longrightarrow> fresh s \<noteq> - 1 \<Longrightarrow>
      \<exists>f s'. alloc txn s = (Inr (fresh s, f), s') \<and> inv s' \<and> holds s' f (fresh s) \<and> pins s' = (pins s)(fresh s := 1) \<and>
        view s' = (view s)(fresh s \<mapsto> blank_page) \<and> capacity s' = capacity s \<and> fresh s' = fresh s + 1 \<and> room k s' \<and>
        (\<forall>g q. holds s g q \<longrightarrow> 0 < pins s q \<longrightarrow> holds s' g q)"
begin

definition quiet :: "'s \<Rightarrow> bool" where
  "quiet s \<longleftrightarrow> inv s \<and> pins s = (\<lambda>_. 0) \<and> 0 < capacity s"

definition session :: "page_id \<Rightarrow> ('f \<Rightarrow> ('s, storage_error, 'a) sresult) \<Rightarrow> ('s, storage_error, 'a) sresult" where
  "session p body = sbind (fetch p) (\<lambda>f s. let (r, s') = body f s in (r, unpin f s'))"

text \<open>While a guard on page \<open>p\<close> is held and nothing else is pinned.\<close>

definition guarded :: "page_id \<Rightarrow> 'f \<Rightarrow> 's \<Rightarrow> bool" where
  "guarded p f s \<longleftrightarrow> inv s \<and> holds s f p \<and> pins s = (\<lambda>_. 0)(p := 1) \<and> 0 < capacity s"

lemma session_ok:
  assumes "quiet s" "view s p \<noteq> None"
    and body: "\<And>f s1. guarded p f s1 \<Longrightarrow> view s1 = view s \<Longrightarrow> fresh s1 = fresh s \<Longrightarrow> \<forall>k. room k s \<longrightarrow> room k s1 \<Longrightarrow>
      \<exists>r s2. body f s1 = (r, s2) \<and> guarded p f s2 \<and> Q r s2"
    and stable: "\<And>r s2 f. guarded p f s2 \<Longrightarrow> Q r s2 \<Longrightarrow> view (unpin f s2) = view s2 \<Longrightarrow> fresh (unpin f s2) = fresh s2 \<Longrightarrow>
      \<forall>k. room k s2 \<longrightarrow> room k (unpin f s2) \<Longrightarrow> Q r (unpin f s2)"
  shows "\<exists>r s'. session p body s = (r, s') \<and> quiet s' \<and> Q r s'"
proof -
  have q: "inv s" "pins s = (\<lambda>_. 0)" "0 < capacity s" using assms(1) by (simp_all add: quiet_def)
  then have few: "card {q. 0 < pins s q} < capacity s" by simp
  obtain f s1 where f: "fetch p s = (Inr f, s1)" "inv s1" "holds s1 f p" "pins s1 = (pins s)(p := Suc (pins s p))"
    "view s1 = view s" "capacity s1 = capacity s" "fresh s1 = fresh s" "\<forall>k. room k s \<longrightarrow> room k s1"
    using fetch_present [OF q(1) assms(2) few] by blast
  have "guarded p f s1" using f q by (simp add: guarded_def)
  then obtain r s2 where b: "body f s1 = (r, s2)" "guarded p f s2" "Q r s2" using body f(5,7,8) by blast
  have g: "inv s2" "holds s2 f p" "pins s2 = (\<lambda>_. 0)(p := 1)" "0 < capacity s2" using b(2) by (simp_all add: guarded_def)
  then have u: "inv (unpin f s2)" "pins (unpin f s2) = (pins s2)(p := pins s2 p - 1)" "view (unpin f s2) = view s2"
    "capacity (unpin f s2) = capacity s2" "fresh (unpin f s2) = fresh s2" "\<forall>k. room k s2 \<longrightarrow> room k (unpin f s2)"
    using unpin_ok [OF g(1,2)] by simp_all
  have "session p body s = (r, unpin f s2)" by (simp add: session_def sbind_Inr [of "fetch p" s, OF f(1)] b(1))
  moreover have "quiet (unpin f s2)" using u g by (simp add: quiet_def fun_eq_iff)
  moreover have "Q r (unpin f s2)" by (rule stable [OF b(2,3) u(3,5,6)])
  ultimately show ?thesis by blast
qed

lemma session_missing:
  assumes "quiet s" "view s p = None"
  shows "\<exists>s'. session p body s = (Inl (PageNotFound p), s') \<and> quiet s' \<and> view s' = view s \<and> fresh s' = fresh s \<and>
    (\<forall>k. room k s \<longrightarrow> room k s')"
proof -
  have q: "inv s" "pins s = (\<lambda>_. 0)" "0 < capacity s" using assms(1) by (simp_all add: quiet_def)
  then obtain s' where f: "fetch p s = (Inl (PageNotFound p), s')" "inv s'" "pins s' = pins s" "view s' = view s"
    "capacity s' = capacity s" "fresh s' = fresh s" "\<forall>k. room k s \<longrightarrow> room k s'"
    using fetch_absent [OF q(1) assms(2)] by auto
  then have "session p body s = (Inl (PageNotFound p), s')"
    by (simp add: session_def sbind_Inl [of "fetch p" s, OF f(1)])
  then show ?thesis using f q by (auto simp: quiet_def)
qed

text \<open>Reading under a guard leaves every page as it is.\<close>

lemma session_read:
  assumes "quiet s" "view s p = Some v"
    and g: "\<And>f s1. stamp_checksum (data s1 f) = v \<Longrightarrow> length (data s1 f) = PAGE_SIZE \<Longrightarrow> g f s1 = x"
  shows "\<exists>s'. session p (\<lambda>f. sget (g f)) s = (Inr x, s') \<and> quiet s' \<and> view s' = view s \<and> fresh s' = fresh s \<and>
    (\<forall>k. room k s \<longrightarrow> room k s')"
proof -
  have "\<exists>r s'. session p (\<lambda>f. sget (g f)) s = (r, s') \<and> quiet s' \<and>
      (r = Inr x \<and> view s' = view s \<and> fresh s' = fresh s \<and> (\<forall>k. room k s \<longrightarrow> room k s'))"
  proof (rule session_ok [OF assms(1)])
    show "view s p \<noteq> None" using assms(2) by simp
    fix f s1
    assume a: "guarded p f s1" "view s1 = view s" "fresh s1 = fresh s" "\<forall>k. room k s \<longrightarrow> room k s1"
    have "stamp_checksum (data s1 f) = v" "length (data s1 f) = PAGE_SIZE"
      using data_view [of s1 f p] a(1,2) assms(2) by (simp_all add: guarded_def)
    then show "\<exists>r s2. sget (g f) s1 = (r, s2) \<and> guarded p f s2 \<and>
        r = Inr x \<and> view s2 = view s \<and> fresh s2 = fresh s \<and> (\<forall>k. room k s \<longrightarrow> room k s2)"
      using g a by simp
  qed auto
  then show ?thesis by blast
qed

lemma guarded_write:
  assumes "guarded p f s" "view s p = Some v" "off + length bs \<le> PAGE_SIZE" "room (Suc k) s"
  shows "\<exists>l s'. put f p txn off bs s = (Inr (), s') \<and> guarded p f s' \<and>
    view s' = (view s)(p \<mapsto> write_bytes v off bs l) \<and> fresh s' = fresh s \<and> room k s'"
proof -
  obtain l s' where w: "put f p txn off bs s = (Inr (), s')" "inv s'" "\<forall>g q. holds s g q \<longrightarrow> holds s' g q"
    "pins s' = pins s" "view s' = (view s)(p \<mapsto> write_bytes v off bs l)" "capacity s' = capacity s"
    "fresh s' = fresh s" "room k s'"
    using write_ok [OF _ _ assms(2-4), of f txn] assms(1) by (auto simp: guarded_def)
  then show ?thesis using assms(1) by (auto simp: guarded_def)
qed

lemma session_effect:
  assumes "quiet s" "view s p \<noteq> None"
    and body: "\<And>f s1. guarded p f s1 \<Longrightarrow> view s1 = view s \<Longrightarrow> fresh s1 = fresh s \<Longrightarrow> \<forall>k. room k s \<longrightarrow> room k s1 \<Longrightarrow>
      \<exists>s2. body f s1 = (r, s2) \<and> guarded p f s2 \<and> P (view s2) \<and> fresh s2 = n \<and> room k s2"
  shows "\<exists>s'. session p body s = (r, s') \<and> quiet s' \<and> P (view s') \<and> fresh s' = n \<and> room k s'"
proof -
  have "\<exists>r' s'. session p body s = (r', s') \<and> quiet s' \<and> (r' = r \<and> P (view s') \<and> fresh s' = n \<and> room k s')"
    by (rule session_ok [OF assms(1,2)]) (use body in auto)
  then show ?thesis by blast
qed

lemma guarded_unpin:
  assumes "guarded p f s"
  shows "quiet (unpin f s)" "view (unpin f s) = view s" "fresh (unpin f s) = fresh s" "room k s \<Longrightarrow> room k (unpin f s)"
  using unpin_ok [of s f p] assms by (auto simp: guarded_def quiet_def fun_eq_iff)

lemma alloc_effect:
  assumes "quiet s" "room (Suc k) s" "fresh s \<noteq> - 1"
  shows "\<exists>f s1. alloc txn s = (Inr (fresh s, f), s1) \<and> guarded (fresh s) f s1 \<and>
    view s1 = (view s)(fresh s \<mapsto> blank_page) \<and> fresh s1 = fresh s + 1 \<and> room k s1"
proof -
  have "inv s" "card {q. 0 < pins s q} < capacity s" using assms(1) by (simp_all add: quiet_def)
  then show ?thesis using alloc_ok [OF _ _ assms(2,3), of txn] assms(1) by (auto simp: guarded_def quiet_def)
qed

text \<open>Several guards held at once, each on a page of its own.\<close>

definition held :: "(page_id \<times> 'f) list \<Rightarrow> 's \<Rightarrow> bool" where
  "held gs s \<longleftrightarrow> inv s \<and> distinct (map fst gs) \<and> (\<forall>p f. (p, f) \<in> set gs \<longrightarrow> holds s f p) \<and>
     pins s = (\<lambda>p. if p \<in> fst ` set gs then 1 else 0)"

lemma heldD: "held gs s \<Longrightarrow> (p, f) \<in> set gs \<Longrightarrow> inv s \<and> holds s f p \<and> 0 < pins s p"
  by (force simp: held_def)

definition same_pages :: "'s \<Rightarrow> 's \<Rightarrow> bool" where
  "same_pages s s' \<longleftrightarrow> view s' = view s \<and> capacity s' = capacity s \<and> fresh s' = fresh s \<and> (\<forall>k. room k s \<longrightarrow> room k s')"

lemma same_pages_trans: "same_pages s s1 \<Longrightarrow> same_pages s1 s2 \<Longrightarrow> same_pages s s2"
  by (simp add: same_pages_def)

lemma quiet_held: "quiet s \<longleftrightarrow> held [] s \<and> 0 < capacity s"
  by (auto simp: quiet_def held_def)

lemma held_few:
  assumes "held gs s" "length gs < capacity s"
  shows "card {q. 0 < pins s q} < capacity s"
proof -
  have "{q. 0 < pins s q} = set (map fst gs)" using assms(1) by (auto simp: held_def)
  then show ?thesis using assms(2) card_length [of "map fst gs"] by simp
qed

lemma held_fetch:
  assumes h: "held gs s" and p: "view s p \<noteq> None" "p \<notin> fst ` set gs" and few: "length gs < capacity s"
  shows "\<exists>f s'. fetch p s = (Inr f, s') \<and> held ((p, f) # gs) s' \<and> same_pages s s'"
proof -
  have i: "inv s" using h by (simp add: held_def)
  obtain f s' where f: "fetch p s = (Inr f, s')" "inv s'" "holds s' f p" "pins s' = (pins s)(p := Suc (pins s p))"
    "view s' = view s" "capacity s' = capacity s" "fresh s' = fresh s" "\<forall>k. room k s \<longrightarrow> room k s'"
    "\<forall>g q. holds s g q \<longrightarrow> 0 < pins s q \<longrightarrow> holds s' g q"
    using fetch_present [OF i p(1) held_few [OF h few]] by blast
  have "holds s' g q" if "(q, g) \<in> set gs" for q g
    using heldD [OF h that] f(9) by blast
  then have "held ((p, f) # gs) s'"
    using h f(2-4) p(2) by (auto simp: held_def fun_eq_iff)
  then show ?thesis using f by (auto simp: same_pages_def)
qed

lemma held_missing:
  assumes h: "held gs s" and p: "view s p = None" and few: "length gs < capacity s"
  shows "\<exists>s'. fetch p s = (Inl (PageNotFound p), s')"
  using fetch_absent [OF _ p held_few [OF h few]] h by (auto simp: held_def)

lemma held_unpin:
  assumes h: "held (xs @ (p, f) # ys) s"
  shows "held (xs @ ys) (unpin f s)" "same_pages s (unpin f s)"
proof -
  have u: "inv (unpin f s)" "pins (unpin f s) = (pins s)(p := pins s p - 1)" "view (unpin f s) = view s"
    "capacity (unpin f s) = capacity s" "fresh (unpin f s) = fresh s" "\<forall>k. room k s \<longrightarrow> room k (unpin f s)"
    "\<forall>g q. holds s g q \<longrightarrow> holds (unpin f s) g q"
    using unpin_ok [of s f p] heldD [OF h, of p f] by auto
  have "holds (unpin f s) g q" if "(q, g) \<in> set (xs @ ys)" for q g
    using heldD [OF h, of q g] that u(7) by auto
  then show "held (xs @ ys) (unpin f s)" using h u(1,2) by (auto simp: held_def fun_eq_iff)
  show "same_pages s (unpin f s)" using u by (simp add: same_pages_def)
qed

lemma held_data:
  assumes "held gs s" "(p, f) \<in> set gs"
  shows "view s p = Some (stamp_checksum (data s f))" "length (data s f) = PAGE_SIZE"
  using data_view [of s f p] heldD [OF assms] by auto

lemma held_write:
  assumes h: "held gs s" "(p, f) \<in> set gs" and v: "view s p = Some v" and w: "off + length bs \<le> PAGE_SIZE" "room (Suc k) s"
  shows "\<exists>l s'. put f p txn off bs s = (Inr (), s') \<and> held gs s' \<and> view s' = (view s)(p \<mapsto> write_bytes v off bs l) \<and>
    capacity s' = capacity s \<and> fresh s' = fresh s \<and> room k s'"
proof -
  obtain l s' where w: "put f p txn off bs s = (Inr (), s')" "inv s'" "\<forall>g q. holds s g q \<longrightarrow> holds s' g q"
    "pins s' = pins s" "view s' = (view s)(p \<mapsto> write_bytes v off bs l)" "capacity s' = capacity s"
    "fresh s' = fresh s" "room k s'"
    using write_ok [OF _ _ v w, of f txn] heldD [OF h] by blast
  then show ?thesis using h(1) by (auto simp: held_def)
qed

lemma held_alloc:
  assumes h: "held gs s" and few: "length gs < capacity s" and r: "room (Suc k) s" "fresh s \<noteq> - 1"
  shows "\<exists>f s'. alloc txn s = (Inr (fresh s, f), s') \<and> held ((fresh s, f) # gs) s' \<and>
    view s' = (view s)(fresh s \<mapsto> blank_page) \<and> capacity s' = capacity s \<and> fresh s' = fresh s + 1 \<and> room k s'"
proof -
  have i: "inv s" using h by (simp add: held_def)
  obtain f s' where a: "alloc txn s = (Inr (fresh s, f), s')" "inv s'" "holds s' f (fresh s)" "pins s' = (pins s)(fresh s := 1)"
    "view s' = (view s)(fresh s \<mapsto> blank_page)" "capacity s' = capacity s" "fresh s' = fresh s + 1" "room k s'"
    "\<forall>g q. holds s g q \<longrightarrow> 0 < pins s q \<longrightarrow> holds s' g q"
    using alloc_ok [OF i held_few [OF h few] r, of txn] by blast
  have "fresh s \<notin> fst ` set gs"
    using held_data(1) [OF h, of "fresh s"] view_range [OF i, of "fresh s"] by force
  moreover have "holds s' g q" if "(q, g) \<in> set gs" for q g
    using heldD [OF h that] a(9) by blast
  ultimately have "held ((fresh s, f) # gs) s'"
    using h a(2-4) by (auto simp: held_def fun_eq_iff)
  then show ?thesis using a by blast
qed

end

text \<open>No page is pinned and the pool has a frame to work with.\<close>

definition pool_quiet :: "buffer_pool \<Rightarrow> bool" where
  "pool_quiet bp \<longleftrightarrow> pool_inv bp \<and> pool_pins bp = (\<lambda>_. 0) \<and> 0 < nframes bp"

abbreviation in_frame :: "buffer_pool \<Rightarrow> frame_id \<Rightarrow> page_id \<Rightarrow> bool" where
  "in_frame bp f p \<equiv> fmlookup (bp_page_table bp) p = Some f"

lemma pool_inv_run: "pool_inv bp \<Longrightarrow> \<exists>rs. log_run (bp_log bp) rs"
  by (simp add: pool_inv_def content_inv_def storage_ok_def)

lemma pool_view_length:
  assumes "pool_inv bp" "pool_view bp p = Some v"
  shows "length v = PAGE_SIZE \<and> stamp_checksum v = v"
proof -
  have p: "p < next_page bp" using assms(2) by (simp add: pool_view_def split: if_splits)
  have "disk_inv (bp_disk bp)" using assms(1) by (simp add: pool_inv_def content_inv_def storage_ok_def)
  then have "length (page_at (bp_disk bp) p) = PAGE_SIZE" using p by simp
  then show ?thesis
    using assms(2) p pool_view_frame(2) [OF assms(1)]
    by (cases "fmlookup (bp_page_table bp) p") (auto simp: pool_view_def)
qed

interpretation pool: page_store pool_inv pool_view pool_pins "\<lambda>bp. nframes bp" log_room "\<lambda>bp. next_page bp"
  "\<lambda>bp f p. in_frame bp f p" "\<lambda>bp f. frame_data bp f" fetch_frame unpin_frame guard_write new_page
proof
  fix bp :: buffer_pool and f p v k j txn off bs
  show "pool_inv bp \<Longrightarrow> in_frame bp f p \<Longrightarrow>
      pool_view bp p = Some (stamp_checksum (frame_data bp f)) \<and> length (frame_data bp f) = PAGE_SIZE"
    using pool_view_frame(1,2) by blast
  show "pool_inv bp \<Longrightarrow> pool_view bp p = Some v \<Longrightarrow> length v = PAGE_SIZE \<and> stamp_checksum v = v"
    by (rule pool_view_length)
  show "pool_inv bp \<Longrightarrow> pool_view bp p \<noteq> None \<longleftrightarrow> p < next_page bp" by (simp add: pool_view_def)
  show "log_room k bp \<Longrightarrow> j \<le> k \<Longrightarrow> log_room j bp" by (rule log_room_mono)
  show "\<exists>f bp'. fetch_frame p bp = (Inr f, bp') \<and> pool_inv bp' \<and> in_frame bp' f p \<and>
      pool_pins bp' = (pool_pins bp)(p := Suc (pool_pins bp p)) \<and> pool_view bp' = pool_view bp \<and>
      nframes bp' = nframes bp \<and> next_page bp' = next_page bp \<and> (\<forall>k. log_room k bp \<longrightarrow> log_room k bp') \<and>
      (\<forall>g q. in_frame bp g q \<longrightarrow> 0 < pool_pins bp q \<longrightarrow> in_frame bp' g q)"
    if "pool_inv bp" "pool_view bp p \<noteq> None" "card {q. 0 < pool_pins bp q} < nframes bp"
  proof -
    note a = that
    have p: "p < next_page bp" using a(2) by (simp add: pool_view_def split: if_splits)
    then obtain f bp' where "fetch_frame p bp = (Inr f, bp')" "fetched bp p f bp'"
      using fetch_ok [OF a(1) p] a(3) by (auto simp: pinned_pages_def)
    then show ?thesis using stutter_room [of bp bp'] by (auto simp: fetched_def stutter_def pins_stay_def)
  qed
  show "\<exists>bp'. fetch_frame p bp = (Inl (PageNotFound p), bp') \<and> pool_inv bp' \<and> pool_pins bp' = pool_pins bp \<and>
      pool_view bp' = pool_view bp \<and> nframes bp' = nframes bp \<and> next_page bp' = next_page bp \<and>
      (\<forall>k. log_room k bp \<longrightarrow> log_room k bp')"
    if "pool_inv bp" "pool_view bp p = None" "card {q. 0 < pool_pins bp q} < nframes bp"
  proof -
    note a = that
    have p: "\<not> p < next_page bp" using a(2) by (simp add: pool_view_def split: if_splits)
    then obtain bp' where "fetch_frame p bp = (Inl (PageNotFound p), bp')" "pool_inv bp'" "stutter bp bp'"
      "pool_pins bp' = pool_pins bp"
      using fetch_missing [OF a(1) p] a(3) by (auto simp: pinned_pages_def)
    then show ?thesis using stutter_room [of bp bp'] by (auto simp: stutter_def)
  qed
  show "pool_inv (unpin_frame f bp) \<and> pool_pins (unpin_frame f bp) = (pool_pins bp)(p := pool_pins bp p - 1) \<and>
      pool_view (unpin_frame f bp) = pool_view bp \<and> nframes (unpin_frame f bp) = nframes bp \<and>
      next_page (unpin_frame f bp) = next_page bp \<and> (\<forall>k. log_room k bp \<longrightarrow> log_room k (unpin_frame f bp)) \<and>
      (\<forall>g q. in_frame bp g q \<longrightarrow> in_frame (unpin_frame f bp) g q)"
    if "pool_inv bp" "in_frame bp f p" "0 < pool_pins bp p"
    using unpin_frame_effect [of bp p f] that stutter_room [of bp "unpin_frame f bp"]
    by (simp add: pool_inv_def stutter_def unpin_frame_table)
  show "\<exists>l bp'. guard_write f p txn off bs bp = (Inr (), bp') \<and> pool_inv bp' \<and>
      (\<forall>g q. in_frame bp g q \<longrightarrow> in_frame bp' g q) \<and> pool_pins bp' = pool_pins bp \<and>
      pool_view bp' = (pool_view bp)(p \<mapsto> write_bytes v off bs l) \<and> nframes bp' = nframes bp \<and>
      next_page bp' = next_page bp \<and> log_room k bp'"
    if "pool_inv bp" "in_frame bp f p" "pool_view bp p = Some v" "off + length bs \<le> PAGE_SIZE" "log_room (Suc k) bp"
  proof -
    note a = that
    obtain rs where rs: "log_run (bp_log bp) rs" using pool_inv_run [OF a(1)] by blast
    show ?thesis using guard_write_effect [OF a rs, of txn] by auto
  qed
  show "\<exists>f bp'. new_page txn bp = (Inr (next_page bp, f), bp') \<and> pool_inv bp' \<and> in_frame bp' f (next_page bp) \<and>
      pool_pins bp' = (pool_pins bp)(next_page bp := 1) \<and>
      pool_view bp' = (pool_view bp)(next_page bp \<mapsto> blank_page) \<and> nframes bp' = nframes bp \<and>
      next_page bp' = next_page bp + 1 \<and> log_room k bp' \<and>
      (\<forall>g q. in_frame bp g q \<longrightarrow> 0 < pool_pins bp q \<longrightarrow> in_frame bp' g q)"
    if "pool_inv bp" "card {q. 0 < pool_pins bp q} < nframes bp" "log_room (Suc k) bp" "next_page bp \<noteq> - 1"
  proof -
    note a = that
    obtain rs where rs: "log_run (bp_log bp) rs" using pool_inv_run [OF a(1)] by blast
    show ?thesis using new_page_effect [OF a(1,4) _ a(3) rs, of txn] a(2) by (auto simp: pinned_pages_def pins_stay_def)
  qed
qed

lemma with_page_session: "with_page p body = pool.session p body"
  by (simp add: with_page_def pool.session_def)

lemma pool_quiet_eq: "pool.quiet bp \<longleftrightarrow> pool_quiet bp"
  by (simp add: pool_quiet_def pool.quiet_def)

lemmas pool_session_effect = pool.session_effect [folded with_page_session, unfolded pool_quiet_eq]
lemmas pool_session_missing = pool.session_missing [folded with_page_session, unfolded pool_quiet_eq]
lemmas pool_guarded_unpin = pool.guarded_unpin [unfolded pool_quiet_eq]
lemmas pool_alloc_effect = pool.alloc_effect [unfolded pool_quiet_eq]

end
