(* ===== verification/Heap.thy ===== *)
theory Heap
  imports Pool_Ops
begin

text \<open>
  Table heaps of \<open>storage/src/heap.rs\<close>: slotted pages, read and written through page guards, and
  tables as chains of them. A slot is a pair of 16-bit words (offset and length of the tuple); tuples
  grow down from the end of the page and the slot array grows up from the header. A loop over a chain
  is a partial function, undefined where the chain does not end.
\<close>

definition NO_NEXT_PAGE :: page_id where "NO_NEXT_PAGE = 0"
definition SLOT_COUNT_OFFSET :: nat where "SLOT_COUNT_OFFSET = 12"
definition DATA_USED_OFFSET :: nat where "DATA_USED_OFFSET = 14"
definition NEXT_PAGE_ID_OFFSET :: nat where "NEXT_PAGE_ID_OFFSET = 16"
definition HEADER_SIZE :: nat where "HEADER_SIZE = 20"
definition SLOT_SIZE :: nat where "SLOT_SIZE = 4"
definition MAX_SLOTS :: u16 where "MAX_SLOTS = of_nat ((PAGE_SIZE - HEADER_SIZE) div SLOT_SIZE)"
definition MAX_TUPLE_SIZE :: nat where "MAX_TUPLE_SIZE = PAGE_SIZE - HEADER_SIZE - SLOT_SIZE"

lemmas heap_consts = NO_NEXT_PAGE_def SLOT_COUNT_OFFSET_def DATA_USED_OFFSET_def NEXT_PAGE_ID_OFFSET_def
  HEADER_SIZE_def SLOT_SIZE_def

definition slot_offset :: "u16 \<Rightarrow> nat" where
  "slot_offset slot = HEADER_SIZE + unat slot * SLOT_SIZE"

definition read_u16 :: "bytes \<Rightarrow> nat \<Rightarrow> u16" where
  "read_u16 bs at = le_u16 (bytes_at bs at 2)"

definition slotted_slot_count :: "bytes \<Rightarrow> u16" where
  "slotted_slot_count bs = read_u16 bs SLOT_COUNT_OFFSET"

definition slot_count_reason :: "u16 \<Rightarrow> string" where
  "slot_count_reason count =
     ''slot count '' @ nat_str (unat count) @ '' exceeds the '' @ nat_str (unat MAX_SLOTS)
       @ '' slots a '' @ nat_str PAGE_SIZE @ ''-byte page can hold''"

definition checked_slot_count :: "bytes \<Rightarrow> page_id \<Rightarrow> storage_error + u16" where
  "checked_slot_count bs pid =
     (let count = slotted_slot_count bs in
      if count > MAX_SLOTS then Inl (CorruptPage pid (slot_count_reason count)) else Inr count)"

definition slotted_data_used :: "bytes \<Rightarrow> u16" where
  "slotted_data_used bs = read_u16 bs DATA_USED_OFFSET"

definition slotted_data_start :: "bytes \<Rightarrow> nat" where
  "slotted_data_start bs = PAGE_SIZE - unat (slotted_data_used bs)"

definition slotted_next_page_id :: "bytes \<Rightarrow> page_id" where
  "slotted_next_page_id bs = le_u32 (bytes_at bs NEXT_PAGE_ID_OFFSET 4)"

definition slotted_slot_entry :: "bytes \<Rightarrow> u16 \<Rightarrow> page_id \<Rightarrow> storage_error + (u16 \<times> u16) option" where
  "slotted_slot_entry bs slot pid =
     and_then (checked_slot_count bs pid) (\<lambda>count.
       if slot \<ge> count then Inr None
       else let at = slot_offset slot in Inr (Some (read_u16 bs at, read_u16 bs (at + 2))))"

definition overlap_reason :: "u16 \<Rightarrow> nat \<Rightarrow> nat \<Rightarrow> string" where
  "overlap_reason slot start slots_end =
     ''slot '' @ nat_str (unat slot) @ [CHR 0x27] @ ''s tuple at offset '' @ nat_str start @ '' overlaps the ''
       @ nat_str slots_end @ ''-byte slot array''"

definition past_end_reason :: "u16 \<Rightarrow> nat \<Rightarrow> nat \<Rightarrow> nat \<Rightarrow> string" where
  "past_end_reason slot start finish len =
     ''slot '' @ nat_str (unat slot) @ [CHR 0x27] @ ''s tuple range '' @ nat_str start @ ''..'' @ nat_str finish
       @ '' runs past the '' @ nat_str len @ ''-byte page''"

definition slotted_read :: "bytes \<Rightarrow> u16 \<Rightarrow> page_id \<Rightarrow> storage_error + bytes option" where
  "slotted_read bs slot pid =
     and_then (slotted_slot_entry bs slot pid) (\<lambda>entry.
       case entry of
         None \<Rightarrow> Inr None
       | Some (off, len) \<Rightarrow>
           if len = 0 then Inr None
           else and_then (checked_slot_count bs pid) (\<lambda>count.
             let slots_end = slot_offset count;
                 start = unat off;
                 finish = start + unat len
             in if start < slots_end then Inl (CorruptPage pid (overlap_reason slot start slots_end))
                else and_then (ok_or (slice_at bs start (unat len))
                       (CorruptPage pid (past_end_reason slot start finish (length bs)))) (\<lambda>b. Inr (Some b))))"

definition slotted_free_space :: "bytes \<Rightarrow> nat" where
  "slotted_free_space bs = slotted_data_start bs - (HEADER_SIZE + unat (slotted_slot_count bs) * SLOT_SIZE)"

section \<open>Operations through a guard\<close>

definition slotted_init :: "frame_id \<Rightarrow> page_id \<Rightarrow> txn_id \<Rightarrow> unit pool_m" where
  "slotted_init f pid txn = guard_write f pid txn SLOT_COUNT_OFFSET (replicate 8 0)"

definition next_page_id :: "bytes \<Rightarrow> page_id option" where
  "next_page_id bs = (let pid = slotted_next_page_id bs in if pid \<noteq> NO_NEXT_PAGE then Some pid else None)"

definition set_next_page_id :: "frame_id \<Rightarrow> page_id \<Rightarrow> txn_id \<Rightarrow> page_id \<Rightarrow> unit pool_m" where
  "set_next_page_id f pid txn nxt = guard_write f pid txn NEXT_PAGE_ID_OFFSET (u32_le nxt)"

definition slotted_insert :: "frame_id \<Rightarrow> page_id \<Rightarrow> txn_id \<Rightarrow> bytes \<Rightarrow> u16 option pool_m" where
  "slotted_insert f pid txn data bp =
     (let slot_count = slotted_slot_count (frame_data bp f);
          new_slots_end = HEADER_SIZE + (unat slot_count + 1) * SLOT_SIZE;
          space_end = slotted_data_start (frame_data bp f)
      in if new_slots_end + length data > space_end then (Inr None, bp)
         else
           let data_start = space_end - length data in
           sbind (guard_write f pid txn data_start data) (\<lambda>_.
           sbind (guard_write f pid txn (slot_offset slot_count)
                   (u16_le (of_nat data_start) @ u16_le (of_nat (length data)))) (\<lambda>_.
           sbind (guard_write f pid txn SLOT_COUNT_OFFSET
                   (u16_le (slot_count + 1) @ u16_le (of_nat (PAGE_SIZE - data_start)))) (\<lambda>_.
             sreturn (Some slot_count)))) bp)"

definition slotted_delete :: "frame_id \<Rightarrow> page_id \<Rightarrow> txn_id \<Rightarrow> u16 \<Rightarrow> unit pool_m" where
  "slotted_delete f pid txn slot bp =
     (case slotted_slot_entry (frame_data bp f) slot pid of
        Inl e \<Rightarrow> (Inl e, bp)
      | Inr None \<Rightarrow> (Inr (), bp)
      | Inr (Some _) \<Rightarrow> guard_write f pid txn (slot_offset slot + 2) (u16_le 0) bp)"

definition update_in_place :: "frame_id \<Rightarrow> page_id \<Rightarrow> txn_id \<Rightarrow> u16 \<Rightarrow> nat \<Rightarrow> bytes \<Rightarrow> unit pool_m" where
  "update_in_place f pid txn slot off bs bp =
     (case slotted_slot_entry (frame_data bp f) slot pid of
        Inl e \<Rightarrow> (Inl e, bp)
      | Inr None \<Rightarrow> (Inl (CorruptPage pid (''slot '' @ nat_str (unat slot) @ '' does not exist'')), bp)
      | Inr (Some (tuple_start, tuple_len)) \<Rightarrow>
          if tuple_len = 0 then (Inl (CorruptPage pid (''slot '' @ nat_str (unat slot) @ '' is deleted'')), bp)
          else if off + length bs > unat tuple_len then
            (Inl (InPlaceUpdateOutOfBounds pid slot (unat tuple_len) off (length bs)), bp)
          else guard_write f pid txn (unat tuple_start + off) bs bp)"

section \<open>Tables\<close>


definition heap_create :: "txn_id \<Rightarrow> page_id pool_m" where
  "heap_create txn =
     sbind (new_page txn) (\<lambda>(pid, f) bp.
       case slotted_init f pid txn bp of
         (Inl e, bp') \<Rightarrow> (Inl e, unpin_frame f bp')
       | (Inr _, bp') \<Rightarrow> (Inr pid, unpin_frame f bp'))"

definition append_page_after :: "txn_id \<Rightarrow> page_id \<Rightarrow> page_id pool_m" where
  "append_page_after txn after =
     sbind (heap_create txn) (\<lambda>new_pid.
     sbind (with_page after (\<lambda>f. set_next_page_id f after txn new_pid)) (\<lambda>_.
       sreturn new_pid))"

text \<open>One turn of the loop of \<open>insert_tuple_with\<close>: the slot taken on this page, or the next page.\<close>

definition insert_here :: "txn_id \<Rightarrow> bytes \<Rightarrow> page_id \<Rightarrow> (u16 + page_id option) pool_m" where
  "insert_here txn data pid =
     with_page pid (\<lambda>f.
       sbind (slotted_insert f pid txn data) (\<lambda>r.
         case r of
           Some slot \<Rightarrow> sreturn (Inl slot)
         | None \<Rightarrow> sget (\<lambda>bp. Inr (next_page_id (frame_data bp f)))))"

partial_function (option) insert_loop ::
    "txn_id \<Rightarrow> bytes \<Rightarrow> page_id \<Rightarrow> buffer_pool \<Rightarrow> ((storage_error + rid) \<times> buffer_pool) option" where
  "insert_loop txn data cur bp =
     (case insert_here txn data cur bp of
        (Inl e, bp') \<Rightarrow> Some (Inl e, bp')
      | (Inr (Inl slot), bp') \<Rightarrow> Some (Inr (cur, slot), bp')
      | (Inr (Inr (Some nxt)), bp') \<Rightarrow> insert_loop txn data nxt bp'
      | (Inr (Inr None), bp') \<Rightarrow>
          (case append_page_after txn cur bp' of
             (Inl e, bp'') \<Rightarrow> Some (Inl e, bp'')
           | (Inr new_pid, bp'') \<Rightarrow> insert_loop txn data new_pid bp''))"

text \<open>The callback \<open>on_insert\<close> runs under the guard with the new row id; here it is the
  caller's next step.\<close>

definition insert_tuple :: "page_id \<Rightarrow> txn_id \<Rightarrow> bytes \<Rightarrow> buffer_pool \<Rightarrow> ((storage_error + rid) \<times> buffer_pool) option" where
  "insert_tuple first txn data bp =
     (if length data > MAX_TUPLE_SIZE then Some (Inl (TupleTooLarge (length data) MAX_TUPLE_SIZE), bp)
      else insert_loop txn data first bp)"

definition get_tuple :: "rid \<Rightarrow> bytes option pool_m" where
  "get_tuple r = with_page (fst r) (\<lambda>f bp. (slotted_read (frame_data bp f) (snd r) (fst r), bp))"

definition delete_tuple :: "txn_id \<Rightarrow> rid \<Rightarrow> unit pool_m" where
  "delete_tuple txn r = with_page (fst r) (\<lambda>f. slotted_delete f (fst r) txn (snd r))"

definition update_tuple_in_place :: "txn_id \<Rightarrow> rid \<Rightarrow> nat \<Rightarrow> bytes \<Rightarrow> unit pool_m" where
  "update_tuple_in_place txn r off bs = with_page (fst r) (\<lambda>f. update_in_place f (fst r) txn (snd r) off bs)"

datatype page_scan = ScanTuple u16 bytes | EndOfPage "page_id option"

text \<open>The loop over the slots from \<open>slot\<close> on; \<open>n\<close> is how many are left.\<close>

fun scan_slots :: "bytes \<Rightarrow> page_id \<Rightarrow> nat \<Rightarrow> u16 \<Rightarrow> storage_error + page_scan" where
  "scan_slots bs pid 0 slot = Inr (EndOfPage (next_page_id bs))"
| "scan_slots bs pid (Suc n) slot =
     and_then (slotted_read bs slot pid) (\<lambda>r.
       case r of Some data \<Rightarrow> Inr (ScanTuple slot data) | None \<Rightarrow> scan_slots bs pid n (slot + 1))"

definition scan_page_bytes :: "bytes \<Rightarrow> page_id \<Rightarrow> u16 \<Rightarrow> storage_error + page_scan" where
  "scan_page_bytes bs pid from_slot =
     and_then (checked_slot_count bs pid) (\<lambda>count. scan_slots bs pid (unat count - unat from_slot) from_slot)"

definition scan_page :: "page_id \<Rightarrow> u16 \<Rightarrow> page_scan pool_m" where
  "scan_page pid from_slot = with_page pid (\<lambda>f bp. (scan_page_bytes (frame_data bp f) pid from_slot, bp))"

text \<open>What \<open>TableIter::next\<close> buffers from one page.\<close>

fun page_tuples :: "bytes \<Rightarrow> page_id \<Rightarrow> nat \<Rightarrow> u16 \<Rightarrow> storage_error + (rid \<times> bytes) list" where
  "page_tuples bs pid 0 slot = Inr []"
| "page_tuples bs pid (Suc n) slot =
     and_then (slotted_read bs slot pid) (\<lambda>r.
     and_then (page_tuples bs pid n (slot + 1)) (\<lambda>rest.
       Inr (case r of Some data \<Rightarrow> ((pid, slot), data) # rest | None \<Rightarrow> rest)))"

definition iter_page :: "page_id \<Rightarrow> ((rid \<times> bytes) list \<times> page_id option) pool_m" where
  "iter_page pid = with_page pid (\<lambda>f bp.
     let bs = frame_data bp f in
     (and_then (checked_slot_count bs pid) (\<lambda>count.
      and_then (page_tuples bs pid (unat count) 0) (\<lambda>ts. Inr (ts, next_page_id bs))), bp))"

text \<open>The iterator run to its end or to its first error.\<close>

partial_function (option) heap_iter ::
    "page_id \<Rightarrow> (rid \<times> bytes) list \<Rightarrow> buffer_pool \<Rightarrow> ((storage_error + (rid \<times> bytes) list) \<times> buffer_pool) option" where
  "heap_iter cur acc bp =
     (case iter_page cur bp of
        (Inl e, bp') \<Rightarrow> Some (Inl e, bp')
      | (Inr (ts, None), bp') \<Rightarrow> Some (Inr (acc @ ts), bp')
      | (Inr (ts, Some nxt), bp') \<Rightarrow> heap_iter nxt (acc @ ts) bp')"

end
