(* ===== verification/Slotted_Page.thy ===== *)
theory Slotted_Page
  imports Heap
begin

text \<open>
  What a slotted page holds and what each operation on it does to that: the representation invariant
  of a page, its list of tuples, and the effect of the three logged writes of an insertion.
\<close>

section \<open>Bytes that the checksum and the LSN do not touch\<close>

lemma write_bytes_other:
  assumes "length v = PAGE_SIZE" "off + length bs \<le> PAGE_SIZE" "12 \<le> o2" "o2 + n \<le> PAGE_SIZE"
    "o2 + n \<le> off \<or> off + length bs \<le> o2"
  shows "bytes_at (write_bytes v off bs l) o2 n = bytes_at v o2 n"
  using assms
  by (simp add: write_bytes_def set_page_lsn_def bytes_at_stamp bytes_at_splice_other PAGE_SIZE_def PAGE_LSN_OFFSET_def)

lemma write_bytes_inside:
  assumes "length v = PAGE_SIZE" "off + length bs \<le> PAGE_SIZE" "12 \<le> off" "off \<le> o2" "o2 + n \<le> off + length bs"
  shows "bytes_at (write_bytes v off bs l) o2 n = bytes_at bs (o2 - off) n"
  using assms
  by (simp add: write_bytes_def set_page_lsn_def bytes_at_stamp bytes_at_splice_other bytes_at_splice_inside
      PAGE_SIZE_def PAGE_LSN_OFFSET_def)

lemma stamp_write_bytes [simp]:
  "length v = PAGE_SIZE \<Longrightarrow> off + length bs \<le> PAGE_SIZE \<Longrightarrow> stamp_checksum (write_bytes v off bs l) = write_bytes v off bs l"
  by (simp add: write_bytes_def)

lemma write_bytes_patch:
  assumes "length v = PAGE_SIZE" "s + n \<le> PAGE_SIZE" "12 \<le> s" "off + length bs \<le> n"
  shows "bytes_at (write_bytes v (s + off) bs l) s n = splice (bytes_at v s n) off bs"
proof -
  have "bytes_at (write_bytes v (s + off) bs l) s n = bytes_at (splice v (s + off) bs) s n"
    using assms by (simp add: write_bytes_def set_page_lsn_def bytes_at_stamp bytes_at_splice_other PAGE_SIZE_def
        PAGE_LSN_OFFSET_def)
  also have "\<dots> = splice (bytes_at v s n) off bs"
    using assms by (auto simp: bytes_at_def nth_splice intro!: nth_equalityI)
  finally show ?thesis .
qed

section \<open>The tuples of a page\<close>

definition slot_entry :: "bytes \<Rightarrow> nat \<Rightarrow> u16 \<times> u16" where
  "slot_entry v i = (read_u16 v (HEADER_SIZE + i * SLOT_SIZE), read_u16 v (HEADER_SIZE + i * SLOT_SIZE + 2))"

definition slot_count :: "bytes \<Rightarrow> nat" where
  "slot_count v = unat (slotted_slot_count v)"

definition slot_data :: "bytes \<Rightarrow> nat \<Rightarrow> bytes option" where
  "slot_data v i = (let (off, len) = slot_entry v i in
     if len = 0 then None else Some (bytes_at v (unat off) (unat len)))"

definition slots :: "bytes \<Rightarrow> bytes option list" where
  "slots v = map (slot_data v) [0..<slot_count v]"

definition live :: "bytes \<Rightarrow> nat \<Rightarrow> bool" where
  "live v i \<longleftrightarrow> snd (slot_entry v i) \<noteq> 0"

definition tuple_start :: "bytes \<Rightarrow> nat \<Rightarrow> nat" where
  "tuple_start v i = unat (fst (slot_entry v i))"

definition tuple_end :: "bytes \<Rightarrow> nat \<Rightarrow> nat" where
  "tuple_end v i = unat (fst (slot_entry v i)) + unat (snd (slot_entry v i))"

text \<open>Live tuples lie between the slot array and the end of the page, later slots below earlier ones.\<close>

definition slotted_wf :: "bytes \<Rightarrow> bool" where
  "slotted_wf v \<longleftrightarrow> length v = PAGE_SIZE \<and> stamp_checksum v = v \<and>
     HEADER_SIZE + slot_count v * SLOT_SIZE \<le> slotted_data_start v \<and>
     (\<forall>i < slot_count v. live v i \<longrightarrow> slotted_data_start v \<le> tuple_start v i \<and> tuple_end v i \<le> PAGE_SIZE) \<and>
     (\<forall>j < slot_count v. \<forall>i < j. live v i \<longrightarrow> live v j \<longrightarrow> tuple_end v j \<le> tuple_start v i)"

lemma slotted_stamp [simp]:
  assumes "length d = PAGE_SIZE"
  shows "slotted_slot_count (stamp_checksum d) = slotted_slot_count d"
    "slotted_data_start (stamp_checksum d) = slotted_data_start d"
    "next_page_id (stamp_checksum d) = next_page_id d"
    "checked_slot_count (stamp_checksum d) pid = checked_slot_count d pid"
  using assms
  by (simp_all add: slotted_slot_count_def slotted_data_start_def slotted_data_used_def next_page_id_def
      slotted_next_page_id_def checked_slot_count_def read_u16_def bytes_at_stamp heap_consts PAGE_SIZE_def)

lemma slot_bound:
  assumes "checked_slot_count d pid = Inr count" "slot < count"
  shows "slot_offset slot + 4 \<le> PAGE_SIZE"
proof -
  have "unat count \<le> 1019"
    using assms(1) by (simp add: checked_slot_count_def Let_def MAX_SLOTS_def heap_consts PAGE_SIZE_def
        word_less_nat_alt split: if_splits)
  then show ?thesis
    using assms(2) by (simp add: slot_offset_def heap_consts PAGE_SIZE_def word_less_nat_alt)
qed

lemma slotted_slot_entry_stamp [simp]:
  assumes "length d = PAGE_SIZE"
  shows "slotted_slot_entry (stamp_checksum d) slot pid = slotted_slot_entry d slot pid"
proof (cases "checked_slot_count d pid")
  case (Inr count)
  show ?thesis
  proof (cases "slot < count")
    case True
    have "read_u16 (stamp_checksum d) (slot_offset slot) = read_u16 d (slot_offset slot)"
      "read_u16 (stamp_checksum d) (slot_offset slot + 2) = read_u16 d (slot_offset slot + 2)"
      using assms slot_bound [OF Inr True]
      by (simp_all add: read_u16_def bytes_at_stamp slot_offset_def heap_consts PAGE_SIZE_def)
    then show ?thesis using assms Inr True by (simp add: slotted_slot_entry_def Let_def)
  qed (use assms Inr in \<open>simp add: slotted_slot_entry_def not_less\<close>)
qed (use assms in \<open>simp add: slotted_slot_entry_def\<close>)

lemma slotted_read_stamp [simp]:
  assumes "length d = PAGE_SIZE"
  shows "slotted_read (stamp_checksum d) slot pid = slotted_read d slot pid"
proof -
  have "slice_at (stamp_checksum d) start n = slice_at d start n" if "\<not> start < slot_offset c" for start n c
    using that assms bytes_at_stamp [of d start n]
    by (simp add: slice_at_def bytes_at_def slot_offset_def heap_consts PAGE_SIZE_def)
  then show ?thesis
    using assms unfolding slotted_read_def slotted_slot_entry_stamp [OF assms] slotted_stamp(4) [OF assms]
    by (cases "slotted_slot_entry d slot pid"; cases "checked_slot_count d pid")
      (auto simp: Let_def split: option.splits)
qed

lemma wf_count:
  assumes "slotted_wf v"
  shows "slot_count v \<le> 1019" "checked_slot_count v pid = Inr (slotted_slot_count v)"
proof -
  have "HEADER_SIZE + slot_count v * SLOT_SIZE \<le> PAGE_SIZE - unat (slotted_data_used v)"
    using assms by (simp add: slotted_wf_def slotted_data_start_def)
  then show c: "slot_count v \<le> 1019" by (simp add: heap_consts PAGE_SIZE_def)
  then show "checked_slot_count v pid = Inr (slotted_slot_count v)"
    by (simp add: checked_slot_count_def Let_def MAX_SLOTS_def heap_consts PAGE_SIZE_def word_less_nat_alt slot_count_def)
qed

lemma slot_entry_eq: "slotted_slot_entry v slot pid =
    and_then (checked_slot_count v pid) (\<lambda>count. Inr (if slot < count then Some (slot_entry v (unat slot)) else None))"
  by (cases "checked_slot_count v pid") (auto simp: slotted_slot_entry_def slot_entry_def slot_offset_def Let_def)

lemma slotted_read_wf:
  assumes "slotted_wf v"
  shows "slotted_read v slot pid = Inr (if unat slot < slot_count v then slot_data v (unat slot) else None)"
proof (cases "unat slot < slot_count v")
  case True
  obtain off len where e: "slot_entry v (unat slot) = (off, len)" by fastforce
  have "len = 0 \<or> slotted_data_start v \<le> unat off \<and> unat off + unat len \<le> PAGE_SIZE"
    using assms True e by (auto simp: slotted_wf_def live_def tuple_start_def tuple_end_def)
  moreover have "slot_offset (slotted_slot_count v) \<le> slotted_data_start v"
    using assms by (simp add: slotted_wf_def slot_offset_def slot_count_def)
  ultimately show ?thesis
    using True e assms wf_count(2) [OF assms, of pid]
    by (auto simp: slotted_read_def slot_entry_eq slot_count_def word_less_nat_alt slot_data_def Let_def
        slice_at_eq slotted_wf_def)
qed (use wf_count(2) [OF assms, of pid] in \<open>simp add: slotted_read_def slot_entry_eq slot_count_def word_less_nat_alt\<close>)


section \<open>The effect of the writes\<close>

definition page_insert :: "bytes \<Rightarrow> bytes \<Rightarrow> u64 \<Rightarrow> u64 \<Rightarrow> u64 \<Rightarrow> bytes" where
  "page_insert v data l1 l2 l3 =
     (let c = slotted_slot_count v; start = slotted_data_start v - length data in
      write_bytes
        (write_bytes
          (write_bytes v start data l1)
          (slot_offset c) (u16_le (of_nat start) @ u16_le (of_nat (length data))) l2)
        SLOT_COUNT_OFFSET (u16_le (c + 1) @ u16_le (of_nat (PAGE_SIZE - start))) l3)"

definition page_fits :: "bytes \<Rightarrow> bytes \<Rightarrow> bool" where
  "page_fits v data \<longleftrightarrow> HEADER_SIZE + (slot_count v + 1) * SLOT_SIZE + length data \<le> slotted_data_start v"

lemma slotted_wfI:
  assumes "length v = PAGE_SIZE" "stamp_checksum v = v" "HEADER_SIZE + slot_count v * SLOT_SIZE \<le> slotted_data_start v"
    "\<And>i. i < slot_count v \<Longrightarrow> live v i \<Longrightarrow> slotted_data_start v \<le> tuple_start v i \<and> tuple_end v i \<le> PAGE_SIZE"
    "\<And>i j. j < slot_count v \<Longrightarrow> i < j \<Longrightarrow> live v i \<Longrightarrow> live v j \<Longrightarrow> tuple_end v j \<le> tuple_start v i"
  shows "slotted_wf v"
  unfolding slotted_wf_def using assms by blast

lemma slotted_wfD:
  assumes "slotted_wf v"
  shows "length v = PAGE_SIZE" "stamp_checksum v = v" "HEADER_SIZE + slot_count v * SLOT_SIZE \<le> slotted_data_start v"
    "slotted_data_start v \<le> PAGE_SIZE"
    "i < slot_count v \<Longrightarrow> live v i \<Longrightarrow> slotted_data_start v \<le> tuple_start v i \<and> tuple_end v i \<le> PAGE_SIZE"
    "j < slot_count v \<Longrightarrow> i < j \<Longrightarrow> live v i \<Longrightarrow> live v j \<Longrightarrow> tuple_end v j \<le> tuple_start v i"
  using assms by (simp_all add: slotted_wf_def slotted_data_start_def)

lemma slot_data_eq:
  "slot_data v i = (if live v i then Some (bytes_at v (tuple_start v i) (tuple_end v i - tuple_start v i)) else None)"
  by (simp add: slot_data_def live_def tuple_start_def tuple_end_def split: prod.splits)

lemma tuple_start_le [simp]: "tuple_start v i \<le> tuple_end v i"
  by (simp add: tuple_start_def tuple_end_def)

lemma slot_entry_same:
  assumes "slot_entry w i = slot_entry v i"
  shows "live w i = live v i" "tuple_start w i = tuple_start v i" "tuple_end w i = tuple_end v i"
  by (simp_all add: live_def tuple_start_def tuple_end_def assms)

lemma slot_data_same:
  assumes "slot_entry w i = slot_entry v i"
    "live v i \<Longrightarrow> bytes_at w (tuple_start v i) (tuple_end v i - tuple_start v i) = bytes_at v (tuple_start v i) (tuple_end v i - tuple_start v i)"
  shows "slot_data w i = slot_data v i"
  using assms(2) by (simp add: slot_data_eq slot_entry_same [OF assms(1)])

lemma page_insert_wf:
  fixes l1 l2 l3 :: u64
  assumes wf: "slotted_wf v" and fits: "page_fits v data"
  defines "w \<equiv> page_insert v data l1 l2 l3"
  shows "slotted_wf w" "slots w = slots v @ [if data = [] then None else Some data]"
    "next_page_id w = next_page_id v" "page_lsn w = l3"
proof -
  define c where "c = slot_count v"
  define start where "start = slotted_data_start v - length data"
  note V = slotted_wfD [OF wf]
  have c: "c \<le> 1019" using wf_count(1) [OF wf] c_def by simp
  have cw: "unat (slotted_slot_count v) = c" by (simp add: c_def slot_count_def)
  have b: "24 + c * 4 + length data \<le> slotted_data_start v" "slotted_data_start v \<le> 4096"
    using fits V(4) by (simp_all add: page_fits_def heap_consts c_def PAGE_SIZE_def)
  have st: "24 + c * 4 \<le> start" "start + length data = slotted_data_start v" "start \<le> 4096"
    using b by (simp_all add: start_def)
  define v1 where "v1 = write_bytes v start data l1"
  define v2 where "v2 = write_bytes v1 (20 + c * 4) (u16_le (of_nat start) @ u16_le (of_nat (length data))) l2"
  have w: "w = write_bytes v2 12 (u16_le (slotted_slot_count v + 1) @ u16_le (of_nat (4096 - start))) l3"
    by (simp add: w_def page_insert_def Let_def v2_def v1_def start_def slot_offset_def cw heap_consts PAGE_SIZE_def)
  have len: "length v = PAGE_SIZE" "length v1 = PAGE_SIZE" "length v2 = PAGE_SIZE"
    using V(1) b st by (simp_all add: v2_def v1_def length_write_bytes PAGE_SIZE_def)
  have hdr: "slotted_slot_count w = slotted_slot_count v + 1" "slotted_data_used w = of_nat (4096 - start)"
    by (simp_all add: slotted_slot_count_def slotted_data_used_def read_u16_def heap_consts w
        write_bytes_inside len bytes_at_append PAGE_SIZE_def)
  have cnt: "slot_count w = c + 1"
    using c by (simp add: slot_count_def hdr unat_word_ariths cw)
  have "unat (of_nat (4096 - start) :: u16) = 4096 - start"
    by (rule unat_of_nat_small) simp
  then have ds: "slotted_data_start w = start"
    using st(3) unfolding slotted_data_start_def hdr PAGE_SIZE_def by linarith
  have old: "bytes_at w o2 n = bytes_at v o2 n"
    if "16 \<le> o2" "o2 + n \<le> 20 + c * 4 \<or> start + length data \<le> o2" "o2 + n \<le> PAGE_SIZE" for o2 n
  proof -
    have "bytes_at w o2 n = bytes_at v2 o2 n"
      unfolding w by (rule write_bytes_other) (use that len in \<open>simp_all add: PAGE_SIZE_def\<close>)
    also have "\<dots> = bytes_at v1 o2 n"
      unfolding v2_def by (rule write_bytes_other) (use that st c len in \<open>auto simp: PAGE_SIZE_def\<close>)
    also have "\<dots> = bytes_at v o2 n"
      unfolding v1_def by (rule write_bytes_other) (use that st b(2) len in \<open>auto simp: PAGE_SIZE_def\<close>)
    finally show ?thesis .
  qed
  have entry_old: "slot_entry w i = slot_entry v i" if "i < c" for i
    using that c by (simp add: slot_entry_def read_u16_def old heap_consts PAGE_SIZE_def)
  have ent: "bytes_at w (20 + c * 4 + k) 2 = bytes_at v2 (20 + c * 4 + k) 2" if "k \<le> 2" for k
    unfolding w by (rule write_bytes_other) (use that st len in \<open>simp_all add: PAGE_SIZE_def\<close>)
  have entry_new: "slot_entry w c = (of_nat start, of_nat (length data))"
    using ent [of 0] ent [of 2] st
    by (simp add: slot_entry_def read_u16_def heap_consts v2_def write_bytes_inside len bytes_at_append PAGE_SIZE_def)
  have dat: "bytes_at w start (length data) = data"
    using st c b(2) unfolding w v2_def v1_def
    by (simp add: write_bytes_other write_bytes_inside length_write_bytes V(1) PAGE_SIZE_def)
  have sl: "unat (of_nat start :: u16) = start" "unat (of_nat (length data) :: u16) = length data"
    using st b by (simp_all add: unat_of_nat_small)
  have new: "tuple_start w c = start" "tuple_end w c = start + length data" "live w c \<longleftrightarrow> data \<noteq> []"
    using sl by (auto simp: tuple_start_def tuple_end_def live_def entry_new unat_eq_zero)
  show "slotted_wf w"
  proof (rule slotted_wfI)
    show "length w = PAGE_SIZE" "stamp_checksum w = w" using len by (simp_all add: w length_write_bytes PAGE_SIZE_def)
    show "HEADER_SIZE + slot_count w * SLOT_SIZE \<le> slotted_data_start w"
      using st by (simp add: cnt ds heap_consts)
    show "slotted_data_start w \<le> tuple_start w i \<and> tuple_end w i \<le> PAGE_SIZE" if "i < slot_count w" "live w i" for i
      using that V(5) [of i] st new b slot_entry_same [OF entry_old, of i] unfolding ds cnt
      by (cases "i < c") (auto simp: c_def less_Suc_eq PAGE_SIZE_def)
    show "tuple_end w j \<le> tuple_start w i" if "j < slot_count w" "i < j" "live w i" "live w j" for i j
      using that V(5) [of i] V(6) [of j i] st new slot_entry_same [OF entry_old, of i] slot_entry_same [OF entry_old, of j]
      unfolding cnt by (cases "j < c") (auto simp: c_def less_Suc_eq)
  qed
  have "slot_data w i = slot_data v i" if "i < c" for i
    by (rule slot_data_same) (use that V(5) [of i] st c_def in \<open>auto simp: entry_old intro!: old\<close>)
  moreover have "slot_data w c = (if data = [] then None else Some data)"
    using new dat by (simp add: slot_data_eq)
  ultimately show "slots w = slots v @ [if data = [] then None else Some data]"
    by (simp add: slots_def cnt c_def)
  show "next_page_id w = next_page_id v"
    using st c by (simp add: next_page_id_def slotted_next_page_id_def heap_consts old PAGE_SIZE_def)
  show "page_lsn w = l3" using len by (simp add: w page_lsn_write_bytes PAGE_SIZE_def)
qed

text \<open>A write that keeps the header words and every slot that stays live keeps the page well formed.\<close>

lemma slotted_wf_same:
  assumes wf: "slotted_wf v" and w: "length w = PAGE_SIZE" "stamp_checksum w = w"
    "slot_count w = slot_count v" "slotted_data_start w = slotted_data_start v"
    and entry: "\<And>k. k < slot_count v \<Longrightarrow> live w k \<Longrightarrow> slot_entry w k = slot_entry v k"
  shows "slotted_wf w"
proof (rule slotted_wfI)
  note V = slotted_wfD [OF wf]
  show "length w = PAGE_SIZE" "stamp_checksum w = w" by (fact w)+
  show "HEADER_SIZE + slot_count w * SLOT_SIZE \<le> slotted_data_start w" using V(3) by (simp add: w)
  show "slotted_data_start w \<le> tuple_start w k \<and> tuple_end w k \<le> PAGE_SIZE" if "k < slot_count w" "live w k" for k
    using that V(5) [of k] slot_entry_same [OF entry, of k] by (simp add: w)
  show "tuple_end w j \<le> tuple_start w k" if "j < slot_count w" "k < j" "live w k" "live w j" for k j
    using that V(6) [of j k] slot_entry_same [OF entry, of k] slot_entry_same [OF entry, of j] by (simp add: w)
qed

lemma page_header_same:
  fixes l :: u64
  assumes "length v = PAGE_SIZE" "off + length bs \<le> PAGE_SIZE" "HEADER_SIZE \<le> off"
  defines "w \<equiv> write_bytes v off bs l"
  shows "slotted_slot_count w = slotted_slot_count v" "slotted_data_start w = slotted_data_start v"
    "next_page_id w = next_page_id v" "slot_count w = slot_count v"
  using assms
  by (simp_all add: slotted_slot_count_def slotted_data_start_def slotted_data_used_def next_page_id_def slot_count_def
      slotted_next_page_id_def read_u16_def write_bytes_other heap_consts PAGE_SIZE_def)

text \<open>A deletion clears the length word of its slot.\<close>

lemma page_delete_wf:
  fixes l :: u64
  assumes wf: "slotted_wf v" and i: "i < slot_count v"
  defines "w \<equiv> write_bytes v (HEADER_SIZE + i * SLOT_SIZE + 2) (u16_le 0) l"
  shows "slotted_wf w" "slots w = (slots v)[i := None]" "next_page_id w = next_page_id v" "page_lsn w = l"
proof -
  note V = slotted_wfD [OF wf]
  have b: "24 + i * 4 \<le> slotted_data_start v" "slotted_data_start v \<le> 4096"
    using V(3,4) i by (simp_all add: heap_consts PAGE_SIZE_def)
  have hd: "HEADER_SIZE + i * SLOT_SIZE + 2 + length (u16_le 0) \<le> PAGE_SIZE" "HEADER_SIZE \<le> HEADER_SIZE + i * SLOT_SIZE + 2"
    using b by (simp_all add: heap_consts PAGE_SIZE_def)
  note H = page_header_same [OF V(1) hd, of l, folded w_def]
  have old: "bytes_at w o2 n = bytes_at v o2 n"
    if "12 \<le> o2" "o2 + n \<le> 22 + i * 4 \<or> 24 + i * 4 \<le> o2" "o2 + n \<le> PAGE_SIZE" for o2 n
    unfolding w_def by (rule write_bytes_other) (use that V(1) hd in \<open>auto simp: heap_consts\<close>)
  have entry_old: "slot_entry w k = slot_entry v k" if "k < slot_count v" "k \<noteq> i" for k
    using that V(3,4) i by (auto simp: slot_entry_def read_u16_def heap_consts PAGE_SIZE_def intro!: arg_cong [where f = le_u16] old)
  have "bytes_at w (22 + i * 4) 2 = u16_le 0"
    using hd V(1) by (simp add: w_def write_bytes_inside heap_consts PAGE_SIZE_def)
  then have dead: "\<not> live w i"
    by (simp add: live_def slot_entry_def read_u16_def heap_consts)
  have wl: "length w = PAGE_SIZE" "stamp_checksum w = w" using V(1) hd by (simp_all add: w_def)
  show "slotted_wf w"
    by (rule slotted_wf_same [OF wf wl]) (use dead entry_old in \<open>auto simp: H\<close>)
  have "slot_data w k = slot_data v k" if "k < slot_count v" "k \<noteq> i" for k
    by (rule slot_data_same) (use that V(5) [of k] b in \<open>auto simp: entry_old intro!: old\<close>)
  moreover have "slot_data w i = None" using dead by (simp add: slot_data_eq)
  ultimately show "slots w = (slots v)[i := None]"
    using i by (auto simp: slots_def H intro!: nth_equalityI simp: nth_list_update)
  show "next_page_id w = next_page_id v" by (rule H(3))
  show "page_lsn w = l" using V(1) hd by (simp add: w_def)
qed

text \<open>An in-place update patches the bytes of one tuple and leaves the other tuples alone.\<close>

lemma page_patch_wf:
  fixes l :: u64
  assumes wf: "slotted_wf v" and i: "i < slot_count v" and old_data: "slot_data v i = Some d"
    and fits: "off + length bs \<le> length d"
  defines "w \<equiv> write_bytes v (tuple_start v i + off) bs l"
  shows "slotted_wf w" "slots w = (slots v)[i := Some (splice d off bs)]" "next_page_id w = next_page_id v" "page_lsn w = l"
proof -
  note V = slotted_wfD [OF wf]
  have lv: "live v i" and d: "d = bytes_at v (tuple_start v i) (tuple_end v i - tuple_start v i)"
    using old_data by (auto simp: slot_data_eq split: if_splits)
  have b: "20 + slot_count v * 4 \<le> slotted_data_start v" "slotted_data_start v \<le> tuple_start v i" "tuple_end v i \<le> 4096"
    using V(3,4) V(5) [OF i lv] by (simp_all add: heap_consts PAGE_SIZE_def)
  have ld: "tuple_start v i + length d = tuple_end v i" using b V(1) by (simp add: d PAGE_SIZE_def)
  have hd: "tuple_start v i + off + length bs \<le> PAGE_SIZE" "HEADER_SIZE \<le> tuple_start v i + off"
    using b ld fits by (simp_all add: heap_consts PAGE_SIZE_def)
  note H = page_header_same [OF V(1) hd, of l, folded w_def]
  have old: "bytes_at w o2 n = bytes_at v o2 n"
    if "12 \<le> o2" "o2 + n \<le> tuple_start v i \<or> tuple_end v i \<le> o2" "o2 + n \<le> PAGE_SIZE" for o2 n
    unfolding w_def by (rule write_bytes_other) (use that V(1) hd fits ld in \<open>auto simp: heap_consts\<close>)
  have entry: "slot_entry w k = slot_entry v k" if "k < slot_count v" for k
    using that b V(4) by (auto simp: slot_entry_def read_u16_def heap_consts PAGE_SIZE_def intro!: arg_cong [where f = le_u16] old)
  note same = slot_entry_same [OF entry]
  have wl: "length w = PAGE_SIZE" "stamp_checksum w = w" using V(1) hd by (simp_all add: w_def)
  show "slotted_wf w"
    by (rule slotted_wf_same [OF wf wl]) (simp_all add: H entry)
  have "slot_data w k = slot_data v k" if k: "k < slot_count v" "k \<noteq> i" for k
  proof (rule slot_data_same [OF entry [OF k(1)]], rule old)
    assume lk: "live v k"
    show "12 \<le> tuple_start v k" "tuple_start v k + (tuple_end v k - tuple_start v k) \<le> PAGE_SIZE"
      using V(5) [OF k(1) lk] b by simp_all
    show "tuple_start v k + (tuple_end v k - tuple_start v k) \<le> tuple_start v i \<or> tuple_end v i \<le> tuple_start v k"
      using V(6) [of k i] V(6) [of i k] k i lk lv by (cases "k < i") simp_all
  qed
  moreover have "bytes_at w (tuple_start v i) (length d) = splice d off bs"
    using hd b ld fits V(1) by (simp add: d w_def write_bytes_patch PAGE_SIZE_def)
  then have "slot_data w i = Some (splice d off bs)"
    using lv same [OF i] ld by (simp add: slot_data_eq) (metis diff_add_inverse)
  ultimately show "slots w = (slots v)[i := Some (splice d off bs)]"
    using i by (auto simp: slots_def H intro!: nth_equalityI simp: nth_list_update)
  show "next_page_id w = next_page_id v" by (rule H(3))
  show "page_lsn w = l" using V(1) hd by (simp add: w_def)
qed

text \<open>A new page starts empty, and linking it to its successor leaves its tuples alone.\<close>

lemma page_init_wf:
  fixes l :: u64
  assumes "length v = PAGE_SIZE"
  defines "w \<equiv> write_bytes v SLOT_COUNT_OFFSET (replicate 8 0) l"
  shows "slotted_wf w" "slots w = []" "next_page_id w = None" "slotted_data_start w = PAGE_SIZE"
proof -
  have z: "bytes_at (replicate 8 (0::byte)) 0 2 = replicate 2 0" "bytes_at (replicate 8 (0::byte)) 2 2 = replicate 2 0"
    "bytes_at (replicate 8 (0::byte)) 4 4 = replicate 4 0"
    by (simp_all add: bytes_at_def)
  have b: "bytes_at w 12 2 = replicate 2 0" "bytes_at w 14 2 = replicate 2 0" "bytes_at w 16 4 = replicate 4 0"
    using assms(1) by (simp_all add: w_def write_bytes_inside heap_consts PAGE_SIZE_def z)
  have "le_u16 (replicate 2 0) = 0" "le_u32 (replicate 4 0) = 0"
    using le_word_round(1) [of 0] le_word_round(2) [of 0] by (simp_all add: u16_le_def u32_le_def)
  then have h: "slotted_slot_count w = 0" "slotted_data_used w = 0" "slotted_next_page_id w = 0"
    using b by (simp_all add: slotted_slot_count_def slotted_data_used_def slotted_next_page_id_def read_u16_def heap_consts)
  have c: "slot_count w = 0" by (simp add: slot_count_def h)
  have "length w = PAGE_SIZE" "stamp_checksum w = w"
    using assms(1) by (simp_all add: w_def heap_consts PAGE_SIZE_def)
  then show "slotted_wf w"
    by (intro slotted_wfI) (simp_all add: c slotted_data_start_def h heap_consts PAGE_SIZE_def)
  show "slots w = []" by (simp add: slots_def c)
  show "next_page_id w = None" by (simp add: next_page_id_def h heap_consts)
  show "slotted_data_start w = PAGE_SIZE" by (simp add: slotted_data_start_def h)
qed

lemma page_link_wf:
  fixes l :: u64 and q :: page_id
  assumes wf: "slotted_wf v"
  defines "w \<equiv> write_bytes v NEXT_PAGE_ID_OFFSET (u32_le q) l"
  shows "slotted_wf w" "slots w = slots v" "next_page_id w = (if q = NO_NEXT_PAGE then None else Some q)"
proof -
  note V = slotted_wfD [OF wf]
  have old: "bytes_at w o2 n = bytes_at v o2 n"
    if "12 \<le> o2" "o2 + n \<le> 16 \<or> 20 \<le> o2" "o2 + n \<le> PAGE_SIZE" for o2 n
    unfolding w_def by (rule write_bytes_other) (use that V(1) in \<open>auto simp: heap_consts PAGE_SIZE_def\<close>)
  have h: "slotted_slot_count w = slotted_slot_count v" "slotted_data_start w = slotted_data_start v"
    by (simp_all add: slotted_slot_count_def slotted_data_start_def slotted_data_used_def read_u16_def old heap_consts PAGE_SIZE_def)
  have c: "slot_count w = slot_count v" by (simp add: slot_count_def h)
  have b: "20 + slot_count v * 4 \<le> slotted_data_start v" "slotted_data_start v \<le> 4096"
    using V(3,4) by (simp_all add: heap_consts PAGE_SIZE_def)
  have entry: "slot_entry w k = slot_entry v k" if "k < slot_count v" for k
    using that b by (auto simp: slot_entry_def read_u16_def heap_consts PAGE_SIZE_def intro!: arg_cong [where f = le_u16] old)
  note same = slot_entry_same [OF entry]
  have wl: "length w = PAGE_SIZE" "stamp_checksum w = w"
    using V(1) by (simp_all add: w_def heap_consts PAGE_SIZE_def)
  show "slotted_wf w"
    by (rule slotted_wf_same [OF wf wl]) (simp_all add: h c entry)
  have "slot_data w k = slot_data v k" if "k < slot_count v" for k
    by (rule slot_data_same) (use that V(5) [of k] b in \<open>auto simp: entry intro!: old\<close>)
  then show "slots w = slots v" by (simp add: slots_def c)
  have "slotted_next_page_id w = q"
    using V(1) by (simp add: slotted_next_page_id_def w_def write_bytes_inside heap_consts PAGE_SIZE_def)
  then show "next_page_id w = (if q = NO_NEXT_PAGE then None else Some q)" by (simp add: next_page_id_def)
qed

lemma empty_page_fits:
  assumes "slots v = []" "slotted_data_start v = PAGE_SIZE" "length data \<le> MAX_TUPLE_SIZE"
  shows "page_fits v data"
  using assms by (simp add: page_fits_def MAX_TUPLE_SIZE_def heap_consts PAGE_SIZE_def slots_def)

end
