(* ===== verification/Flush_Crash.thy ===== *)
theory Flush_Crash
  imports Pool_Ops
begin

text \<open>
  A flush that is interrupted. The devices of the data file and of the double-write file get
  arbitrary fault schedules, so that any write or sync of the flush may fail after any number of
  bytes; what the failing flush leaves on the devices is what a crash at that point leaves. The
  lemmas say how far the file can have changed, that the log is durable by then, and that the
  repair at start-up undoes a torn write.
\<close>

section \<open>Devices with faults\<close>

definition reliable :: "fdevice \<Rightarrow> fdevice" where
  "reliable fd = fd\<lparr>fd_faults := []\<rparr>"

definition dm_left :: "disk_manager \<Rightarrow> disk_manager" where
  "dm_left dm = dm\<lparr>dm_device := reliable (dm_device dm)\<rparr>"

definition dw_left :: "double_write_buffer \<Rightarrow> double_write_buffer" where
  "dw_left dw = dw\<lparr>dw_device := reliable (dw_device dw)\<rparr>"

lemma left_simps [simp]:
  "fd_bytes (reliable fd) = fd_bytes fd" "fd_faults (reliable fd) = []"
  "dm_device (dm_left dm) = reliable (dm_device dm)" "dm_page_size (dm_left dm) = dm_page_size dm"
  "dm_next_page_id (dm_left dm) = dm_next_page_id dm" "dm_extended_len (dm_left dm) = dm_extended_len dm"
  "page_at (dm_left dm) p = page_at dm p"
  "dw_device (dw_left dw) = reliable (dw_device dw)" "dw_capacity (dw_left dw) = dw_capacity dw"
  by (simp_all add: reliable_def dm_left_def dw_left_def page_at_def)

lemma left_same: "disk_inv dm \<Longrightarrow> dm_left dm = dm" "dwb_inv dw \<Longrightarrow> dw_left dw = dw"
  by (simp_all add: disk_inv_def dwb_inv_def dm_left_def dw_left_def reliable_def)

lemma fd_write_effect:
  assumes "fd_write_at off bs fd = (r, fd')"
  shows "\<exists>k. fd_bytes fd' = dev_write_at (fd_bytes fd) off (take k bs) \<and> (r = Inr () \<longrightarrow> length bs \<le> k)"
proof (cases "fst (fd_next fd)")
  case None
  then have "fd_bytes fd' = dev_write_at (fd_bytes fd) off (take (length bs) bs)"
    using assms by (auto simp: fd_write_at_def fd_next_def split: list.splits prod.splits)
  then show ?thesis by blast
next
  case (Some ek)
  obtain e k where ek: "ek = (e, k)" by (cases ek)
  have "fd_bytes fd' = dev_write_at (fd_bytes fd) off (take k bs) \<and> r = Inl e"
    using assms Some ek by (auto simp: fd_write_at_def fd_next_def split: list.splits prod.splits)
  then show ?thesis by blast
qed

lemma fd_ok_reliable:
  "fd_write_at off bs fd = (Inr (), fd') \<Longrightarrow> fd_write_at off bs (reliable fd) = (Inr (), reliable fd')"
  "fd_sync_all fd = (Inr (), fd') \<Longrightarrow> fd_sync_all (reliable fd) = (Inr (), reliable fd')"
  by (auto simp: fd_write_at_def fd_sync_all_def fd_next_def reliable_def split: list.splits option.splits prod.splits)

lemma fd_sync_bytes: "fd_sync_all fd = (r, fd') \<Longrightarrow> fd_bytes fd' = fd_bytes fd"
  by (auto simp: fd_sync_all_def fd_next_def split: list.splits option.splits prod.splits)

section \<open>The data file\<close>

lemma page_of_torn_write:
  assumes "off + length bs \<le> length d"
  shows "bytes_at (dev_write_at d off (take k bs)) off (length bs) = take k bs @ drop k (bytes_at d off (length bs))"
proof -
  have "dev_write_at d off (take k bs) = splice d off (take k bs)"
    using assms by (intro dev_write_at_inside) simp
  then show ?thesis
    using assms by (simp add: bytes_at_def splice_def min_def drop_take add.commute)
qed

text \<open>One page write: the page has the first \<open>k\<close> bytes of the new image, all of them when it succeeds.\<close>

lemma write_page_faulty:
  assumes inv: "disk_inv (dm_left dm)" and pid: "pid < dm_next_page_id dm" and len: "length data = PAGE_SIZE"
    and w: "write_page pid data dm = (r, dm')"
  shows "disk_inv (dm_left dm')" "dm_next_page_id dm' = dm_next_page_id dm"
    "\<exists>k. page_at dm' pid = take k (stamp_checksum data) @ drop k (page_at dm pid)"
    "r = Inr () \<Longrightarrow> page_at dm' pid = stamp_checksum data"
    "q < dm_next_page_id dm \<Longrightarrow> q \<noteq> pid \<Longrightarrow> page_at dm' q = page_at dm q"
proof -
  let ?off = "unat pid * PAGE_SIZE" and ?s = "stamp_checksum data"
  have s: "length ?s = PAGE_SIZE" using len by simp
  have off: "disk_offset_of dm pid = ?off" using inv by (simp add: disk_offset_of_def disk_inv_def)
  have fits: "?off + length ?s \<le> length (dm_bytes dm)"
    using disk_inv_page_fits [OF inv, of pid] pid s by simp
  obtain fd' where fd: "fd_write_at ?off ?s (dm_device dm) = (r, fd')" "dm' = dm\<lparr>dm_device := fd'\<rparr>"
    using w by (auto simp: write_page_def dm_on_def off split: prod.splits)
  obtain k where k: "fd_bytes fd' = dev_write_at (dm_bytes dm) ?off (take k ?s)" "r = Inr () \<longrightarrow> PAGE_SIZE \<le> k"
    using fd_write_effect [OF fd(1)] s by auto
  have sp: "fd_bytes fd' = splice (dm_bytes dm) ?off (take k ?s)"
    unfolding k(1) using fits by (intro dev_write_at_inside) simp
  have fits': "?off + length (take k ?s) \<le> length (dm_bytes dm)" using fits by simp
  show "dm_next_page_id dm' = dm_next_page_id dm" by (simp add: fd(2))
  show "disk_inv (dm_left dm')" using inv fits' by (simp add: disk_inv_def fd(2) sp)
  have pg: "page_at dm' pid = take k ?s @ drop k (page_at dm pid)"
    using page_of_torn_write [OF fits, of k] s by (simp add: page_at_def fd(2) k(1))
  then show "\<exists>k. page_at dm' pid = take k ?s @ drop k (page_at dm pid)" by blast
  show "page_at dm' pid = ?s" if "r = Inr ()"
    using pg k(2) that s fits by (simp add: page_at_def bytes_at_def)
  show "page_at dm' q = page_at dm q" if "q < dm_next_page_id dm" "q \<noteq> pid"
  proof -
    have "unat q \<noteq> unat pid" using that(2) by (simp add: word_unat_eq_iff)
    then have "unat q * PAGE_SIZE + PAGE_SIZE \<le> ?off \<or> ?off + length (take k ?s) \<le> unat q * PAGE_SIZE"
      using page_ranges_apart [of "unat q" "unat pid" PAGE_SIZE] s by auto
    then show ?thesis
      using fits' disk_inv_page_fits [OF inv, of q] that(1)
      by (simp add: page_at_def fd(2) sp bytes_at_splice_other)
  qed
qed

text \<open>A page of the file after an interrupted run of writes: as before, or (partly) overwritten.\<close>

definition partly_written :: "page list \<Rightarrow> disk_manager \<Rightarrow> disk_manager \<Rightarrow> page_id \<Rightarrow> bool" where
  "partly_written ps dm dm' q \<longleftrightarrow> page_at dm' q = page_at dm q \<or>
     (\<exists>p k. p \<in> set ps \<and> pg_id p = q \<and> page_at dm' q = take k (stamp_checksum (pg_data p)) @ drop k (page_at dm q))"

lemma write_pages_faulty:
  assumes "disk_inv (dm_left (bp_disk bp))" "distinct (map pg_id ps)"
    "\<And>p. p \<in> set ps \<Longrightarrow> length (pg_data p) = PAGE_SIZE \<and> pg_id p < next_page bp"
    "sforeach ps (\<lambda>p. on_disk (write_page (pg_id p) (pg_data p))) bp = (r, bp')"
  shows "bp' = bp\<lparr>bp_disk := bp_disk bp'\<rparr> \<and> disk_inv (dm_left (bp_disk bp')) \<and> next_page bp' = next_page bp \<and>
    (\<forall>q < next_page bp. partly_written ps (bp_disk bp) (bp_disk bp') q) \<and>
    (r = Inr () \<longrightarrow> (\<forall>p \<in> set ps. page_at (bp_disk bp') (pg_id p) = stamp_checksum (pg_data p)) \<and>
       (\<forall>q < next_page bp. q \<notin> pg_id ` set ps \<longrightarrow> page_at (bp_disk bp') q = page_at (bp_disk bp) q))"
  using assms
proof (induction ps arbitrary: bp)
  case Nil
  then show ?case by (simp add: partly_written_def)
next
  case (Cons p ps)
  have p: "length (pg_data p) = PAGE_SIZE" "pg_id p < next_page bp" using Cons.prems(3) [of p] by simp_all
  obtain r1 dm1 where w: "write_page (pg_id p) (pg_data p) (bp_disk bp) = (r1, dm1)" by fastforce
  note W = write_page_faulty [OF Cons.prems(1) p(2,1) w]
  have step: "on_disk (write_page (pg_id p) (pg_data p)) bp = (r1, bp\<lparr>bp_disk := dm1\<rparr>)"
    by (simp add: on_disk_def w)
  have part1: "partly_written (p # ps) (bp_disk bp) dm1 q" if "q < next_page bp" for q
    using W(3) W(5) [of q] that unfolding partly_written_def by (cases "q = pg_id p") auto
  show ?case
  proof (cases r1)
    case (Inl e)
    then show ?thesis using Cons.prems(4) step W(1,2) part1 by (auto simp: sbind_Inl)
  next
    case (Inr u)
    have rest: "sforeach ps (\<lambda>p. on_disk (write_page (pg_id p) (pg_data p))) (bp\<lparr>bp_disk := dm1\<rparr>) = (r, bp')"
      using Cons.prems(4) step Inr by (simp add: sbind_Inr)
    have ih: "bp' = bp\<lparr>bp_disk := bp_disk bp'\<rparr>" "disk_inv (dm_left (bp_disk bp'))" "next_page bp' = next_page bp"
      "\<forall>q < next_page bp. partly_written ps dm1 (bp_disk bp') q"
      "r = Inr () \<longrightarrow> (\<forall>p \<in> set ps. page_at (bp_disk bp') (pg_id p) = stamp_checksum (pg_data p)) \<and>
         (\<forall>q < next_page bp. q \<notin> pg_id ` set ps \<longrightarrow> page_at (bp_disk bp') q = page_at dm1 q)"
      using Cons.IH [OF _ _ _ rest] Cons.prems(2,3) W(1,2) by auto
    have "partly_written (p # ps) (bp_disk bp) (bp_disk bp') q" if q: "q < next_page bp" for q
    proof (cases "q = pg_id p")
      case True
      then have "q \<notin> pg_id ` set ps" using Cons.prems(2) by auto
      then have "page_at (bp_disk bp') q = page_at dm1 q" using ih(4) q by (auto simp: partly_written_def)
      then show ?thesis using part1 [OF q] by (simp add: partly_written_def)
    next
      case False
      then have "partly_written ps dm1 (bp_disk bp') q" using ih(4) q by blast
      then show ?thesis unfolding partly_written_def W(5) [OF q False] by (metis list.set_intros(2))
    qed
    moreover have "page_at (bp_disk bp') (pg_id p) = stamp_checksum (pg_data p)" if "r = Inr ()"
      using ih(5) that W(4) Inr p(2) Cons.prems(2) by auto
    ultimately show ?thesis using ih(1,2,3,5) W(5) by auto
  qed
qed

section \<open>The double-write file\<close>

text \<open>Whatever fails, the file does not shrink; and a batch written without an error is complete.\<close>

lemma dw_write_grows:
  assumes "dw_on (fd_write_at off bs) dw = (r, dw')"
  shows "dw_capacity dw' = dw_capacity dw" "length (dw_bytes dw) \<le> length (dw_bytes dw')"
    "r = Inr () \<Longrightarrow> dw_on (fd_write_at off bs) (dw_left dw) = (Inr (), dw_left dw')"
proof -
  obtain fd' where fd: "fd_write_at off bs (dw_device dw) = (r, fd')" "dw' = dw\<lparr>dw_device := fd'\<rparr>"
    using assms by (auto simp: dw_on_def split: prod.splits)
  show "dw_capacity dw' = dw_capacity dw" by (simp add: fd(2))
  show "length (dw_bytes dw) \<le> length (dw_bytes dw')"
    using fd_write_effect [OF fd(1)] by (auto simp: fd(2) length_dev_write_at)
  show "dw_on (fd_write_at off bs) (dw_left dw) = (Inr (), dw_left dw')" if "r = Inr ()"
    using fd_ok_reliable(1) [of off bs "dw_device dw" fd'] fd that by (simp add: dw_on_def dw_left_def)
qed

lemma dw_sync_keeps:
  assumes "dw_on fd_sync_all dw = (r, dw')"
  shows "dw_capacity dw' = dw_capacity dw" "dw_bytes dw' = dw_bytes dw"
    "r = Inr () \<Longrightarrow> dw_on fd_sync_all (dw_left dw) = (Inr (), dw_left dw')"
proof -
  obtain fd' where fd: "fd_sync_all (dw_device dw) = (r, fd')" "dw' = dw\<lparr>dw_device := fd'\<rparr>"
    using assms by (auto simp: dw_on_def split: prod.splits)
  show "dw_capacity dw' = dw_capacity dw" "dw_bytes dw' = dw_bytes dw" using fd_sync_bytes [OF fd(1)] by (simp_all add: fd(2))
  show "dw_on fd_sync_all (dw_left dw) = (Inr (), dw_left dw')" if "r = Inr ()"
    using fd_ok_reliable(2) [of "dw_device dw" fd'] fd that by (simp add: dw_on_def dw_left_def)
qed

definition dwb_grows :: "(double_write_buffer, storage_error, unit) sresult \<Rightarrow> bool" where
  "dwb_grows m \<longleftrightarrow> (\<forall>dw r dw'. m dw = (r, dw') \<longrightarrow>
     dw_capacity dw' = dw_capacity dw \<and> length (dw_bytes dw) \<le> length (dw_bytes dw') \<and>
     (r = Inr () \<longrightarrow> m (dw_left dw) = (Inr (), dw_left dw')))"

lemma dwb_growsD:
  assumes "dwb_grows m" "m dw = (r, dw')"
  shows "dw_capacity dw' = dw_capacity dw" "length (dw_bytes dw) \<le> length (dw_bytes dw')"
    "r = Inr () \<Longrightarrow> m (dw_left dw) = (Inr (), dw_left dw')"
  using assms unfolding dwb_grows_def by blast+

lemma dwb_grows_bind:
  assumes "dwb_grows m" "dwb_grows m'"
  shows "dwb_grows (sbind m (\<lambda>_. m'))"
  unfolding dwb_grows_def
proof (intro allI impI)
  fix dw r dw' assume b: "sbind m (\<lambda>_. m') dw = (r, dw')"
  obtain r1 dw1 where 1: "m dw = (r1, dw1)" by fastforce
  note M = dwb_growsD [OF assms(1) 1]
  show "dw_capacity dw' = dw_capacity dw \<and> length (dw_bytes dw) \<le> length (dw_bytes dw') \<and>
      (r = Inr () \<longrightarrow> sbind m (\<lambda>_. m') (dw_left dw) = (Inr (), dw_left dw'))"
  proof (cases r1)
    case (Inl e)
    then show ?thesis using b 1 M by (auto simp: sbind_Inl)
  next
    case (Inr u)
    then have "m' dw1 = (r, dw')" using b 1 by (simp add: sbind_Inr)
    from dwb_growsD [OF assms(2) this] show ?thesis using M Inr by (auto simp: sbind_Inr)
  qed
qed

lemma dwb_grows_ops:
  "dwb_grows (sreturn ())" "dwb_grows (dw_on (fd_write_at off bs))" "dwb_grows (dw_on fd_sync_all)"
  "dwb_grows (write_slots i ps)" "dwb_grows (write_batch ps)" "dwb_grows clear_batch"
proof -
  show 1: "dwb_grows (sreturn ())" by (simp add: dwb_grows_def)
  show 2: "dwb_grows (dw_on (fd_write_at off bs))" for off bs
    using dw_write_grows unfolding dwb_grows_def by blast
  show 3: "dwb_grows (dw_on fd_sync_all)" using dw_sync_keeps unfolding dwb_grows_def by (metis order_refl)
  show 4: "dwb_grows (write_slots i ps)" for i ps
    by (induction ps arbitrary: i) (auto simp: 1 intro: dwb_grows_bind [OF 2])
  show "dwb_grows (write_batch ps)" "dwb_grows clear_batch"
    unfolding write_batch_def clear_batch_def by (intro dwb_grows_bind 2 3 4)+
qed

lemma dwb_inv_left:
  assumes "dwb_inv (dw_left dw)" "dwb_grows m" "m dw = (r, dw')"
  shows "dwb_inv (dw_left dw')"
  using assms(1) dwb_growsD(1,2) [OF assms(2,3)] by (simp add: dwb_inv_def)

section \<open>The interrupted flush\<close>

definition with_faults :: "(storage_error \<times> nat) option list \<Rightarrow> (storage_error \<times> nat) option list \<Rightarrow> buffer_pool \<Rightarrow> buffer_pool" where
  "with_faults fs gs bp = bp
     \<lparr>bp_disk := (bp_disk bp)\<lparr>dm_device := (dm_device (bp_disk bp))\<lparr>fd_faults := fs\<rparr>\<rparr>,
      bp_dwb := (bp_dwb bp)\<lparr>dw_device := (dw_device (bp_dwb bp))\<lparr>fd_faults := gs\<rparr>\<rparr>\<rparr>"

lemma with_faults_left:
  "disk_inv (bp_disk bp) \<Longrightarrow> dm_left (bp_disk (with_faults fs gs bp)) = bp_disk bp"
  "dwb_inv (bp_dwb bp) \<Longrightarrow> dw_left (bp_dwb (with_faults fs gs bp)) = bp_dwb bp"
  "bp_log (with_faults fs gs bp) = bp_log bp" "bp_frames (with_faults fs gs bp) = bp_frames bp"
  "bp_flush_poisoned (with_faults fs gs bp) = bp_flush_poisoned bp"
  "page_at (bp_disk (with_faults fs gs bp)) p = page_at (bp_disk bp) p" "next_page (with_faults fs gs bp) = next_page bp"
  by (simp_all add: with_faults_def dm_left_def dw_left_def reliable_def disk_inv_def dwb_inv_def page_at_def)

lemma mark_all_clean_storage [simp]:
  "bp_disk (mark_all_clean xs bp) = bp_disk bp" "bp_dwb (mark_all_clean xs bp) = bp_dwb bp"
  "bp_log (mark_all_clean xs bp) = bp_log bp"
  by (induction xs bp rule: mark_all_clean.induct) (simp_all add: mark_clean_def set_frame_def)

text \<open>The storage after an interrupted flush of the images \<open>snap\<close>: the log has been flushed, and either
  no page was touched, or some pages are partly written while the double-write file has them all,
  or every page is written.\<close>

definition flush_left :: "page list \<Rightarrow> buffer_pool \<Rightarrow> buffer_pool \<Rightarrow> bool" where
  "flush_left snap bp bp' \<longleftrightarrow>
     disk_inv (dm_left (bp_disk bp')) \<and> next_page bp' = next_page bp \<and> dwb_inv (dw_left (bp_dwb bp')) \<and>
     bp_log bp' = flush_log (bp_log bp) (max_page_lsn snap) \<and>
     ((\<forall>q < next_page bp. page_at (bp_disk bp') q = page_at (bp_disk bp) q) \<or>
      (\<forall>q < next_page bp. partly_written snap (bp_disk bp) (bp_disk bp') q) \<and> batch_ready (dw_left (bp_dwb bp')) snap \<or>
      (\<forall>p \<in> set snap. page_at (bp_disk bp') (pg_id p) = stamp_checksum (pg_data p)) \<and>
        (\<forall>q < next_page bp. q \<notin> pg_id ` set snap \<longrightarrow> page_at (bp_disk bp') q = page_at (bp_disk bp) q))"

lemma write_snapshot_interrupted:
  assumes disk: "disk_inv (dm_left (bp_disk bp))" and dwb: "batch_ready (dw_left (bp_dwb bp)) snap"
    and dist: "distinct (map pg_id snap)"
    and img: "\<And>p. p \<in> set snap \<Longrightarrow> length (pg_data p) = PAGE_SIZE \<and> pg_id p < next_page bp"
    and w: "write_snapshot snap bp = (r, bp')"
  shows "disk_inv (dm_left (bp_disk bp')) \<and> next_page bp' = next_page bp \<and> dwb_inv (dw_left (bp_dwb bp')) \<and>
    bp_log bp' = bp_log bp \<and>
    ((\<forall>q < next_page bp. partly_written snap (bp_disk bp) (bp_disk bp') q) \<and> batch_ready (dw_left (bp_dwb bp')) snap \<or>
     (\<forall>p \<in> set snap. page_at (bp_disk bp') (pg_id p) = stamp_checksum (pg_data p)) \<and>
       (\<forall>q < next_page bp. q \<notin> pg_id ` set snap \<longrightarrow> page_at (bp_disk bp') q = page_at (bp_disk bp) q))"
proof -
  let ?loop = "sforeach snap (\<lambda>p. on_disk (write_page (pg_id p) (pg_data p)))"
  obtain r1 bp1 where 1: "?loop bp = (r1, bp1)" by fastforce
  note L = write_pages_faulty [OF disk dist img 1]
  have dwi: "dwb_inv (dw_left (bp_dwb bp))" using dwb by (simp add: batch_ready_def)
  have same: "bp_dwb bp1 = bp_dwb bp" "bp_log bp1 = bp_log bp"
    using L by (metis buffer_pool.ext_inject buffer_pool.surjective buffer_pool.update_convs(1))+
  show ?thesis
  proof (cases r1)
    case (Inl e)
    then have "bp' = bp1" using w 1 by (simp add: write_snapshot_def sbind_Inl)
    then show ?thesis using L dwb dwi same by auto
  next
    case (Inr u)
    obtain r2 dm2 where 2: "disk_sync (bp_disk bp1) = (r2, dm2)" by fastforce
    obtain fd where fd: "fd_sync_all (dm_device (bp_disk bp1)) = (r2, fd)" "dm2 = (bp_disk bp1)\<lparr>dm_device := fd\<rparr>"
      using 2 by (auto simp: disk_sync_def dm_on_def split: prod.splits)
    have left: "dm_left dm2 = dm_left (bp_disk bp1)" "page_at dm2 q = page_at (bp_disk bp1) q" for q
      using fd_sync_bytes [OF fd(1)] by (simp_all add: fd(2) dm_left_def reliable_def page_at_def)
    have nx: "dm_next_page_id dm2 = next_page bp1" by (simp add: fd(2))
    obtain r3 dw3 where 3: "clear_batch (bp_dwb bp) = (r3, dw3)" by fastforce
    have dw3: "dwb_inv (dw_left dw3)" by (rule dwb_inv_left [OF dwi dwb_grows_ops(6) 3])
    have go: "sbind (on_disk disk_sync) (\<lambda>_. on_dwb clear_batch) bp1 = (r, bp')"
      using w 1 Inr by (simp add: write_snapshot_def sbind_Inr)
    have "bp' = bp1\<lparr>bp_disk := dm2\<rparr> \<or> bp' = bp1\<lparr>bp_disk := dm2, bp_dwb := dw3\<rparr>"
      using go 2 3 same(1) by (cases r2) (simp_all add: sbind_def on_disk_def on_dwb_def)
    then show ?thesis using L Inr left nx dwi dw3 same by auto
  qed
qed

lemma flush_interrupted:
  assumes st: "storage_ok bp" and ne: "pages \<noteq> []" and cap: "length pages \<le> dw_capacity (bp_dwb bp)"
    and dist: "distinct (map snd pages)"
    and holds: "\<And>f p. (f, p) \<in> set pages \<Longrightarrow> f < nframes bp \<and> frame_holds bp f p"
    and r: "flush_pages pages (with_faults fs gs bp) = (r, bp')"
  shows "flush_left (map (\<lambda>(f, _). fr_page (frame_at bp f)) pages) bp bp'"
proof -
  define snap where "snap = map (\<lambda>(f, _). fr_page (frame_at bp f)) pages"
  let ?bp1 = "(with_faults fs gs bp)\<lparr>bp_flush_in_flight := True, bp_log := flush_log (bp_log bp) (max_page_lsn snap)\<rparr>"
  have inv: "disk_inv (bp_disk bp)" "dwb_inv (bp_dwb bp)" using st by (simp_all add: storage_ok_def)
  note W = with_faults_left(1) [OF inv(1), of fs gs] with_faults_left(2) [OF inv(2), of fs gs] with_faults_left(3-7) [of fs gs bp]
  have img: "length (pg_data q) = PAGE_SIZE \<and> pg_id q < next_page bp" if "q \<in> set snap" for q
    using that holds by (auto simp: frame_holds_def snap_def)
  have ids: "map pg_id snap = map snd pages"
    using holds by (auto simp: frame_holds_def case_prod_unfold snap_def)
  obtain r2 dw2 where 2: "write_batch snap (bp_dwb (with_faults fs gs bp)) = (r2, dw2)" by fastforce
  have dwi: "dwb_inv (dw_left dw2)" by (rule dwb_inv_left [OF _ dwb_grows_ops(5) 2]) (simp add: W inv)
  obtain r0 bp0 where 0: "flush_leased pages ((with_faults fs gs bp)\<lparr>bp_flush_in_flight := True\<rparr>) = (r0, bp0)"
    and bp': "bp' = bp0\<lparr>bp_flush_in_flight := False\<rparr>"
    using r ne st by (auto simp: flush_pages_def W storage_ok_def Let_def split: prod.splits)
  have go: "sbind (on_dwb (write_batch snap)) (\<lambda>_. sbind (poison_on_error (write_snapshot snap)) (\<lambda>_.
      smodify (mark_all_clean (zip (map fst pages) snap)))) ?bp1 = (r0, bp0)"
    using 0 by (simp add: flush_leased_def Let_def pool_flush_log_def W snap_def [symmetric])
  have batch: "on_dwb (write_batch snap) ?bp1 = (r2, ?bp1\<lparr>bp_dwb := dw2\<rparr>)" by (simp add: on_dwb_def 2)
  show ?thesis
  proof (cases r2)
    case (Inl e)
    then have "bp0 = ?bp1\<lparr>bp_dwb := dw2\<rparr>" using go batch by (simp add: sbind_Inl)
    then show ?thesis unfolding snap_def [symmetric] flush_left_def using bp' W inv dwi by simp
  next
    case (Inr u)
    have "write_batch snap (bp_dwb bp) = (Inr (), dw_left dw2)"
      using dwb_growsD(3) [OF dwb_grows_ops(5) 2] Inr W by simp
    then have ready: "batch_ready (dw_left dw2) snap"
      using write_batch_ready [OF inv(2), of snap] ne cap img by (auto simp: snap_def)
    obtain r3 bp3 where 3: "write_snapshot snap (?bp1\<lparr>bp_dwb := dw2\<rparr>) = (r3, bp3)" by fastforce
    have S: "disk_inv (dm_left (bp_disk bp3)) \<and> next_page bp3 = next_page bp \<and> dwb_inv (dw_left (bp_dwb bp3)) \<and>
      bp_log bp3 = flush_log (bp_log bp) (max_page_lsn snap) \<and>
      ((\<forall>q < next_page bp. partly_written snap (bp_disk bp) (bp_disk bp3) q) \<and> batch_ready (dw_left (bp_dwb bp3)) snap \<or>
       (\<forall>p \<in> set snap. page_at (bp_disk bp3) (pg_id p) = stamp_checksum (pg_data p)) \<and>
         (\<forall>q < next_page bp. q \<notin> pg_id ` set snap \<longrightarrow> page_at (bp_disk bp3) q = page_at (bp_disk bp) q))"
      using write_snapshot_interrupted [OF _ _ _ _ 3] ready inv dist ids img W by (simp add: partly_written_def)
    have "bp_disk bp0 = bp_disk bp3 \<and> bp_dwb bp0 = bp_dwb bp3 \<and> bp_log bp0 = bp_log bp3"
      using go batch Inr 3 by (cases r3) (auto simp: sbind_def poison_on_error_def)
    then show ?thesis unfolding snap_def [symmetric] flush_left_def using bp' S by simp
  qed
qed

section \<open>Repair after the crash\<close>

lemma restore_no_damage:
  assumes "disk_inv dm" "\<And>q. q < dm_next_page_id dm \<Longrightarrow> checksum_ok (page_at dm q)"
  shows "snd (restore_entries dw entries index es dm) = dm"
proof (induction es arbitrary: index)
  case Nil
  then show ?case by simp
next
  case (Cons e es)
  obtain pid crc where e: "e = (pid, crc)" by (cases e)
  have ok: "checksum_ok b" if "read_page_unchecked dm pid = Inr b" for b
    using that assms read_page_unchecked_eq [OF assms(1), of pid] by (auto split: if_splits)
  show ?case
    using Cons.IH ok by (auto simp: e Let_def sbind_def split: sum.splits prod.splits storage_error.splits)
qed

lemma recover_no_damage:
  assumes "disk_inv dm" "dwb_inv dw" "\<And>q. q < dm_next_page_id dm \<Longrightarrow> checksum_ok (page_at dm q)"
    "recover_double_write (dm, dw) = (Inr (), dm', dw')"
  shows "dm' = dm" "dwb_inv dw'"
proof -
  have sync: "disk_sync dm = (Inr (), dm)" using assms(1) by (simp add: disk_sync_def dm_on_def disk_inv_def)
  obtain dw1 where cl: "clear_batch dw = (Inr (), dw1)" "dwb_inv dw1" using clear_batch_eq assms(2) by blast
  have keep: "dm1 = dm" if "restore_entries dw es 0 es dm = (r, dm1)" for es r dm1
    using restore_no_damage [OF assms(1,3), of dw es 0 es] that by simp
  have "dm' = dm \<and> dwb_inv dw'"
    using assms(2,4) cl(2) by (auto simp: recover_double_write_def sync cl(1) split: sum.splits option.splits prod.splits dest!: keep)
  then show "dm' = dm" "dwb_inv dw'" by simp_all
qed

text \<open>That a page torn in the middle of a write fails its checksum is what the checksum is for; it
  cannot be proved of a 32-bit code and is an assumption of the crash below.\<close>

definition torn_detected :: "page list \<Rightarrow> buffer_pool \<Rightarrow> buffer_pool \<Rightarrow> bool" where
  "torn_detected snap bp bp' \<longleftrightarrow> (\<forall>q < next_page bp. checksum_ok (page_at (bp_disk bp') q) \<longrightarrow>
     page_at (bp_disk bp') q = page_at (bp_disk bp) q \<or>
     (\<exists>p \<in> set snap. pg_id p = q \<and> page_at (bp_disk bp') q = stamp_checksum (pg_data p)))"

lemma torn_flush_repaired:
  assumes left: "flush_left snap bp bp'" and old: "\<And>q. q < next_page bp \<Longrightarrow> checksum_ok (page_at (bp_disk bp) q)"
    and sound: "\<And>p. p \<in> set snap \<Longrightarrow> sound_image p" and det: "torn_detected snap bp bp'"
    and rec: "recover_double_write (dm_left (bp_disk bp'), dw_left (bp_dwb bp')) = (Inr (), dm, dw)"
  shows "disk_inv dm" "dm_next_page_id dm = next_page bp" "dwb_inv dw"
    "q < next_page bp \<Longrightarrow> page_at dm q = page_at (bp_disk bp) q \<or>
       (\<exists>p \<in> set snap. pg_id p = q \<and> page_at dm q = stamp_checksum (pg_data p))"
proof -
  let ?dm = "dm_left (bp_disk bp')" and ?dw = "dw_left (bp_dwb bp')"
  have inv: "disk_inv ?dm" "dwb_inv ?dw" and nx: "next_page bp' = next_page bp" using left by (simp_all add: flush_left_def)
  have stamped: "checksum_ok (stamp_checksum (pg_data p))" if "p \<in> set snap" for p
    using checksum_ok_image [OF sound [OF that]] .
  have "disk_inv dm \<and> dm_next_page_id dm = next_page bp \<and> dwb_inv dw \<and> (\<forall>q < next_page bp.
      page_at dm q = page_at (bp_disk bp) q \<or> (\<exists>p \<in> set snap. pg_id p = q \<and> page_at dm q = stamp_checksum (pg_data p)))"
  proof (cases "\<forall>q < next_page bp. checksum_ok (page_at (bp_disk bp') q)")
    case True
    then have "dm = ?dm" "dwb_inv dw" using recover_no_damage [OF inv _ rec] nx by simp_all
    then show ?thesis using inv nx det True by (simp add: torn_detected_def)
  next
    case False
    then obtain x where x: "x < next_page bp" "\<not> checksum_ok (page_at (bp_disk bp') x)" by blast
    have "\<not> (\<forall>q < next_page bp. page_at (bp_disk bp') q = page_at (bp_disk bp) q)" using x old [OF x(1)] by metis
    moreover have "\<not> ((\<forall>p \<in> set snap. page_at (bp_disk bp') (pg_id p) = stamp_checksum (pg_data p)) \<and>
        (\<forall>q < next_page bp. q \<notin> pg_id ` set snap \<longrightarrow> page_at (bp_disk bp') q = page_at (bp_disk bp) q))"
      using x old [OF x(1)] stamped by (metis imageE)
    ultimately have part: "\<forall>q < next_page bp. partly_written snap (bp_disk bp) (bp_disk bp') q" and ready: "batch_ready ?dw snap"
      using left unfolding flush_left_def by blast+
    obtain dm1 dw1 where r: "recover_double_write (?dm, ?dw) = (Inr (), dm1, dw1)" "disk_inv dm1"
      "dm_next_page_id dm1 = next_page bp'" "\<forall>q < next_page bp'. page_at dm1 q = repaired snap q (page_at (bp_disk bp') q)"
      "dwb_inv dw1"
      using recover_batch [OF ready inv(1) sound] by auto
    have eq: "dm1 = dm" "dw1 = dw" using r(1) rec by simp_all
    have "page_at dm q = page_at (bp_disk bp) q \<or> (\<exists>p \<in> set snap. pg_id p = q \<and> page_at dm q = stamp_checksum (pg_data p))"
      if q: "q < next_page bp" for q
    proof (cases "checksum_ok (page_at (bp_disk bp') q)")
      case True
      then show ?thesis using r(4) eq nx q det by (simp add: repaired_simps torn_detected_def)
    next
      case False
      then have "page_at (bp_disk bp') q \<noteq> page_at (bp_disk bp) q" using old [OF q] by metis
      then obtain p0 where "p0 \<in> set snap" "pg_id p0 = q" using part q by (auto simp: partly_written_def)
      then obtain p where p: "find (\<lambda>p. pg_id p = q) snap = Some p"
        by (cases "find (\<lambda>p. pg_id p = q) snap") (auto simp: find_None_iff)
      then have "p \<in> set snap" "pg_id p = q" by (auto simp: find_Some_iff)
      then show ?thesis using r(4) eq nx q False p by (auto simp: repaired_def)
    qed
    then show ?thesis using r eq nx by simp
  qed
  then show "disk_inv dm" "dm_next_page_id dm = next_page bp" "dwb_inv dw"
    "q < next_page bp \<Longrightarrow> page_at dm q = page_at (bp_disk bp) q \<or>
       (\<exists>p \<in> set snap. pg_id p = q \<and> page_at dm q = stamp_checksum (pg_data p))"
    by blast+
qed

end
