(* ===== verification/Pool_Run.thy ===== *)
theory Pool_Run
  imports Flush_Crash
begin

text \<open>
  A buffer pool from its construction on: a new pool over sound storage satisfies the invariant, the
  flushes bring the file up to date, a pool whose frames are all pinned refuses, and every sequence
  of pool operations, crashes (also inside a flush) and restarts keeps the write-ahead rule.
\<close>

section \<open>A new pool\<close>

lemma pool_new_inv:
  assumes "disk_inv dm" "dwb_inv dw" "log_run lm rs"
    and pages: "\<And>p. p < dm_next_page_id dm \<Longrightarrow> checksum_ok (page_at dm p) \<and> unat (page_lsn (page_at dm p)) < lm_durable_lsn lm"
  shows "pool_inv (pool_new dm dw lm n (lru_new n k))"
    "pool_view (pool_new dm dw lm n (lru_new n k)) p = (if p < dm_next_page_id dm then Some (stamp_checksum (page_at dm p)) else None)"
    "pool_pins (pool_new dm dw lm n (lru_new n k)) = (\<lambda>_. 0)"
proof -
  let ?bp = "pool_new dm dw lm n (lru_new n k)"
  have sel: "bp_disk ?bp = dm" "bp_dwb ?bp = dw" "bp_log ?bp = lm" "nframes ?bp = n" "bp_page_table ?bp = fmempty"
    "bp_frame_page ?bp = replicate n None" "bp_free_list ?bp = [0..<n]" "bp_replacer ?bp = lru_new n k"
    "bp_owned ?bp = replicate n False" "bp_loading ?bp = {||}" "bp_evicting ?bp = {||}"
    "bp_flush_poisoned ?bp = False" "bp_flush_in_flight ?bp = False"
    "bp_frames ?bp = replicate n \<lparr>fr_page = page_new 0, fr_pin = 0, fr_dirty = 0\<rparr>"
    by (simp_all add: pool_new_def)
  have "index_inv None ?bp"
    by (rule index_invI, unfold sel) (auto simp: tracked_frames_def evictable_frames_def lru_new_def)
  moreover have "content_inv ?bp"
    unfolding content_inv_def storage_ok_def disk_content_def sel using assms by auto
  ultimately show "pool_inv ?bp" by (simp add: pool_inv_def sel)
  show "pool_view ?bp p = (if p < dm_next_page_id dm then Some (stamp_checksum (page_at dm p)) else None)"
    by (simp add: pool_view_def sel)
  show "pool_pins ?bp = (\<lambda>_. 0)" by (simp add: pool_pins_def sel fun_eq_iff)
qed

section \<open>Flushing\<close>

definition flushable :: "(frame_id \<times> page_id) list \<Rightarrow> buffer_pool \<Rightarrow> bool" where
  "flushable pages bp \<longleftrightarrow> distinct (map snd pages) \<and>
     (\<forall>(f, p) \<in> set pages. f < nframes bp \<and> bp_frame_page bp ! f = Some p)"

definition flushed :: "(frame_id \<times> page_id) list \<Rightarrow> buffer_pool \<Rightarrow> buffer_pool \<Rightarrow> bool" where
  "flushed pages bp bp' \<longleftrightarrow> pool_inv bp' \<and> stutter bp bp' \<and> pool_pins bp' = pool_pins bp \<and>
     bp_frame_page bp' = bp_frame_page bp \<and> bp_page_table bp' = bp_page_table bp \<and>
     (\<forall>f < nframes bp. fr_dirty (frame_at bp' f) = (if f \<in> fst ` set pages then 0 else fr_dirty (frame_at bp f)))"

lemma index_inv_frames:
  assumes "index_inv own bp" "length frs = nframes bp" "\<And>f. f < nframes bp \<Longrightarrow> fr_pin (frs ! f) = fr_pin (frame_at bp f)"
  shows "index_inv own (bp\<lparr>bp_frames := frs\<rparr>)"
  using assms unfolding index_inv_def by auto

lemma frame_page_inj:
  assumes "index_inv own bp" "f < nframes bp" "g < nframes bp" "bp_frame_page bp ! f = Some p" "bp_frame_page bp ! g = Some p"
  shows "f = g"
  using index_invD(4) [OF assms(1), of p f] index_invD(4) [OF assms(1), of p g] assms by simp

lemma flush_pages_effect:
  assumes inv: "pool_inv bp" and fl: "flushable pages bp" and cap: "length pages \<le> dw_capacity (bp_dwb bp)"
  shows "\<exists>bp'. flush_pages pages bp = (Inr (), bp') \<and> flushed pages bp bp'"
proof (cases "pages = []")
  case True
  have "\<not> bp_flush_poisoned bp" using inv by (simp add: pool_inv_def content_inv_def storage_ok_def)
  then show ?thesis using True inv by (simp add: flush_pages_def flushed_def)
next
  case False
  have ii: "index_inv None bp" and ci: "content_inv bp" and ld: "bp_loading bp = {||}"
    using inv by (simp_all add: pool_inv_def)
  have at: "f < nframes bp \<and> bp_frame_page bp ! f = Some p" if "(f, p) \<in> set pages" for f p
    using fl that by (auto simp: flushable_def)
  have inj: "f = g" if "f < nframes bp" "g < nframes bp" "bp_frame_page bp ! f = Some p" "bp_frame_page bp ! g = Some p" for p f g
    by (rule frame_page_inj [OF ii that])
  have dist: "distinct (map snd pages)" using fl by (simp add: flushable_def)
  have "\<exists>dm' dw' lm'. flush_pages pages bp = (Inr (), flushed_pool pages bp dm' dw' lm') \<and>
    flush_effect pages bp dm' dw' lm' \<and> content_inv (flushed_pool pages bp dm' dw' lm')"
    by (rule flush_pages_content [OF ci cap dist False]) (fact at, fact inj)
  then obtain dm' dw' lm' where go: "flush_pages pages bp = (Inr (), flushed_pool pages bp dm' dw' lm')"
    and F: "flush_effect pages bp dm' dw' lm'" and ci': "content_inv (flushed_pool pages bp dm' dw' lm')"
    by blast
  let ?bp' = "flushed_pool pages bp dm' dw' lm'"
  note D = flush_effectD [OF F]
  have sel: "bp_disk ?bp' = dm'" "bp_dwb ?bp' = dw'" "bp_log ?bp' = lm'" "nframes ?bp' = nframes bp" "bp_loading ?bp' = bp_loading bp"
    "bp_frame_page ?bp' = bp_frame_page bp" "bp_page_table ?bp' = bp_page_table bp"
    "bp_frames ?bp' = clean_frames (set (map fst pages)) (bp_frames bp)"
    by (simp_all add: flushed_pool_def)
  have ii': "index_inv None ?bp'"
    using index_inv_frames [of None "bp\<lparr>bp_disk := dm', bp_dwb := dw', bp_log := lm'\<rparr>" "bp_frames ?bp'"] ii
    by (auto simp: flushed_pool_def index_inv_def)
  have pt: "f < nframes bp \<and> bp_frame_page bp ! f = Some p" if "fmlookup (bp_page_table bp) p = Some f" for f p
    using index_invD(4) [OF ii] that by blast
  have data: "frame_data ?bp' f = frame_data bp f \<and> fr_pin (frame_at ?bp' f) = fr_pin (frame_at bp f)"
    if "f < nframes bp" for f using that by (simp add: sel)
  have upd: "page_at dm' p = stamp_checksum (frame_data bp f) \<and> fmlookup (bp_page_table bp) p = Some f" if "(f, p) \<in> set pages" for f p
    using D(10) [OF that] at [OF that] index_invD(4) [OF ii, of p f] by simp
  have flen: "length (frame_data bp f) = PAGE_SIZE" if "(f, p) \<in> set pages" for f p
    using at [OF that] ci by (auto simp: content_inv_def frame_holds_def)
  have view: "pool_view ?bp' = pool_view bp"
  proof
    fix p
    show "pool_view ?bp' p = pool_view bp p"
    proof (cases "fmlookup (bp_page_table bp) p")
      case None
      then have "p \<notin> snd ` set pages" using upd by force
      then show ?thesis using None D(2,11) by (simp add: pool_view_def sel)
    next
      case (Some f)
      then show ?thesis using pt [OF Some] data [of f] D(2) by (simp add: pool_view_def sel)
    qed
  qed
  have disk: "page_at dm' p = page_at (bp_disk bp) p \<or> pool_view bp p = Some (page_at dm' p)" if "p < next_page bp" for p
  proof (cases "p \<in> snd ` set pages")
    case True
    then obtain f where fp: "(f, p) \<in> set pages" by auto
    then show ?thesis using upd [OF fp] that by (simp add: pool_view_def)
  qed (use that D(11) in simp)
  have "rec_lsn ?bp' p = rec_lsn bp p \<or> rec_lsn ?bp' p = 0" for p
    using pt [of p] by (cases "fmlookup (bp_page_table bp) p") (simp_all add: rec_lsn_def sel)
  then have "stutter bp ?bp'"
    unfolding stutter_def sel using view D(2,4) log_same_flush_effect [OF F] disk by simp
  moreover have "pool_pins ?bp' = pool_pins bp"
    using pt data by (auto simp: pool_pins_def sel fun_eq_iff split: option.splits)
  ultimately show ?thesis
    using go ii' ci' ld by (auto simp: flushed_def pool_inv_def sel)
qed

lemma flushable_flushed:
  assumes "flushed pages bp bp'" "flushable rest bp"
  shows "flushable rest bp'"
  using assms by (auto simp: flushable_def flushed_def stutter_def)

lemma concat_chunks: "0 < n \<Longrightarrow> concat (chunks n xs) = xs"
  by (induction n xs rule: chunks.induct) simp_all

lemma length_chunks: "0 < n \<Longrightarrow> c \<in> set (chunks n xs) \<Longrightarrow> length c \<le> n"
  by (induction n xs rule: chunks.induct) auto

lemma flush_chunks:
  assumes "pool_inv bp" "flushable (concat cs) bp" "\<And>c. c \<in> set cs \<Longrightarrow> length c \<le> dw_capacity (bp_dwb bp)"
  shows "\<exists>bp'. sforeach cs flush_pages bp = (Inr (), bp') \<and> flushed (concat cs) bp bp'"
  using assms
proof (induction cs arbitrary: bp)
  case Nil
  then show ?case by (simp add: flushed_def)
next
  case (Cons c cs)
  have fl: "flushable c bp" "flushable (concat cs) bp" using Cons.prems(2) by (auto simp: flushable_def)
  obtain bp1 where 1: "flush_pages c bp = (Inr (), bp1)" "flushed c bp bp1"
    using flush_pages_effect [OF Cons.prems(1) fl(1)] Cons.prems(3) by auto
  have cap: "dw_capacity (bp_dwb bp1) = dw_capacity (bp_dwb bp)" using 1(2) by (simp add: flushed_def stutter_def)
  have inv1: "pool_inv bp1" using 1(2) by (simp add: flushed_def)
  obtain bp2 where 2: "sforeach cs flush_pages bp1 = (Inr (), bp2)" "flushed (concat cs) bp1 bp2"
    using Cons.IH [OF inv1 flushable_flushed [OF 1(2) fl(2)]] Cons.prems(3) cap by auto
  have "nframes bp1 = nframes bp" using 1(2) by (simp add: flushed_def stutter_def)
  then have "flushed (concat (c # cs)) bp bp2"
    using 1(2) 2(2) stutter_trans [of bp bp1 bp2] unfolding flushed_def by auto
  then show ?case using 1(1) 2(1) by (simp add: sbind_Inr)
qed

lemma in_map_filter: "y \<in> set (List.map_filter f xs) \<longleftrightarrow> (\<exists>x \<in> set xs. f x = Some y)"
  by (induction xs) (auto simp: List.map_filter_simps split: option.splits)

lemma dirty_frames_in:
  "(f, p) \<in> set (dirty_frames bp) \<longleftrightarrow> f < length (bp_frame_page bp) \<and> bp_frame_page bp ! f = Some p \<and> fr_dirty (frame_at bp f) \<noteq> 0"
  by (auto simp: dirty_frames_def in_map_filter split: option.splits if_splits)

lemma distinct_image_map_filter:
  assumes "distinct xs"
    "\<And>x y a b. x \<in> set xs \<Longrightarrow> y \<in> set xs \<Longrightarrow> f x = Some a \<Longrightarrow> f y = Some b \<Longrightarrow> g a = g b \<Longrightarrow> x = y"
  shows "distinct (map g (List.map_filter f xs))"
  using assms
proof (induction xs)
  case (Cons x xs)
  have "distinct (map g (List.map_filter f xs))"
    by (rule Cons.IH) (use Cons.prems in \<open>auto dest: Cons.prems(2) [rotated 2]\<close>)
  moreover have "g a \<notin> set (map g (List.map_filter f xs))" if "f x = Some a" for a
  proof
    assume "g a \<in> set (map g (List.map_filter f xs))"
    then obtain y b where "y \<in> set xs" "f y = Some b" "g a = g b" by (auto simp: in_map_filter)
    then show False using Cons.prems(1) Cons.prems(2) [of x y a b] that by auto
  qed
  ultimately show ?case by (auto split: option.splits)
qed simp

lemma flushable_dirty:
  assumes "index_inv None bp"
  shows "flushable (dirty_frames bp) bp"
proof -
  have "distinct (map snd (dirty_frames bp))"
    unfolding dirty_frames_def
    by (rule distinct_image_map_filter)
      (use index_invD(1) [OF assms] frame_page_inj [OF assms] in \<open>auto split: option.splits if_splits\<close>)
  then show ?thesis using index_invD(1) [OF assms] by (auto simp: flushable_def dirty_frames_in)
qed

lemma flush_all_effect:
  assumes inv: "pool_inv bp"
  shows "\<exists>bp'. flush_all bp = (Inr (), bp') \<and> flushed (dirty_frames bp) bp bp' \<and>
    (\<forall>p. pool_view bp p = (if p < next_page bp then Some (stamp_checksum (page_at (bp_disk bp') p)) else None))"
proof -
  have ii: "index_inv None bp" and "content_inv bp" using inv by (simp_all add: pool_inv_def)
  then have cap: "0 < dw_capacity (bp_dwb bp)" by (simp add: content_inv_def storage_ok_def dwb_inv_def)
  let ?cs = "chunks (dw_capacity (bp_dwb bp)) (dirty_frames bp)"
  have cs: "flushable (concat ?cs) bp" using flushable_dirty [OF ii] by (simp add: concat_chunks [OF cap])
  obtain bp' where go: "flush_all bp = (Inr (), bp')" and F: "flushed (dirty_frames bp) bp bp'"
    using flush_chunks [OF inv cs length_chunks [OF cap, of _ "dirty_frames bp"]] unfolding concat_chunks [OF cap] flush_all_def by blast
  have nx: "next_page bp' = next_page bp" "nframes bp' = nframes bp" "bp_frame_page bp' = bp_frame_page bp"
    and view: "pool_view bp' = pool_view bp" and inv': "index_inv None bp'" "content_inv bp'"
    and dirty: "\<And>f. f < nframes bp \<Longrightarrow>
      fr_dirty (frame_at bp' f) = (if f \<in> fst ` set (dirty_frames bp) then 0 else fr_dirty (frame_at bp f))"
    using F by (simp_all add: flushed_def stutter_def pool_inv_def)
  have "pool_view bp' p = (if p < next_page bp then Some (stamp_checksum (page_at (bp_disk bp') p)) else None)" for p
  proof (cases "fmlookup (bp_page_table bp') p")
    case (Some f)
    have f: "f < nframes bp'" "bp_frame_page bp' ! f = Some p"
      using Some index_invD(4) [OF inv'(1), of p f] by simp_all
    have "f \<in> fst ` set (dirty_frames bp)" if "fr_dirty (frame_at bp f) \<noteq> 0"
      using dirty_frames_in [of f p bp] f that nx index_invD(1) [OF ii] by force
    then have "fr_dirty (frame_at bp' f) = 0" using dirty [of f] f(1) nx(2) by auto
    then have "stamp_checksum (page_at (bp_disk bp') p) = stamp_checksum (frame_data bp' f)"
      using inv'(2) f by (simp add: content_inv_def frame_holds_def)
    then show ?thesis using Some nx(1) by (simp add: pool_view_def)
  qed (use nx(1) in \<open>simp add: pool_view_def\<close>)
  then show ?thesis using go F view by auto
qed

section \<open>A pool with every frame pinned\<close>

lemma acquire_exhausted:
  assumes ii: "index_inv None bp" and fl: "\<not> bp_flush_in_flight bp" and busy: "\<And>f. f < nframes bp \<Longrightarrow> 0 < fr_pin (frame_at bp f)"
  shows "acquire_free_frame bp = (Inl (BufferPoolWaitTimedOut (bp_frame_wait_ms bp)), bp)"
proof -
  have "f \<notin> set (bp_free_list bp)" for f
    using index_inv_sets(1) [OF ii, of f] index_invD(9) [OF ii, of f] busy [of f] by auto
  then have "bp_free_list bp = []" by (cases "bp_free_list bp") auto
  moreover have "evictable_frames (bp_replacer bp) = {}"
    using index_invD(8) [OF ii] busy by auto
  then have "evict (bp_replacer bp) = (None, bp_replacer bp)"
    using evict_where_none [of "bp_replacer bp" "\<lambda>_. True" "bp_replacer bp"] by (simp add: evict_def)
  ultimately show ?thesis using fl by (simp add: acquire_free_frame_def choose_victim_def)
qed

lemma fetch_exhausted:
  assumes inv: "pool_inv bp" and pt: "fmlookup (bp_page_table bp) p = None"
    and busy: "\<And>f. f < nframes bp \<Longrightarrow> 0 < fr_pin (frame_at bp f)"
  shows "fetch_frame p bp = (Inl (BufferPoolWaitTimedOut (bp_frame_wait_ms bp)), bp)"
proof -
  have ii: "index_inv None bp" and ld: "bp_loading bp = {||}" and fl: "\<not> bp_flush_in_flight bp"
    using inv by (simp_all add: pool_inv_def content_inv_def storage_ok_def)
  let ?bp0 = "bp\<lparr>bp_loading := {|p|}\<rparr>"
  have "acquire_free_frame ?bp0 = (Inl (BufferPoolWaitTimedOut (bp_frame_wait_ms bp)), ?bp0)"
    using acquire_exhausted [of ?bp0] ii fl busy by simp
  then have "load_page p ?bp0 = (Inl (BufferPoolWaitTimedOut (bp_frame_wait_ms bp)), ?bp0)"
    by (simp add: load_page_def sbind_Inl [of acquire_free_frame ?bp0])
  then show ?thesis
    using index_invD(3) [OF ii] pt ld by (simp add: fetch_frame_def pin_if_cached_def)
qed

lemma few_pinned:
  assumes ii: "index_inv own bp" and f: "f < nframes bp" "fr_pin (frame_at bp f) = 0"
  shows "card (pinned_pages bp) < nframes bp"
proof -
  let ?frame = "\<lambda>p. the (fmlookup (bp_page_table bp) p)"
  have at: "\<exists>g. fmlookup (bp_page_table bp) p = Some g \<and> g < nframes bp \<and> g \<noteq> f \<and> bp_frame_page bp ! g = Some p"
    if "p \<in> pinned_pages bp" for p
  proof (cases "fmlookup (bp_page_table bp) p")
    case (Some g)
    then show ?thesis using that f(2) index_invD(4) [OF ii, of p g] by (auto simp: pinned_pages_def pool_pins_def)
  qed (use that in \<open>simp add: pinned_pages_def pool_pins_def\<close>)
  have "card (pinned_pages bp) \<le> card ({..<nframes bp} - {f})"
  proof (rule card_inj_on_le)
    show "inj_on ?frame (pinned_pages bp)" by (rule inj_onI) (metis at option.sel)
    show "?frame ` pinned_pages bp \<subseteq> {..<nframes bp} - {f}" using at by fastforce
  qed simp
  also have "\<dots> < nframes bp" using f(1) by (simp add: card_Diff_singleton)
  finally show ?thesis .
qed

text \<open>Every outcome of a fetch keeps the invariant, the pages and the write-ahead rule.\<close>

lemma fetch_inv:
  assumes inv: "pool_inv bp" and r: "fetch_frame p bp = (r, bp')"
  shows "pool_inv bp' \<and> stutter bp bp'"
proof (cases "\<exists>f < nframes bp. fr_pin (frame_at bp f) = 0")
  case True
  have ii: "index_inv None bp" using inv by (simp add: pool_inv_def)
  have few: "card (pinned_pages bp) < nframes bp" using True few_pinned [OF ii] by blast
  then show ?thesis
    using fetch_ok [OF inv, of p] fetch_missing [OF inv _ few, of p] r by (cases "p < next_page bp") (auto simp: fetched_def)
next
  case False
  show ?thesis
  proof (cases "fmlookup (bp_page_table bp) p")
    case None
    then show ?thesis using fetch_exhausted [OF inv None] False r inv by auto
  next
    case (Some f)
    then show ?thesis using fetch_cached [OF inv Some] r by (auto simp: fetched_def)
  qed
qed

lemma new_page_inv:
  assumes inv: "pool_inv bp" and n: "next_page bp \<noteq> - 1" and room: "log_room (Suc k) bp" and r: "new_page txn bp = (r, bp')"
  shows "pool_inv bp' \<and> nframes bp' = nframes bp \<and> log_room k bp'"
proof -
  obtain rs where run: "log_run (bp_log bp) rs" using pool_inv_run [OF inv] by blast
  show ?thesis
  proof (cases "\<exists>f < nframes bp. fr_pin (frame_at bp f) = 0")
    case True
    have ii: "index_inv None bp" using inv by (simp add: pool_inv_def)
    have few: "card (pinned_pages bp) < nframes bp" using True few_pinned [OF ii] by blast
    then show ?thesis using new_page_effect [OF inv n few room run, of txn] r by auto
  next
    case False
    obtain bp1 bp2 where a: "on_disk allocate_page bp = (Inr (next_page bp), bp1)"
      "append_log txn (AllocPage (next_page bp)) bp1 = (Inr (of_nat (lm_next_lsn (bp_log bp))), bp2)"
      and B: "page_added bp txn k rs bp2"
      using add_page_effect [OF inv n room run, of txn] by blast
    note B' = B [unfolded page_added_def]
    have "acquire_free_frame bp2 = (Inl (BufferPoolWaitTimedOut (bp_frame_wait_ms bp2)), bp2)"
      by (rule acquire_exhausted) (use B' False in \<open>auto simp: pool_inv_def content_inv_def storage_ok_def\<close>)
    then have "new_page txn bp = (Inl (BufferPoolWaitTimedOut (bp_frame_wait_ms bp2)), bp2)"
      using a by (simp add: new_page_def sbind_def)
    then show ?thesis using r B' by auto
  qed
qed

lemma fetch_success:
  assumes inv: "pool_inv bp" and r: "fetch_frame p bp = (Inr f, bp')"
  shows "fetched bp p f bp'"
proof (cases "\<exists>f < nframes bp. fr_pin (frame_at bp f) = 0")
  case True
  have ii: "index_inv None bp" using inv by (simp add: pool_inv_def)
  have few: "card (pinned_pages bp) < nframes bp" using True few_pinned [OF ii] by blast
  then show ?thesis
    using fetch_ok [OF inv, of p] fetch_missing [OF inv _ few, of p] r by (cases "p < next_page bp") auto
next
  case False
  then show ?thesis
    using fetch_exhausted [OF inv, of p] fetch_cached [OF inv, of p] r by (cases "fmlookup (bp_page_table bp) p") auto
qed

lemma stamp_write_inv:
  assumes inv: "pool_inv bp" and l: "l \<noteq> 0" "unat l < lm_next_lsn (bp_log bp)" and r: "stamp_write p off bs l bp = (r, bp')"
  shows "pool_inv bp'"
proof -
  obtain r1 bp1 where 1: "fetch_frame p bp = (r1, bp1)" by fastforce
  show ?thesis
  proof (cases r1)
    case (Inl e)
    then show ?thesis using 1 r fetch_inv [OF inv 1] by (auto simp: stamp_write_def with_page_def sbind_def)
  next
    case (Inr f)
    have F: "fetched bp p f bp1" using fetch_success [OF inv, of p f bp1] 1 Inr by simp
    have f: "pool_inv bp1" "fmlookup (bp_page_table bp1) p = Some f" "0 < pool_pins bp1 p" "lm_next_lsn (bp_log bp1) = lm_next_lsn (bp_log bp)"
      using F by (simp_all add: fetched_def stutter_def log_same_def)
    obtain v where v: "pool_view bp1 p = Some v" using pool_view_frame(1) [OF f(1,2)] by blast
    define bp2 where "bp2 = (if off + length bs \<le> PAGE_SIZE then store_bytes f off bs l bp1 else bp1)"
    have "bp' = unpin_frame f bp2"
      using r 1 Inr pool_view_frame(2) [OF f(1,2)]
      by (auto simp: stamp_write_def with_page_def sbind_def bp2_def Let_def split: if_splits)
    moreover have "pool_inv bp2 \<and> fmlookup (bp_page_table bp2) p = Some f \<and> 0 < pool_pins bp2 p"
      using store_bytes_effect [OF f(1,2) v _ l(1)] f l(2) by (auto simp: bp2_def)
    ultimately show ?thesis using unpin_frame_effect [of bp2 p f] by (simp add: pool_inv_def)
  qed
qed

lemma ensure_allocated_inv:
  assumes inv: "pool_inv bp" and p: "p \<noteq> - 1" and r: "ensure_page_allocated p bp = (r, bp')"
  shows "pool_inv bp'"
proof -
  have ii: "index_inv None bp" and ci: "content_inv bp" and ld: "bp_loading bp = {||}"
    using inv by (simp_all add: pool_inv_def)
  have di: "disk_inv (bp_disk bp)" using ci by (simp add: content_inv_def storage_ok_def)
  obtain dm' where dm': "ensure_allocated p (bp_disk bp) = (Inr (), dm')" "disk_inv dm'"
    "dm_next_page_id dm' = max (next_page bp) (p + 1)"
    "\<And>q. q < next_page bp \<Longrightarrow> page_at dm' q = page_at (bp_disk bp) q"
    "\<And>q. next_page bp \<le> q \<Longrightarrow> q < p + 1 \<Longrightarrow> page_at dm' q = replicate PAGE_SIZE 0"
    using ensure_allocated_eq [OF di p] by metis
  have new: "page_at dm' q = replicate PAGE_SIZE 0" if "next_page bp \<le> q" "q < dm_next_page_id dm'" for q
    using dm'(3,5) that by (auto simp: max_def split: if_splits)
  have "content_inv (bp\<lparr>bp_disk := dm'\<rparr>)"
    by (rule content_inv_allocate [OF ci dm'(2) _ dm'(4) new]) (simp add: dm'(3))
  then show ?thesis using r dm'(1) ii ld by (auto simp: ensure_page_allocated_def on_disk_def pool_inv_def)
qed

lemma truncate_inv:
  assumes inv: "pool_inv bp"
  shows "pool_inv (bp\<lparr>bp_log := truncate_below (bp_log bp) b\<rparr>)"
proof -
  obtain rs where run: "log_run (bp_log bp) rs" using pool_inv_run [OF inv] by blast
  have "\<exists>rs. log_run (truncate_below (bp_log bp) b) rs" using log_run.truncate [OF run, of b] by blast
  moreover have "lm_durable_lsn (truncate_below (bp_log bp) b) = lm_durable_lsn (bp_log bp)"
    "lm_next_lsn (truncate_below (bp_log bp) b) = lm_next_lsn (bp_log bp)"
    by (simp_all add: truncate_below_def Let_def)
  ultimately show ?thesis
    using inv by (auto simp: pool_inv_def content_inv_def storage_ok_def disk_content_def frame_holds_def)
qed

section \<open>Runs\<close>

text \<open>One operation of a pool. A guard write needs a pinned frame, and the LSN of a stamped write (redo
  and undo) is one that has been handed out; a record that is not about a page (the start or end of
  a transaction, a checkpoint) is appended by \<open>append_log\<close> itself; truncation removes old segments of
  the log. \<open>flush_some\<close> is any flush of distinct cached pages that fit a batch: the chunks of
  \<open>flush_all\<close> and the victim of an eviction are flushed this way.\<close>

inductive pool_step :: "buffer_pool \<Rightarrow> buffer_pool \<Rightarrow> bool" where
  fetch: "fetch_frame p bp = (r, bp') \<Longrightarrow> pool_step bp bp'"
| unpin: "fmlookup (bp_page_table bp) p = Some f \<Longrightarrow> 0 < pool_pins bp p \<Longrightarrow> pool_step bp (unpin_frame f bp)"
| put: "fmlookup (bp_page_table bp) p = Some f \<Longrightarrow> 0 < pool_pins bp p \<Longrightarrow> log_room 1 bp \<Longrightarrow>
     guard_write f p txn off bs bp = (r, bp') \<Longrightarrow> pool_step bp bp'"
| alloc: "next_page bp \<noteq> - 1 \<Longrightarrow> log_room 1 bp \<Longrightarrow> new_page txn bp = (r, bp') \<Longrightarrow> pool_step bp bp'"
| flush: "flush_page p bp = (r, bp') \<Longrightarrow> pool_step bp bp'"
| flush_all: "flush_all bp = (r, bp') \<Longrightarrow> pool_step bp bp'"
| log: "record_len kind \<le> RECORD_ROOM \<Longrightarrow> log_room 1 bp \<Longrightarrow> append_log txn kind bp = (r, bp') \<Longrightarrow> pool_step bp bp'"
| flush_log: "pool_flush_log l bp = (r, bp') \<Longrightarrow> pool_step bp bp'"
| flush_some: "flushable pages bp \<Longrightarrow> length pages \<le> dw_capacity (bp_dwb bp) \<Longrightarrow>
     flush_pages pages bp = (r, bp') \<Longrightarrow> pool_step bp bp'"
| stamp: "l \<noteq> 0 \<Longrightarrow> unat l < lm_next_lsn (bp_log bp) \<Longrightarrow> stamp_write p off bs l bp = (r, bp') \<Longrightarrow> pool_step bp bp'"
| extend: "p \<noteq> - 1 \<Longrightarrow> ensure_page_allocated p bp = (r, bp') \<Longrightarrow> pool_step bp bp'"
| truncate: "pool_step bp (bp\<lparr>bp_log := truncate_below (bp_log bp) b\<rparr>)"

text \<open>A crash inside a flush: some write or sync of the data file or of the double-write file did not
  finish. No image of the batch is all zeros, and the checksum tells a torn page.\<close>

abbreviation images :: "(frame_id \<times> page_id) list \<Rightarrow> buffer_pool \<Rightarrow> page list" where
  "images pages bp \<equiv> map (\<lambda>(f, _). fr_page (frame_at bp f)) pages"

definition crash_in_flush :: "buffer_pool \<Rightarrow> buffer_pool \<Rightarrow> bool" where
  "crash_in_flush bp bp' \<longleftrightarrow> (\<exists>pages fs gs r. flushable pages bp \<and> pages \<noteq> [] \<and> length pages \<le> dw_capacity (bp_dwb bp) \<and>
     flush_pages pages (with_faults fs gs bp) = (r, bp') \<and>
     (\<forall>p \<in> set (images pages bp). sound_image p) \<and> torn_detected (images pages bp) bp bp')"

text \<open>A pool over a new database, and a pool over what a crash leaves. A restart repairs the data file
  from the double-write file and reopens the log. When the crash came between two operations, or
  while the log or the double-write file was being written, the data file is whole; then the
  double-write file may hold anything. When it came inside a flush, the double-write file is the one
  the flush left. Either way the log may be cut anywhere beyond its durable end.\<close>

inductive pool_run :: "buffer_pool \<Rightarrow> bool" where
  create: "\<lbrakk>disk_open_with_device \<lparr>fd_bytes = [], fd_faults = []\<rparr> PAGE_SIZE = Inr dm; dwb_inv dw;
     open_with_store fmempty target = Inr lm\<rbrakk> \<Longrightarrow> pool_run (pool_new dm dw lm n (lru_new n k))"
| step: "pool_run bp \<Longrightarrow> pool_step bp bp' \<Longrightarrow> pool_run bp'"
| restart: "\<lbrakk>pool_run bp; disk_open_with_device (dm_device (bp_disk bp)) PAGE_SIZE = Inr dm0; dwb_inv dw0;
     recover_double_write (dm0, dw0) = (Inr (), dm, dw);
     crash_left (bp_log bp) st written; open_with_store st target = Inr lm\<rbrakk> \<Longrightarrow>
     pool_run (pool_new dm dw lm n (lru_new n k))"
| torn_restart: "\<lbrakk>pool_run bp; crash_in_flush bp bp';
     disk_open_with_device (reliable (dm_device (bp_disk bp'))) PAGE_SIZE = Inr dm0;
     recover_double_write (dm0, dw_left (bp_dwb bp')) = (Inr (), dm, dw);
     crash_left (bp_log bp') st written; open_with_store st target = Inr lm\<rbrakk> \<Longrightarrow>
     pool_run (pool_new dm dw lm n (lru_new n k))"

lemma flush_page_effect:
  assumes inv: "pool_inv bp"
  shows "\<exists>bp'. flush_page p bp = (Inr (), bp') \<and> pool_inv bp' \<and> stutter bp bp' \<and> pool_pins bp' = pool_pins bp"
proof (cases "\<exists>f. fmlookup (bp_page_table bp) p = Some f \<and> fr_dirty (frame_at bp f) \<noteq> 0")
  case True
  then obtain f where f: "fmlookup (bp_page_table bp) p = Some f" "fr_dirty (frame_at bp f) \<noteq> 0" by blast
  have "flushable [(f, p)] bp" "length [(f, p)] \<le> dw_capacity (bp_dwb bp)"
    using f(1) inv index_invD(4) [of None bp p f]
    by (simp_all add: flushable_def pool_inv_def content_inv_def storage_ok_def dwb_inv_def)
  from flush_pages_effect [OF inv this] show ?thesis using f by (auto simp: flush_page_def flushed_def)
next
  case False
  then show ?thesis using inv by (auto simp: flush_page_def split: option.splits)
qed

lemma append_log_inv:
  assumes inv: "pool_inv bp" and a: "record_len kind \<le> RECORD_ROOM" "log_room (Suc k) bp" "append_log txn kind bp = (r, bp')"
  shows "pool_inv bp' \<and> pool_view bp' = pool_view bp \<and> pool_pins bp' = pool_pins bp \<and> log_room k bp'"
proof -
  obtain rs where run: "log_run (bp_log bp) rs" using pool_inv_run [OF inv] by blast
  obtain lm' where "append_log txn kind bp = (Inr (of_nat (lm_next_lsn (bp_log bp))), bp\<lparr>bp_log := lm'\<rparr>)"
    "log_run lm' (rs @ [appended_record (bp_log bp) txn kind])" "lm_next_lsn lm' = lm_next_lsn (bp_log bp) + record_len kind"
    "lm_durable_lsn lm' = lm_durable_lsn (bp_log bp)" "log_room k (bp\<lparr>bp_log := lm'\<rparr>)"
    using append_log_effect [OF run a(2,1)] by metis
  then show ?thesis
    using inv content_inv_append [of bp lm'] a(3) by (auto simp: pool_inv_def pool_pins_def)
qed

lemma pool_flush_log_inv:
  assumes inv: "pool_inv bp" and r: "pool_flush_log l bp = (r, bp')"
  shows "pool_inv bp' \<and> stutter bp bp' \<and> pool_pins bp' = pool_pins bp"
proof -
  obtain rs where run: "log_run (bp_log bp) rs" using pool_inv_run [OF inv] by blast
  note L = log_run_flush [OF run, of l]
  have "bp' = bp\<lparr>bp_log := flush_log (bp_log bp) l\<rparr>" using r by (simp add: pool_flush_log_def smodify_def)
  moreover have "content_inv (bp\<lparr>bp_log := flush_log (bp_log bp) l\<rparr>)"
    using inv L unfolding pool_inv_def content_inv_def storage_ok_def disk_content_def frame_holds_def
    by (auto intro: less_le_trans)
  moreover have "log_same (bp_log bp) (flush_log (bp_log bp) l)"
    using L(2,3) log_run.flush by (simp add: log_same_def)
  ultimately show ?thesis using inv by (auto simp: pool_inv_def stutter_def pool_pins_def)
qed

lemma pool_step_inv:
  assumes "pool_step bp bp'" "pool_inv bp"
  shows "pool_inv bp'"
  using assms
proof cases
  case (fetch p r)
  then show ?thesis using fetch_inv assms(2) by blast
next
  case (unpin p f)
  then show ?thesis using unpin_frame_effect [of bp p f] assms(2) by (simp add: pool_inv_def)
next
  case (put p f txn off bs r)
  obtain rs where rs: "log_run (bp_log bp) rs" using pool_inv_run [OF assms(2)] by blast
  obtain v where v: "pool_view bp p = Some v" using pool_view_frame(1) [OF assms(2) put(1)] by blast
  show ?thesis
  proof (cases "off + length bs \<le> PAGE_SIZE")
    case True
    then show ?thesis using guard_write_effect [OF assms(2) put(1) v True _ rs, of 0 txn] put(3,4) by auto
  next
    case False
    then show ?thesis using guard_write_out_of_range [OF assms(2) put(1), of off bs txn] put(4) assms(2) by auto
  qed
next
  case (alloc txn r)
  then show ?thesis using new_page_inv [OF assms(2), of 0] by auto
next
  case (flush p r)
  then show ?thesis using flush_page_effect [OF assms(2), of p] by auto
next
  case (flush_all r)
  then show ?thesis using flush_all_effect [OF assms(2)] by (auto simp: flushed_def)
next
  case (log kind txn r)
  then show ?thesis using append_log_inv [OF assms(2) log(1), of 0] by auto
next
  case (flush_log l r)
  then show ?thesis using pool_flush_log_inv assms(2) by blast
next
  case (flush_some pages r)
  then show ?thesis using flush_pages_effect [OF assms(2) flush_some(1,2)] by (auto simp: flushed_def)
next
  case (stamp l p off bs r)
  then show ?thesis using stamp_write_inv assms(2) by blast
next
  case (extend p r)
  then show ?thesis using ensure_allocated_inv assms(2) by blast
next
  case (truncate b)
  then show ?thesis using truncate_inv assms(2) by blast
qed

lemma disk_reopen_same:
  assumes "disk_inv dm" "disk_open_with_device (dm_device dm) PAGE_SIZE = Inr dm'"
  shows "dm' = dm"
proof -
  have "0 < length (dm_bytes dm)"
    using assms(1) by (simp add: disk_inv_def PAGE_SIZE_def unat_gt_0 word_greater_zero_iff)
  moreover have "of_nat (length (dm_bytes dm) div PAGE_SIZE) = dm_next_page_id dm"
    using assms(1) by (simp add: disk_inv_def PAGE_SIZE_def)
  ultimately show ?thesis
    using assms by (auto simp: disk_open_with_device_def dev_size_def disk_inv_def Let_def split: if_splits sum.splits)
qed

lemma page_lsn_disk_header: "page_lsn (disk_header n) = 0"
proof -
  have "bytes_at (disk_header n) 4 8 = replicate 8 0"
    by (simp add: disk_header_def Let_def bytes_at_stamp bytes_at_splice_other disk_header_consts PAGE_SIZE_def)
      (simp add: bytes_at_def)
  moreover have "le_u64 (replicate 8 0) = 0" using le_word_round(3) [of 0] by (simp add: u64_le_def)
  ultimately show ?thesis by (simp add: page_lsn_def page_consts)
qed

text \<open>An interrupted flush of a pool: the log has been flushed beyond every image that may have been
  written.\<close>

lemma pool_flush_interrupted:
  assumes inv: "pool_inv bp" and fl: "flushable pages bp" "pages \<noteq> []" "length pages \<le> dw_capacity (bp_dwb bp)"
    and r: "flush_pages pages (with_faults fs gs bp) = (r, bp')"
  shows "flush_left (images pages bp) bp bp'"
    "lm_durable_lsn (bp_log bp) \<le> lm_durable_lsn (bp_log bp')" "\<exists>rs. log_run (bp_log bp') rs"
    "(f, p) \<in> set pages \<Longrightarrow> pg_id (fr_page (frame_at bp f)) = p \<and> length (frame_data bp f) = PAGE_SIZE \<and>
       unat (page_lsn (frame_data bp f)) < lm_durable_lsn (bp_log bp')"
proof -
  have ci: "content_inv bp" and st: "storage_ok bp" using inv by (simp_all add: pool_inv_def content_inv_def)
  have holds: "f < nframes bp \<and> frame_holds bp f p" if "(f, p) \<in> set pages" for f p
    using ci fl(1) that by (auto simp: content_inv_def flushable_def)
  have dist: "distinct (map snd pages)" using fl(1) by (simp add: flushable_def)
  show left: "flush_left (images pages bp) bp bp'" by (rule flush_interrupted [OF st fl(2,3) dist holds r])
  obtain rs where rs: "log_run (bp_log bp) rs" using st by (auto simp: storage_ok_def)
  have log: "bp_log bp' = flush_log (bp_log bp) (max_page_lsn (images pages bp))" using left by (simp add: flush_left_def)
  show "lm_durable_lsn (bp_log bp) \<le> lm_durable_lsn (bp_log bp')" "\<exists>rs. log_run (bp_log bp') rs"
    using log_run_flush(1,4) [OF rs] by (auto simp: log)
  have lt: "unat (page_lsn (pg_data q)) < lm_next_lsn (bp_log bp)" if "q \<in> set (images pages bp)" for q
    using that holds by (auto simp: frame_holds_def)
  have "0 < lm_next_lsn (bp_log bp)" using log_run_bounds [OF rs] by (simp add: wal_consts)
  then have max: "unat (max_page_lsn (images pages bp)) < lm_next_lsn (bp_log bp)" using max_page_lsn_less lt by blast
  show "pg_id (fr_page (frame_at bp f)) = p \<and> length (frame_data bp f) = PAGE_SIZE \<and>
       unat (page_lsn (frame_data bp f)) < lm_durable_lsn (bp_log bp')" if "(f, p) \<in> set pages"
  proof -
    have "fr_page (frame_at bp f) \<in> set (images pages bp)" using that by force
    then have "page_lsn (frame_data bp f) \<le> max_page_lsn (images pages bp)" by (rule max_page_lsn_ge)
    then have "unat (page_lsn (frame_data bp f)) < lm_durable_lsn (bp_log bp')"
      using log_run_flush(5) [OF rs max] unfolding log by (meson le_less_trans word_le_nat_alt)
    then show ?thesis using holds [OF that] by (simp add: frame_holds_def)
  qed
qed

lemma pool_run_inv: "pool_run bp \<Longrightarrow> pool_inv bp"
proof (induction rule: pool_run.induct)
  case (create dm dw target lm n k)
  have dm: "disk_inv dm" "dm_next_page_id dm = 1" "page_at dm 0 = disk_header PAGE_SIZE"
    using disk_create [of "\<lparr>fd_bytes = [], fd_faults = []\<rparr>"] create(1) by auto
  have run: "log_run lm []" by (rule log_run.create [OF create(3)])
  have "checksum_ok (page_at dm p) \<and> unat (page_lsn (page_at dm p)) < lm_durable_lsn lm" if "p < dm_next_page_id dm" for p
  proof -
    have "p = 0" using that dm(2) by (simp add: word_less_nat_alt unat_eq_0)
    then show ?thesis using dm(3) checksum_ok_header page_lsn_disk_header log_run_bounds(1) [OF run] by (simp add: wal_consts)
  qed
  then show ?case using pool_new_inv(1) [OF dm(1) create(2) run] by blast
next
  case (step bp bp')
  then show ?case using pool_step_inv by blast
next
  case (restart bp dm0 dw0 dm dw st written target lm n k)
  have inv: "content_inv bp" using restart.IH by (simp add: pool_inv_def)
  have di: "disk_inv (bp_disk bp)" and ok: "\<And>p. p < next_page bp \<Longrightarrow> checksum_ok (page_at (bp_disk bp) p) \<and>
      unat (page_lsn (page_at (bp_disk bp) p)) < lm_durable_lsn (bp_log bp)"
    using inv by (simp_all add: content_inv_def storage_ok_def disk_content_def)
  obtain rs where run: "log_run (bp_log bp) rs" using pool_inv_run [OF restart.IH] by blast
  have dm0: "dm0 = bp_disk bp" by (rule disk_reopen_same [OF di restart.hyps(2)])
  have dm: "dm = bp_disk bp" "dwb_inv dw"
    using recover_no_damage [OF di restart.hyps(3), of dm dw] restart.hyps(4) ok dm0 by simp_all
  have "lm_durable_lsn (bp_log bp) \<le> lm_durable_lsn lm"
    by (rule log_reopen_durable(1) [OF run restart.hyps(5,6)])
  then show ?case
    using pool_new_inv(1) [OF di dm(2) log_run.reopen [OF run restart.hyps(5,6)]] ok unfolding dm(1)
    by (meson less_le_trans)
next
  case (torn_restart bp bp' dm0 dm dw st written target lm n k)
  have inv: "content_inv bp" using torn_restart.IH by (simp add: pool_inv_def)
  have ok: "\<And>p. p < next_page bp \<Longrightarrow> checksum_ok (page_at (bp_disk bp) p) \<and>
      unat (page_lsn (page_at (bp_disk bp) p)) < lm_durable_lsn (bp_log bp)"
    using inv by (simp_all add: content_inv_def disk_content_def)
  obtain pages fs gs r where c: "flushable pages bp" "pages \<noteq> []" "length pages \<le> dw_capacity (bp_dwb bp)"
    "flush_pages pages (with_faults fs gs bp) = (r, bp')"
    "\<forall>p \<in> set (images pages bp). sound_image p" "torn_detected (images pages bp) bp bp'"
    using torn_restart.hyps(2) unfolding crash_in_flush_def by blast
  note F = pool_flush_interrupted [OF torn_restart.IH c(1-4)]
  obtain rs where run: "log_run (bp_log bp') rs" using F(3) by blast
  have "disk_inv (dm_left (bp_disk bp'))" using F(1) by (simp add: flush_left_def)
  then have dm0: "dm0 = dm_left (bp_disk bp')" using disk_reopen_same torn_restart.hyps(3) by simp
  note R = torn_flush_repaired [OF F(1) _ _ c(6) torn_restart.hyps(4) [unfolded dm0]]
  have dur: "lm_durable_lsn (bp_log bp') \<le> lm_durable_lsn lm"
    by (rule log_reopen_durable(1) [OF run torn_restart.hyps(5,6)])
  have dm: "disk_inv dm" "dm_next_page_id dm = next_page bp" "dwb_inv dw" using R(1-3) ok c(5) by blast+
  have "checksum_ok (page_at dm p) \<and> unat (page_lsn (page_at dm p)) < lm_durable_lsn lm" if p: "p < dm_next_page_id dm" for p
  proof -
    have p': "p < next_page bp" using p dm(2) by simp
    consider "page_at dm p = page_at (bp_disk bp) p"
      | q where "q \<in> set (images pages bp)" "pg_id q = p" "page_at dm p = stamp_checksum (pg_data q)"
      using R(4) [OF _ _ p'] ok c(5) by blast
    then show ?thesis
    proof cases
      case 1
      then show ?thesis using ok [OF p'] F(2) dur by simp
    next
      case 2
      then obtain f x where f: "(f, x) \<in> set pages" "q = fr_page (frame_at bp f)" by auto
      show ?thesis using 2 F(4) [OF f(1)] dur by (simp add: f(2))
    qed
  qed
  then show ?case using pool_new_inv(1) [OF dm(1,3) log_run.reopen [OF run torn_restart.hyps(5,6)]] by blast
qed

section \<open>A small pool\<close>

definition demo_disk :: disk_manager where
  "demo_disk = \<lparr>dm_device = \<lparr>fd_bytes = disk_header PAGE_SIZE, fd_faults = []\<rparr>, dm_page_size = PAGE_SIZE,
     dm_next_page_id = 1, dm_extended_len = PAGE_SIZE\<rparr>"

definition demo_dwb :: double_write_buffer where
  "demo_dwb = \<lparr>dw_device = \<lparr>fd_bytes = replicate 8192 0, fd_faults = []\<rparr>, dw_capacity = 1\<rparr>"

definition demo_pool :: "nat \<Rightarrow> buffer_pool" where
  "demo_pool n = pool_new demo_disk demo_dwb log0 n (lru_new n 2)"

lemma demo_pool_run: "pool_run (demo_pool n)"
proof -
  have "disk_open_with_device \<lparr>fd_bytes = [], fd_faults = []\<rparr> PAGE_SIZE = Inr demo_disk"
    using dev_write_at_end [of "[]" "disk_header PAGE_SIZE"]
    by (simp add: disk_open_with_device_def dev_size_def write_header_def dm_on_def demo_disk_def)
  moreover have "dwb_inv demo_dwb" by (simp add: dwb_inv_def demo_dwb_def PAGE_SIZE_def)
  moreover have "open_with_store fmempty 4096 = Inr log0"
    by (simp add: log0_def open_with_store_def bootstrap_def Let_def store_open_def dev_size_def wal_consts)
  ultimately show ?thesis unfolding demo_pool_def by (rule pool_run.create)
qed

lemma demo_pool_facts:
  "pool_inv (demo_pool n)" "nframes (demo_pool n) = n" "next_page (demo_pool n) = 1" "bp_page_table (demo_pool n) = fmempty"
  "0 < n \<Longrightarrow> pool_quiet (demo_pool n)" "log_room 20 (demo_pool n)" "pool_view (demo_pool n) 0 = Some (disk_header PAGE_SIZE)"
proof -
  have pins: "pool_pins (demo_pool n) = (\<lambda>_. 0)" by (simp add: demo_pool_def pool_new_def pool_pins_def fun_eq_iff)
  show inv: "pool_inv (demo_pool n)" by (rule pool_run_inv [OF demo_pool_run])
  show nf: "nframes (demo_pool n) = n" and "next_page (demo_pool n) = 1" "bp_page_table (demo_pool n) = fmempty"
    by (simp_all add: demo_pool_def pool_new_def demo_disk_def)
  show "0 < n \<Longrightarrow> pool_quiet (demo_pool n)" using inv pins nf by (simp add: pool_quiet_def)
  show "log_room 20 (demo_pool n)" by (simp add: log_room_def demo_pool_def pool_new_def log0_def RECORD_ROOM_def)
  have "stamp_checksum (disk_header PAGE_SIZE) = disk_header PAGE_SIZE"
    by (simp add: disk_header_def Let_def disk_header_consts PAGE_SIZE_def DISK_MAGIC_def)
  then show "pool_view (demo_pool n) 0 = Some (disk_header PAGE_SIZE)"
    by (simp add: demo_pool_def pool_new_def demo_disk_def pool_view_def page_at_def bytes_at_def)
qed

text \<open>The pool after its first write, to bytes 100 and 101 of page 0: the page is dirty, under LSN 16.\<close>

lemma dirty_pool:
  obtains bp f where "pool_run bp" "flushable [(f, 0)] bp" "0 < next_page bp"
    "1 \<le> dw_capacity (bp_dwb bp)" "page_lsn (frame_data bp f) = 16" "rec_lsn bp 0 = 16"
    "pool_view bp 0 = Some (write_bytes (disk_header PAGE_SIZE) 100 [1, 2] 16)"
proof -
  note D = demo_pool_facts [of 1]
  have pins: "pool_pins (demo_pool 1) = (\<lambda>_. 0)" using D(5) by (simp add: pool_quiet_def)
  then have few: "card (pinned_pages (demo_pool 1)) < nframes (demo_pool 1)" using D(2) by (simp add: pinned_pages_def)
  obtain f bp1 where f: "fetch_frame 0 (demo_pool 1) = (Inr f, bp1)" "fetched (demo_pool 1) 0 f bp1"
    using fetch_ok [OF D(1), of 0] D(3) few by auto
  note F = f(2) [unfolded fetched_def stutter_def log_same_def]
  have lg: "bp_log (demo_pool 1) = log0" by (simp add: demo_pool_def pool_new_def)
  have run: "log_run (bp_log bp1) []" "lm_next_lsn (bp_log bp1) = 16" using F lg log0_run by (simp_all add: log0_def)
  have room: "log_room (Suc 0) bp1"
    using stutter_room [of "demo_pool 1" bp1 "Suc 0"] log_room_mono [OF D(6), of "Suc 0"] f(2) by (simp add: fetched_def)
  have b1: "pool_inv bp1" "fmlookup (bp_page_table bp1) 0 = Some f" "pool_view bp1 0 = Some (disk_header PAGE_SIZE)"
    "0 < pool_pins bp1 0"
    using F D(7) by simp_all
  have run1: "pool_run bp1" using pool_run.step [OF demo_pool_run pool_step.fetch [OF f(1)]] .
  have "rec_lsn (demo_pool 1) 0 = 0" using D(4) by (simp add: rec_lsn_def)
  then have clean: "rec_lsn bp1 0 = 0" using F by metis
  have fit: "100 + length [1 :: byte, 2] \<le> PAGE_SIZE" by (simp add: PAGE_SIZE_def)
  obtain bp2 where w: "guard_write f 0 7 100 [1, 2] bp1 = (Inr (), bp2)" "pool_inv bp2"
    "pool_view bp2 = (pool_view bp1)(0 \<mapsto> write_bytes (disk_header PAGE_SIZE) 100 [1, 2] 16)"
    "bp_page_table bp2 = bp_page_table bp1" "rec_lsn bp2 = (rec_lsn bp1)(0 := 16)"
    using guard_write_effect [OF b1(1-3) fit room run(1), of 7] run(2) clean by auto
  have run2: "pool_run bp2"
    using pool_run.step [OF run1 pool_step.put [OF b1(2,4) _ w(1)]] room by simp
  have pt: "fmlookup (bp_page_table bp2) 0 = Some f" using w(4) b1(2) by simp
  note V = pool_view_frame [OF w(2) pt]
  have "page_lsn (stamp_checksum (frame_data bp2 f)) = page_lsn (write_bytes (disk_header PAGE_SIZE) 100 [1, 2] 16)"
    using V(1) w(3) by simp
  also have "\<dots> = 16" by (rule page_lsn_write_bytes) (use fit in \<open>simp_all add: length_disk_header\<close>)
  finally have "page_lsn (frame_data bp2 f) = 16" using V(2) by simp
  moreover have "flushable [(f, 0)] bp2" using V(3,5) by (simp add: flushable_def)
  moreover have "1 \<le> dw_capacity (bp_dwb bp2)" using w(2) by (simp add: pool_inv_def content_inv_def storage_ok_def dwb_inv_def)
  ultimately show thesis using that run2 V(4) w(3,5) by simp
qed

section \<open>What the pool guarantees\<close>

text \<open>C24: The write-ahead rule. Whatever sequence of fetches, guard drops, logged and stamped writes,
  page allocations, flushes, log truncations, crashes and restarts a pool goes through, every page of
  the data file has a valid checksum and carries an LSN below the durable end of the log. And inside
  a flush that is interrupted at any write or sync of the data file or the double-write file: when a
  page of the file differs from before in any byte, the log is by then durable beyond the LSN of the
  image being written, and the page is either written in full or its image is in the double-write
  file. So no part of a page reaches the file before the records that describe it.\<close>

theorem write_ahead_rule:
  assumes "pool_run bp" "p < next_page bp" "flushable pages bp" "length pages \<le> dw_capacity (bp_dwb bp)"
    and "flush_pages pages (with_faults fs gs bp) = (r, bp')"
  shows "checksum_ok (page_at (bp_disk bp) p) \<and> unat (page_lsn (page_at (bp_disk bp) p)) < lm_durable_lsn (bp_log bp) \<and>
    (page_at (bp_disk bp') p \<noteq> page_at (bp_disk bp) p \<longrightarrow>
      (\<exists>f. (f, p) \<in> set pages \<and> unat (page_lsn (frame_data bp f)) < lm_durable_lsn (bp_log bp') \<and>
        (page_at (bp_disk bp') p = stamp_checksum (frame_data bp f) \<or>
         batch_ready (dw_left (bp_dwb bp')) (images pages bp))))"
proof -
  have inv: "pool_inv bp" by (rule pool_run_inv [OF assms(1)])
  have A: "checksum_ok (page_at (bp_disk bp) p) \<and> unat (page_lsn (page_at (bp_disk bp) p)) < lm_durable_lsn (bp_log bp)"
    using inv assms(2) by (simp add: pool_inv_def content_inv_def disk_content_def)
  show ?thesis
  proof (cases "pages = [] \<or> page_at (bp_disk bp') p = page_at (bp_disk bp) p")
    case True
    have "\<not> bp_flush_poisoned bp" using inv by (simp add: pool_inv_def content_inv_def storage_ok_def)
    then have "page_at (bp_disk bp') p = page_at (bp_disk bp) p"
      using True assms(5) by (auto simp: flush_pages_def with_faults_left)
    then show ?thesis using A by simp
  next
    case False
    then have ne: "pages \<noteq> []" and ch: "page_at (bp_disk bp') p \<noteq> page_at (bp_disk bp) p" by simp_all
    note F = pool_flush_interrupted [OF inv assms(3) ne assms(4,5)]
    have at: "\<exists>f. (f, p) \<in> set pages \<and> q = fr_page (frame_at bp f)" if "q \<in> set (images pages bp)" "pg_id q = p" for q
      using that F(4) by fastforce
    have "(\<exists>q \<in> set (images pages bp). pg_id q = p \<and> (page_at (bp_disk bp') p = stamp_checksum (pg_data q) \<or>
        batch_ready (dw_left (bp_dwb bp')) (images pages bp)))"
      using F(1) ch assms(2) unfolding flush_left_def partly_written_def by blast
    then show ?thesis using A at F(4) by blast
  qed
qed

text \<open>The first write of a page is flushed, and the write to the data file breaks off after 20 bytes.\<close>

theorem write_ahead_rule_witness:
  "\<exists>bp f r bp'. pool_run bp \<and> page_lsn (frame_data bp f) = 16 \<and>
    flush_pages [(f, 0)] (with_faults [Some (Io [], 20)] [] bp) = (r, bp') \<and> checksum_ok (page_at (bp_disk bp) 0) \<and>
    (page_at (bp_disk bp') 0 = page_at (bp_disk bp) 0 \<or> 16 < lm_durable_lsn (bp_log bp'))"
proof -
  obtain bp f where bp: "pool_run bp" "flushable [(f, 0)] bp" "0 < next_page bp" "1 \<le> dw_capacity (bp_dwb bp)"
    "page_lsn (frame_data bp f) = 16"
    using dirty_pool by metis
  obtain r bp' where r: "flush_pages [(f, 0)] (with_faults [Some (Io [], 20)] [] bp) = (r, bp')" by fastforce
  show ?thesis using write_ahead_rule [OF bp(1,3,2) _ r] bp r by (auto intro!: exI [of _ bp])
qed

text \<open>C25: The pool implements a map from page numbers to pages. Fetching an allocated page, writing
  bytes through its guard and dropping the guard succeeds, changes that page alone to the bytes
  written, and logs the write under the next LSN with the bytes that were there before; where the
  page was, which page had to make room for it and whether that one was dirty does not show.\<close>

theorem page_write_refines_map:
  assumes "pool_quiet bp" "pool_view bp p = Some v" "4 \<le> off" "off + length bs \<le> PAGE_SIZE" "log_room 1 bp"
    "log_run (bp_log bp) rs"
  shows "\<exists>bp'. with_page p (\<lambda>f. guard_write f p txn off bs) bp = (Inr (), bp') \<and> pool_quiet bp' \<and>
    pool_view bp' = (pool_view bp)(p \<mapsto> write_bytes v off bs (of_nat (lm_next_lsn (bp_log bp)))) \<and>
    log_run (bp_log bp') (rs @ [appended_record (bp_log bp) txn (Update p (of_nat off) (bytes_at v off (length bs)) bs)])"
proof -
  have inv: "pool_inv bp" and pins: "pool_pins bp = (\<lambda>_. 0)" and cap: "0 < nframes bp"
    using assms(1) by (simp_all add: pool_quiet_def)
  have p: "p < next_page bp" using assms(2) by (simp add: pool_view_def split: if_splits)
  have few: "card (pinned_pages bp) < nframes bp" using pins cap by (simp add: pinned_pages_def)
  obtain f bp1 where f: "fetch_frame p bp = (Inr f, bp1)" and F: "fetched bp p f bp1"
    using fetch_ok [OF inv p] few by blast
  note F' = F [unfolded fetched_def stutter_def log_same_def]
  have 1: "pool_inv bp1" "fmlookup (bp_page_table bp1) p = Some f" "pool_view bp1 p = Some v" "log_run (bp_log bp1) rs"
    "log_room (Suc 0) bp1" "pool_pins bp1 = (\<lambda>_. 0)(p := 1)"
    using F' assms(2,5,6) pins stutter_room [of bp bp1 1] F by (simp_all add: fetched_def)
  obtain bp2 where w: "guard_write f p txn off bs bp1 = (Inr (), bp2)" "pool_inv bp2" "pool_pins bp2 = pool_pins bp1"
    "pool_view bp2 = (pool_view bp1)(p \<mapsto> write_bytes v off bs (of_nat (lm_next_lsn (bp_log bp1))))"
    "bp_page_table bp2 = bp_page_table bp1" "nframes bp2 = nframes bp1"
    "log_run (bp_log bp2) (rs @ [appended_record (bp_log bp1) txn (Update p (of_nat off) (bytes_at v off (length bs)) bs)])"
    using guard_write_effect [OF 1(1-3) assms(4) 1(5,4), of txn] assms(3) by auto
  have u: "index_inv None (unpin_frame f bp2)" "content_inv (unpin_frame f bp2)" "stutter bp2 (unpin_frame f bp2)"
    "pool_pins (unpin_frame f bp2) = (pool_pins bp2)(p := pool_pins bp2 p - 1)" "bp_loading (unpin_frame f bp2) = bp_loading bp2"
    using unpin_frame_effect [of bp2 p f] w(2,3,5) 1(2,6) by (simp_all add: pool_inv_def)
  have same: "appended_record (bp_log bp1) = appended_record (bp_log bp)"
    using F' by (auto simp: appended_record_def last_lsn_for_def fun_eq_iff)
  have "with_page p (\<lambda>f. guard_write f p txn off bs) bp = (Inr (), unpin_frame f bp2)"
    by (simp add: with_page_def sbind_Inr [of "fetch_frame p" bp, OF f] w(1))
  moreover have "pool_quiet (unpin_frame f bp2)"
    using u w(2,3,6) 1(6) cap F' by (auto simp: pool_quiet_def pool_inv_def stutter_def fun_eq_iff)
  moreover have "pool_view (unpin_frame f bp2) = (pool_view bp)(p \<mapsto> write_bytes v off bs (of_nat (lm_next_lsn (bp_log bp))))"
    using u(3) w(4) F' by (simp add: stutter_def)
  ultimately show ?thesis using u(3) w(7) same by (auto simp: stutter_def log_same_def)
qed

theorem page_write_refines_map_witness:
  "\<exists>bp'. with_page 0 (\<lambda>f. guard_write f 0 7 100 [1, 2]) (demo_pool 1) = (Inr (), bp') \<and> pool_quiet bp' \<and>
    pool_view bp' 0 = Some (write_bytes (disk_header PAGE_SIZE) 100 [1, 2] 16)"
proof -
  have "bp_log (demo_pool 1) = log0" by (simp add: demo_pool_def pool_new_def)
  then have "log_run (bp_log (demo_pool 1)) []" "lm_next_lsn (bp_log (demo_pool 1)) = 16"
    using log0_run by (simp_all add: log0_def)
  moreover have "log_room 1 (demo_pool 1)" by (rule log_room_mono [OF demo_pool_facts(6)]) simp
  ultimately show ?thesis
    using page_write_refines_map [of "demo_pool 1" 0 "disk_header PAGE_SIZE" 100 "[1, 2]" "[]" 7] demo_pool_facts(5,7) [of 1]
    by (auto simp: PAGE_SIZE_def)
qed

text \<open>When every frame is pinned, fetching a page that is not cached fails with the wait time-out
  and leaves the pool exactly as it was.\<close>

theorem fetch_fails_when_full:
  assumes "pool_inv bp" "fmlookup (bp_page_table bp) p = None" "\<forall>f < nframes bp. 0 < fr_pin (frame_at bp f)"
  shows "fetch_frame p bp = (Inl (BufferPoolWaitTimedOut (bp_frame_wait_ms bp)), bp)"
  using fetch_exhausted [OF assms(1,2)] assms(3) by blast

theorem fetch_fails_when_full_witness:
  "\<exists>f bp. fetch_frame 0 (demo_pool 1) = (Inr f, bp) \<and> fetch_frame 1 bp = (Inl (BufferPoolWaitTimedOut (bp_frame_wait_ms bp)), bp)"
proof -
  have few: "card (pinned_pages (demo_pool 1)) < nframes (demo_pool 1)"
    using demo_pool_facts(2,5) [of 1] by (simp add: pool_quiet_def pinned_pages_def)
  obtain f bp where f: "fetch_frame 0 (demo_pool 1) = (Inr f, bp)" and F: "fetched (demo_pool 1) 0 f bp"
    using fetch_ok [OF demo_pool_facts(1), of 0 1] demo_pool_facts(3) [of 1] few by auto
  have bp: "pool_inv bp" "nframes bp = 1" "next_page bp = 1" "fmlookup (bp_page_table bp) 0 = Some f"
    "pool_pins bp 0 = 1"
    using F demo_pool_facts(2,3,5) [of 1] by (simp_all add: fetched_def stutter_def pool_quiet_def)
  then have "f = 0" "0 < fr_pin (frame_at bp 0)"
    using index_invD(4) [of None bp 0 f] by (auto simp: pool_inv_def pool_pins_def)
  moreover have "fmlookup (bp_page_table bp) 1 = None"
    using pool_view_frame(1) [OF bp(1), of 1] bp(3) by (cases "fmlookup (bp_page_table bp) 1") (auto simp: pool_view_def)
  ultimately show ?thesis using fetch_fails_when_full [OF bp(1), of 1] bp(2) f by auto
qed

text \<open>C30: Flushing the whole pool succeeds, changes no page as its readers see it, and leaves every page
  of the data file equal to that view.\<close>

theorem flush_all_writes_everything:
  assumes "pool_inv bp"
  shows "\<exists>bp'. flush_all bp = (Inr (), bp') \<and> pool_inv bp' \<and> pool_view bp' = pool_view bp \<and>
    (\<forall>p < next_page bp. pool_view bp p = Some (stamp_checksum (page_at (bp_disk bp') p)))"
  using flush_all_effect [OF assms] by (auto simp: flushed_def stutter_def)

theorem flush_all_writes_everything_witness:
  "\<exists>bp bp'. pool_inv bp \<and> rec_lsn bp 0 = 16 \<and> flush_all bp = (Inr (), bp') \<and>
    stamp_checksum (page_at (bp_disk bp') 0) = write_bytes (disk_header PAGE_SIZE) 100 [1, 2] 16"
proof -
  obtain bp where bp: "pool_run bp" "0 < next_page bp" "rec_lsn bp 0 = 16"
    "pool_view bp 0 = Some (write_bytes (disk_header PAGE_SIZE) 100 [1, 2] 16)"
    using dirty_pool by metis
  have inv: "pool_inv bp" by (rule pool_run_inv [OF bp(1)])
  show ?thesis using flush_all_writes_everything [OF inv] inv bp by fastforce
qed

end
