(* ===== verification/Table_Heap.thy ===== *)
theory Table_Heap
  imports Slotted_Page Pool_Run
begin

text \<open>
  Tables as the chains of slotted pages that \<open>storage/src/heap.rs\<close> builds. The operations are proved
  against the abstract contents of a table, the list of its rows: an insertion ends and adds one row,
  lookups, deletions and in-place updates act on the row they name, and the iterator ends with the
  rows of the chain.
\<close>

section \<open>Operations on one page under its guard\<close>

lemma guarded_data:
  assumes "pool.guarded p f bp" "pool_view bp p = Some v"
  shows "stamp_checksum (frame_data bp f) = v" "length (frame_data bp f) = PAGE_SIZE"
  using pool.data_view [of bp p f] assms by (simp_all add: pool.guarded_def)

lemma slotted_insert_fits:
  assumes g: "pool.guarded p f bp" and v: "pool_view bp p = Some v" and wf: "slotted_wf v" and fits: "page_fits v data"
    and room: "log_room (Suc (Suc (Suc k))) bp"
  shows "\<exists>bp' l1 l2 l3. slotted_insert f p txn data bp = (Inr (Some (slotted_slot_count v)), bp') \<and>
    pool.guarded p f bp' \<and> pool_view bp' = (pool_view bp)(p \<mapsto> page_insert v data l1 l2 l3) \<and>
    next_page bp' = next_page bp \<and> log_room k bp'"
proof -
  note d = guarded_data [OF g v]
  note V = slotted_wfD [OF wf]
  let ?c = "slotted_slot_count v" and ?start = "slotted_data_start v - length data"
  have hd: "slotted_slot_count (frame_data bp f) = ?c" "slotted_data_start (frame_data bp f) = slotted_data_start v"
    using slotted_stamp(1,2) [OF d(2)] d(1) by simp_all
  have b: "?start + length data \<le> PAGE_SIZE" "slot_offset ?c + 4 \<le> PAGE_SIZE" "SLOT_COUNT_OFFSET + 4 \<le> PAGE_SIZE"
    using fits V(4) by (simp_all add: page_fits_def slot_count_def slot_offset_def heap_consts PAGE_SIZE_def)
  obtain l1 bp1 where w1: "guard_write f p txn ?start data bp = (Inr (), bp1)" "pool.guarded p f bp1"
    "pool_view bp1 = (pool_view bp)(p \<mapsto> write_bytes v ?start data l1)" "next_page bp1 = next_page bp" "log_room (Suc (Suc k)) bp1"
    using pool.guarded_write [OF g v b(1) room] by blast
  let ?v1 = "write_bytes v ?start data l1" and ?e = "u16_le (of_nat ?start) @ u16_le (of_nat (length data))"
  have v1: "pool_view bp1 p = Some ?v1" "slot_offset ?c + length ?e \<le> PAGE_SIZE" using w1(3) b by simp_all
  obtain l2 bp2 where w2: "guard_write f p txn (slot_offset ?c) ?e bp1 = (Inr (), bp2)" "pool.guarded p f bp2"
    "pool_view bp2 = (pool_view bp1)(p \<mapsto> write_bytes ?v1 (slot_offset ?c) ?e l2)" "next_page bp2 = next_page bp1" "log_room (Suc k) bp2"
    using pool.guarded_write [OF w1(2) v1 w1(5)] by blast
  let ?v2 = "write_bytes ?v1 (slot_offset ?c) ?e l2" and ?h = "u16_le (?c + 1) @ u16_le (of_nat (PAGE_SIZE - ?start))"
  have v2: "pool_view bp2 p = Some ?v2" "SLOT_COUNT_OFFSET + length ?h \<le> PAGE_SIZE" using w2(3) b by simp_all
  obtain l3 bp3 where w3: "guard_write f p txn SLOT_COUNT_OFFSET ?h bp2 = (Inr (), bp3)" "pool.guarded p f bp3"
    "pool_view bp3 = (pool_view bp2)(p \<mapsto> write_bytes ?v2 SLOT_COUNT_OFFSET ?h l3)" "next_page bp3 = next_page bp2" "log_room k bp3"
    using pool.guarded_write [OF w2(2) v2 w2(5)] by blast
  have "slotted_insert f p txn data bp = (Inr (Some ?c), bp3)"
    using fits w1(1) w2(1) w3(1)
    by (simp add: slotted_insert_def Let_def hd page_fits_def slot_count_def sbind_def del: of_nat_diff)
  moreover have "pool_view bp3 = (pool_view bp)(p \<mapsto> page_insert v data l1 l2 l3)"
    using w1(3) w2(3) w3(3) by (simp add: page_insert_def Let_def)
  ultimately show ?thesis using w1 w2 w3 by metis
qed

lemma slotted_insert_full:
  assumes g: "pool.guarded p f bp" and v: "pool_view bp p = Some v" and full: "\<not> page_fits v data"
  shows "slotted_insert f p txn data bp = (Inr None, bp)"
proof -
  note d = guarded_data [OF g v]
  have "slotted_slot_count (frame_data bp f) = slotted_slot_count v" "slotted_data_start (frame_data bp f) = slotted_data_start v"
    using slotted_stamp(1,2) [OF d(2)] d(1) by simp_all
  then show ?thesis using full by (simp add: slotted_insert_def Let_def page_fits_def slot_count_def)
qed

section \<open>Operations on one page of a quiet pool\<close>

lemma insert_here_fits:
  assumes q: "pool_quiet bp" and v: "pool_view bp p = Some v" and wf: "slotted_wf v" and fits: "page_fits v data"
    and room: "log_room (Suc (Suc (Suc k))) bp"
  shows "\<exists>bp' l1 l2 l3. insert_here txn data p bp = (Inr (Inl (slotted_slot_count v)), bp') \<and> pool_quiet bp' \<and>
    pool_view bp' = (pool_view bp)(p \<mapsto> page_insert v data l1 l2 l3) \<and> next_page bp' = next_page bp \<and> log_room k bp'"
proof -
  have "\<exists>bp'. insert_here txn data p bp = (Inr (Inl (slotted_slot_count v)), bp') \<and> pool_quiet bp' \<and>
    (\<exists>l1 l2 l3. pool_view bp' = (pool_view bp)(p \<mapsto> page_insert v data l1 l2 l3)) \<and> next_page bp' = next_page bp \<and> log_room k bp'"
    unfolding insert_here_def
  proof (rule pool_session_effect [OF q, where P = "\<lambda>vw. \<exists>l1 l2 l3. vw = (pool_view bp)(p \<mapsto> page_insert v data l1 l2 l3)"])
    show "pool_view bp p \<noteq> None" using v by simp
    fix f bp1
    assume a: "pool.guarded p f bp1" "pool_view bp1 = pool_view bp" "next_page bp1 = next_page bp"
      "\<forall>k. log_room k bp \<longrightarrow> log_room k bp1"
    have v1: "pool_view bp1 p = Some v" and r1: "log_room (Suc (Suc (Suc k))) bp1" using a v room by simp_all
    obtain bp2 l1 l2 l3 where s: "slotted_insert f p txn data bp1 = (Inr (Some (slotted_slot_count v)), bp2)"
      "pool.guarded p f bp2" "pool_view bp2 = (pool_view bp1)(p \<mapsto> page_insert v data l1 l2 l3)"
      "next_page bp2 = next_page bp1" "log_room k bp2"
      using slotted_insert_fits [OF a(1) v1 wf fits r1] by blast
    then show "\<exists>s2. sbind (slotted_insert f p txn data)
        (\<lambda>r. case r of None \<Rightarrow> sget (\<lambda>bp. Inr (next_page_id (frame_data bp f))) | Some slot \<Rightarrow> sreturn (Inl slot)) bp1 =
        (Inr (Inl (slotted_slot_count v)), s2) \<and> pool.guarded p f s2 \<and>
        (\<exists>l1 l2 l3. pool_view s2 = (pool_view bp)(p \<mapsto> page_insert v data l1 l2 l3)) \<and> next_page s2 = next_page bp \<and> log_room k s2"
      using a(2,3) by (auto simp: sbind_def)
  qed
  then show ?thesis by blast
qed

lemma insert_here_full:
  assumes q: "pool_quiet bp" and v: "pool_view bp p = Some v" and full: "\<not> page_fits v data" and room: "log_room k bp"
  shows "\<exists>bp'. insert_here txn data p bp = (Inr (Inr (next_page_id v)), bp') \<and> pool_quiet bp' \<and>
    pool_view bp' = pool_view bp \<and> next_page bp' = next_page bp \<and> log_room k bp'"
  unfolding insert_here_def
proof (rule pool_session_effect [OF q])
  show "pool_view bp p \<noteq> None" using v by simp
  fix f bp1
  assume a: "pool.guarded p f bp1" "pool_view bp1 = pool_view bp" "next_page bp1 = next_page bp"
    "\<forall>k. log_room k bp \<longrightarrow> log_room k bp1"
  then have v1: "pool_view bp1 p = Some v" using v by simp
  have "next_page_id (frame_data bp1 f) = next_page_id v"
    using slotted_stamp(3) [OF guarded_data(2) [OF a(1) v1]] guarded_data(1) [OF a(1) v1] by simp
  then show "\<exists>s2. sbind (slotted_insert f p txn data)
      (\<lambda>r. case r of None \<Rightarrow> sget (\<lambda>bp. Inr (next_page_id (frame_data bp f))) | Some slot \<Rightarrow> sreturn (Inl slot)) bp1 =
      (Inr (Inr (next_page_id v)), s2) \<and> pool.guarded p f s2 \<and> pool_view s2 = pool_view bp \<and> next_page s2 = next_page bp \<and> log_room k s2"
    using slotted_insert_full [OF a(1) v1 full] a room by (simp add: sbind_def)
qed

lemma heap_create_effect:
  assumes q: "pool_quiet bp" and room: "log_room (Suc (Suc k)) bp" and n: "next_page bp \<noteq> - 1"
  shows "\<exists>bp' l. heap_create txn bp = (Inr (next_page bp), bp') \<and> pool_quiet bp' \<and>
    pool_view bp' = (pool_view bp)(next_page bp \<mapsto> write_bytes blank_page SLOT_COUNT_OFFSET (replicate 8 0) l) \<and>
    next_page bp' = next_page bp + 1 \<and> log_room k bp'"
proof -
  let ?p = "next_page bp"
  obtain f bp1 where a: "new_page txn bp = (Inr (?p, f), bp1)" "pool.guarded ?p f bp1"
    "pool_view bp1 = (pool_view bp)(?p \<mapsto> blank_page)" "next_page bp1 = ?p + 1" "log_room (Suc k) bp1"
    using pool_alloc_effect [OF q room n, of txn] by blast
  have b: "pool_view bp1 ?p = Some blank_page" "SLOT_COUNT_OFFSET + length (replicate 8 (0::byte)) \<le> PAGE_SIZE"
    using a(3) by (simp_all add: heap_consts PAGE_SIZE_def)
  obtain l bp2 where w: "guard_write f ?p txn SLOT_COUNT_OFFSET (replicate 8 0) bp1 = (Inr (), bp2)" "pool.guarded ?p f bp2"
    "pool_view bp2 = (pool_view bp1)(?p \<mapsto> write_bytes blank_page SLOT_COUNT_OFFSET (replicate 8 0) l)"
    "next_page bp2 = next_page bp1" "log_room k bp2"
    using pool.guarded_write [OF a(2) b a(5)] by blast
  have "heap_create txn bp = (Inr ?p, unpin_frame f bp2)"
    using a(1) w(1) by (simp add: heap_create_def slotted_init_def sbind_def)
  then show ?thesis using pool_guarded_unpin [OF w(2)] w a by auto
qed

lemma page_write_effect:
  assumes q: "pool_quiet bp" and v: "pool_view bp p = Some v" and off: "off + length bs \<le> PAGE_SIZE" and room: "log_room (Suc k) bp"
    and body: "\<And>f bp1. pool.guarded p f bp1 \<Longrightarrow> stamp_checksum (frame_data bp1 f) = v \<Longrightarrow> length (frame_data bp1 f) = PAGE_SIZE \<Longrightarrow>
      body f bp1 = guard_write f p txn off bs bp1"
  shows "\<exists>bp' l. with_page p body bp = (Inr (), bp') \<and> pool_quiet bp' \<and>
    pool_view bp' = (pool_view bp)(p \<mapsto> write_bytes v off bs l) \<and> next_page bp' = next_page bp \<and> log_room k bp'"
proof -
  have "\<exists>bp'. with_page p body bp = (Inr (), bp') \<and> pool_quiet bp' \<and>
    (\<exists>l. pool_view bp' = (pool_view bp)(p \<mapsto> write_bytes v off bs l)) \<and> next_page bp' = next_page bp \<and> log_room k bp'"
  proof (rule pool_session_effect [OF q, where P = "\<lambda>vw. \<exists>l. vw = (pool_view bp)(p \<mapsto> write_bytes v off bs l)"])
    show "pool_view bp p \<noteq> None" using v by simp
    fix f bp1
    assume a: "pool.guarded p f bp1" "pool_view bp1 = pool_view bp" "next_page bp1 = next_page bp"
      "\<forall>k. log_room k bp \<longrightarrow> log_room k bp1"
    have v1: "pool_view bp1 p = Some v" and r1: "log_room (Suc k) bp1" using a v room by simp_all
    have "body f bp1 = guard_write f p txn off bs bp1" by (rule body [OF a(1) guarded_data [OF a(1) v1]])
    then show "\<exists>s2. body f bp1 = (Inr (), s2) \<and> pool.guarded p f s2 \<and>
        (\<exists>l. pool_view s2 = (pool_view bp)(p \<mapsto> write_bytes v off bs l)) \<and> next_page s2 = next_page bp \<and> log_room k s2"
      using pool.guarded_write [OF a(1) v1 off r1, of txn] a(2,3) by auto
  qed
  then show ?thesis by blast
qed

lemma page_read_effect:
  assumes q: "pool_quiet bp" and v: "pool_view bp p = Some v" and room: "log_room k bp"
    and body: "\<And>f bp1. pool.guarded p f bp1 \<Longrightarrow> stamp_checksum (frame_data bp1 f) = v \<Longrightarrow> length (frame_data bp1 f) = PAGE_SIZE \<Longrightarrow>
      body f bp1 = (r, bp1)"
  shows "\<exists>bp'. with_page p body bp = (r, bp') \<and> pool_quiet bp' \<and> pool_view bp' = pool_view bp \<and>
    next_page bp' = next_page bp \<and> log_room k bp'"
proof (rule pool_session_effect [OF q])
  show "pool_view bp p \<noteq> None" using v by simp
  fix f bp1
  assume a: "pool.guarded p f bp1" "pool_view bp1 = pool_view bp" "next_page bp1 = next_page bp"
    "\<forall>k. log_room k bp \<longrightarrow> log_room k bp1"
  then have v1: "pool_view bp1 p = Some v" using v by simp
  show "\<exists>s2. body f bp1 = (r, s2) \<and> pool.guarded p f s2 \<and> pool_view s2 = pool_view bp \<and> next_page s2 = next_page bp \<and> log_room k s2"
    using body [OF a(1) guarded_data [OF a(1) v1]] a room by auto
qed

section \<open>Chains of pages and their rows\<close>

definition linked :: "(page_id \<Rightarrow> bytes option) \<Rightarrow> page_id \<Rightarrow> page_id option \<Rightarrow> bool" where
  "linked vw p nxt \<longleftrightarrow> (case vw p of None \<Rightarrow> False | Some v \<Rightarrow> slotted_wf v \<and> next_page_id v = nxt)"

fun chain :: "(page_id \<Rightarrow> bytes option) \<Rightarrow> page_id list \<Rightarrow> bool" where
  "chain vw [] \<longleftrightarrow> False"
| "chain vw [p] \<longleftrightarrow> linked vw p None"
| "chain vw (p # q # ps) \<longleftrightarrow> linked vw p (Some q) \<and> chain vw (q # ps)"

definition table :: "(page_id \<Rightarrow> bytes option) \<Rightarrow> page_id list \<Rightarrow> bool" where
  "table vw ps \<longleftrightarrow> chain vw ps \<and> distinct ps"

fun slot_rows :: "page_id \<Rightarrow> nat \<Rightarrow> bytes option list \<Rightarrow> (rid \<times> bytes) list" where
  "slot_rows p n [] = []"
| "slot_rows p n (None # ts) = slot_rows p (Suc n) ts"
| "slot_rows p n (Some d # ts) = ((p, of_nat n), d) # slot_rows p (Suc n) ts"

definition page_rows :: "page_id \<Rightarrow> bytes \<Rightarrow> (rid \<times> bytes) list" where
  "page_rows p v = slot_rows p 0 (slots v)"

definition rows :: "(page_id \<Rightarrow> bytes option) \<Rightarrow> page_id list \<Rightarrow> (rid \<times> bytes) list" where
  "rows vw ps = concat (map (\<lambda>p. page_rows p (the (vw p))) ps)"

lemma length_slots [simp]: "length (slots v) = slot_count v"
  by (simp add: slots_def)

lemma slots_nth: "i < slot_count v \<Longrightarrow> slots v ! i = slot_data v i"
  by (simp add: slots_def)

lemma chain_page:
  assumes "chain vw ps" "p \<in> set ps"
  obtains v where "vw p = Some v" "slotted_wf v"
  using assms by (induction vw ps rule: chain.induct) (auto simp: linked_def split: option.splits)

lemma chain_next: "chain vw (as @ p # bs) \<Longrightarrow> linked vw p (case bs of [] \<Rightarrow> None | q # _ \<Rightarrow> Some q)"
proof (induction as)
  case Nil
  then show ?case by (cases bs) simp_all
next
  case (Cons a as)
  then show ?case by (cases as) simp_all
qed

lemma linked_update:
  assumes "linked vw q n" "vw p = Some v" "slotted_wf w" "next_page_id w = next_page_id v"
  shows "linked (vw(p \<mapsto> w)) q n"
  using assms by (auto simp: linked_def split: option.splits)

lemma chain_update:
  assumes "vw p = Some v" "slotted_wf w" "next_page_id w = next_page_id v"
  shows "chain vw ps \<Longrightarrow> chain (vw(p \<mapsto> w)) ps"
  by (induction ps rule: induct_list012) (auto intro: linked_update assms)

lemma chain_cong: "(\<And>p. p \<in> set ps \<Longrightarrow> vw' p = vw p) \<Longrightarrow> chain vw' ps = chain vw ps"
  by (induction vw ps rule: chain.induct) (simp_all add: linked_def)

lemma chain_extend:
  assumes "chain vw (as @ [q])" "vw q = Some v" "p \<notin> set (as @ [q])" "q \<notin> set as"
    "slotted_wf w" "next_page_id w = Some p" "slotted_wf e" "next_page_id e = None"
  shows "chain (vw(p \<mapsto> e, q \<mapsto> w)) (as @ [q, p])"
  using assms(1,3,4)
proof (induction as)
  case (Cons a as)
  then show ?case by (cases as) (auto simp: linked_def)
qed (use assms in \<open>simp add: linked_def\<close>)

lemma table_split:
  assumes "table vw ps" "p \<in> set ps"
  obtains as bs where "ps = as @ p # bs" "p \<notin> set as" "p \<notin> set bs"
  using split_list [OF assms(2)] assms(1) by (auto simp: table_def)

lemma rows_cong: "(\<And>p. p \<in> set ps \<Longrightarrow> vw' p = vw p) \<Longrightarrow> rows vw' ps = rows vw ps"
  by (simp add: rows_def cong: map_cong)

lemma rows_append [simp]: "rows vw (as @ bs) = rows vw as @ rows vw bs"
  by (simp add: rows_def)

lemma rows_Cons: "rows vw (p # ps) = page_rows p (the (vw p)) @ rows vw ps"
  by (simp add: rows_def)

lemma rows_other [simp]: "p \<notin> set ps \<Longrightarrow> rows (vw(p \<mapsto> w)) ps = rows vw ps"
  by (rule rows_cong) auto

lemma slot_rows_append: "slot_rows p n (ts @ us) = slot_rows p n ts @ slot_rows p (n + length ts) us"
  by (induction p n ts rule: slot_rows.induct) simp_all

lemma in_slot_rows: "(r, d) \<in> set (slot_rows p n ts) \<longleftrightarrow> (\<exists>i < length ts. r = (p, of_nat (n + i)) \<and> ts ! i = Some d)"
proof (induction p n ts rule: slot_rows.induct)
  case (2 p n ts)
  then show ?case by (auto simp: less_Suc_eq_0_disj)
next
  case (3 p n x ts)
  then show ?case by (auto simp: less_Suc_eq_0_disj)
qed simp

lemma in_page_rows:
  "(r, d) \<in> set (page_rows p v) \<longleftrightarrow> (\<exists>i < slot_count v. r = (p, of_nat i) \<and> slot_data v i = Some d)"
  by (auto simp: page_rows_def in_slot_rows slots_nth)

lemma u16_of_nat_inj: "i < 65536 \<Longrightarrow> j < 65536 \<Longrightarrow> (of_nat i :: u16) = of_nat j \<longleftrightarrow> i = j"
  by (simp add: word_of_nat_eq_iff take_bit_nat_eq_self)

lemma slot_rows_fresh:
  assumes "n + length ts \<le> 65536" "k < n"
  shows "(p, of_nat k :: u16) \<notin> fst ` set (slot_rows p n ts)"
proof
  assume "(p, of_nat k :: u16) \<in> fst ` set (slot_rows p n ts)"
  then obtain d where "((p, of_nat k), d) \<in> set (slot_rows p n ts)" by auto
  then obtain i where "i < length ts" "(of_nat k :: u16) = of_nat (n + i)" unfolding in_slot_rows by blast
  then show False using assms u16_of_nat_inj [of k "n + i"] by linarith
qed

lemma slot_rows_distinct: "n + length ts \<le> 65536 \<Longrightarrow> distinct (map fst (slot_rows p n ts))"
proof (induction p n ts rule: slot_rows.induct)
  case (3 p n x ts)
  then show ?case using slot_rows_fresh [of "Suc n" ts n p] by simp
qed simp_all

lemma slot_rows_delete:
  assumes "n + length ts \<le> 65536" "i < length ts"
  shows "slot_rows p n (ts[i := None]) = filter (\<lambda>x. fst x \<noteq> (p, of_nat (n + i))) (slot_rows p n ts)"
  using assms
proof (induction ts arbitrary: i n)
  case (Cons t ts)
  show ?case
  proof (cases i)
    case 0
    have "filter (\<lambda>x. fst x \<noteq> (p, of_nat n)) (slot_rows p (Suc n) ts) = slot_rows p (Suc n) ts"
      using slot_rows_fresh [of "Suc n" ts n p] Cons.prems(1) by (intro filter_True) (auto simp: image_iff)
    then show ?thesis using 0 by (cases t) simp_all
  next
    case (Suc j)
    have "(of_nat n :: u16) \<noteq> of_nat (Suc n + j)"
      using u16_of_nat_inj [of n "Suc n + j"] Cons.prems Suc by simp
    then show ?thesis using Suc Cons.IH [of "Suc n" j] Cons.prems
      by (cases t) (simp_all del: of_nat_Suc of_nat_add add: add_Suc_shift)
  qed
qed simp

lemma slot_rows_from:
  assumes "n + length ts \<le> 65536"
  shows "slot_rows p (n + (unat k - n)) (drop (unat k - n) ts) = filter (\<lambda>x. k \<le> snd (fst x)) (slot_rows p n ts)"
  using assms
proof (induction ts arbitrary: n)
  case (Cons t ts)
  have le: "k \<le> of_nat n \<longleftrightarrow> unat k \<le> n" using Cons.prems by (simp add: word_le_nat_alt unat_of_nat_small)
  show ?case
  proof (cases "unat k \<le> n")
    case True
    then show ?thesis using Cons.IH [of "Suc n"] Cons.prems le by (cases t) simp_all
  next
    case False
    then have "unat k - n = Suc (unat k - Suc n)" by simp
    then show ?thesis using Cons.IH [of "Suc n"] Cons.prems le False by (cases t) simp_all
  qed
qed simp

lemma slot_rows_update:
  assumes "n + length ts \<le> 65536" "i < length ts" "ts ! i = Some d"
  shows "slot_rows p n (ts[i := Some d']) =
    map (\<lambda>(r, x). (r, if r = (p, of_nat (n + i)) then d' else x)) (slot_rows p n ts)"
  using assms
proof (induction ts arbitrary: i n)
  case (Cons t ts)
  show ?case
  proof (cases i)
    case 0
    have "map (\<lambda>(r, x). (r, if r = (p, of_nat n) then d' else x)) (slot_rows p (Suc n) ts) = slot_rows p (Suc n) ts"
      using slot_rows_fresh [of "Suc n" ts n p] Cons.prems(1) by (intro map_idI) (auto simp: image_iff)
    then show ?thesis using 0 Cons.prems by simp
  next
    case (Suc j)
    have "(of_nat n :: u16) \<noteq> of_nat (Suc n + j)"
      using u16_of_nat_inj [of n "Suc n + j"] Cons.prems Suc by simp
    then show ?thesis using Suc Cons.IH [of "Suc n" j] Cons.prems
      by (cases t) (simp_all del: of_nat_Suc of_nat_add add: add_Suc_shift)
  qed
qed simp

lemmas page_rows_snoc = slot_rows_append [of _ 0, simplified, folded page_rows_def]

lemma page_rows_distinct: "slotted_wf v \<Longrightarrow> distinct (map fst (page_rows p v))"
  using wf_count(1) [of v] slot_rows_distinct [of 0 "slots v" p] by (simp add: page_rows_def)

lemma map_of_page_rows:
  assumes "slotted_wf v"
  shows "map_of (page_rows p v) (p, slot) = (if unat slot < slot_count v then slot_data v (unat slot) else None)"
proof -
  have c: "slot_count v \<le> 1019" by (rule wf_count(1) [OF assms])
  have inj: "i = unat (of_nat i :: u16)" if "i < slot_count v" for i
    using that c by (simp add: unat_of_nat_small)
  have "map_of (page_rows p v) (p, slot) = Some d \<longleftrightarrow> unat slot < slot_count v \<and> slot_data v (unat slot) = Some d" for d
    using inj by (auto simp: map_of_eq_Some_iff [OF page_rows_distinct [OF assms]] in_page_rows)
  then show ?thesis by (metis option.exhaust)
qed

lemma page_rows_page: "(r, d) \<in> set (page_rows p v) \<Longrightarrow> fst r = p"
  by (auto simp: in_page_rows)

lemma rows_pages: "(r, d) \<in> set (rows vw ps) \<Longrightarrow> fst r \<in> set ps"
  by (auto simp: rows_def dest: page_rows_page)

lemma rows_distinct:
  assumes "table vw ps"
  shows "distinct (map fst (rows vw ps))"
proof -
  have "distinct (map fst (rows vw qs))" if "distinct qs" "set qs \<subseteq> set ps" for qs
    using that
  proof (induction qs)
    case (Cons p qs)
    obtain v where v: "vw p = Some v" "slotted_wf v"
      using assms Cons.prems(2) by (auto simp: table_def elim: chain_page)
    have "fst ` set (page_rows p v) \<inter> fst ` set (rows vw qs) = {}"
      using Cons.prems(1) by (auto dest!: page_rows_page rows_pages)
    then show ?case using Cons page_rows_distinct [OF v(2), of p] v(1) by (simp add: rows_Cons)
  qed (simp add: rows_def)
  then show ?thesis using assms by (simp add: table_def)
qed

lemma map_of_rows:
  assumes t: "table vw ps" and p: "p \<in> set ps" "vw p = Some v"
  shows "map_of (rows vw ps) (p, slot) = map_of (page_rows p v) (p, slot)"
proof -
  obtain as bs where ps: "ps = as @ p # bs" "p \<notin> set as" "p \<notin> set bs" by (rule table_split [OF t p(1)])
  have "map_of (rows vw as) (p, slot) = None" "map_of (rows vw bs) (p, slot) = None"
    using ps(2,3) by (auto simp: map_of_eq_None_iff dest!: rows_pages)
  then show ?thesis using p(2) ps(1) by (simp add: rows_Cons map_add_def split: option.splits)
qed

lemma table_update:
  assumes "table vw ps" "vw p = Some v" "slotted_wf w" "next_page_id w = next_page_id v"
  shows "table (vw(p \<mapsto> w)) ps"
  using assms chain_update [of vw p v w ps] by (simp add: table_def)

lemma filter_rows_other:
  "p \<notin> set ps \<Longrightarrow> filter (\<lambda>x. fst x \<noteq> (p, slot)) (rows vw ps) = rows vw ps"
  by (intro filter_True) (auto dest!: rows_pages)

lemma patch_rows_other:
  "p \<notin> set ps \<Longrightarrow> map (\<lambda>(r, x). (r, if r = (p, slot) then d else x)) (rows vw ps) = rows vw ps"
  by (intro map_idI) (auto dest!: rows_pages)

section \<open>Reading, deleting and updating a row\<close>

lemma get_tuple_effect:
  assumes q: "pool_quiet bp" and t: "table (pool_view bp) ps" and p: "p \<in> set ps" and room: "log_room k bp"
  shows "\<exists>bp'. get_tuple (p, slot) bp = (Inr (map_of (rows (pool_view bp) ps) (p, slot)), bp') \<and> pool_quiet bp' \<and>
    pool_view bp' = pool_view bp \<and> next_page bp' = next_page bp \<and> log_room k bp'"
proof -
  obtain v where v: "pool_view bp p = Some v" "slotted_wf v"
    using t p by (auto simp: table_def elim: chain_page)
  have rd: "slotted_read d slot p = Inr (map_of (rows (pool_view bp) ps) (p, slot))"
    if "stamp_checksum d = v" "length d = PAGE_SIZE" for d
    using that slotted_read_stamp [OF that(2), of slot p] slotted_read_wf [OF v(2), of slot p]
    by (simp add: map_of_rows [OF t p v(1)] map_of_page_rows [OF v(2)])
  show ?thesis
    unfolding get_tuple_def fst_conv snd_conv by (rule page_read_effect [OF q v(1) room]) (simp add: rd)
qed

lemma delete_tuple_effect:
  assumes q: "pool_quiet bp" and t: "table (pool_view bp) ps" and p: "p \<in> set ps" and room: "log_room (Suc k) bp"
  shows "\<exists>bp'. delete_tuple txn (p, slot) bp = (Inr (), bp') \<and> pool_quiet bp' \<and> table (pool_view bp') ps \<and>
    rows (pool_view bp') ps = filter (\<lambda>x. fst x \<noteq> (p, slot)) (rows (pool_view bp) ps) \<and>
    (\<forall>q. q \<noteq> p \<longrightarrow> pool_view bp' q = pool_view bp q) \<and> next_page bp' = next_page bp \<and> log_room k bp'"
proof -
  obtain v where v: "pool_view bp p = Some v" "slotted_wf v"
    using t p by (auto simp: table_def elim: chain_page)
  obtain as bs where ps: "ps = as @ p # bs" "p \<notin> set as" "p \<notin> set bs" by (rule table_split [OF t p])
  have ent: "slotted_slot_entry d slot p = Inr (if unat slot < slot_count v then Some (slot_entry v (unat slot)) else None)"
    if "stamp_checksum d = v" "length d = PAGE_SIZE" for d
    using that slotted_slot_entry_stamp [OF that(2), of slot p] slot_entry_eq [of v slot p] wf_count(2) [OF v(2), of p]
    by (simp add: slot_count_def word_less_nat_alt)
  show ?thesis
  proof (cases "unat slot < slot_count v")
    case True
    have off: "slot_offset slot + 2 + length (u16_le 0) \<le> PAGE_SIZE"
      using True slotted_wfD(3,4) [OF v(2)] by (simp add: slot_offset_def heap_consts PAGE_SIZE_def)
    have "\<exists>bp' l. delete_tuple txn (p, slot) bp = (Inr (), bp') \<and> pool_quiet bp' \<and>
      pool_view bp' = (pool_view bp)(p \<mapsto> write_bytes v (slot_offset slot + 2) (u16_le 0) l) \<and> next_page bp' = next_page bp \<and> log_room k bp'"
      unfolding delete_tuple_def fst_conv snd_conv
      by (rule page_write_effect [OF q v(1) off room]) (simp add: slotted_delete_def ent True)
    then obtain bp' l where w: "delete_tuple txn (p, slot) bp = (Inr (), bp')" "pool_quiet bp'"
      "pool_view bp' = (pool_view bp)(p \<mapsto> write_bytes v (slot_offset slot + 2) (u16_le 0) l)"
      "next_page bp' = next_page bp" "log_room k bp'" by blast
    note D = page_delete_wf [OF v(2) True, of l, folded slot_offset_def]
    have "page_rows p (write_bytes v (slot_offset slot + 2) (u16_le 0) l) = filter (\<lambda>x. fst x \<noteq> (p, slot)) (page_rows p v)"
      using slot_rows_delete [of 0 "slots v" "unat slot" p] True wf_count(1) [OF v(2)] unfolding page_rows_def D(2) by simp
    then have "rows (pool_view bp') ps = filter (\<lambda>x. fst x \<noteq> (p, slot)) (rows (pool_view bp) ps)"
      using ps v(1) w(3) by (simp add: rows_Cons filter_rows_other)
    then show ?thesis using w table_update [of "pool_view bp", OF t v(1) D(1,3)] by auto
  next
    case False
    have "\<exists>bp'. delete_tuple txn (p, slot) bp = (Inr (), bp') \<and> pool_quiet bp' \<and> pool_view bp' = pool_view bp \<and>
      next_page bp' = next_page bp \<and> log_room k bp'"
      unfolding delete_tuple_def fst_conv snd_conv
      by (rule page_read_effect [OF q v(1)]) (use room log_room_mono [of "Suc k" bp k] in \<open>simp_all add: slotted_delete_def ent False\<close>)
    moreover have "filter (\<lambda>x. fst x \<noteq> (p, slot)) (rows (pool_view bp) ps) = rows (pool_view bp) ps"
      using map_of_rows [OF t p v(1), of slot] map_of_page_rows [OF v(2), of p slot] False
      by (intro filter_True) (auto simp: map_of_eq_None_iff image_iff)
    ultimately show ?thesis using t by auto
  qed
qed

lemma update_tuple_effect:
  assumes q: "pool_quiet bp" and t: "table (pool_view bp) ps" and row: "map_of (rows (pool_view bp) ps) (p, slot) = Some d"
    and fits: "off + length bs \<le> length d" and room: "log_room (Suc k) bp"
  shows "\<exists>bp'. update_tuple_in_place txn (p, slot) off bs bp = (Inr (), bp') \<and> pool_quiet bp' \<and> table (pool_view bp') ps \<and>
    rows (pool_view bp') ps = map (\<lambda>(r, x). (r, if r = (p, slot) then splice d off bs else x)) (rows (pool_view bp) ps) \<and>
    (\<forall>q. q \<noteq> p \<longrightarrow> pool_view bp' q = pool_view bp q) \<and> next_page bp' = next_page bp \<and> log_room k bp'"
proof -
  have p: "p \<in> set ps" using map_of_SomeD [OF row] by (auto dest: rows_pages)
  obtain v where v: "pool_view bp p = Some v" "slotted_wf v"
    using t p by (auto simp: table_def elim: chain_page)
  obtain as cs where ps: "ps = as @ p # cs" "p \<notin> set as" "p \<notin> set cs" by (rule table_split [OF t p])
  have i: "unat slot < slot_count v" and d: "slot_data v (unat slot) = Some d"
    using row by (auto simp: map_of_rows [OF t p v(1)] map_of_page_rows [OF v(2)] split: if_splits)
  obtain s n where e: "slot_entry v (unat slot) = (s, n)" by fastforce
  have n: "n \<noteq> 0" "length d = unat n" "tuple_start v (unat slot) = unat s"
    using d e slotted_wfD(1) [OF v(2)] slotted_wfD(5) [OF v(2) i]
    by (auto simp: slot_data_def live_def tuple_start_def tuple_end_def split: if_splits)
  have ent: "slotted_slot_entry x slot p = Inr (Some (s, n))"
    if "stamp_checksum x = v" "length x = PAGE_SIZE" for x
    using that slotted_slot_entry_stamp [OF that(2), of slot p] slot_entry_eq [of v slot p] wf_count(2) [OF v(2), of p] i e
    by (simp add: slot_count_def word_less_nat_alt)
  have off: "unat s + off + length bs \<le> PAGE_SIZE"
    using fits n e slotted_wfD(5) [OF v(2) i] by (simp add: live_def tuple_start_def tuple_end_def)
  have "\<exists>bp' l. update_tuple_in_place txn (p, slot) off bs bp = (Inr (), bp') \<and> pool_quiet bp' \<and>
    pool_view bp' = (pool_view bp)(p \<mapsto> write_bytes v (unat s + off) bs l) \<and> next_page bp' = next_page bp \<and> log_room k bp'"
    unfolding update_tuple_in_place_def fst_conv snd_conv
    by (rule page_write_effect [OF q v(1) off room]) (use n fits in \<open>simp add: update_in_place_def ent\<close>)
  then obtain bp' l where w: "update_tuple_in_place txn (p, slot) off bs bp = (Inr (), bp')" "pool_quiet bp'"
    "pool_view bp' = (pool_view bp)(p \<mapsto> write_bytes v (unat s + off) bs l)"
    "next_page bp' = next_page bp" "log_room k bp'" by blast
  note D = page_patch_wf [OF v(2) i d fits, of l, unfolded n(3)]
  have "page_rows p (write_bytes v (unat s + off) bs l) =
      map (\<lambda>(r, x). (r, if r = (p, slot) then splice d off bs else x)) (page_rows p v)"
    using slot_rows_update [of 0 "slots v" "unat slot" d p "splice d off bs"] i d wf_count(1) [OF v(2)]
    by (simp add: page_rows_def D(2) slots_nth)
  then have "rows (pool_view bp') ps = map (\<lambda>(r, x). (r, if r = (p, slot) then splice d off bs else x)) (rows (pool_view bp) ps)"
    using ps v(1) w(3) by (simp add: rows_Cons patch_rows_other)
  then show ?thesis using w table_update [of "pool_view bp", OF t v(1) D(1,3)] by auto
qed

section \<open>Inserting a row\<close>

definition fresh_page :: "bytes \<Rightarrow> bool" where
  "fresh_page e \<longleftrightarrow> slotted_wf e \<and> slots e = [] \<and> next_page_id e = None \<and> slotted_data_start e = PAGE_SIZE"

lemma append_page_effect:
  assumes q: "pool_quiet bp" and v: "pool_view bp p = Some v" "slotted_wf v"
    and room: "log_room (Suc (Suc (Suc k))) bp" and n: "next_page bp \<noteq> - 1"
  shows "\<exists>bp' w e. append_page_after txn p bp = (Inr (next_page bp), bp') \<and> pool_quiet bp' \<and>
    pool_view bp' = (pool_view bp)(next_page bp \<mapsto> e, p \<mapsto> w) \<and> fresh_page e \<and>
    slotted_wf w \<and> slots w = slots v \<and> next_page_id w = Some (next_page bp) \<and>
    next_page bp' = next_page bp + 1 \<and> log_room k bp'"
proof -
  let ?n = "next_page bp"
  have lt: "p < ?n" using pool.view_range [of bp p] q v(1) by (simp add: pool_quiet_def)
  then have ne: "p \<noteq> ?n" "?n \<noteq> NO_NEXT_PAGE" by (auto simp: heap_consts)
  obtain bp1 l where c: "heap_create txn bp = (Inr ?n, bp1)" "pool_quiet bp1"
    "pool_view bp1 = (pool_view bp)(?n \<mapsto> write_bytes blank_page SLOT_COUNT_OFFSET (replicate 8 0) l)"
    "next_page bp1 = ?n + 1" "log_room (Suc k) bp1"
    using heap_create_effect [OF q room n, of txn] by blast
  let ?e = "write_bytes blank_page SLOT_COUNT_OFFSET (replicate 8 0) l"
  have e: "fresh_page ?e" using page_init_wf [of blank_page l] by (simp add: fresh_page_def)
  have v1: "pool_view bp1 p = Some v" using c(3) v(1) ne by simp
  have off: "NEXT_PAGE_ID_OFFSET + length (u32_le ?n) \<le> PAGE_SIZE" by (simp add: heap_consts PAGE_SIZE_def)
  have "\<exists>bp' l'. with_page p (\<lambda>f. set_next_page_id f p txn ?n) bp1 = (Inr (), bp') \<and> pool_quiet bp' \<and>
    pool_view bp' = (pool_view bp1)(p \<mapsto> write_bytes v NEXT_PAGE_ID_OFFSET (u32_le ?n) l') \<and> next_page bp' = next_page bp1 \<and> log_room k bp'"
    by (rule page_write_effect [OF c(2) v1 off c(5)]) (simp add: set_next_page_id_def)
  then obtain bp2 l' where w: "with_page p (\<lambda>f. set_next_page_id f p txn ?n) bp1 = (Inr (), bp2)" "pool_quiet bp2"
    "pool_view bp2 = (pool_view bp1)(p \<mapsto> write_bytes v NEXT_PAGE_ID_OFFSET (u32_le ?n) l')" "next_page bp2 = next_page bp1"
    "log_room k bp2" by blast
  have "append_page_after txn p bp = (Inr ?n, bp2)"
    using c(1) w(1) by (simp add: append_page_after_def sbind_def)
  then show ?thesis
    using w c e ne(2) page_link_wf [OF v(2), of ?n l'] by (auto simp: fun_upd_twist [OF ne(1)])
qed

text \<open>What an insertion into the table \<open>ps\<close> may do: the row goes into the page that it names, either a page
  of the chain or a page added at its end, and no page outside the table changes.\<close>

definition row_inserted :: "buffer_pool \<Rightarrow> page_id list \<Rightarrow> rid \<Rightarrow> bytes \<Rightarrow> buffer_pool \<Rightarrow> page_id list \<Rightarrow> bool" where
  "row_inserted bp ps r d bp' ps' \<longleftrightarrow> pool_quiet bp' \<and> table (pool_view bp') ps' \<and>
     (ps' = ps \<and> next_page bp' = next_page bp \<or> ps' = ps @ [next_page bp] \<and> next_page bp' = next_page bp + 1) \<and>
     (\<exists>xs ys. rows (pool_view bp) ps = xs @ ys \<and> rows (pool_view bp') ps' = xs @ (r, d) # ys) \<and>
     (\<forall>q. q \<notin> set ps' \<longrightarrow> pool_view bp' q = pool_view bp q)"

lemma insert_fits:
  assumes q: "pool_quiet bp" and t: "table (pool_view bp) (as @ p # bs)" and v: "pool_view bp p = Some v" "slotted_wf v"
    and fits: "page_fits v data" and room: "log_room (Suc (Suc (Suc k))) bp" and ne: "data \<noteq> []"
  shows "\<exists>slot bp'. insert_here txn data p bp = (Inr (Inl slot), bp') \<and> log_room k bp' \<and>
    row_inserted bp (as @ p # bs) (p, slot) data bp' (as @ p # bs)"
proof -
  obtain bp' l1 l2 l3 where i: "insert_here txn data p bp = (Inr (Inl (slotted_slot_count v)), bp')" "pool_quiet bp'"
    "pool_view bp' = (pool_view bp)(p \<mapsto> page_insert v data l1 l2 l3)" "next_page bp' = next_page bp" "log_room k bp'"
    using insert_here_fits [OF q v fits room, of txn] by blast
  note D = page_insert_wf [OF v(2) fits, of l1 l2 l3]
  have out: "p \<notin> set as" "p \<notin> set bs" using t by (auto simp: table_def)
  have "page_rows p (page_insert v data l1 l2 l3) = page_rows p v @ [((p, slotted_slot_count v), data)]"
    using ne page_rows_snoc [of p "slots v" "[Some data]"]
    by (simp add: page_rows_def D(2) slot_rows_append slot_count_def)
  then have "rows (pool_view bp') (as @ p # bs) =
      (rows (pool_view bp) as @ page_rows p v) @ ((p, slotted_slot_count v), data) # rows (pool_view bp) bs"
    using out i(3) by (simp add: rows_Cons)
  moreover have old: "rows (pool_view bp) (as @ p # bs) = (rows (pool_view bp) as @ page_rows p v) @ rows (pool_view bp) bs"
    using v(1) by (simp add: rows_Cons)
  moreover have "table (pool_view bp') (as @ p # bs)"
    unfolding i(3) by (rule table_update [of "pool_view bp", OF t v(1) D(1,3)])
  ultimately have "row_inserted bp (as @ p # bs) (p, slotted_slot_count v) data bp' (as @ p # bs)"
    unfolding row_inserted_def using i(2-4) old
    by (intro conjI exI [of _ "rows (pool_view bp) as @ page_rows p v"] exI [of _ "rows (pool_view bp) bs"]) simp_all
  then show ?thesis using i(1,5) by blast
qed

lemma insert_append:
  assumes q: "pool_quiet bp" and t: "table (pool_view bp) (as @ [p])" and small: "length data \<le> MAX_TUPLE_SIZE"
    and room: "log_room (Suc (Suc (Suc (Suc (Suc (Suc k)))))) bp" and n: "next_page bp \<noteq> - 1" and ne: "data \<noteq> []"
  shows "\<exists>bp1 slot bp'. append_page_after txn p bp = (Inr (next_page bp), bp1) \<and>
    insert_here txn data (next_page bp) bp1 = (Inr (Inl slot), bp') \<and> log_room k bp' \<and>
    row_inserted bp (as @ [p]) (next_page bp, slot) data bp' (as @ [p, next_page bp])"
proof -
  let ?n = "next_page bp"
  obtain v where v: "pool_view bp p = Some v" "slotted_wf v"
    using t by (auto simp: table_def elim: chain_page)
  obtain bp1 w e where a: "append_page_after txn p bp = (Inr ?n, bp1)" "pool_quiet bp1"
    "pool_view bp1 = (pool_view bp)(?n \<mapsto> e, p \<mapsto> w)" "fresh_page e" "slotted_wf w" "slots w = slots v"
    "next_page_id w = Some ?n" "next_page bp1 = ?n + 1" "log_room (Suc (Suc (Suc k))) bp1"
    using append_page_effect [OF q v room n, of txn] by blast
  have e: "slotted_wf e" "slots e = []" "next_page_id e = None" "slotted_data_start e = PAGE_SIZE"
    using a(4) by (simp_all add: fresh_page_def)
  have "pool_view bp ?n = None" using pool.view_range [of bp ?n] q by (simp add: pool_quiet_def)
  then have out: "?n \<notin> set (as @ [p])" "p \<notin> set as"
    using t by (auto simp: table_def elim: chain_page)
  have t1: "table (pool_view bp1) ((as @ [p]) @ ?n # [])"
    using chain_extend [of "pool_view bp" as p v ?n w e] t v out a(5,7) e unfolding a(3)
    by (auto simp: table_def)
  have v1: "pool_view bp1 ?n = Some e" using a(3) out by auto
  have rows1: "rows (pool_view bp1) ((as @ [p]) @ [?n]) = rows (pool_view bp) (as @ [p])"
    using out v(1) unfolding a(3) by (simp add: rows_Cons page_rows_def a(6) e(2) rows_def [of _ "[]"])
  obtain slot bp' where i: "insert_here txn data ?n bp1 = (Inr (Inl slot), bp')" "log_room k bp'"
    "row_inserted bp1 ((as @ [p]) @ ?n # []) (?n, slot) data bp' ((as @ [p]) @ ?n # [])"
    using insert_fits [OF a(2) t1 v1 e(1) empty_page_fits [OF e(2,4) small] a(9) ne, of txn] by blast
  then have "row_inserted bp (as @ [p]) (?n, slot) data bp' (as @ [p, ?n])"
    using a(8) rows1 by (auto simp: row_inserted_def a(3))
  then show ?thesis using a(1) i by blast
qed

lemma insert_loop_effect:
  assumes "pool_quiet bp" "table (pool_view bp) (as @ p # bs)" "length data \<le> MAX_TUPLE_SIZE" "data \<noteq> []"
    "log_room (Suc (Suc (Suc (Suc (Suc (Suc k)))))) bp" "next_page bp \<noteq> - 1"
  shows "\<exists>r bp' ps'. insert_loop txn data p bp = Some (Inr r, bp') \<and> log_room k bp' \<and>
    row_inserted bp (as @ p # bs) r data bp' ps'"
  using assms
proof (induction bs arbitrary: as p bp)
  case (Cons p' bs)
  obtain v where v: "pool_view bp p = Some v" "slotted_wf v" "next_page_id v = Some p'"
    using chain_next [of "pool_view bp" as p "p' # bs"] Cons.prems(2)
    by (auto simp: table_def linked_def split: option.splits)
  show ?case
  proof (cases "page_fits v data")
    case True
    have room: "log_room (Suc (Suc (Suc k))) bp" by (rule log_room_mono [OF Cons.prems(5)]) simp
    then show ?thesis
      using insert_fits [OF Cons.prems(1,2) v(1,2) True room Cons.prems(4), of txn]
      by (subst insert_loop.simps) auto
  next
    case False
    obtain bp1 where i: "insert_here txn data p bp = (Inr (Inr (Some p')), bp1)" "pool_quiet bp1"
      "pool_view bp1 = pool_view bp" "next_page bp1 = next_page bp" "log_room (Suc (Suc (Suc (Suc (Suc (Suc k)))))) bp1"
      using insert_here_full [OF Cons.prems(1) v(1) False Cons.prems(5), of txn] v(3) by auto
    have t1: "table (pool_view bp1) ((as @ [p]) @ p' # bs)" using Cons.prems(2) i(3) by simp
    have "next_page bp1 \<noteq> - 1" using i(4) Cons.prems(6) by simp
    from Cons.IH [OF i(2) t1 Cons.prems(3,4) i(5) this] show ?thesis
      using i by (subst insert_loop.simps) (simp add: row_inserted_def)
  qed
next
  case Nil
  obtain v where v: "pool_view bp p = Some v" "slotted_wf v" "next_page_id v = None"
    using chain_next [of "pool_view bp" as p "[]"] Nil.prems(2)
    by (auto simp: table_def linked_def split: option.splits)
  show ?case
  proof (cases "page_fits v data")
    case True
    have room: "log_room (Suc (Suc (Suc k))) bp" by (rule log_room_mono [OF Nil.prems(5)]) simp
    then show ?thesis
      using insert_fits [OF Nil.prems(1,2) v(1,2) True room Nil.prems(4), of txn]
      by (subst insert_loop.simps) auto
  next
    case False
    obtain bp1 where i: "insert_here txn data p bp = (Inr (Inr None), bp1)" "pool_quiet bp1"
      "pool_view bp1 = pool_view bp" "next_page bp1 = next_page bp" "log_room (Suc (Suc (Suc (Suc (Suc (Suc k)))))) bp1"
      using insert_here_full [OF Nil.prems(1) v(1) False Nil.prems(5), of txn] v(3) by auto
    have t1: "table (pool_view bp1) (as @ [p])" using Nil.prems(2) i(3) by simp
    have n: "next_page bp1 \<noteq> - 1" using i(4) Nil.prems(6) by simp
    obtain bp2 slot bp' where a: "append_page_after txn p bp1 = (Inr (next_page bp1), bp2)"
      "insert_here txn data (next_page bp1) bp2 = (Inr (Inl slot), bp')" "log_room k bp'"
      "row_inserted bp1 (as @ [p]) (next_page bp1, slot) data bp' (as @ [p, next_page bp1])"
      using insert_append [OF i(2) t1 Nil.prems(3) i(5) n Nil.prems(4), of txn] by blast
    have "insert_loop txn data p bp = Some (Inr (next_page bp1, slot), bp')"
      using i(1) a(1,2) by (subst insert_loop.simps, simp, subst insert_loop.simps, simp)
    moreover have "row_inserted bp (as @ [p]) (next_page bp1, slot) data bp' (as @ [p, next_page bp1])"
      using a(4) i(3,4) by (simp add: row_inserted_def)
    ultimately show ?thesis using a(3) by blast
  qed
qed

section \<open>Scanning a table\<close>

lemma page_tuples_eq:
  assumes "slotted_wf v" "stamp_checksum d = v" "length d = PAGE_SIZE" "k + n = slot_count v"
  shows "page_tuples d p n (of_nat k) = Inr (slot_rows p k (drop k (slots v)))"
  using assms(4)
proof (induction n arbitrary: k)
  case (Suc n)
  have k: "k < slot_count v" "unat (of_nat k :: u16) = k"
    using Suc.prems wf_count(1) [OF assms(1)] by (simp_all add: unat_of_nat_small)
  have "slotted_read d (of_nat k) p = Inr (slots v ! k)"
    using slotted_read_wf [OF assms(1), of "of_nat k" p] slotted_read_stamp [OF assms(3), of "of_nat k" p] assms(2) k
    by (simp add: slots_nth)
  moreover have "page_tuples d p n (of_nat k + 1) = Inr (slot_rows p (Suc k) (drop (Suc k) (slots v)))"
    using Suc.IH [of "Suc k"] Suc.prems by (simp add: add.commute)
  moreover have "drop k (slots v) = slots v ! k # drop (Suc k) (slots v)"
    using k by (simp add: Cons_nth_drop_Suc)
  ultimately show ?case by (simp split: option.splits)
qed simp

lemma iter_page_effect:
  assumes q: "pool_quiet bp" and l: "linked (pool_view bp) p nxt" and room: "log_room k bp"
  shows "\<exists>bp'. iter_page p bp = (Inr (page_rows p (the (pool_view bp p)), nxt), bp') \<and> pool_quiet bp' \<and>
    pool_view bp' = pool_view bp \<and> next_page bp' = next_page bp \<and> log_room k bp'"
proof -
  obtain v where v: "pool_view bp p = Some v" "slotted_wf v" "next_page_id v = nxt"
    using l by (auto simp: linked_def split: option.splits)
  have eq: "and_then (checked_slot_count d p) (\<lambda>count. and_then (page_tuples d p (unat count) 0) (\<lambda>ts. Inr (ts, next_page_id d))) =
      Inr (page_rows p v, nxt)"
    if "stamp_checksum d = v" "length d = PAGE_SIZE" for d
    using that slotted_stamp(3,4) [OF that(2)] wf_count(2) [OF v(2), of p] page_tuples_eq [OF v(2) that, of 0 "slot_count v" p] v(3)
    by (simp add: page_rows_def slot_count_def)
  show ?thesis
    unfolding iter_page_def by (rule page_read_effect [OF q v(1) room]) (simp add: eq v(1) Let_def)
qed

lemma heap_iter_effect:
  assumes "pool_quiet bp" "chain (pool_view bp) (p # ps)" "log_room k bp"
  shows "\<exists>bp'. heap_iter p acc bp = Some (Inr (acc @ rows (pool_view bp) (p # ps)), bp') \<and> pool_quiet bp' \<and>
    pool_view bp' = pool_view bp \<and> next_page bp' = next_page bp \<and> log_room k bp'"
  using assms
proof (induction ps arbitrary: p acc bp)
  case Nil
  have "linked (pool_view bp) p None" using Nil.prems(2) by simp
  then show ?case
    using iter_page_effect [OF Nil.prems(1) _ Nil.prems(3), of p None]
    by (subst heap_iter.simps) (auto simp: rows_def)
next
  case (Cons q ps)
  have l: "linked (pool_view bp) p (Some q)" using Cons.prems(2) by simp
  obtain bp1 where i: "iter_page p bp = (Inr (page_rows p (the (pool_view bp p)), Some q), bp1)" "pool_quiet bp1"
    "pool_view bp1 = pool_view bp" "next_page bp1 = next_page bp" "log_room k bp1"
    using iter_page_effect [OF Cons.prems(1) l Cons.prems(3)] by blast
  have "chain (pool_view bp1) (q # ps)" using Cons.prems(2) i(3) by simp
  from Cons.IH [OF i(2) this i(5), of "acc @ page_rows p (the (pool_view bp p))"] show ?case
    using i by (subst heap_iter.simps) (simp add: rows_Cons)
qed

text \<open>A scan by \<open>scan_page\<close> finds the first live slot from a position on, or the link to the next page.\<close>

lemma scan_slots_eq:
  assumes "slotted_wf v" "stamp_checksum d = v" "length d = PAGE_SIZE" "k + n = slot_count v"
  shows "scan_slots d p n (of_nat k) = Inr (case slot_rows p k (drop k (slots v)) of
      [] \<Rightarrow> EndOfPage (next_page_id v) | (r, x) # _ \<Rightarrow> ScanTuple (snd r) x)"
  using assms(4)
proof (induction n arbitrary: k)
  case 0
  then show ?case using slotted_stamp(3) [OF assms(3)] assms(2) by simp
next
  case (Suc n)
  have k: "k < slot_count v" "unat (of_nat k :: u16) = k"
    using Suc.prems wf_count(1) [OF assms(1)] by (simp_all add: unat_of_nat_small)
  have "slotted_read d (of_nat k) p = Inr (slots v ! k)"
    using slotted_read_wf [OF assms(1), of "of_nat k" p] slotted_read_stamp [OF assms(3), of "of_nat k" p] assms(2) k
    by (simp add: slots_nth)
  moreover have "scan_slots d p n (of_nat k + 1) = Inr (case slot_rows p (Suc k) (drop (Suc k) (slots v)) of
      [] \<Rightarrow> EndOfPage (next_page_id v) | (r, x) # _ \<Rightarrow> ScanTuple (snd r) x)"
    using Suc.IH [of "Suc k"] Suc.prems by (simp add: add.commute)
  moreover have "drop k (slots v) = slots v ! k # drop (Suc k) (slots v)"
    using k by (simp add: Cons_nth_drop_Suc)
  ultimately show ?case by (simp split: option.splits)
qed

lemma scan_page_effect:
  assumes q: "pool_quiet bp" and l: "linked (pool_view bp) p nxt" and room: "log_room k bp"
  shows "\<exists>bp'. scan_page p from_slot bp = (Inr (case filter (\<lambda>x. from_slot \<le> snd (fst x)) (page_rows p (the (pool_view bp p))) of
      [] \<Rightarrow> EndOfPage nxt | (r, x) # _ \<Rightarrow> ScanTuple (snd r) x), bp') \<and> pool_quiet bp' \<and>
    pool_view bp' = pool_view bp \<and> next_page bp' = next_page bp \<and> log_room k bp'"
proof -
  obtain v where v: "pool_view bp p = Some v" "slotted_wf v" "next_page_id v = nxt"
    using l by (auto simp: linked_def split: option.splits)
  have c: "slot_count v \<le> 1019" by (rule wf_count(1) [OF v(2)])
  have flt: "slot_rows p (unat from_slot) (drop (unat from_slot) (slots v)) =
      filter (\<lambda>x. from_slot \<le> snd (fst x)) (page_rows p v)"
    using slot_rows_from [of 0 "slots v" p from_slot] c by (simp add: page_rows_def)
  have eq: "scan_page_bytes d p from_slot = Inr (case filter (\<lambda>x. from_slot \<le> snd (fst x)) (page_rows p v) of
      [] \<Rightarrow> EndOfPage nxt | (r, x) # _ \<Rightarrow> ScanTuple (snd r) x)"
    if d: "stamp_checksum d = v" "length d = PAGE_SIZE" for d
  proof -
    have cnt: "checked_slot_count d p = Inr (slotted_slot_count v)"
      using slotted_stamp(4) [OF d(2)] d(1) wf_count(2) [OF v(2), of p] by simp
    show ?thesis
    proof (cases "unat from_slot \<le> slot_count v")
      case True
      then show ?thesis
        using scan_slots_eq [OF v(2) d, of "unat from_slot" "slot_count v - unat from_slot" p, unfolded v(3)] cnt
        by (simp add: scan_page_bytes_def slot_count_def flt [symmetric])
    next
      case False
      then show ?thesis using cnt v(3) slotted_stamp(3) [OF d(2)] d(1)
        by (simp add: scan_page_bytes_def slot_count_def [symmetric] flt [symmetric])
    qed
  qed
  show ?thesis
    unfolding scan_page_def by (rule page_read_effect [OF q v(1) room]) (simp add: eq v(1))
qed

section \<open>A small table\<close>

definition demo_heap :: buffer_pool where
  "demo_heap = snd (heap_create 7 (demo_pool 4))"

lemma demo_heap_facts:
  "heap_create 7 (demo_pool 4) = (Inr 1, demo_heap)" "pool_quiet demo_heap" "table (pool_view demo_heap) [1]"
  "rows (pool_view demo_heap) [1] = []" "log_room 18 demo_heap" "next_page demo_heap = 2"
proof -
  have "log_room (Suc (Suc 18)) (demo_pool 4)" "next_page (demo_pool 4) \<noteq> - 1" "pool_quiet (demo_pool 4)"
    using demo_pool_facts(3,5,6) [of 4] by simp_all
  then obtain bp l where h: "heap_create 7 (demo_pool 4) = (Inr 1, bp)" "pool_quiet bp"
    "pool_view bp = (pool_view (demo_pool 4))(1 \<mapsto> write_bytes blank_page SLOT_COUNT_OFFSET (replicate 8 0) l)"
    "next_page bp = 2" "log_room 18 bp"
    using heap_create_effect [of "demo_pool 4" 18 7] demo_pool_facts(3) [of 4] by auto
  have "bp = demo_heap" using h(1) by (simp add: demo_heap_def)
  then show "heap_create 7 (demo_pool 4) = (Inr 1, demo_heap)" "pool_quiet demo_heap" "table (pool_view demo_heap) [1]"
    "rows (pool_view demo_heap) [1] = []" "log_room 18 demo_heap" "next_page demo_heap = 2"
    using h page_init_wf [of blank_page l] by (auto simp: table_def linked_def rows_def page_rows_def)
qed

section \<open>What a table guarantees\<close>

text \<open>C26: Inserting a row. On a table whose pages form a chain, inserting a non-empty tuple of at most
  \<open>MAX_TUPLE_SIZE\<close> bytes ends and succeeds. The chain is afterwards as it was or one page longer, the
  row identifier returned was not in use, the rows are those before and the new one, in page and slot
  order, and no page outside the table has changed.\<close>

theorem insert_tuple_adds_row:
  assumes "pool_quiet bp" "table (pool_view bp) (p # ps)" "length data \<le> MAX_TUPLE_SIZE" "data \<noteq> []"
    "log_room 6 bp" "next_page bp \<noteq> - 1"
  shows "\<exists>r bp' ps'. insert_tuple p txn data bp = Some (Inr r, bp') \<and>
    pool_quiet bp' \<and> table (pool_view bp') ps' \<and> (ps' = p # ps \<or> ps' = (p # ps) @ [next_page bp]) \<and>
    r \<notin> fst ` set (rows (pool_view bp) (p # ps)) \<and>
    (\<exists>xs ys. rows (pool_view bp) (p # ps) = xs @ ys \<and> rows (pool_view bp') ps' = xs @ (r, data) # ys) \<and>
    (\<forall>q. q \<notin> set ps' \<longrightarrow> pool_view bp' q = pool_view bp q)"
proof -
  have room: "log_room (Suc (Suc (Suc (Suc (Suc (Suc 0)))))) bp" using assms(5) by (simp add: numeral_eq_Suc)
  obtain r bp' ps' where i: "insert_loop txn data p bp = Some (Inr r, bp')" "row_inserted bp (p # ps) r data bp' ps'"
    using insert_loop_effect [of bp "[]" p ps data 0 txn] assms room by auto
  obtain xs ys where rows: "rows (pool_view bp) (p # ps) = xs @ ys" "rows (pool_view bp') ps' = xs @ (r, data) # ys"
    using i(2) by (auto simp: row_inserted_def)
  have "distinct (map fst (rows (pool_view bp') ps'))"
    using i(2) rows_distinct by (simp add: row_inserted_def)
  then have "r \<notin> fst ` set (rows (pool_view bp) (p # ps))" by (auto simp: rows)
  then show ?thesis
    using i rows assms(3) by (auto simp: insert_tuple_def row_inserted_def)
qed

theorem insert_tuple_adds_row_witness:
  "\<exists>r bp' ps'. insert_tuple 1 7 [1, 2, 3] demo_heap = Some (Inr r, bp') \<and> rows (pool_view bp') ps' = [(r, [1, 2, 3])]"
proof -
  have "log_room 6 demo_heap" by (rule log_room_mono [OF demo_heap_facts(5)]) simp
  then show ?thesis
    using insert_tuple_adds_row [of demo_heap 1 "[]" "[1, 2, 3]" 7] demo_heap_facts
    by (auto simp: MAX_TUPLE_SIZE_def PAGE_SIZE_def heap_consts)
qed

text \<open>The table with one row.\<close>

lemma demo_row:
  obtains r bp ps where "insert_tuple 1 7 [1, 2, 3] demo_heap = Some (Inr r, bp)" "pool_quiet bp"
    "table (pool_view bp) (1 # ps)" "rows (pool_view bp) (1 # ps) = [(r, [1, 2, 3])]" "fst r \<in> set (1 # ps)" "log_room 1 bp"
proof -
  have room: "log_room (Suc (Suc (Suc (Suc (Suc (Suc 1)))))) demo_heap" by (rule log_room_mono [OF demo_heap_facts(5)]) simp
  obtain r bp ps where i: "insert_loop 7 [1, 2, 3] 1 demo_heap = Some (Inr r, bp)" "log_room 1 bp"
    "row_inserted demo_heap [1] r [1, 2, 3] bp ps"
    using insert_loop_effect [of demo_heap "[]" 1 "[]" "[1, 2, 3]" 1 7] demo_heap_facts room
    by (auto simp: MAX_TUPLE_SIZE_def PAGE_SIZE_def heap_consts)
  have row: "rows (pool_view bp) ps = [(r, [1, 2, 3])]" "pool_quiet bp" "table (pool_view bp) ps"
    using i(3) demo_heap_facts(4) by (auto simp: row_inserted_def)
  have ps: "ps = 1 # tl ps" using i(3) by (auto simp: row_inserted_def)
  have "(r, [1, 2, 3]) \<in> set (rows (pool_view bp) ps)" by (simp add: row(1))
  then have "fst r \<in> set ps" by (auto simp: rows_def page_rows_def in_slot_rows)
  then show thesis
    using that [of r bp "tl ps"] i(1,2) row ps
    by (simp add: insert_tuple_def MAX_TUPLE_SIZE_def PAGE_SIZE_def heap_consts)
qed

text \<open>Reading a row. For a page of the table, \<open>get_tuple\<close> succeeds and returns the bytes of the row
  with that identifier, or nothing when there is none; no page changes.\<close>

theorem get_tuple_reads_row:
  assumes "pool_quiet bp" "table (pool_view bp) ps" "p \<in> set ps"
  shows "\<exists>bp'. get_tuple (p, slot) bp = (Inr (map_of (rows (pool_view bp) ps) (p, slot)), bp') \<and> pool_quiet bp' \<and>
    pool_view bp' = pool_view bp"
proof -
  have "log_room 0 bp"
    using assms(1) pool_inv_run [of bp] log_run_bounds(3) by (auto simp: pool_quiet_def log_room_def)
  then show ?thesis using get_tuple_effect [OF assms, of 0 slot] by blast
qed

theorem get_tuple_reads_row_witness: "\<exists>bp'. get_tuple (1, 3) demo_heap = (Inr None, bp')"
  using get_tuple_reads_row [OF demo_heap_facts(2,3), of 1 3] demo_heap_facts(4) by auto

text \<open>C29: Deleting a row. \<open>delete_tuple\<close> succeeds on every slot of a page of the table and removes exactly
  the row with that identifier; every other row keeps its bytes and its identifier.\<close>

theorem delete_tuple_removes_row:
  assumes "pool_quiet bp" "table (pool_view bp) ps" "p \<in> set ps" "log_room 1 bp"
  shows "\<exists>bp'. delete_tuple txn (p, slot) bp = (Inr (), bp') \<and> pool_quiet bp' \<and> table (pool_view bp') ps \<and>
    rows (pool_view bp') ps = filter (\<lambda>x. fst x \<noteq> (p, slot)) (rows (pool_view bp) ps) \<and>
    (\<forall>q. q \<noteq> p \<longrightarrow> pool_view bp' q = pool_view bp q)"
  using delete_tuple_effect [OF assms(1-3), of 0 txn slot] assms(4) by auto

theorem delete_tuple_removes_row_witness:
  "\<exists>r bp ps bp'. insert_tuple 1 7 [1, 2, 3] demo_heap = Some (Inr r, bp) \<and> rows (pool_view bp) ps = [(r, [1, 2, 3])] \<and>
    delete_tuple 7 r bp = (Inr (), bp') \<and> rows (pool_view bp') ps = []"
proof -
  obtain r bp ps where r: "insert_tuple 1 7 [1, 2, 3] demo_heap = Some (Inr r, bp)" "pool_quiet bp"
    "table (pool_view bp) (1 # ps)" "rows (pool_view bp) (1 # ps) = [(r, [1, 2, 3])]" "fst r \<in> set (1 # ps)" "log_room 1 bp"
    using demo_row by blast
  show ?thesis
    using delete_tuple_removes_row [OF r(2,3,5,6), of 7 "snd r"] r(1,4)
    by - (rule exI [of _ r], rule exI [of _ bp], rule exI [of _ "1 # ps"], auto)
qed

text \<open>C28: Updating a row in place. Overwriting bytes inside a row succeeds and changes those bytes of that
  row and nothing else, in this page or any other.\<close>

theorem update_in_place_changes_row:
  assumes "pool_quiet bp" "table (pool_view bp) ps" "map_of (rows (pool_view bp) ps) (p, slot) = Some d"
    "off + length bs \<le> length d" "log_room 1 bp"
  shows "\<exists>bp'. update_tuple_in_place txn (p, slot) off bs bp = (Inr (), bp') \<and> pool_quiet bp' \<and> table (pool_view bp') ps \<and>
    rows (pool_view bp') ps = map (\<lambda>(r, x). (r, if r = (p, slot) then splice d off bs else x)) (rows (pool_view bp) ps) \<and>
    (\<forall>q. q \<noteq> p \<longrightarrow> pool_view bp' q = pool_view bp q)"
  using update_tuple_effect [OF assms(1-4), of 0 txn] assms(5) by auto

theorem update_in_place_changes_row_witness:
  "\<exists>r bp ps bp'. insert_tuple 1 7 [1, 2, 3] demo_heap = Some (Inr r, bp) \<and>
    update_tuple_in_place 7 r 1 [9] bp = (Inr (), bp') \<and> rows (pool_view bp') ps = [(r, [1, 9, 3])]"
proof -
  obtain r bp ps where r: "insert_tuple 1 7 [1, 2, 3] demo_heap = Some (Inr r, bp)" "pool_quiet bp"
    "table (pool_view bp) (1 # ps)" "rows (pool_view bp) (1 # ps) = [(r, [1, 2, 3])]" "log_room 1 bp"
    using demo_row by blast
  then show ?thesis
    using update_in_place_changes_row [OF r(2,3), of "fst r" "snd r" "[1, 2, 3]" 1 "[9]" 7]
    by - (rule exI [of _ r], rule exI [of _ bp], rule exI [of _ "1 # ps"], auto simp: splice_def)
qed

text \<open>C27: Scanning a table. The iterator over a table ends without an error after exactly the rows of the
  table, in page and slot order.\<close>

theorem heap_iter_returns_rows:
  assumes "pool_quiet bp" "table (pool_view bp) (p # ps)"
  shows "\<exists>bp'. heap_iter p [] bp = Some (Inr (rows (pool_view bp) (p # ps)), bp') \<and> pool_quiet bp' \<and>
    pool_view bp' = pool_view bp"
proof -
  have "log_room 0 bp"
    using assms(1) pool_inv_run [of bp] log_run_bounds(3) by (auto simp: pool_quiet_def log_room_def)
  then show ?thesis using heap_iter_effect [OF assms(1), of p ps 0 "[]"] assms(2) by (auto simp: table_def)
qed

theorem heap_iter_returns_rows_witness:
  "\<exists>r bp bp'. insert_tuple 1 7 [1, 2, 3] demo_heap = Some (Inr r, bp) \<and>
    heap_iter 1 [] bp = Some (Inr [(r, [1, 2, 3])], bp')"
proof -
  obtain r bp ps where r: "insert_tuple 1 7 [1, 2, 3] demo_heap = Some (Inr r, bp)" "pool_quiet bp"
    "table (pool_view bp) (1 # ps)" "rows (pool_view bp) (1 # ps) = [(r, [1, 2, 3])]"
    using demo_row by blast
  show ?thesis using heap_iter_returns_rows [OF r(2,3)] r(1,4) by auto
qed

end
