(* ===== verification/Recovery.thy ===== *)
theory Recovery
  imports Pool_Run
begin

text \<open>
  Crash recovery and rollback of \<open>storage/src/recovery.rs\<close>: the analysis of the log from the last
  checkpoint, redo of what may be missing from the file, undo of the transactions that had not
  committed. The losers are undone in the order in which a hash map lists them; that order is the
  argument \<open>order\<close>. A rollback follows the log's backward chain, which a damaged log could make
  circular, so it is a partial function.
\<close>

type_synonym att = "(txn_id, lsn \<times> bool) fmap"
type_synonym dpt = "(page_id, lsn) fmap"

section \<open>Analysis\<close>

fun checkpoint_tables :: "logged_record list \<Rightarrow> att \<times> dpt" where
  "checkpoint_tables [] = (fmempty, fmempty)"
| "checkpoint_tables (r # rs) =
     (if lr_txn r \<noteq> CHECKPOINT_TXN then checkpoint_tables rs
      else case lr_kind r of
        CheckpointEnd snap_att snap_dpt \<Rightarrow>
          (foldl (\<lambda>m (t, l). fmupd t (l, False) m) fmempty snap_att, foldl (\<lambda>m (p, l). fmupd p l m) fmempty snap_dpt)
      | _ \<Rightarrow> checkpoint_tables rs)"

definition touch_txn :: "txn_id \<Rightarrow> lsn \<Rightarrow> att \<Rightarrow> att" where
  "touch_txn t l att =
     (case fmlookup att t of None \<Rightarrow> fmupd t (l, False) att | Some (_, committed) \<Rightarrow> fmupd t (l, committed) att)"

definition touch_page :: "page_id \<Rightarrow> lsn \<Rightarrow> dpt \<Rightarrow> dpt" where
  "touch_page p l dpt = (case fmlookup dpt p of None \<Rightarrow> fmupd p l dpt | Some _ \<Rightarrow> dpt)"

fun analyze :: "logged_record list \<Rightarrow> att \<times> dpt \<Rightarrow> storage_error + att \<times> dpt" where
  "analyze [] tables = Inr tables"
| "analyze (r # rs) (att, dpt) =
     (if lr_txn r = CHECKPOINT_TXN then analyze rs (att, dpt)
      else case lr_kind r of
        End \<Rightarrow> analyze rs (fmdrop (lr_txn r) att, dpt)
      | Commit \<Rightarrow> analyze rs (fmupd (lr_txn r) (lr_lsn r, True) att, dpt)
      | Update p _ _ _ \<Rightarrow> analyze rs (touch_txn (lr_txn r) (lr_lsn r) att, touch_page p (lr_lsn r) dpt)
      | Clr p _ _ _ \<Rightarrow> analyze rs (touch_txn (lr_txn r) (lr_lsn r) att, touch_page p (lr_lsn r) dpt)
      | AllocPage p \<Rightarrow> analyze rs (touch_txn (lr_txn r) (lr_lsn r) att, touch_page p (lr_lsn r) dpt)
      | Begin \<Rightarrow> analyze rs (fmupd (lr_txn r) (lr_lsn r, False) att, dpt)
      | Abort \<Rightarrow> analyze rs (touch_txn (lr_txn r) (lr_lsn r) att, dpt)
      | CheckpointBegin \<Rightarrow> Inl Panicked
      | CheckpointEnd _ _ \<Rightarrow> Inl Panicked)"

definition losers_of :: "att \<Rightarrow> (txn_id \<times> lsn) list" where
  "losers_of att = List.map_filter (\<lambda>t. case fmlookup att t of
       Some (last_lsn, False) \<Rightarrow> Some (t, last_lsn) | _ \<Rightarrow> None) (sorted_list_of_set (fset (fmdom att)))"

definition min_recovery_lsn :: "dpt \<Rightarrow> lsn option" where
  "min_recovery_lsn dpt = (if fmran dpt = {||} then None else Some (Min (fset (fmran dpt))))"

section \<open>Redo\<close>

definition redo_record :: "logged_record \<Rightarrow> unit pool_m" where
  "redo_record r =
     (case lr_kind r of
        Update p off _ after \<Rightarrow>
          sbind (pool_page_lsn p) (\<lambda>l. if l < lr_lsn r then stamp_write p (unat off) after (lr_lsn r) else sreturn ())
      | Clr p off after _ \<Rightarrow>
          sbind (pool_page_lsn p) (\<lambda>l. if l < lr_lsn r then stamp_write p (unat off) after (lr_lsn r) else sreturn ())
      | AllocPage p \<Rightarrow> ensure_page_allocated p
      | _ \<Rightarrow> sreturn ())"

definition redo :: "dpt \<Rightarrow> unit pool_m" where
  "redo dpt bp =
     (case min_recovery_lsn dpt of
        None \<Rightarrow> (Inr (), bp)
      | Some from \<Rightarrow> sforeach (log_iter_from (bp_log bp) from) redo_record bp)"

section \<open>Undo\<close>

text \<open>One turn of the loop of \<open>undo_transaction\<close>: the next cursor.\<close>

definition undo_record :: "txn_id \<Rightarrow> logged_record \<Rightarrow> lsn option pool_m" where
  "undo_record txn r =
     (case lr_kind r of
        Update p off before _ \<Rightarrow>
          sbind (append_log txn (Clr p off before (case lr_prev r of None \<Rightarrow> 0 | Some l \<Rightarrow> l))) (\<lambda>clr_lsn.
          sbind (stamp_write p (unat off) before clr_lsn) (\<lambda>_.
            sreturn (lr_prev r)))
      | Clr _ _ _ undo_next \<Rightarrow> sreturn (if undo_next \<noteq> 0 then Some undo_next else None)
      | Begin \<Rightarrow> sreturn None
      | _ \<Rightarrow> sreturn (lr_prev r))"

definition finish_undo :: "txn_id \<Rightarrow> unit pool_m" where
  "finish_undo txn = sbind (append_log txn Abort) (\<lambda>_. sbind (append_log txn End) (\<lambda>_. sreturn ()))"

partial_function (option) undo_from :: "txn_id \<Rightarrow> lsn option \<Rightarrow> buffer_pool \<Rightarrow> ((storage_error + unit) \<times> buffer_pool) option" where
  "undo_from txn cursor bp =
     (case cursor of
        None \<Rightarrow> Some (finish_undo txn bp)
      | Some l \<Rightarrow>
          (case read_log_at (bp_log bp) l of
             Inl e \<Rightarrow> Some (Inl e, bp)
           | Inr None \<Rightarrow> Some (finish_undo txn bp)
           | Inr (Some r) \<Rightarrow>
               (case undo_record txn r bp of
                  (Inl e, bp') \<Rightarrow> Some (Inl e, bp')
                | (Inr cursor', bp') \<Rightarrow> undo_from txn cursor' bp')))"

definition undo_transaction :: "txn_id \<Rightarrow> lsn \<Rightarrow> buffer_pool \<Rightarrow> ((storage_error + unit) \<times> buffer_pool) option" where
  "undo_transaction txn from = undo_from txn (Some from)"

fun undo_losers :: "(txn_id \<times> lsn) list \<Rightarrow> buffer_pool \<Rightarrow> ((storage_error + unit) \<times> buffer_pool) option" where
  "undo_losers [] bp = Some (Inr (), bp)"
| "undo_losers ((t, l) # rest) bp =
     (case undo_transaction t l bp of
        None \<Rightarrow> None
      | Some (Inl e, bp') \<Rightarrow> Some (Inl e, bp')
      | Some (Inr _, bp') \<Rightarrow> undo_losers rest bp')"

section \<open>Recovery\<close>

definition analysis :: "buffer_pool \<Rightarrow> (storage_error + att \<times> dpt) \<times> buffer_pool" where
  "analysis =
     sbind last_checkpoint_lsn (\<lambda>ckpt bp.
       let start = (case ckpt of None \<Rightarrow> of_nat HEADER_LEN | Some l \<Rightarrow> l);
           records = log_iter_from (bp_log bp) start
       in (analyze records (checkpoint_tables records), bp))"

definition recover ::
    "((txn_id \<times> lsn) list \<Rightarrow> (txn_id \<times> lsn) list) \<Rightarrow> buffer_pool \<Rightarrow> ((storage_error + txn_id option) \<times> buffer_pool) option" where
  "recover order bp =
     (case analysis bp of
        (Inl e, bp1) \<Rightarrow> Some (Inl e, bp1)
      | (Inr (att, dpt), bp1) \<Rightarrow>
          (case redo dpt bp1 of
             (Inl e, bp2) \<Rightarrow> Some (Inl e, bp2)
           | (Inr _, bp2) \<Rightarrow>
               (case undo_losers (order (losers_of att)) bp2 of
                  None \<Rightarrow> None
                | Some (Inl e, bp3) \<Rightarrow> Some (Inl e, bp3)
                | Some (Inr _, bp3) \<Rightarrow>
                    Some (sbind pool_flush_log_all (\<lambda>_.
                      sbind flush_all (\<lambda>_.
                      sbind (on_disk disk_sync) (\<lambda>_.
                        sget (\<lambda>bp. max_txn_id (bp_log bp))))) bp3))))"

end
