(* ===== verification/Txn_Manager.thy ===== *)
theory Txn_Manager
  imports Recovery Lock_Manager Version_Store
begin

text \<open>
  The transaction manager of \<open>txn/src/manager.rs\<close> and checkpoints of \<open>txn/src/checkpoint.rs\<close>: the set
  of active transactions, begin, commit, the three phases of an abort, and the checkpoint record with
  the truncation bound it allows. The state is the manager (with its lock table and its version
  store) and the buffer pool. Where the code walks a hash map the model lists it in key order.
\<close>

datatype isolation_level = ReadUncommitted | ReadCommitted | RepeatableRead | SnapshotIsolation | Serializable

datatype transaction_state = Growing | Aborted

record transaction =
  tx_id :: txn_id
  tx_isolation :: isolation_level
  tx_state :: transaction_state
  tx_begin_lsn :: lsn
  tx_read_ts :: timestamp

definition transaction_new :: "txn_id \<Rightarrow> isolation_level \<Rightarrow> lsn \<Rightarrow> timestamp \<Rightarrow> transaction" where
  "transaction_new t level begin_lsn read_ts =
     \<lparr>tx_id = t, tx_isolation = level, tx_state = Growing, tx_begin_lsn = begin_lsn, tx_read_ts = read_ts\<rparr>"

datatype txn_error =
    DeadlockVictim u64
  | LockTimeout u64
  | LockAfterUnlock u64
  | UnknownTransaction u64
  | AbortInProgress u64
  | TxnStorage storage_error

record txn_manager =
  tm_active :: "(txn_id, transaction) fmap"
  tm_next_txn_id :: u64
  tm_locks :: lock_state
  tm_versions :: version_store
  tm_next_ts :: timestamp

definition txn_manager_new :: "txn_id option \<Rightarrow> txn_manager" where
  "txn_manager_new highest_seen =
     \<lparr>tm_active = fmempty, tm_next_txn_id = (case highest_seen of None \<Rightarrow> 0 | Some t \<Rightarrow> t + 1),
      tm_locks = lock_state_new, tm_versions = version_store_new, tm_next_ts = 0\<rparr>"

type_synonym 'a txn_m = "(txn_manager \<times> buffer_pool, txn_error, 'a) sresult"

definition on_pool :: "'a pool_m \<Rightarrow> 'a txn_m" where
  "on_pool m s = (case m (snd s) of (Inl e, bp) \<Rightarrow> (Inl (TxnStorage e), fst s, bp) | (Inr x, bp) \<Rightarrow> (Inr x, fst s, bp))"

definition on_tm :: "(txn_manager \<Rightarrow> txn_manager) \<Rightarrow> unit txn_m" where
  "on_tm f = smodify (\<lambda>(tm, bp). (f tm, bp))"

definition pool_last_lsn :: "txn_id \<Rightarrow> buffer_pool \<Rightarrow> lsn option" where
  "pool_last_lsn t bp = last_lsn_for (bp_log bp) t"

definition truncate_log_below :: "lsn \<Rightarrow> unit pool_m" where
  "truncate_log_below bound = smodify (\<lambda>bp. bp\<lparr>bp_log := truncate_below (bp_log bp) bound\<rparr>)"

section \<open>Questions\<close>

definition active_list :: "txn_manager \<Rightarrow> (txn_id \<times> transaction) list" where
  "active_list tm = map (\<lambda>t. (t, the (fmlookup (tm_active tm) t))) (sorted_list_of_set (fset (fmdom (tm_active tm))))"

definition oldest_active_read_ts :: "txn_manager \<Rightarrow> timestamp" where
  "oldest_active_read_ts tm =
     (if fmdom (tm_active tm) = {||} then tm_next_ts tm else Min (tx_read_ts ` fset (fmran (tm_active tm))))"

definition oldest_active_txn_id :: "txn_manager \<Rightarrow> txn_id" where
  "oldest_active_txn_id tm =
     (if fmdom (tm_active tm) = {||} then tm_next_txn_id tm else Min (fset (fmdom (tm_active tm))))"

definition earliest_active_begin_lsn :: "txn_manager \<Rightarrow> lsn option" where
  "earliest_active_begin_lsn tm =
     (if fmdom (tm_active tm) = {||} then None else Some (Min (tx_begin_lsn ` fset (fmran (tm_active tm)))))"

definition active_snapshot :: "txn_manager \<times> buffer_pool \<Rightarrow> (txn_id \<times> lsn) list" where
  "active_snapshot s = List.map_filter (\<lambda>(t, _). map_option (\<lambda>l. (t, l)) (pool_last_lsn t (snd s))) (active_list (fst s))"

definition txn_get :: "txn_id \<Rightarrow> txn_manager \<Rightarrow> txn_error + transaction" where
  "txn_get t tm = ok_or (fmlookup (tm_active tm) t) (UnknownTransaction t)"

section \<open>Begin and commit\<close>

definition next_timestamp :: "timestamp txn_m" where
  "next_timestamp s = (Inr (tm_next_ts (fst s)), (fst s)\<lparr>tm_next_ts := tm_next_ts (fst s) + 1\<rparr>, snd s)"

definition txn_begin :: "isolation_level \<Rightarrow> txn_id txn_m" where
  "txn_begin level =
     sbind (sget (\<lambda>s. tm_next_txn_id (fst s))) (\<lambda>t.
     sbind (on_tm (\<lambda>tm. tm\<lparr>tm_next_txn_id := tm_next_txn_id tm + 1\<rparr>)) (\<lambda>_.
     sbind next_timestamp (\<lambda>read_ts.
     sbind (on_pool (append_log t Begin)) (\<lambda>begin_lsn.
     sbind (on_tm (\<lambda>tm. tm\<lparr>tm_active := fmupd t (transaction_new t level begin_lsn read_ts) (tm_active tm)\<rparr>)) (\<lambda>_.
       sreturn t)))))"

definition growing :: "txn_id \<Rightarrow> txn_manager \<Rightarrow> txn_error + unit" where
  "growing t tm =
     and_then (txn_get t tm) (\<lambda>tx. if tx_state tx = Aborted then Inl (AbortInProgress t) else Inr ())"

definition release_txn :: "txn_id \<Rightarrow> txn_manager \<Rightarrow> txn_manager" where
  "release_txn t tm =
     (let tm = tm\<lparr>tm_versions := prune_versions (tm_versions tm) (oldest_active_read_ts tm)\<rparr>
      in tm\<lparr>tm_locks := prune_finished (release_all (tm_locks tm) t) (oldest_active_txn_id tm)\<rparr>)"

definition txn_commit :: "txn_id \<Rightarrow> unit txn_m" where
  "txn_commit t =
     sbind (\<lambda>s. (growing t (fst s), s)) (\<lambda>_.
     sbind (on_pool (append_log t Commit)) (\<lambda>commit_lsn.
     sbind (on_pool (pool_flush_log commit_lsn)) (\<lambda>_.
     sbind next_timestamp (\<lambda>commit_ts.
     sbind (on_tm (\<lambda>tm. tm\<lparr>tm_versions := commit_versions (tm_versions tm) t commit_ts\<rparr>)) (\<lambda>_.
     sbind (on_pool (append_log t End)) (\<lambda>_.
     sbind (on_tm (\<lambda>tm. tm\<lparr>tm_active := fmdrop t (tm_active tm)\<rparr>)) (\<lambda>_.
       on_tm (release_txn t))))))))"

section \<open>Abort\<close>

record pending_abort =
  pa_txn :: txn_id
  pa_last_lsn :: "lsn option"

definition set_txn_state :: "txn_id \<Rightarrow> transaction_state \<Rightarrow> txn_manager \<Rightarrow> txn_manager" where
  "set_txn_state t st tm = tm\<lparr>tm_active := fmmap_keys (\<lambda>t' tx. if t' = t then tx\<lparr>tx_state := st\<rparr> else tx) (tm_active tm)\<rparr>"

definition begin_abort :: "txn_id \<Rightarrow> pending_abort txn_m" where
  "begin_abort t =
     sbind (\<lambda>s. (growing t (fst s), s)) (\<lambda>_.
     sbind (on_tm (set_txn_state t Aborted)) (\<lambda>_.
       sget (\<lambda>s. \<lparr>pa_txn = t, pa_last_lsn = pool_last_lsn t (snd s)\<rparr>)))"

definition pending_undo :: "pending_abort \<Rightarrow> buffer_pool \<Rightarrow> ((storage_error + unit) \<times> buffer_pool) option" where
  "pending_undo pa bp =
     (case pa_last_lsn pa of None \<Rightarrow> Some (Inr (), bp) | Some l \<Rightarrow> undo_transaction (pa_txn pa) l bp)"

definition finish_abort :: "pending_abort \<Rightarrow> unit txn_m" where
  "finish_abort pa =
     sbind (\<lambda>s. (and_then (txn_get (pa_txn pa) (fst s)) (\<lambda>_. Inr ()), s)) (\<lambda>_.
     sbind (on_tm (\<lambda>tm. tm\<lparr>tm_active := fmdrop (pa_txn pa) (tm_active tm)\<rparr>)) (\<lambda>_.
     sbind (on_tm (\<lambda>tm. tm\<lparr>tm_versions := abort_versions (tm_versions tm) (pa_txn pa) (tm_next_ts tm)\<rparr>)) (\<lambda>_.
       on_tm (release_txn (pa_txn pa)))))"

definition cancel_abort :: "pending_abort \<Rightarrow> txn_manager \<Rightarrow> txn_manager" where
  "cancel_abort pa = set_txn_state (pa_txn pa) Growing"

definition txn_abort :: "txn_id \<Rightarrow> txn_manager \<times> buffer_pool \<Rightarrow> ((txn_error + unit) \<times> txn_manager \<times> buffer_pool) option" where
  "txn_abort t s =
     (case begin_abort t s of
        (Inl e, s1) \<Rightarrow> Some (Inl e, s1)
      | (Inr pa, tm, bp) \<Rightarrow>
          (case pending_undo pa bp of
             None \<Rightarrow> None
           | Some (Inl e, bp') \<Rightarrow> Some (Inl (TxnStorage e), cancel_abort pa tm, bp')
           | Some (Inr _, bp') \<Rightarrow> Some (finish_abort pa (tm, bp'))))"

section \<open>Checkpoints\<close>

record pending_checkpoint =
  pc_begin_lsn :: lsn
  pc_truncate_bound :: "lsn option"

definition min_option :: "lsn list \<Rightarrow> lsn option" where
  "min_option ls = (if ls = [] then None else Some (Min (set ls)))"

definition write_checkpoint_record :: "pending_checkpoint txn_m" where
  "write_checkpoint_record =
     sbind (on_pool (append_log CHECKPOINT_TXN CheckpointBegin)) (\<lambda>begin_lsn.
     sbind (sget active_snapshot) (\<lambda>att.
     sbind (sget (\<lambda>s. dirty_page_table (snd s))) (\<lambda>dpt.
     sbind (on_pool (append_log CHECKPOINT_TXN (CheckpointEnd att dpt))) (\<lambda>_.
     sbind (on_pool pool_flush_log_all) (\<lambda>_.
     sbind (txn_begin ReadCommitted) (\<lambda>header_txn.
     sbind (on_pool (set_last_checkpoint_lsn header_txn begin_lsn)) (\<lambda>_.
     sbind (txn_commit header_txn) (\<lambda>_.
     sbind (sget (\<lambda>s. earliest_active_begin_lsn (fst s))) (\<lambda>att_min.
       sreturn \<lparr>pc_begin_lsn = begin_lsn,
         pc_truncate_bound = min_option (map snd dpt @ (case att_min of None \<Rightarrow> [] | Some l \<Rightarrow> [l]) @ [begin_lsn])\<rparr>)))))))))"

definition finish_checkpoint :: "pending_checkpoint \<Rightarrow> lsn txn_m" where
  "finish_checkpoint pc =
     sbind (on_pool (flush_page 0)) (\<lambda>_.
     sbind (on_pool (on_disk disk_sync)) (\<lambda>_.
     sbind (case pc_truncate_bound pc of None \<Rightarrow> sreturn () | Some b \<Rightarrow> on_pool (truncate_log_below b)) (\<lambda>_.
       sreturn (pc_begin_lsn pc))))"

definition write_checkpoint :: "lsn txn_m" where
  "write_checkpoint = sbind write_checkpoint_record finish_checkpoint"

end
