(* ===== verification/History.thy ===== *)
theory History
  imports Recovery
begin

text \<open>
  Pages as the log describes them. Replaying the records that touch a page, from the page as it was
  when the log began, gives the page as of any LSN. \<open>as_of\<close> says that a page is the page as of its own LSN;
  the lemmas show that applying a later record keeps this and that a record not later than
  the page is already in it, which is what the LSN test of redo relies on.
\<close>

section \<open>Replaying the log\<close>

definition page_apply :: "page_id \<Rightarrow> logged_record \<Rightarrow> bytes \<Rightarrow> bytes" where
  "page_apply p r v =
     (case lr_kind r of
        Update q off _ after \<Rightarrow> if q = p then write_bytes v (unat off) after (lr_lsn r) else v
      | Clr q off after _ \<Rightarrow> if q = p then write_bytes v (unat off) after (lr_lsn r) else v
      | _ \<Rightarrow> v)"

definition touches :: "page_id \<Rightarrow> logged_record \<Rightarrow> bool" where
  "touches p r \<longleftrightarrow> (case lr_kind r of Update q _ _ _ \<Rightarrow> q = p | Clr q _ _ _ \<Rightarrow> q = p | _ \<Rightarrow> False)"

definition replay :: "page_id \<Rightarrow> logged_record list \<Rightarrow> bytes \<Rightarrow> bytes" where
  "replay p rs v = foldl (\<lambda>v r. page_apply p r v) v rs"

text \<open>The writes of a record stay inside the page and leave the checksum and the LSN words alone.\<close>

definition in_range :: "logged_record \<Rightarrow> bool" where
  "in_range r \<longleftrightarrow> (case lr_kind r of
       Update _ off before after \<Rightarrow> 12 \<le> unat off \<and> unat off + length after \<le> PAGE_SIZE \<and> length before = length after
     | Clr _ off after _ \<Rightarrow> 12 \<le> unat off \<and> unat off + length after \<le> PAGE_SIZE
     | _ \<Rightarrow> True)"

definition upto :: "lsn \<Rightarrow> logged_record list \<Rightarrow> logged_record list" where
  "upto l rs = filter (\<lambda>r. lr_lsn r \<le> l) rs"

abbreviation image_ok :: "bytes \<Rightarrow> bool" where
  "image_ok v \<equiv> length v = PAGE_SIZE \<and> stamp_checksum v = v"

lemma replay_simps [simp]:
  "replay p [] v = v" "replay p (r # rs) v = replay p rs (page_apply p r v)"
  "replay p (rs @ rs') v = replay p rs' (replay p rs v)"
  by (simp_all add: replay_def)

lemma page_apply_other [simp]: "\<not> touches p r \<Longrightarrow> page_apply p r v = v"
  by (simp add: page_apply_def touches_def split: log_record_kind.splits)

lemma page_apply_image:
  assumes "image_ok v" "in_range r"
  shows "image_ok (page_apply p r v)"
  using assms by (auto simp: page_apply_def in_range_def write_bytes_def split: log_record_kind.splits)

lemma page_apply_lsn:
  assumes "image_ok v" "in_range r" "touches p r"
  shows "page_lsn (page_apply p r v) = lr_lsn r"
  using assms by (auto simp: page_apply_def in_range_def touches_def split: log_record_kind.splits)

lemma replay_image:
  "image_ok v \<Longrightarrow> \<forall>r \<in> set rs. in_range r \<Longrightarrow> image_ok (replay p rs v)"
proof (induction rs arbitrary: v)
  case (Cons r rs)
  then show ?case using page_apply_image [of v r p] by auto
qed simp

text \<open>Only the records that touch a page matter to it.\<close>

lemma replay_touching: "replay p rs v = replay p (filter (touches p) rs) v"
  by (induction rs arbitrary: v) simp_all

lemma replay_none: "\<forall>r \<in> set rs. \<not> touches p r \<Longrightarrow> replay p rs v = v"
  by (induction rs) simp_all

lemma replay_cong: "filter (touches p) rs = filter (touches p) rs' \<Longrightarrow> replay p rs v = replay p rs' v"
  using replay_touching by metis

section \<open>The page as of an LSN\<close>

definition ordered :: "logged_record list \<Rightarrow> bool" where
  "ordered rs \<longleftrightarrow> sorted_wrt (\<lambda>a b. lr_lsn a < lr_lsn b) rs"

definition as_of :: "(page_id \<Rightarrow> bytes) \<Rightarrow> logged_record list \<Rightarrow> page_id \<Rightarrow> bytes \<Rightarrow> bool" where
  "as_of base rs p v \<longleftrightarrow> v = replay p (upto (page_lsn v) rs) (base p)"

text \<open>The log as a description of pages: ordered, in range, and later than the pages it starts from.\<close>

definition describes :: "(page_id \<Rightarrow> bytes) \<Rightarrow> logged_record list \<Rightarrow> bool" where
  "describes base rs \<longleftrightarrow> ordered rs \<and> (\<forall>r \<in> set rs. in_range r) \<and> (\<forall>p. image_ok (base p)) \<and>
     (\<forall>p. \<forall>r \<in> set rs. touches p r \<longrightarrow> page_lsn (base p) < lr_lsn r)"

lemma ordered_append:
  "ordered (rs @ rs') \<longleftrightarrow> ordered rs \<and> ordered rs' \<and> (\<forall>a \<in> set rs. \<forall>b \<in> set rs'. lr_lsn a < lr_lsn b)"
  by (simp add: ordered_def sorted_wrt_append)

lemma upto_append: "upto l (rs @ rs') = upto l rs @ upto l rs'"
  by (simp add: upto_def)

lemma upto_all: "\<forall>r \<in> set rs. lr_lsn r \<le> l \<Longrightarrow> upto l rs = rs"
  by (simp add: upto_def)

lemma upto_none: "\<forall>r \<in> set rs. l < lr_lsn r \<Longrightarrow> upto l rs = []"
  by (auto simp: upto_def filter_empty_conv)

text \<open>After a whole log a page carries the LSN of the last record that touches it.\<close>

lemma replay_lsn:
  assumes "describes base rs"
  shows "(\<forall>r \<in> set rs. touches p r \<longrightarrow> lr_lsn r \<le> page_lsn (replay p rs (base p))) \<and>
    page_lsn (base p) \<le> page_lsn (replay p rs (base p)) \<and>
    (page_lsn (replay p rs (base p)) = page_lsn (base p) \<or> (\<exists>r \<in> set rs. touches p r \<and> page_lsn (replay p rs (base p)) = lr_lsn r))"
  using assms
proof (induction rs rule: rev_induct)
  case (snoc r rs)
  have d: "describes base rs" and r: "in_range r" "\<forall>a \<in> set rs. lr_lsn a < lr_lsn r" "image_ok (base p)"
    "touches p r \<Longrightarrow> page_lsn (base p) < lr_lsn r"
    using snoc.prems by (auto simp: describes_def ordered_append)
  note ih = snoc.IH [OF d]
  have im: "image_ok (replay p rs (base p))" using replay_image r(3) d by (simp add: describes_def)
  show ?case
  proof (cases "touches p r")
    case True
    then show ?thesis using r page_apply_lsn [OF im r(1) True] by (auto intro: less_imp_le)
  next
    case False
    then show ?thesis using ih by auto
  qed
qed simp

lemma as_of_replay:
  assumes "describes base rs"
  shows "as_of base rs p (replay p rs (base p))"
proof -
  let ?v = "replay p rs (base p)"
  have "filter (touches p) (upto (page_lsn ?v) rs) = filter (touches p) rs"
    using replay_lsn [OF assms, of p] by (auto simp: upto_def intro: filter_cong)
  then show ?thesis unfolding as_of_def using replay_cong by metis
qed

lemma as_of_base:
  assumes "describes base rs"
  shows "as_of base rs p (base p)"
proof -
  have "\<forall>r \<in> set (upto (page_lsn (base p)) rs). \<not> touches p r"
    using assms by (fastforce simp: upto_def describes_def)
  then show ?thesis by (simp add: as_of_def replay_none)
qed

text \<open>A page as of its LSN that no later record touches is the page as of the end of the log.\<close>

lemma as_of_current:
  assumes "as_of base rs p v" "\<forall>r \<in> set rs. touches p r \<longrightarrow> lr_lsn r \<le> page_lsn v"
  shows "v = replay p rs (base p)"
proof -
  have "filter (touches p) (upto (page_lsn v) rs) = filter (touches p) rs"
    using assms(2) by (auto simp: upto_def intro: filter_cong)
  then show ?thesis using assms(1) replay_cong unfolding as_of_def by metis
qed

text \<open>A page older than what follows in the log does not see it.\<close>

lemma as_of_append:
  assumes "\<forall>r \<in> set rs'. page_lsn v < lr_lsn r"
  shows "as_of base (rs @ rs') p v = as_of base rs p v"
  using assms by (simp add: as_of_def upto_append upto_none)

text \<open>Applying the next record about a page brings it up to that record.\<close>

lemma as_of_step:
  assumes d: "describes base rs" and v: "as_of base rs p v" and r: "r \<in> set rs" "touches p r"
    and before: "\<forall>a \<in> set rs. touches p a \<longrightarrow> lr_lsn a < lr_lsn r \<longrightarrow> lr_lsn a \<le> page_lsn v" and new: "page_lsn v < lr_lsn r"
  shows "as_of base rs p (page_apply p r v)" "page_lsn (page_apply p r v) = lr_lsn r"
proof -
  obtain xs ys where rs: "rs = xs @ r # ys" using r(1) by (auto simp: in_set_conv_decomp)
  have o: "\<forall>a \<in> set xs. lr_lsn a < lr_lsn r" "\<forall>b \<in> set ys. lr_lsn r < lr_lsn b"
    using d by (auto simp: describes_def rs ordered_def sorted_wrt_append)
  have im: "image_ok v"
  proof -
    have "\<forall>r \<in> set (upto (page_lsn v) rs). in_range r" "image_ok (base p)"
      using d by (auto simp: describes_def upto_def)
    then show ?thesis using v replay_image unfolding as_of_def by metis
  qed
  show l: "page_lsn (page_apply p r v) = lr_lsn r"
    using page_apply_lsn [OF im _ r(2)] d r(1) by (simp add: describes_def)
  have "upto (page_lsn v) rs = upto (page_lsn v) xs"
    using new o(2) by (auto simp: rs upto_def filter_empty_conv intro: less_trans dest: less_le_trans)
  moreover have "filter (touches p) (upto (page_lsn v) xs) = filter (touches p) xs"
    using before o(1) by (auto simp: rs upto_def intro: filter_cong)
  ultimately have "v = replay p xs (base p)" using v replay_cong unfolding as_of_def by metis
  moreover have "upto (lr_lsn r) rs = xs @ [r]"
    using o by (auto simp: rs upto_def filter_empty_conv filter_id_conv less_imp_le not_le)
  ultimately show "as_of base rs p (page_apply p r v)" using l by (simp add: as_of_def)
qed

end
