(* ===== verification/Sql_Ast.thy ===== *)
theory Sql_Ast
  imports Types_Value
begin

text \<open>
  The data of the SQL front end: tokens (\<open>sql/src/token.rs\<close>), syntax trees (\<open>sql/src/ast.rs\<close>) and
  errors (\<open>sql/src/error.rs\<close>). Text is its UTF-8 bytes. Where the source formats a value into an
  error message the error carries the value itself. Tokens have the prefix \<open>Tk\<close>, statements \<open>St\<close>,
  expressions \<open>E\<close> and operators \<open>Op\<close>.
\<close>

section \<open>Text\<close>

text \<open>The ASCII classes of \<open>u8\<close>.\<close>

definition is_ascii_digit :: "byte \<Rightarrow> bool" where
  "is_ascii_digit b \<longleftrightarrow> 0x30 \<le> b \<and> b \<le> 0x39"

definition is_ascii_uppercase :: "byte \<Rightarrow> bool" where
  "is_ascii_uppercase b \<longleftrightarrow> 0x41 \<le> b \<and> b \<le> 0x5A"

definition is_ascii_lowercase :: "byte \<Rightarrow> bool" where
  "is_ascii_lowercase b \<longleftrightarrow> 0x61 \<le> b \<and> b \<le> 0x7A"

definition is_ascii_alphabetic :: "byte \<Rightarrow> bool" where
  "is_ascii_alphabetic b \<longleftrightarrow> is_ascii_uppercase b \<or> is_ascii_lowercase b"

definition is_ascii_whitespace :: "byte \<Rightarrow> bool" where
  "is_ascii_whitespace b \<longleftrightarrow> b = 0x20 \<or> b = 0x09 \<or> b = 0x0A \<or> b = 0x0C \<or> b = 0x0D"

definition to_ascii_uppercase :: "byte \<Rightarrow> byte" where
  "to_ascii_uppercase b = (if is_ascii_lowercase b then b - 0x20 else b)"

definition ascii_upper :: "bytes \<Rightarrow> bytes" where
  "ascii_upper s = map to_ascii_uppercase s"

definition eq_ignore_ascii_case :: "bytes \<Rightarrow> bytes \<Rightarrow> bool" where
  "eq_ignore_ascii_case a b \<longleftrightarrow> ascii_upper a = ascii_upper b"

lemmas ascii_class_defs = is_ascii_digit_def is_ascii_uppercase_def is_ascii_lowercase_def
  is_ascii_alphabetic_def is_ascii_whitespace_def

section \<open>Tokens\<close>

datatype token_kind =
    TkSelect | TkFrom | TkWhere | TkInsert | TkInto | TkValues | TkAs | TkCreate | TkTable | TkIndex
  | TkOn | TkAnd | TkOr | TkNot | TkIs | TkNull | TkTrue | TkFalse | TkBegin | TkStart | TkTransaction
  | TkCommit | TkRollback | TkExplain
  | TkIdentifier bytes
  | TkIntegerLiteral i64
  | TkFloatLiteral f64
  | TkStringLiteral bytes
  | TkParameter u32
  | TkComma | TkSemicolon | TkLParen | TkRParen | TkStar | TkDot | TkPlus | TkMinus | TkSlash
  | TkEq | TkNotEq | TkLt | TkLtEq | TkGt | TkGtEq
  | TkEof

record token =
  tk_kind :: token_kind
  tk_offset :: nat

definition token_new :: "token_kind \<Rightarrow> nat \<Rightarrow> token" where
  "token_new k off = \<lparr>tk_kind = k, tk_offset = off\<rparr>"

section \<open>Syntax trees\<close>

datatype session_context_name = CurrentCatalog | CurrentSchema | CurrentUser | SessionUser | Version

definition session_keyword :: "bytes \<Rightarrow> session_context_name option" where
  "session_keyword word =
     (if eq_ignore_ascii_case word (ascii ''current_catalog'') then Some CurrentCatalog
      else if eq_ignore_ascii_case word (ascii ''current_schema'') then Some CurrentSchema
      else if eq_ignore_ascii_case word (ascii ''current_user'') \<or> eq_ignore_ascii_case word (ascii ''user'')
        then Some CurrentUser
      else if eq_ignore_ascii_case word (ascii ''session_user'') then Some SessionUser
      else None)"

definition session_function :: "bytes \<Rightarrow> session_context_name option" where
  "session_function word =
     (if eq_ignore_ascii_case word (ascii ''current_database'') then Some CurrentCatalog
      else if eq_ignore_ascii_case word (ascii ''version'') then Some Version
      else session_keyword word)"

fun session_column_name :: "session_context_name \<Rightarrow> bytes" where
  "session_column_name CurrentCatalog = ascii ''current_catalog''"
| "session_column_name CurrentSchema = ascii ''current_schema''"
| "session_column_name CurrentUser = ascii ''current_user''"
| "session_column_name SessionUser = ascii ''session_user''"
| "session_column_name Version = ascii ''version''"

datatype binary_operator =
    OpEq | OpNotEq | OpLt | OpLtEq | OpGt | OpGtEq | OpAnd | OpOr | OpPlus | OpMinus | OpMultiply | OpDivide

datatype unary_operator = OpNot | OpNegate

datatype expr =
    ELiteral val
  | ESessionContext session_context_name
  | EColumn "bytes option" bytes
  | EBinaryOp expr binary_operator expr
  | EUnaryOp unary_operator expr
  | EIsNull expr bool
  | EParameter u32

record table_ref =
  tr_name :: bytes
  tr_alias :: "bytes option"

datatype select_item = SelWildcard | SelExpr expr

record select_statement =
  ss_items :: "select_item list"
  ss_from :: "table_ref option"
  ss_where :: "expr option"

record insert_statement =
  is_table :: bytes
  is_columns :: "bytes list"
  is_values :: "expr list list"

record column_def =
  cd_name :: bytes
  cd_type :: data_type
  cd_nullable :: bool

record create_table_statement =
  ct_table :: bytes
  ct_columns :: "column_def list"

record create_index_statement =
  ci_name :: bytes
  ci_table :: bytes
  ci_column :: bytes

datatype statement =
    StSelect select_statement
  | StInsert insert_statement
  | StCreateTable create_table_statement
  | StCreateIndex create_index_statement
  | StBegin | StCommit | StRollback
  | StExplain bool statement

section \<open>Errors\<close>

datatype sql_error =
    UnexpectedChar bytes nat
  | UnterminatedString nat
  | UnexpectedToken string token_kind nat
  | UnexpectedEof string
  | InvalidNumericLiteral bytes nat
  | InvalidParameter bytes nat
  | ExplainOfTransactionControl nat
  | NestedExplain nat
  | WildcardWithoutFrom nat
  | UndefinedFunction bytes nat

fun sql_error_offset :: "sql_error \<Rightarrow> bytes \<Rightarrow> nat" where
  "sql_error_offset (UnexpectedChar _ offset) source = offset"
| "sql_error_offset (UnterminatedString offset) source = offset"
| "sql_error_offset (UnexpectedToken _ _ offset) source = offset"
| "sql_error_offset (InvalidNumericLiteral _ offset) source = offset"
| "sql_error_offset (InvalidParameter _ offset) source = offset"
| "sql_error_offset (ExplainOfTransactionControl offset) source = offset"
| "sql_error_offset (NestedExplain offset) source = offset"
| "sql_error_offset (WildcardWithoutFrom offset) source = offset"
| "sql_error_offset (UndefinedFunction _ offset) source = offset"
| "sql_error_offset (UnexpectedEof _) source = length source"

end
