(* ===== verification/Sql_Lexer.thy ===== *)
theory Sql_Lexer
  imports Sql_Ast
begin

text \<open>
  The lexer of \<open>sql/src/lexer.rs\<close>, on the bytes of the statement and an offset into them. Each
  \<open>lex_\<close> function returns the kind of the token that starts at the offset and the offset after it. The
  standard library's \<open>parse\<close> is written out for the three types the lexer uses it at; for \<open>f64\<close> that
  is the binary64 number nearest to the decimal fraction, ties to even, infinity beyond the range.
\<close>

section \<open>Reading numbers\<close>

definition digits_value :: "bytes \<Rightarrow> int" where
  "digits_value ds = foldl (\<lambda>n b. 10 * n + (uint b - 0x30)) 0 ds"

definition parse_i64 :: "bytes \<Rightarrow> i64 option" where
  "parse_i64 ds = (if ds \<noteq> [] \<and> digits_value ds < 2 ^ 63 then Some (of_int (digits_value ds)) else None)"

definition parse_u32 :: "bytes \<Rightarrow> u32 option" where
  "parse_u32 ds = (if ds \<noteq> [] \<and> digits_value ds < 2 ^ 32 then Some (of_int (digits_value ds)) else None)"

function bit_len :: "int \<Rightarrow> int" where
  "bit_len n = (if n \<le> 0 then 0 else 1 + bit_len (n div 2))"
  by pat_completeness auto
termination by (relation "measure nat") auto

declare bit_len.simps [simp del]

definition scale_two :: "int \<Rightarrow> int \<Rightarrow> int" where
  "scale_two n e = n * 2 ^ nat e"

definition floor_log_ratio :: "int \<Rightarrow> int \<Rightarrow> int" where
  "floor_log_ratio n d =
     (let e = bit_len n - bit_len d in if scale_two d e \<le> scale_two n (- e) then e else e - 1)"

definition round_div :: "int \<Rightarrow> int \<Rightarrow> int" where
  "round_div a b =
     (let q = a div b; r = a mod b in if b < 2 * r \<or> (b = 2 * r \<and> odd q) then q + 1 else q)"

definition f64_of_ratio :: "int \<Rightarrow> int \<Rightarrow> f64" where
  "f64_of_ratio n d =
     (if n = 0 then 0
      else let e = max (floor_log_ratio n d) (- 1022);
               q = round_div (scale_two n (52 - e)) (scale_two d (e - 52))
           in of_int (min (0x7FF * 2 ^ 52) ((e + 1022) * 2 ^ 52 + q)))"

definition parse_f64 :: "bytes \<Rightarrow> f64 option" where
  "parse_f64 text =
     (let int_part = takeWhile is_ascii_digit text; frac = drop (Suc (length int_part)) text
      in Some (f64_of_ratio (digits_value (int_part @ frac)) (10 ^ length frac)))"

section \<open>Scanning\<close>

definition peek_byte :: "bytes \<Rightarrow> nat \<Rightarrow> byte option" where
  "peek_byte inp off = (if off < length inp then Some (inp ! off) else None)"

definition peek_byte_at :: "bytes \<Rightarrow> nat \<Rightarrow> nat \<Rightarrow> byte option" where
  "peek_byte_at inp off delta = peek_byte inp (off + delta)"

function advance_while :: "(byte \<Rightarrow> bool) \<Rightarrow> bytes \<Rightarrow> nat \<Rightarrow> nat" where
  "advance_while pred inp off =
     (if off < length inp \<and> pred (inp ! off) then advance_while pred inp (Suc off) else off)"
  by pat_completeness auto
termination by (relation "measure (\<lambda>(_, inp, off). length inp - off)") auto

declare advance_while.simps [simp del]

lemma advance_while_ge: "off \<le> advance_while pred inp off"
  by (induction pred inp off rule: advance_while.induct) (subst advance_while.simps, auto)

lemma advance_while_le: "off \<le> length inp \<Longrightarrow> advance_while pred inp off \<le> length inp"
  by (induction pred inp off rule: advance_while.induct) (subst advance_while.simps, auto)

lemma advance_while_Suc:
  "off < length inp \<Longrightarrow> pred (inp ! off) \<Longrightarrow> Suc off \<le> advance_while pred inp off"
  by (subst advance_while.simps) (simp add: advance_while_ge)

function skip_trivia :: "bytes \<Rightarrow> nat \<Rightarrow> nat" where
  "skip_trivia inp off =
     (case peek_byte inp off of
        None \<Rightarrow> off
      | Some b \<Rightarrow>
          if is_ascii_whitespace b then skip_trivia inp (Suc off)
          else if b = 0x2D \<and> peek_byte_at inp off 1 = Some 0x2D then
            skip_trivia inp (advance_while (\<lambda>b. b \<noteq> 0x0A) inp off)
          else off)"
  by pat_completeness auto
termination
proof (relation "measure (\<lambda>(inp, off). length inp - off)", goal_cases)
  case (3 inp off b)
  then have "off < length inp" "inp ! off = 0x2D" by (auto simp: peek_byte_def split: if_splits)
  then show ?case using advance_while_Suc [of off inp "\<lambda>b. b \<noteq> 0x0A"] by auto
qed (auto simp: peek_byte_def split: if_splits)

declare skip_trivia.simps [simp del]

definition utf8_char_len :: "byte \<Rightarrow> nat" where
  "utf8_char_len b = (if b < 0x80 then 1 else if b < 0xE0 then 2 else if b < 0xF0 then 3 else 4)"

definition char_at :: "bytes \<Rightarrow> nat \<Rightarrow> bytes" where
  "char_at inp off = bytes_at inp off (utf8_char_len (inp ! off))"

section \<open>Tokens\<close>

definition input_text :: "bytes \<Rightarrow> nat \<Rightarrow> nat \<Rightarrow> bytes" where
  "input_text inp start off = bytes_at inp start (off - start)"

definition lex_number :: "bytes \<Rightarrow> nat \<Rightarrow> sql_error + token_kind \<times> nat" where
  "lex_number inp start =
     (let off = advance_while is_ascii_digit inp start
      in if peek_byte inp off = Some 0x2E \<and> (case peek_byte_at inp off 1 of None \<Rightarrow> False | Some b \<Rightarrow> is_ascii_digit b)
         then let off = advance_while is_ascii_digit inp (Suc off); text = input_text inp start off
              in and_then (ok_or (parse_f64 text) (InvalidNumericLiteral text start)) (\<lambda>v. Inr (TkFloatLiteral v, off))
         else let text = input_text inp start off
              in and_then (ok_or (parse_i64 text) (InvalidNumericLiteral text start)) (\<lambda>v. Inr (TkIntegerLiteral v, off)))"

function string_loop :: "bytes \<Rightarrow> nat \<Rightarrow> nat \<Rightarrow> bytes \<Rightarrow> sql_error + bytes \<times> nat" where
  "string_loop inp start off v =
     (case peek_byte inp off of
        None \<Rightarrow> Inl (UnterminatedString start)
      | Some b \<Rightarrow>
          if b = 0x27 then
            if peek_byte_at inp off 1 = Some 0x27 then string_loop inp start (off + 2) (v @ [0x27])
            else Inr (v, off + 1)
          else let ch = char_at inp off in string_loop inp start (off + utf8_char_len b) (v @ ch))"
  by pat_completeness auto
termination
  by (relation "measure (\<lambda>(inp, _, off, _). length inp - off)")
    (auto simp: peek_byte_def utf8_char_len_def split: if_splits)

declare string_loop.simps [simp del]

definition lex_string :: "bytes \<Rightarrow> nat \<Rightarrow> sql_error + token_kind \<times> nat" where
  "lex_string inp start = and_then (string_loop inp start (start + 1) []) (\<lambda>(v, off). Inr (TkStringLiteral v, off))"

definition lex_dollar :: "bytes \<Rightarrow> nat \<Rightarrow> sql_error + token_kind \<times> nat" where
  "lex_dollar inp start =
     (let digits_start = start + 1;
          off = advance_while is_ascii_digit inp digits_start;
          text = input_text inp start off
      in if digits_start = off then Inl (InvalidParameter text start)
         else case parse_u32 (input_text inp digits_start off) of
                None \<Rightarrow> Inl (InvalidParameter text start)
              | Some index \<Rightarrow> if index = 0 then Inl (InvalidParameter text start) else Inr (TkParameter index, off))"

definition KEYWORDS :: "(bytes \<times> token_kind) list" where
  "KEYWORDS =
     [(ascii ''SELECT'', TkSelect), (ascii ''FROM'', TkFrom), (ascii ''WHERE'', TkWhere),
      (ascii ''INSERT'', TkInsert), (ascii ''INTO'', TkInto), (ascii ''VALUES'', TkValues),
      (ascii ''AS'', TkAs), (ascii ''CREATE'', TkCreate), (ascii ''TABLE'', TkTable),
      (ascii ''INDEX'', TkIndex), (ascii ''ON'', TkOn), (ascii ''AND'', TkAnd), (ascii ''OR'', TkOr),
      (ascii ''NOT'', TkNot), (ascii ''IS'', TkIs), (ascii ''NULL'', TkNull), (ascii ''TRUE'', TkTrue),
      (ascii ''FALSE'', TkFalse), (ascii ''BEGIN'', TkBegin), (ascii ''START'', TkStart),
      (ascii ''TRANSACTION'', TkTransaction), (ascii ''COMMIT'', TkCommit),
      (ascii ''ROLLBACK'', TkRollback), (ascii ''EXPLAIN'', TkExplain)]"

definition is_ident_byte :: "byte \<Rightarrow> bool" where
  "is_ident_byte b \<longleftrightarrow> b = 0x5F \<or> is_ascii_alphabetic b \<or> is_ascii_digit b"

definition word_kind :: "bytes \<Rightarrow> token_kind" where
  "word_kind text = (case map_of KEYWORDS (ascii_upper text) of Some k \<Rightarrow> k | None \<Rightarrow> TkIdentifier text)"

definition lex_ident_or_keyword :: "bytes \<Rightarrow> nat \<Rightarrow> token_kind \<times> nat" where
  "lex_ident_or_keyword inp start =
     (let off = advance_while is_ident_byte inp start in (word_kind (input_text inp start off), off))"

definition SINGLE_PUNCT :: "(byte \<times> token_kind) list" where
  "SINGLE_PUNCT =
     [(0x2C, TkComma), (0x3B, TkSemicolon), (0x28, TkLParen), (0x29, TkRParen), (0x2A, TkStar),
      (0x2E, TkDot), (0x2B, TkPlus), (0x2D, TkMinus), (0x2F, TkSlash), (0x3D, TkEq)]"

definition lex_punct :: "bytes \<Rightarrow> nat \<Rightarrow> sql_error + token_kind \<times> nat" where
  "lex_punct inp start =
     (let b = inp ! start in
      case map_of SINGLE_PUNCT b of
        Some k \<Rightarrow> Inr (k, start + 1)
      | None \<Rightarrow>
          if b = 0x3C then
            (if peek_byte inp (start + 1) = Some 0x3D then Inr (TkLtEq, start + 2)
             else if peek_byte inp (start + 1) = Some 0x3E then Inr (TkNotEq, start + 2)
             else Inr (TkLt, start + 1))
          else if b = 0x3E then
            (if peek_byte inp (start + 1) = Some 0x3D then Inr (TkGtEq, start + 2) else Inr (TkGt, start + 1))
          else if b = 0x21 \<and> peek_byte_at inp start 1 = Some 0x3D then Inr (TkNotEq, start + 2)
          else Inl (UnexpectedChar (char_at inp start) start))"

definition lex_token :: "bytes \<Rightarrow> nat \<Rightarrow> sql_error + token_kind \<times> nat" where
  "lex_token inp start =
     (let b = inp ! start in
      if is_ascii_digit b then lex_number inp start
      else if b = 0x27 then lex_string inp start
      else if b = 0x24 then lex_dollar inp start
      else if b = 0x5F \<or> is_ascii_alphabetic b then Inr (lex_ident_or_keyword inp start)
      else lex_punct inp start)"

section \<open>Every token takes at least one byte and stays inside the input\<close>

lemma skip_trivia_ge: "off \<le> skip_trivia inp off"
proof (induction inp off rule: skip_trivia.induct)
  case (1 inp off)
  show ?case
    by (subst skip_trivia.simps)
      (use 1 advance_while_ge [of off] in \<open>auto split: option.splits intro: order_trans dest: Suc_leD\<close>)
qed

lemma skip_trivia_le: "off \<le> length inp \<Longrightarrow> skip_trivia inp off \<le> length inp"
proof (induction inp off rule: skip_trivia.induct)
  case (1 inp off)
  show ?case
    by (subst skip_trivia.simps)
      (use 1 in \<open>auto split: option.splits simp: peek_byte_def advance_while_le split: if_splits\<close>)
qed

lemma utf8_char_len_pos [simp]: "0 < utf8_char_len b"
  by (simp add: utf8_char_len_def)

lemma string_loop_bounds:
  "string_loop inp start off v = Inr (w, off') \<Longrightarrow> off < off' \<and> off' \<le> length inp"
proof (induction inp start off v rule: string_loop.induct)
  case (1 inp start off v)
  have "off < length inp"
    using 1(3) by (subst (asm) string_loop.simps) (auto simp: peek_byte_def split: if_splits)
  then show ?case
    using 1(3)
    by (subst (asm) string_loop.simps)
      (use 1(1) [of "inp ! off"] 1(2) [of "inp ! off" "char_at inp off"] in
        \<open>auto simp: peek_byte_def Let_def utf8_char_len_def split: if_splits\<close>)
qed

lemma lex_number_bounds:
  assumes "lex_number inp off = Inr (k, off')" "off < length inp" "is_ascii_digit (inp ! off)"
  shows "off < off' \<and> off' \<le> length inp"
proof -
  let ?o = "advance_while is_ascii_digit inp off"
  have "Suc off \<le> ?o" "?o \<le> length inp"
    using assms advance_while_Suc [of off inp is_ascii_digit] advance_while_le [of off inp] by simp_all
  moreover have "Suc ?o \<le> advance_while is_ascii_digit inp (Suc ?o)"
    "peek_byte inp ?o = Some b \<Longrightarrow> advance_while is_ascii_digit inp (Suc ?o) \<le> length inp" for b
    using advance_while_ge [of "Suc ?o"] advance_while_le [of "Suc ?o" inp]
    by (auto simp: peek_byte_def split: if_splits)
  ultimately show ?thesis using assms(1) by (auto simp: lex_number_def Let_def split: if_splits)
qed

lemma lex_string_bounds:
  assumes "lex_string inp off = Inr (k, off')"
  shows "off < off' \<and> off' \<le> length inp"
  using assms by (auto simp: lex_string_def dest!: string_loop_bounds)

lemma lex_dollar_bounds:
  assumes "lex_dollar inp off = Inr (k, off')" "off < length inp"
  shows "off < off' \<and> off' \<le> length inp"
  using assms advance_while_ge [of "Suc off"] advance_while_le [of "Suc off" inp]
  by (auto simp: lex_dollar_def Let_def Suc_le_eq split: if_splits option.splits)

lemma lex_punct_bounds:
  assumes "lex_punct inp off = Inr (k, off')" "off < length inp"
  shows "off < off' \<and> off' \<le> length inp"
  using assms by (auto simp: lex_punct_def Let_def peek_byte_def peek_byte_at_def split: if_splits option.splits)

lemma lex_token_bounds:
  assumes "lex_token inp off = Inr (k, off')" "off < length inp"
  shows "off < off'" "off' \<le> length inp"
proof -
  have "off < off' \<and> off' \<le> length inp"
  proof (cases "inp ! off = 0x5F \<or> is_ascii_alphabetic (inp ! off)")
    case True
    then have "\<not> is_ascii_digit (inp ! off)" "inp ! off \<noteq> 0x27" "inp ! off \<noteq> 0x24"
      by (auto simp: ascii_class_defs word_le_nat_alt)
    moreover have "is_ident_byte (inp ! off)" using True by (auto simp: is_ident_byte_def)
    ultimately show ?thesis
      using True assms advance_while_Suc [of off inp is_ident_byte] advance_while_le [of off inp is_ident_byte]
      by (auto simp: lex_token_def lex_ident_or_keyword_def Let_def)
  next
    case False
    then show ?thesis
      using assms lex_number_bounds [of inp off] lex_dollar_bounds [of inp off] lex_punct_bounds [of inp off]
        lex_string_bounds [of inp off]
      by (auto simp: lex_token_def Let_def split: if_splits)
  qed
  then show "off < off'" "off' \<le> length inp" by auto
qed

section \<open>The token stream\<close>

function tokenize_from :: "bytes \<Rightarrow> nat \<Rightarrow> sql_error + token list" where
  "tokenize_from inp off =
     (let start = skip_trivia inp off in
      if start < length inp then
        and_then (lex_token inp start) (\<lambda>(kind, off').
        and_then (tokenize_from inp off') (\<lambda>tokens.
          Inr (token_new kind start # tokens)))
      else Inr [token_new TkEof start])"
  by pat_completeness auto
termination
proof (relation "measure (\<lambda>(inp, off). length inp - off)", goal_cases)
  case (2 inp off start x kind off')
  then show ?case using lex_token_bounds [of inp start kind off'] skip_trivia_ge [of off inp] by auto
qed simp

declare tokenize_from.simps [simp del]

definition tokenize :: "bytes \<Rightarrow> sql_error + token list" where
  "tokenize inp = tokenize_from inp 0"

definition RESERVED_WORDS :: "bytes list" where
  "RESERVED_WORDS =
     map ascii [''ORDER'', ''BY'', ''GROUP'', ''HAVING'', ''LIMIT'', ''OFFSET'', ''JOIN'', ''INNER'',
       ''LEFT'', ''RIGHT'', ''FULL'', ''OUTER'', ''CROSS'', ''ON'', ''USING'', ''UNION'', ''INTERSECT'',
       ''EXCEPT'', ''RETURNING'', ''SET'', ''WHERE'', ''FROM'']"

definition is_reserved_word :: "bytes \<Rightarrow> bool" where
  "is_reserved_word word \<longleftrightarrow> list_ex (eq_ignore_ascii_case word) RESERVED_WORDS"

section \<open>The shape of the token stream\<close>

lemma word_kind_not_eof: "word_kind w \<noteq> TkEof"
  by (auto simp: word_kind_def KEYWORDS_def dest!: map_of_SomeD split: option.splits)

lemma lex_token_not_eof: "lex_token inp off = Inr (k, off') \<Longrightarrow> k \<noteq> TkEof"
  using word_kind_not_eof
  by (auto simp: lex_token_def lex_number_def lex_string_def lex_dollar_def lex_ident_or_keyword_def lex_punct_def
      SINGLE_PUNCT_def Let_def dest!: map_of_SomeD split: if_splits option.splits)

lemma tokenize_from_shape:
  "tokenize_from inp off = Inr toks \<Longrightarrow> off \<le> length inp \<Longrightarrow>
     (\<exists>ts. toks = ts @ [token_new TkEof (length inp)] \<and>
        (\<forall>t \<in> set ts. tk_kind t \<noteq> TkEof \<and> off \<le> tk_offset t \<and> tk_offset t < length inp) \<and>
        sorted_wrt (<) (map tk_offset ts))"
proof (induction inp off arbitrary: toks rule: tokenize_from.induct)
  case (1 inp off)
  let ?start = "skip_trivia inp off"
  have start: "off \<le> ?start" "?start \<le> length inp" using skip_trivia_ge skip_trivia_le 1(3) by auto
  show ?case
  proof (cases "?start < length inp")
    case True
    then obtain k off' ts where l: "lex_token inp ?start = Inr (k, off')" and ts: "tokenize_from inp off' = Inr ts"
      and toks: "toks = token_new k ?start # ts"
      using 1(2) True tokenize_from.simps [of inp off] by (auto simp: Let_def)
    note b = lex_token_bounds [OF l True]
    obtain us where us: "ts = us @ [token_new TkEof (length inp)]"
      "\<forall>t \<in> set us. tk_kind t \<noteq> TkEof \<and> off' \<le> tk_offset t \<and> tk_offset t < length inp" "sorted_wrt (<) (map tk_offset us)"
      using 1(1) [OF refl True l refl ts b(2)] by auto
    show ?thesis
      using us b start True toks lex_token_not_eof [OF l]
      by (intro exI [of _ "token_new k ?start # us"]) (fastforce simp: token_new_def)
  next
    case False
    then have "toks = [token_new TkEof (length inp)]"
      using 1(2) start tokenize_from.simps [of inp off] by (simp add: Let_def)
    then show ?thesis by simp
  qed
qed

text \<open>The token stream is well formed: it ends with one end marker at the end of the input, no
  other token is an end marker, and the offsets of the tokens increase and lie inside the input, so
  the parser's position never runs past the vector.\<close>

theorem tokenize_bounds:
  assumes "tokenize inp = Inr toks"
  shows "\<exists>ts. toks = ts @ [token_new TkEof (length inp)] \<and>
    (\<forall>t \<in> set ts. tk_kind t \<noteq> TkEof \<and> tk_offset t < length inp) \<and> sorted_wrt (<) (map tk_offset ts)"
  using tokenize_from_shape [of inp 0 toks] assms by (auto simp: tokenize_def)

lemma demo_tokens: "tokenize [0x61, 0x3C, 0x31] = Inr [token_new (TkIdentifier [0x61]) 0, token_new TkLt 1, token_new (TkIntegerLiteral 1) 2, token_new TkEof 3]"
  by code_simp

theorem tokenize_bounds_witness:
  "\<exists>ts. [token_new (TkIdentifier [0x61]) 0, token_new TkLt 1, token_new (TkIntegerLiteral 1) 2, token_new TkEof 3]
      = ts @ [token_new TkEof 3] \<and>
    (\<forall>t \<in> set ts. tk_kind t \<noteq> TkEof \<and> tk_offset t < 3) \<and> sorted_wrt (<) (map tk_offset ts)"
  using tokenize_bounds [OF demo_tokens] by simp

end
