(* ===== verification/Sql_Parser.thy ===== *)
theory Sql_Parser
  imports Sql_Lexer
begin

text \<open>
  The recursive-descent parser of \<open>sql/src/parser.rs\<close>. A parser is the tokens from its position on,
  without the final \<open>Eof\<close>, and the offset of that \<open>Eof\<close>: the current token is the first, or \<open>Eof\<close>
  when none is left, where \<open>advance\<close> stays. A loop of the source is a function that takes the tree
  built so far. The expression functions call each other; their first argument bounds the depth of
  those calls, and \<open>parse_expr\<close> starts them with \<open>expr_fuel\<close>, which is always enough. \<open>None\<close> is a
  run that exceeded the bound.
\<close>

section \<open>Positions\<close>

record parser =
  ps_tokens :: "token list"
  ps_eof :: nat

definition parser_new :: "token list \<Rightarrow> parser" where
  "parser_new tokens = \<lparr>ps_tokens = butlast tokens, ps_eof = tk_offset (last tokens)\<rparr>"

definition current :: "parser \<Rightarrow> token" where
  "current p = (case ps_tokens p of [] \<Rightarrow> token_new TkEof (ps_eof p) | t # _ \<Rightarrow> t)"

abbreviation cur :: "parser \<Rightarrow> token_kind" where
  "cur p \<equiv> tk_kind (current p)"

definition advance :: "parser \<Rightarrow> parser" where
  "advance p = p\<lparr>ps_tokens := tl (ps_tokens p)\<rparr>"

definition peek_kind :: "parser \<Rightarrow> nat \<Rightarrow> token_kind" where
  "peek_kind p ahead = (if ahead < length (ps_tokens p) then tk_kind (ps_tokens p ! ahead) else TkEof)"

definition unexpected :: "parser \<Rightarrow> string \<Rightarrow> sql_error" where
  "unexpected p expected =
     (if cur p = TkEof then UnexpectedEof expected else UnexpectedToken expected (cur p) (tk_offset (current p)))"

definition expect_kind :: "token_kind \<Rightarrow> string \<Rightarrow> parser \<Rightarrow> sql_error + parser" where
  "expect_kind k expected p = (if cur p = k then Inr (advance p) else Inl (unexpected p expected))"

fun token_identifier :: "token_kind \<Rightarrow> bytes option" where
  "token_identifier (TkIdentifier name) = Some name"
| "token_identifier _ = None"

definition expect_identifier :: "parser \<Rightarrow> sql_error + bytes \<times> parser" where
  "expect_identifier p =
     (case token_identifier (cur p) of Some name \<Rightarrow> Inr (name, advance p) | None \<Rightarrow> Inl (unexpected p ''an identifier''))"

section \<open>Expressions\<close>

type_synonym 'a parsed = "(sql_error + 'a \<times> parser) option"

definition pbind :: "'a parsed \<Rightarrow> ('a \<Rightarrow> parser \<Rightarrow> 'b parsed) \<Rightarrow> 'b parsed" where
  "pbind r f = (case r of None \<Rightarrow> None | Some (Inl e) \<Rightarrow> Some (Inl e) | Some (Inr (x, p)) \<Rightarrow> f x p)"

fun comparison_operator :: "token_kind \<Rightarrow> binary_operator option" where
  "comparison_operator TkEq = Some OpEq"
| "comparison_operator TkNotEq = Some OpNotEq"
| "comparison_operator TkLt = Some OpLt"
| "comparison_operator TkLtEq = Some OpLtEq"
| "comparison_operator TkGt = Some OpGt"
| "comparison_operator TkGtEq = Some OpGtEq"
| "comparison_operator _ = None"

fun token_literal :: "token_kind \<Rightarrow> expr option" where
  "token_literal (TkIntegerLiteral v) = Some (ELiteral (VBigInt v))"
| "token_literal (TkFloatLiteral v) = Some (ELiteral (VDouble v))"
| "token_literal (TkStringLiteral s) = Some (ELiteral (VVarchar s))"
| "token_literal TkTrue = Some (ELiteral (VBoolean True))"
| "token_literal TkFalse = Some (ELiteral (VBoolean False))"
| "token_literal TkNull = Some (ELiteral VNull)"
| "token_literal (TkParameter index) = Some (EParameter index)"
| "token_literal _ = None"

definition consume_empty_argument_list :: "bytes \<Rightarrow> nat \<Rightarrow> parser \<Rightarrow> sql_error + parser" where
  "consume_empty_argument_list name offset p =
     (let p = advance p in if cur p = TkRParen then Inr (advance p) else Inl (UndefinedFunction name offset))"

definition parse_name :: "bytes \<Rightarrow> nat \<Rightarrow> parser \<Rightarrow> sql_error + expr \<times> parser" where
  "parse_name name offset p =
     (if cur p = TkDot then
        and_then (expect_identifier (advance p)) (\<lambda>(column, p). Inr (EColumn (Some name) column, p))
      else if cur p = TkLParen then
        (case session_function name of
           None \<Rightarrow> Inl (UndefinedFunction name offset)
         | Some session_name \<Rightarrow>
             and_then (consume_empty_argument_list name offset p) (\<lambda>p. Inr (ESessionContext session_name, p)))
      else case session_keyword name of
        Some session_name \<Rightarrow> Inr (ESessionContext session_name, p)
      | None \<Rightarrow> Inr (EColumn None name, p))"

fun parse_unary :: "(parser \<Rightarrow> expr parsed) \<Rightarrow> nat \<Rightarrow> parser \<Rightarrow> expr parsed" where
  "parse_unary primary 0 p = None"
| "parse_unary primary (Suc n) p =
     (if cur p = TkMinus then
        pbind (parse_unary primary n (advance p)) (\<lambda>e p. Some (Inr (EUnaryOp OpNegate e, p)))
      else primary p)"

fun comparison_loop :: "(parser \<Rightarrow> expr parsed) \<Rightarrow> nat \<Rightarrow> expr \<Rightarrow> parser \<Rightarrow> expr parsed" where
  "comparison_loop primary 0 left p = None"
| "comparison_loop primary (Suc n) left p =
     (case comparison_operator (cur p) of
        None \<Rightarrow> Some (Inr (left, p))
      | Some op \<Rightarrow>
          pbind (parse_unary primary n (advance p)) (\<lambda>right. comparison_loop primary n (EBinaryOp left op right)))"

definition parse_comparison :: "(parser \<Rightarrow> expr parsed) \<Rightarrow> nat \<Rightarrow> parser \<Rightarrow> expr parsed" where
  "parse_comparison primary n p = pbind (parse_unary primary n p) (comparison_loop primary n)"

fun is_null_loop :: "nat \<Rightarrow> expr \<Rightarrow> parser \<Rightarrow> expr parsed" where
  "is_null_loop 0 e p = None"
| "is_null_loop (Suc n) e p =
     (if cur p = TkIs then
        let p = advance p;
            negated = (cur p = TkNot);
            p = (if negated then advance p else p)
        in case expect_kind TkNull ''NULL'' p of
             Inl err \<Rightarrow> Some (Inl err)
           | Inr p \<Rightarrow> is_null_loop n (EIsNull e negated) p
      else Some (Inr (e, p)))"

definition parse_is_null :: "(parser \<Rightarrow> expr parsed) \<Rightarrow> nat \<Rightarrow> parser \<Rightarrow> expr parsed" where
  "parse_is_null primary n p = pbind (parse_comparison primary n p) (is_null_loop n)"

fun parse_not :: "(parser \<Rightarrow> expr parsed) \<Rightarrow> nat \<Rightarrow> parser \<Rightarrow> expr parsed" where
  "parse_not primary 0 p = None"
| "parse_not primary (Suc n) p =
     (if cur p = TkNot then pbind (parse_not primary n (advance p)) (\<lambda>e p. Some (Inr (EUnaryOp OpNot e, p)))
      else parse_is_null primary (Suc n) p)"

fun and_loop :: "(parser \<Rightarrow> expr parsed) \<Rightarrow> nat \<Rightarrow> expr \<Rightarrow> parser \<Rightarrow> expr parsed" where
  "and_loop primary 0 left p = None"
| "and_loop primary (Suc n) left p =
     (if cur p = TkAnd then
        pbind (parse_not primary n (advance p)) (\<lambda>right. and_loop primary n (EBinaryOp left OpAnd right))
      else Some (Inr (left, p)))"

definition parse_and :: "(parser \<Rightarrow> expr parsed) \<Rightarrow> nat \<Rightarrow> parser \<Rightarrow> expr parsed" where
  "parse_and primary n p = pbind (parse_not primary n p) (and_loop primary n)"

fun or_loop :: "(parser \<Rightarrow> expr parsed) \<Rightarrow> nat \<Rightarrow> expr \<Rightarrow> parser \<Rightarrow> expr parsed" where
  "or_loop primary 0 left p = None"
| "or_loop primary (Suc n) left p =
     (if cur p = TkOr then
        pbind (parse_and primary n (advance p)) (\<lambda>right. or_loop primary n (EBinaryOp left OpOr right))
      else Some (Inr (left, p)))"

definition parse_or :: "(parser \<Rightarrow> expr parsed) \<Rightarrow> nat \<Rightarrow> parser \<Rightarrow> expr parsed" where
  "parse_or primary n p = pbind (parse_and primary n p) (or_loop primary n)"

fun parse_primary :: "nat \<Rightarrow> parser \<Rightarrow> expr parsed" where
  "parse_primary 0 p = None"
| "parse_primary (Suc n) p =
     (case token_literal (cur p) of
        Some e \<Rightarrow> Some (Inr (e, advance p))
      | None \<Rightarrow>
          (case token_identifier (cur p) of
             Some name \<Rightarrow> Some (parse_name name (tk_offset (current p)) (advance p))
           | None \<Rightarrow>
               if cur p = TkLParen then
                 pbind (parse_or (parse_primary n) n (advance p)) (\<lambda>e p.
                   case expect_kind TkRParen '')'' p of Inl err \<Rightarrow> Some (Inl err) | Inr p \<Rightarrow> Some (Inr (e, p)))
               else Some (Inl (unexpected p ''an expression''))))"

definition expr_fuel :: "parser \<Rightarrow> nat" where
  "expr_fuel p = length (ps_tokens p) + 1"

definition parse_expr :: "parser \<Rightarrow> expr parsed" where
  "parse_expr p = parse_or (parse_primary (expr_fuel p)) (expr_fuel p) p"

section \<open>The bound is enough\<close>

definition tokens_left :: "parser \<Rightarrow> nat" where
  "tokens_left p = length (ps_tokens p)"

text \<open>A parser that returns, and consumes at least one token when it succeeds.\<close>

definition consumes :: "'a parsed \<Rightarrow> nat \<Rightarrow> bool" where
  "consumes r n \<longleftrightarrow> (case r of None \<Rightarrow> False | Some (Inl e) \<Rightarrow> True | Some (Inr (x, p)) \<Rightarrow> tokens_left p < n)"

text \<open>One that returns and does not give tokens back.\<close>

definition keeps :: "'a parsed \<Rightarrow> nat \<Rightarrow> bool" where
  "keeps r n \<longleftrightarrow> (case r of None \<Rightarrow> False | Some (Inl e) \<Rightarrow> True | Some (Inr (x, p)) \<Rightarrow> tokens_left p \<le> n)"

lemma advance_left: "cur p \<noteq> TkEof \<Longrightarrow> tokens_left (advance p) < tokens_left p"
  by (cases "ps_tokens p") (simp_all add: tokens_left_def advance_def current_def token_new_def)

lemma consumes_pbind:
  assumes "consumes r n" "\<And>x p. tokens_left p < n \<Longrightarrow> keeps (f x p) (tokens_left p)"
  shows "consumes (pbind r f) n"
  using assms
  by (fastforce simp: consumes_def keeps_def pbind_def split: option.splits sum.splits prod.splits)

lemma keeps_pbind:
  assumes "consumes r m" "m \<le> n" "\<And>x p. tokens_left p < m \<Longrightarrow> keeps (f x p) (tokens_left p)"
  shows "keeps (pbind r f) n"
  using assms
  by (fastforce simp: consumes_def keeps_def pbind_def split: option.splits sum.splits prod.splits)

lemma consumes_mono: "consumes r m \<Longrightarrow> m \<le> n \<Longrightarrow> consumes r n"
  by (auto simp: consumes_def split: option.splits sum.splits prod.splits)

lemma keeps_Inr [simp]: "keeps (Some (Inr (x, p))) n \<longleftrightarrow> tokens_left p \<le> n"
  and keeps_Inl [simp]: "keeps (Some (Inl e)) n"
  and consumes_Inr [simp]: "consumes (Some (Inr (x, p))) n \<longleftrightarrow> tokens_left p < n"
  and consumes_Inl [simp]: "consumes (Some (Inl e)) n"
  by (simp_all add: keeps_def consumes_def)

lemma parse_unary_consumes:
  assumes "\<And>q. tokens_left q \<le> tokens_left p \<Longrightarrow> consumes (primary q) (tokens_left q)" "tokens_left p < n"
  shows "consumes (parse_unary primary n p) (tokens_left p)"
  using assms
proof (induction n arbitrary: p)
  case (Suc n)
  show ?case
  proof (cases "cur p = TkMinus")
    case True
    then have *: "tokens_left (advance p) < tokens_left p" using advance_left by simp
    then have "consumes (parse_unary primary n (advance p)) (tokens_left (advance p))"
      using Suc.prems by (intro Suc.IH) auto
    then have "consumes (parse_unary primary n (advance p)) (tokens_left p)"
      using * by (rule consumes_mono [OF _ less_imp_le])
    then show ?thesis using True by (auto intro: consumes_pbind)
  qed (use Suc.prems in simp)
qed simp

text \<open>The three loops over a binary operator have one shape.\<close>

lemma loop_keeps:
  assumes step: "\<And>n left p. loop (Suc n) left p =
      (case op p of None \<Rightarrow> Some (Inr (left, p)) | Some f \<Rightarrow> pbind (operand n (advance p)) (\<lambda>right. loop n (f left right)))"
    and op: "\<And>p. op p \<noteq> None \<Longrightarrow> cur p \<noteq> TkEof"
    and operand: "\<And>n q. tokens_left q < m \<Longrightarrow> tokens_left q < n \<Longrightarrow> consumes (operand n q) (tokens_left q)"
  shows "tokens_left p \<le> m \<Longrightarrow> tokens_left p < n \<Longrightarrow> keeps (loop n left p) (tokens_left p)"
proof (induction n arbitrary: left p)
  case (Suc n)
  show ?case
  proof (cases "op p")
    case None
    then show ?thesis by (simp add: step)
  next
    case (Some f)
    then have *: "tokens_left (advance p) < tokens_left p" using advance_left op [of p] by simp
    have "consumes (operand n (advance p)) (tokens_left (advance p))"
      using * Suc.prems by (intro operand) auto
    then have "keeps (pbind (operand n (advance p)) (\<lambda>right. loop n (f left right))) (tokens_left p)"
      by (rule keeps_pbind) (use * Suc.prems in \<open>auto intro!: Suc.IH\<close>)
    then show ?thesis using Some by (simp add: step)
  qed
qed simp

lemma comparison_loop_keeps:
  assumes "\<And>q. tokens_left q \<le> tokens_left p \<Longrightarrow> consumes (primary q) (tokens_left q)" "tokens_left p < n"
  shows "keeps (comparison_loop primary n left p) (tokens_left p)"
  using assms
  by (intro loop_keeps [where op = "\<lambda>p. map_option (\<lambda>op left right. EBinaryOp left op right) (comparison_operator (cur p))"
        and operand = "parse_unary primary" and m = "tokens_left p"])
    (auto split: option.splits intro!: parse_unary_consumes)

lemma parse_comparison_consumes:
  assumes "\<And>q. tokens_left q \<le> tokens_left p \<Longrightarrow> consumes (primary q) (tokens_left q)" "tokens_left p < n"
  shows "consumes (parse_comparison primary n p) (tokens_left p)"
  unfolding parse_comparison_def
  by (rule consumes_pbind [OF parse_unary_consumes]) (use assms in \<open>auto intro!: comparison_loop_keeps\<close>)

lemma expect_kind_left:
  "expect_kind k s p = Inr p' \<Longrightarrow> k \<noteq> TkEof \<Longrightarrow> tokens_left p' < tokens_left p"
  using advance_left by (auto simp: expect_kind_def split: if_splits)

lemma is_null_loop_keeps: "tokens_left p < n \<Longrightarrow> keeps (is_null_loop n e p) (tokens_left p)"
proof (induction n arbitrary: e p)
  case (Suc n)
  define q where "q = (if cur (advance p) = TkNot then advance (advance p) else advance p)"
  show ?case
  proof (cases "cur p = TkIs")
    case True
    have 1: "tokens_left q < tokens_left p"
      using advance_left [of p] advance_left [of "advance p"] True by (auto simp: q_def)
    have "keeps (is_null_loop n e' p') (tokens_left p)" if "expect_kind TkNull ''NULL'' q = Inr p'" for e' p'
      using Suc.IH [of p' e'] Suc.prems 1 expect_kind_left [OF that]
      by (auto simp: keeps_def split: option.splits sum.splits prod.splits)
    then show ?thesis using True by (auto simp: Let_def q_def [symmetric] split: sum.splits)
  qed simp
qed simp

lemma parse_is_null_consumes:
  assumes "\<And>q. tokens_left q \<le> tokens_left p \<Longrightarrow> consumes (primary q) (tokens_left q)" "tokens_left p < n"
  shows "consumes (parse_is_null primary n p) (tokens_left p)"
  unfolding parse_is_null_def
  by (rule consumes_pbind [OF parse_comparison_consumes]) (use assms in \<open>auto intro!: is_null_loop_keeps\<close>)

lemma parse_not_consumes:
  assumes "\<And>q. tokens_left q \<le> tokens_left p \<Longrightarrow> consumes (primary q) (tokens_left q)" "tokens_left p < n"
  shows "consumes (parse_not primary n p) (tokens_left p)"
  using assms
proof (induction n arbitrary: p)
  case (Suc n)
  show ?case
  proof (cases "cur p = TkNot")
    case True
    then have *: "tokens_left (advance p) < tokens_left p" using advance_left by simp
    then have "consumes (parse_not primary n (advance p)) (tokens_left (advance p))"
      using Suc.prems by (intro Suc.IH) auto
    then have "consumes (parse_not primary n (advance p)) (tokens_left p)"
      using * by (rule consumes_mono [OF _ less_imp_le])
    then show ?thesis using True by (auto intro: consumes_pbind)
  next
    case False
    then show ?thesis using Suc.prems by (simp add: parse_is_null_consumes)
  qed
qed simp

lemma and_loop_keeps:
  assumes "\<And>q. tokens_left q \<le> tokens_left p \<Longrightarrow> consumes (primary q) (tokens_left q)" "tokens_left p < n"
  shows "keeps (and_loop primary n left p) (tokens_left p)"
  using assms
  by (intro loop_keeps [where op = "\<lambda>p. if cur p = TkAnd then Some (\<lambda>left right. EBinaryOp left OpAnd right) else None"
        and operand = "parse_not primary" and m = "tokens_left p"])
    (auto intro!: parse_not_consumes split: if_splits)

lemma parse_and_consumes:
  assumes "\<And>q. tokens_left q \<le> tokens_left p \<Longrightarrow> consumes (primary q) (tokens_left q)" "tokens_left p < n"
  shows "consumes (parse_and primary n p) (tokens_left p)"
  unfolding parse_and_def
  by (rule consumes_pbind [OF parse_not_consumes]) (use assms in \<open>auto intro!: and_loop_keeps\<close>)

lemma or_loop_keeps:
  assumes "\<And>q. tokens_left q \<le> tokens_left p \<Longrightarrow> consumes (primary q) (tokens_left q)" "tokens_left p < n"
  shows "keeps (or_loop primary n left p) (tokens_left p)"
  using assms
  by (intro loop_keeps [where op = "\<lambda>p. if cur p = TkOr then Some (\<lambda>left right. EBinaryOp left OpOr right) else None"
        and operand = "parse_and primary" and m = "tokens_left p"])
    (auto intro!: parse_and_consumes split: if_splits)

lemma parse_or_consumes:
  assumes "\<And>q. tokens_left q \<le> tokens_left p \<Longrightarrow> consumes (primary q) (tokens_left q)" "tokens_left p < n"
  shows "consumes (parse_or primary n p) (tokens_left p)"
  unfolding parse_or_def
  by (rule consumes_pbind [OF parse_and_consumes]) (use assms in \<open>auto intro!: or_loop_keeps\<close>)

lemma token_identifier_Some: "token_identifier k = Some name \<Longrightarrow> k = TkIdentifier name"
  by (cases k) auto

lemma token_literal_Some: "token_literal k = Some e \<Longrightarrow> k \<noteq> TkEof"
  by (cases k) auto

lemma expect_identifier_left:
  "expect_identifier p = Inr (name, p') \<Longrightarrow> tokens_left p' < tokens_left p"
  using advance_left [of p]
  by (auto simp: expect_identifier_def split: option.splits dest!: token_identifier_Some)

lemma parse_name_left:
  "parse_name name off p = Inr (e, p') \<Longrightarrow> tokens_left p' \<le> tokens_left p"
  using advance_left [of p] advance_left [of "advance p"]
  by (auto simp: parse_name_def consume_empty_argument_list_def Let_def split: if_splits option.splits
      dest!: expect_identifier_left)

lemma parse_primary_consumes: "tokens_left p < n \<Longrightarrow> consumes (parse_primary n p) (tokens_left p)"
proof (induction n arbitrary: p)
  case (Suc n)
  consider (lit) e where "token_literal (cur p) = Some e"
    | (name) x where "token_literal (cur p) = None" "token_identifier (cur p) = Some x"
    | (paren) "token_literal (cur p) = None" "token_identifier (cur p) = None" "cur p = TkLParen"
    | (other) "token_literal (cur p) = None" "token_identifier (cur p) = None" "cur p \<noteq> TkLParen"
    by fastforce
  then show ?case
  proof cases
    case lit
    then show ?thesis using token_literal_Some advance_left [of p] by auto
  next
    case name
    then have "tokens_left (advance p) < tokens_left p"
      using advance_left [of p] token_identifier_Some by force
    then have "consumes (Some (parse_name x off (advance p))) (tokens_left p)" for off
      using parse_name_left [of x off "advance p"]
      by (cases "parse_name x off (advance p)") force+
    then show ?thesis using name by simp
  next
    case paren
    have *: "tokens_left (advance p) < tokens_left p" using advance_left [of p] paren by simp
    then have "consumes (parse_or (parse_primary n) n (advance p)) (tokens_left p)"
      by (intro consumes_mono [OF parse_or_consumes, of "advance p"]) (use Suc in auto)
    moreover have "keeps (case expect_kind TkRParen '')'' q of Inl err \<Rightarrow> Some (Inl err) | Inr p \<Rightarrow> Some (Inr (e, p))) (tokens_left q)"
      for e :: expr and q using expect_kind_left [of TkRParen "'')''" q] by (auto split: sum.splits)
    ultimately show ?thesis using paren by (auto intro!: consumes_pbind)
  qed simp
qed simp

text \<open>Reading an expression always ends, and a success has consumed a token.\<close>

lemma parse_expr_consumes: "consumes (parse_expr p) (tokens_left p)"
  unfolding parse_expr_def
  by (rule parse_or_consumes, rule parse_primary_consumes) (auto simp: expr_fuel_def tokens_left_def)

section \<open>Statements\<close>

definition pexpect :: "token_kind \<Rightarrow> string \<Rightarrow> parser \<Rightarrow> (parser \<Rightarrow> 'a parsed) \<Rightarrow> 'a parsed" where
  "pexpect k expected p f = (case expect_kind k expected p of Inl e \<Rightarrow> Some (Inl e) | Inr p \<Rightarrow> f p)"

definition pname :: "parser \<Rightarrow> (bytes \<Rightarrow> parser \<Rightarrow> 'a parsed) \<Rightarrow> 'a parsed" where
  "pname p f = pbind (Some (expect_identifier p)) f"

text \<open>A first item, then more while a comma follows.\<close>

fun comma_loop :: "(parser \<Rightarrow> 'a parsed) \<Rightarrow> nat \<Rightarrow> 'a list \<Rightarrow> parser \<Rightarrow> 'a list parsed" where
  "comma_loop item 0 xs p = None"
| "comma_loop item (Suc n) xs p =
     (if cur p = TkComma then pbind (item (advance p)) (\<lambda>x. comma_loop item n (xs @ [x])) else Some (Inr (xs, p)))"

definition comma_list :: "(parser \<Rightarrow> 'a parsed) \<Rightarrow> parser \<Rightarrow> 'a list parsed" where
  "comma_list item p = pbind (item p) (\<lambda>x p. comma_loop item (expr_fuel p) [x] p)"

definition parse_optional_table_alias :: "parser \<Rightarrow> bytes option parsed" where
  "parse_optional_table_alias p =
     (if cur p = TkAs then pname (advance p) (\<lambda>name p. Some (Inr (Some name, p)))
      else case token_identifier (cur p) of
        Some name \<Rightarrow> if is_reserved_word name then Some (Inr (None, p)) else Some (Inr (Some name, advance p))
      | None \<Rightarrow> Some (Inr (None, p)))"

definition parse_table_ref :: "parser \<Rightarrow> table_ref parsed" where
  "parse_table_ref p =
     pname p (\<lambda>name p. pbind (parse_optional_table_alias p) (\<lambda>alias p. Some (Inr (\<lparr>tr_name = name, tr_alias = alias\<rparr>, p))))"

definition parse_select_list :: "parser \<Rightarrow> select_item list parsed" where
  "parse_select_list p =
     (if cur p = TkStar then Some (Inr ([SelWildcard], advance p))
      else comma_list (\<lambda>p. pbind (parse_expr p) (\<lambda>e p. Some (Inr (SelExpr e, p)))) p)"

definition parse_from :: "nat \<Rightarrow> select_item list \<Rightarrow> parser \<Rightarrow> table_ref option parsed" where
  "parse_from list_offset items p =
     (if cur p = TkFrom then pbind (parse_table_ref (advance p)) (\<lambda>t p. Some (Inr (Some t, p)))
      else if list_ex (\<lambda>item. item = SelWildcard) items then Some (Inl (WildcardWithoutFrom list_offset))
      else Some (Inr (None, p)))"

definition parse_where :: "parser \<Rightarrow> expr option parsed" where
  "parse_where p =
     (if cur p = TkWhere then pbind (parse_expr (advance p)) (\<lambda>e p. Some (Inr (Some e, p))) else Some (Inr (None, p)))"

definition parse_select :: "parser \<Rightarrow> select_statement parsed" where
  "parse_select p =
     pexpect TkSelect ''SELECT'' p (\<lambda>p.
     let list_offset = tk_offset (current p) in
     pbind (parse_select_list p) (\<lambda>items p.
     pbind (parse_from list_offset items p) (\<lambda>from p.
     pbind (parse_where p) (\<lambda>where_clause p.
       Some (Inr (\<lparr>ss_items = items, ss_from = from, ss_where = where_clause\<rparr>, p))))))"

definition parse_value_row :: "parser \<Rightarrow> expr list parsed" where
  "parse_value_row p =
     pexpect TkLParen ''('' p (\<lambda>p.
     pbind (comma_list parse_expr p) (\<lambda>exprs p.
     pexpect TkRParen '')'' p (\<lambda>p.
       Some (Inr (exprs, p)))))"

definition parse_insert_columns :: "parser \<Rightarrow> bytes list parsed" where
  "parse_insert_columns p =
     (if cur p = TkLParen then
        pbind (comma_list (\<lambda>p. Some (expect_identifier p)) (advance p)) (\<lambda>columns p.
        pexpect TkRParen '')'' p (\<lambda>p. Some (Inr (columns, p))))
      else Some (Inr ([], p)))"

definition parse_insert :: "parser \<Rightarrow> insert_statement parsed" where
  "parse_insert p =
     pexpect TkInsert ''INSERT'' p (\<lambda>p.
     pexpect TkInto ''INTO'' p (\<lambda>p.
     pname p (\<lambda>table p.
     pbind (parse_insert_columns p) (\<lambda>columns p.
     pexpect TkValues ''VALUES'' p (\<lambda>p.
     pbind (comma_list parse_value_row p) (\<lambda>values p.
       Some (Inr (\<lparr>is_table = table, is_columns = columns, is_values = values\<rparr>, p))))))))"

definition TYPE_NAMES :: "(bytes \<times> data_type) list" where
  "TYPE_NAMES =
     [(ascii ''INTEGER'', TInteger), (ascii ''INT'', TInteger), (ascii ''BIGINT'', TBigInt),
      (ascii ''DOUBLE'', TDouble), (ascii ''TEXT'', TVarchar 0xFFFFFFFF), (ascii ''BOOLEAN'', TBoolean)]"

definition parse_type_name :: "parser \<Rightarrow> data_type parsed" where
  "parse_type_name p =
     (case Option.bind (token_identifier (cur p)) (\<lambda>name. map_of TYPE_NAMES (ascii_upper name)) of
        Some t \<Rightarrow> Some (Inr (t, advance p))
      | None \<Rightarrow> Some (Inl (unexpected p ''INTEGER, INT, BIGINT, DOUBLE, TEXT, or BOOLEAN'')))"

definition parse_col_def :: "parser \<Rightarrow> column_def parsed" where
  "parse_col_def p =
     pname p (\<lambda>name p.
     pbind (parse_type_name p) (\<lambda>t p.
       Some (Inr (\<lparr>cd_name = name, cd_type = t, cd_nullable = True\<rparr>, p))))"

definition parse_create_table :: "parser \<Rightarrow> create_table_statement parsed" where
  "parse_create_table p =
     pexpect TkCreate ''CREATE'' p (\<lambda>p.
     pexpect TkTable ''TABLE'' p (\<lambda>p.
     pname p (\<lambda>table p.
     pexpect TkLParen ''('' p (\<lambda>p.
     pbind (comma_list parse_col_def p) (\<lambda>columns p.
     pexpect TkRParen '')'' p (\<lambda>p.
       Some (Inr (\<lparr>ct_table = table, ct_columns = columns\<rparr>, p))))))))"

definition parse_create_index :: "parser \<Rightarrow> create_index_statement parsed" where
  "parse_create_index p =
     pexpect TkCreate ''CREATE'' p (\<lambda>p.
     pexpect TkIndex ''INDEX'' p (\<lambda>p.
     pname p (\<lambda>index_name p.
     pexpect TkOn ''ON'' p (\<lambda>p.
     pname p (\<lambda>table p.
     pexpect TkLParen ''('' p (\<lambda>p.
     pname p (\<lambda>column p.
     pexpect TkRParen '')'' p (\<lambda>p.
       Some (Inr (\<lparr>ci_name = index_name, ci_table = table, ci_column = column\<rparr>, p))))))))))"

definition is_verbose_keyword :: "parser \<Rightarrow> bool" where
  "is_verbose_keyword p =
     (case token_identifier (cur p) of Some name \<Rightarrow> eq_ignore_ascii_case name (ascii ''VERBOSE'') | None \<Rightarrow> False)"

definition consume_verbose_keyword :: "parser \<Rightarrow> bool \<times> parser" where
  "consume_verbose_keyword p = (if is_verbose_keyword p then (True, advance p) else (False, p))"

fun explain_statement :: "nat \<Rightarrow> bool \<Rightarrow> statement \<Rightarrow> sql_error + statement" where
  "explain_statement offset verbose StBegin = Inl (ExplainOfTransactionControl offset)"
| "explain_statement offset verbose StCommit = Inl (ExplainOfTransactionControl offset)"
| "explain_statement offset verbose StRollback = Inl (ExplainOfTransactionControl offset)"
| "explain_statement offset verbose (StExplain _ _) = Inl (NestedExplain offset)"
| "explain_statement offset verbose inner = Inr (StExplain verbose inner)"

definition parse_explain :: "(parser \<Rightarrow> statement parsed) \<Rightarrow> parser \<Rightarrow> statement parsed" where
  "parse_explain statement p =
     (let explain_offset = tk_offset (current p) in
      pexpect TkExplain ''EXPLAIN'' p (\<lambda>p.
      let (verbose, p) = consume_verbose_keyword p in
      pbind (statement p) (\<lambda>inner p.
        Some (and_then (explain_statement explain_offset verbose inner) (\<lambda>s. Inr (s, p))))))"

fun parse_statement :: "nat \<Rightarrow> parser \<Rightarrow> statement parsed" where
  "parse_statement 0 p = None"
| "parse_statement (Suc n) p =
     (let k = cur p in
      if k = TkSelect then pbind (parse_select p) (\<lambda>s p. Some (Inr (StSelect s, p)))
      else if k = TkInsert then pbind (parse_insert p) (\<lambda>s p. Some (Inr (StInsert s, p)))
      else if k = TkCreate then
        (if peek_kind p 1 = TkIndex then pbind (parse_create_index p) (\<lambda>s p. Some (Inr (StCreateIndex s, p)))
         else pbind (parse_create_table p) (\<lambda>s p. Some (Inr (StCreateTable s, p))))
      else if k = TkBegin then Some (Inr (StBegin, advance p))
      else if k = TkStart then
        pexpect TkTransaction ''TRANSACTION'' (advance p) (\<lambda>p. Some (Inr (StBegin, p)))
      else if k = TkCommit then Some (Inr (StCommit, advance p))
      else if k = TkRollback then Some (Inr (StRollback, advance p))
      else if k = TkExplain then parse_explain (parse_statement n) p
      else Some (Inl (unexpected p ''SELECT, INSERT, CREATE, BEGIN, START, COMMIT, ROLLBACK, or EXPLAIN'')))"

definition parse :: "parser \<Rightarrow> (sql_error + statement) option" where
  "parse p =
     map_option (\<lambda>r. and_then r (\<lambda>(s, p).
       let p = (if cur p = TkSemicolon then advance p else p)
       in if cur p = TkEof then Inr s else Inl (unexpected p ''end of statement'')))
       (parse_statement (expr_fuel p) p)"

section \<open>Every statement is answered\<close>

lemma consumes_keeps: "consumes r n \<Longrightarrow> keeps r n"
  by (auto simp: consumes_def keeps_def split: option.splits sum.splits prod.splits)

lemma keeps_mono: "keeps r m \<Longrightarrow> m \<le> n \<Longrightarrow> keeps r n"
  by (auto simp: keeps_def split: option.splits sum.splits prod.splits)

lemma keeps_bind:
  assumes "keeps r n" "\<And>x p. tokens_left p \<le> n \<Longrightarrow> keeps (f x p) (tokens_left p)"
  shows "keeps (pbind r f) n"
  using assms
  by (fastforce simp: keeps_def pbind_def split: option.splits sum.splits prod.splits)

lemma consumes_pexpect:
  assumes "k \<noteq> TkEof" "\<And>q. tokens_left q < tokens_left p \<Longrightarrow> keeps (f q) (tokens_left q)"
  shows "consumes (pexpect k s p f) (tokens_left p)"
proof (cases "expect_kind k s p")
  case (Inr q)
  then have "tokens_left q < tokens_left p" using expect_kind_left assms(1) by simp
  then show ?thesis
    using assms(2) [of q] Inr
    by (fastforce simp: pexpect_def keeps_def consumes_def split: option.splits sum.splits prod.splits)
qed (simp add: pexpect_def)

lemma consumes_identifier: "consumes (Some (expect_identifier p)) (tokens_left p)"
  using expect_identifier_left [of p] by (auto simp: consumes_def split: sum.splits prod.splits)

lemma consumes_pname:
  "(\<And>x q. tokens_left q < tokens_left p \<Longrightarrow> keeps (f x q) (tokens_left q)) \<Longrightarrow> consumes (pname p f) (tokens_left p)"
  unfolding pname_def by (rule consumes_pbind [OF consumes_identifier])

lemma tokens_left_fuel [simp]: "tokens_left p < expr_fuel p"
  by (simp add: tokens_left_def expr_fuel_def)

lemma comma_loop_keeps:
  assumes item: "\<And>q. consumes (item q) (tokens_left q)"
  shows "tokens_left p < n \<Longrightarrow> keeps (comma_loop item n xs p) (tokens_left p)"
proof (induction n arbitrary: xs p)
  case (Suc n)
  show ?case
  proof (cases "cur p = TkComma")
    case True
    then have *: "tokens_left (advance p) < tokens_left p" using advance_left by simp
    have "keeps (pbind (item (advance p)) (\<lambda>x. comma_loop item n (xs @ [x]))) (tokens_left p)"
      using item [of "advance p"] by (rule keeps_pbind) (use * Suc in auto)
    then show ?thesis using True by simp
  qed simp
qed simp

lemma comma_list_consumes:
  "(\<And>q. consumes (item q) (tokens_left q)) \<Longrightarrow> consumes (comma_list item p) (tokens_left p)"
  unfolding comma_list_def
  by (rule consumes_pbind) (auto intro!: comma_loop_keeps simp del: comma_loop.simps)

lemma advance_keeps: "tokens_left (advance p) \<le> tokens_left p"
  by (simp add: tokens_left_def advance_def)

lemma parse_optional_table_alias_keeps: "keeps (parse_optional_table_alias p) (tokens_left p)"
  using consumes_keeps [OF consumes_pname [of "advance p" "\<lambda>name p. Some (Inr (Some name, p))"]] advance_keeps [of p]
  by (auto simp: parse_optional_table_alias_def split: option.splits intro: keeps_mono)

lemma parse_table_ref_consumes: "consumes (parse_table_ref p) (tokens_left p)"
  unfolding parse_table_ref_def
  by (intro consumes_pname keeps_bind parse_optional_table_alias_keeps) simp

lemma parse_select_list_keeps: "keeps (parse_select_list p) (tokens_left p)"
  using advance_keeps [of p]
  by (auto simp: parse_select_list_def
      intro!: consumes_keeps [OF comma_list_consumes] consumes_pbind [OF parse_expr_consumes])

lemma keeps_advance:
  assumes "consumes r (tokens_left (advance p))" "\<And>x q. keeps (f x q) (tokens_left q)"
  shows "keeps (pbind r f) (tokens_left p)"
  using keeps_pbind [OF assms(1) advance_keeps] assms(2) by blast

lemma parse_from_keeps: "keeps (parse_from off items p) (tokens_left p)"
  by (auto simp: parse_from_def intro!: keeps_advance parse_table_ref_consumes)

lemma parse_where_keeps: "keeps (parse_where p) (tokens_left p)"
  by (auto simp: parse_where_def intro!: keeps_advance parse_expr_consumes)

lemma parse_select_consumes: "consumes (parse_select p) (tokens_left p)"
  unfolding parse_select_def Let_def
  by (intro consumes_pexpect keeps_bind parse_select_list_keeps parse_from_keeps parse_where_keeps) simp_all

lemma parse_value_row_consumes: "consumes (parse_value_row p) (tokens_left p)"
  unfolding parse_value_row_def
  by (intro consumes_pexpect keeps_bind consumes_keeps [OF comma_list_consumes] consumes_keeps [OF consumes_pexpect]
      parse_expr_consumes) simp_all

lemma parse_insert_columns_keeps: "keeps (parse_insert_columns p) (tokens_left p)"
  by (auto simp: parse_insert_columns_def
      intro!: keeps_advance comma_list_consumes consumes_identifier consumes_keeps [OF consumes_pexpect])

lemma parse_insert_consumes: "consumes (parse_insert p) (tokens_left p)"
  unfolding parse_insert_def
  by (intro consumes_pexpect consumes_keeps [OF consumes_pexpect] consumes_keeps [OF consumes_pname] keeps_bind
      parse_insert_columns_keeps consumes_keeps [OF comma_list_consumes] parse_value_row_consumes) simp_all

lemma parse_type_name_keeps: "keeps (parse_type_name p) (tokens_left p)"
  by (simp add: parse_type_name_def advance_keeps split: option.splits)

lemma parse_col_def_consumes: "consumes (parse_col_def p) (tokens_left p)"
  unfolding parse_col_def_def by (intro consumes_pname keeps_bind parse_type_name_keeps) simp

lemma parse_create_table_consumes: "consumes (parse_create_table p) (tokens_left p)"
  unfolding parse_create_table_def
  by (intro consumes_pexpect consumes_keeps [OF consumes_pexpect] consumes_keeps [OF consumes_pname] keeps_bind
      consumes_keeps [OF comma_list_consumes] parse_col_def_consumes) simp_all

lemma parse_create_index_consumes: "consumes (parse_create_index p) (tokens_left p)"
  unfolding parse_create_index_def
  by (intro consumes_pexpect consumes_keeps [OF consumes_pexpect] consumes_keeps [OF consumes_pname]) simp_all

lemma parse_explain_keeps:
  assumes "\<And>q. tokens_left q < tokens_left p \<Longrightarrow> keeps (statement q) (tokens_left q)"
  shows "keeps (parse_explain statement p) (tokens_left p)"
proof -
  have "keeps (let (verbose, q) = consume_verbose_keyword q
      in pbind (statement q) (\<lambda>inner p. Some (and_then (explain_statement off verbose inner) (\<lambda>s. Inr (s, p))))) (tokens_left q)"
    if q: "tokens_left q < tokens_left p" for q off
  proof -
    obtain v q' where v: "consume_verbose_keyword q = (v, q')" by fastforce
    then have *: "tokens_left q' \<le> tokens_left q"
      using advance_keeps [of q] by (auto simp: consume_verbose_keyword_def split: if_splits)
    then have "keeps (statement q') (tokens_left q)"
      using assms [of q'] q by (auto intro: keeps_mono)
    then show ?thesis
      unfolding v Let_def split by (rule keeps_bind) (auto simp: keeps_def split: sum.splits)
  qed
  then show ?thesis unfolding parse_explain_def by (auto intro!: consumes_keeps [OF consumes_pexpect])
qed

lemma parse_statement_keeps: "tokens_left p < n \<Longrightarrow> keeps (parse_statement n p) (tokens_left p)"
proof (induction n arbitrary: p)
  case (Suc n)
  have explain: "keeps (parse_explain (parse_statement n) p) (tokens_left p)"
    by (rule parse_explain_keeps) (use Suc in auto)
  have start: "keeps (pexpect TkTransaction ''TRANSACTION'' (advance p) (\<lambda>p. Some (Inr (StBegin, p)))) (tokens_left p)"
    by (rule keeps_mono [OF consumes_keeps [OF consumes_pexpect] advance_keeps]) simp_all
  show ?case
    using explain start advance_keeps [of p]
    by (auto simp: Let_def
        intro!: keeps_bind [OF consumes_keeps [OF parse_select_consumes]]
          keeps_bind [OF consumes_keeps [OF parse_insert_consumes]]
          keeps_bind [OF consumes_keeps [OF parse_create_table_consumes]]
          keeps_bind [OF consumes_keeps [OF parse_create_index_consumes]])
qed simp

lemma parse_total: "parse p \<noteq> None"
proof -
  have "keeps (parse_statement (expr_fuel p) p) (tokens_left p)"
    by (rule parse_statement_keeps) (simp add: expr_fuel_def tokens_left_def)
  then show ?thesis by (auto simp: parse_def keeps_def split: option.splits)
qed

end
