(* ===== verification/Sql_Print.thy ===== *)
theory Sql_Print
  imports Sql_Parser
begin

text \<open>
  A printer for syntax trees, as the reference the lexer and the parser are checked against: it
  writes an expression with parentheses only where the grammar needs them. Reading a printed
  statement gives the statement back, so precedence, associativity, quoting and the statement forms
  are what the printer says. \<open>parse_sql\<close> is the front end the engine calls.
\<close>

text \<open>Lexing and parsing as \<open>prepare\<close> and \<open>execute_impl\<close> of the engine do it.\<close>

definition parse_sql :: "bytes \<Rightarrow> (sql_error + statement) option" where
  "parse_sql sql = (case tokenize sql of Inl e \<Rightarrow> Some (Inl e) | Inr tokens \<Rightarrow> parse (parser_new tokens))"

section \<open>Text of a token\<close>

definition digit_byte :: "nat \<Rightarrow> byte" where
  "digit_byte m = of_nat (0x30 + m)"

fun dec :: "nat \<Rightarrow> bytes" where
  "dec n = (if n < 10 then [digit_byte n] else dec (n div 10) @ [digit_byte (n mod 10)])"

declare dec.simps [simp del]

fun quote_body :: "bytes \<Rightarrow> bytes" where
  "quote_body [] = []"
| "quote_body (b # s) = (if b = 0x27 then [0x27, 0x27] else [b]) @ quote_body s"

definition fixed_text :: "token_kind \<Rightarrow> bytes" where
  "fixed_text k =
     (case map_of (map prod.swap KEYWORDS) k of
        Some w \<Rightarrow> w
      | None \<Rightarrow> (case map_of (map prod.swap SINGLE_PUNCT) k of Some b \<Rightarrow> [b] | None \<Rightarrow> []))"

fun token_text :: "token_kind \<Rightarrow> bytes" where
  "token_text (TkIdentifier w) = w"
| "token_text (TkIntegerLiteral v) = dec (unat v)"
| "token_text (TkStringLiteral s) = 0x27 # quote_body s @ [0x27]"
| "token_text (TkParameter i) = 0x24 # dec (unat i)"
| "token_text TkNotEq = [0x3C, 0x3E]"
| "token_text TkLt = [0x3C]"
| "token_text TkLtEq = [0x3C, 0x3D]"
| "token_text TkGt = [0x3E]"
| "token_text TkGtEq = [0x3E, 0x3D]"
| "token_text k = fixed_text k"

definition ident_ok :: "bytes \<Rightarrow> bool" where
  "ident_ok w \<longleftrightarrow> w \<noteq> [] \<and> (hd w = 0x5F \<or> is_ascii_alphabetic (hd w)) \<and> list_all is_ident_byte w
     \<and> map_of KEYWORDS (ascii_upper w) = None"

fun token_ok :: "token_kind \<Rightarrow> bool" where
  "token_ok (TkIdentifier w) = ident_ok w"
| "token_ok (TkIntegerLiteral v) = (v < 0x8000000000000000)"
| "token_ok (TkFloatLiteral v) = False"
| "token_ok (TkStringLiteral s) = utf8_valid s"
| "token_ok (TkParameter i) = (i \<noteq> 0)"
| "token_ok TkEof = False"
| "token_ok _ = True"

definition render :: "token_kind list \<Rightarrow> bytes" where
  "render ks = concat (map (\<lambda>k. token_text k @ [0x20]) ks)"

section \<open>Scanning a known text\<close>

lemma advance_while_take:
  assumes "list_all pred xs" "ys = [] \<or> \<not> pred (hd ys)"
  shows "advance_while pred (pre @ xs @ ys) (length pre) = length pre + length xs"
  using assms
proof (induction xs arbitrary: pre)
  case Nil
  then show ?case
    by (subst advance_while.simps) (cases ys, auto simp: nth_append)
next
  case (Cons x xs)
  have "advance_while pred ((pre @ [x]) @ xs @ ys) (length (pre @ [x])) = length (pre @ [x]) + length xs"
    using Cons.prems by (intro Cons.IH) simp_all
  then show ?case
    using Cons.prems by (subst advance_while.simps) (simp add: nth_append)
qed

lemma advance_while_digits:
  assumes "list_all pred xs" "ys = [] \<or> \<not> pred (hd ys)" "off = length pre" "inp = pre @ xs @ ys"
  shows "advance_while pred inp off = off + length xs"
  using advance_while_take [OF assms(1,2)] assms(3,4) by simp

lemma peek_at [simp]: "peek_byte (pre @ b # rest) (length pre) = Some b"
  by (simp add: peek_byte_def)

lemma peek_byte_append: "peek_byte (pre @ s) (length pre + i) = peek_byte s i"
  by (simp add: peek_byte_def nth_append)

lemma skip_trivia_space: "skip_trivia (pre @ 0x20 # rest) (length pre) = skip_trivia (pre @ 0x20 # rest) (Suc (length pre))"
  by (subst skip_trivia.simps) (simp add: is_ascii_whitespace_def)

lemma skip_trivia_stop:
  assumes "\<not> is_ascii_whitespace b" "b = 0x2D \<longrightarrow> rest = [] \<or> hd rest \<noteq> 0x2D"
  shows "skip_trivia (pre @ b # rest) (length pre) = length pre"
  using assms peek_byte_append [of pre "b # rest" 1]
  by (subst skip_trivia.simps) (cases rest, auto simp: peek_byte_at_def peek_byte_def)

lemma skip_trivia_end: "skip_trivia inp (length inp) = length inp"
  by (subst skip_trivia.simps) (simp add: peek_byte_def)

lemma input_text_at: "input_text (pre @ xs @ ys) (length pre) (length pre + length xs) = xs"
  by (simp add: input_text_def bytes_at_def)

section \<open>Decimal numbers\<close>

lemma unat_digit_byte: "m < 10 \<Longrightarrow> unat (digit_byte m) = 0x30 + m"
  unfolding digit_byte_def by (subst unat_of_nat) simp

lemma uint_digit_byte: "m < 10 \<Longrightarrow> uint (digit_byte m) = 0x30 + int m"
  by (simp add: uint_nat unat_digit_byte)

lemma dec_digits: "list_all is_ascii_digit (dec n)"
proof (induction n rule: dec.induct)
  case (1 n)
  have "is_ascii_digit (digit_byte m)" if "m < 10" for m
    using that unat_digit_byte [OF that] by (simp add: is_ascii_digit_def word_le_nat_alt)
  then show ?case using 1 by (subst dec.simps) auto
qed

lemma dec_nonempty [simp]: "dec n \<noteq> []"
  by (subst dec.simps) simp

lemma digits_value_snoc: "digits_value (ds @ [b]) = 10 * digits_value ds + (uint b - 0x30)"
  by (simp add: digits_value_def)

lemma digits_value_dec: "digits_value (dec n) = int n"
proof (induction n rule: dec.induct)
  case (1 n)
  show ?case
  proof (cases "n < 10")
    case True
    then show ?thesis using uint_digit_byte [of n] by (subst dec.simps) (simp add: digits_value_def)
  next
    case False
    then have "digits_value (dec n) = 10 * int (n div 10) + int (n mod 10)"
      using 1 uint_digit_byte [of "n mod 10"] by (subst dec.simps) (simp add: digits_value_snoc)
    then show ?thesis by (simp add: zdiv_int zmod_int)
  qed
qed

lemma parse_i64_dec: "unat v < 2 ^ 63 \<Longrightarrow> parse_i64 (dec (unat v)) = Some v"
proof -
  assume "unat v < 2 ^ 63"
  then have "int (unat v) < 2 ^ 63" by (metis of_nat_less_iff of_nat_numeral of_nat_power)
  then show ?thesis by (simp add: parse_i64_def digits_value_dec)
qed

lemma parse_u32_dec: "parse_u32 (dec (unat i)) = Some i"
proof -
  have "unat i < 2 ^ 32" using unat_bound [of i] by simp
  then have "int (unat i) < 2 ^ 32" by (metis of_nat_less_iff of_nat_numeral of_nat_power)
  then show ?thesis by (simp add: parse_u32_def digits_value_dec)
qed

section \<open>Lexing a printed token\<close>

lemma space_facts [simp]:
  "\<not> is_ascii_digit 0x20" "\<not> is_ident_byte 0x20" "is_ascii_whitespace 0x20"
  by (simp_all add: is_ident_byte_def ascii_class_defs)

lemma lex_word:
  assumes "w \<noteq> []" "hd w = 0x5F \<or> is_ascii_alphabetic (hd w)" "list_all is_ident_byte w"
  shows "lex_token (pre @ w @ 0x20 # rest) (length pre) = Inr (word_kind w, length pre + length w)"
proof -
  have hd: "(pre @ w @ 0x20 # rest) ! length pre = hd w" using assms(1) by (cases w) auto
  have no: "\<not> is_ascii_digit (hd w)" "hd w \<noteq> 0x27" "hd w \<noteq> 0x24"
    using assms(2) by (auto simp: ascii_class_defs word_le_nat_alt)
  have "advance_while is_ident_byte (pre @ w @ 0x20 # rest) (length pre) = length pre + length w"
    by (rule advance_while_take) (use assms in simp_all)
  then show ?thesis
    using assms no by (simp add: lex_token_def hd lex_ident_or_keyword_def input_text_at)
qed

lemma lex_digits:
  assumes "unat v < 2 ^ 63"
  shows "lex_token (pre @ dec (unat v) @ 0x20 # rest) (length pre) = Inr (TkIntegerLiteral v, length pre + length (dec (unat v)))"
proof -
  let ?w = "dec (unat v)"
  have hd: "(pre @ ?w @ 0x20 # rest) ! length pre = hd ?w" by (cases ?w) auto
  have "is_ascii_digit (hd ?w)" using dec_digits [of "unat v"] by (cases ?w) auto
  moreover have "advance_while is_ascii_digit (pre @ ?w @ 0x20 # rest) (length pre) = length pre + length ?w"
    by (rule advance_while_take) (simp_all add: dec_digits)
  moreover have "peek_byte (pre @ ?w @ 0x20 # rest) (length pre + length ?w) = Some 0x20"
    using peek_at [of "pre @ ?w" "0x20" rest] by simp
  ultimately show ?thesis
    by (simp add: lex_token_def hd lex_number_def input_text_at parse_i64_dec [OF assms])
qed

lemma lex_parameter:
  assumes "i \<noteq> 0"
  shows "lex_token (pre @ (0x24 # dec (unat i)) @ 0x20 # rest) (length pre) = Inr (TkParameter i, length pre + Suc (length (dec (unat i))))"
proof -
  let ?w = "dec (unat i)" and ?inp = "pre @ 0x24 # dec (unat i) @ 0x20 # rest"
  have 1: "advance_while is_ascii_digit ?inp (Suc (length pre)) = Suc (length pre) + length ?w"
    by (rule advance_while_digits [where pre = "pre @ [0x24]" and ys = "0x20 # rest"]) (simp_all add: dec_digits)
  have 2: "input_text ?inp (Suc (length pre)) (Suc (length pre) + length ?w) = ?w"
    using input_text_at [of "pre @ [0x24]" ?w "0x20 # rest"] by simp
  have "\<not> is_ascii_digit 0x24" by (simp add: is_ascii_digit_def)
  then show ?thesis
    using assms 1 2 by (simp add: lex_token_def lex_dollar_def Let_def parse_u32_dec)
qed

lemma quote_step:
  assumes "b \<noteq> 0x27" "utf8_char_len b = length (b # cs)" "list_all (\<lambda>c. c \<noteq> 0x27) cs"
  shows "string_loop (pre @ (b # cs) @ tail) start (length pre) v
    = string_loop ((pre @ b # cs) @ tail) start (length (pre @ b # cs)) (v @ b # cs)"
  using assms by (subst string_loop.simps) (simp add: char_at_def bytes_at_def)

lemma cont_not_quote: "utf8_cont c \<Longrightarrow> c \<noteq> 0x27" "0xA0 \<le> c \<Longrightarrow> c \<noteq> 0x27" "0x80 \<le> c \<Longrightarrow> c \<noteq> 0x27" "0x90 \<le> c \<Longrightarrow> c \<noteq> 0x27"
  for c :: byte
  by (auto simp: utf8_cont_def word_le_nat_alt)

lemma quote_body_id: "list_all (\<lambda>c. c \<noteq> 0x27) cs \<Longrightarrow> quote_body (cs @ s) = cs @ quote_body s"
  by (induction cs) auto

text \<open>A valid string splits into its first character and a valid rest.\<close>

lemma utf8_first:
  assumes "utf8_valid (b # bs)"
  obtains cs r where "bs = cs @ r" "utf8_char_len b = length (b # cs)" "utf8_valid r"
    "b = 0x27 \<longrightarrow> cs = []" "list_all (\<lambda>c. c \<noteq> 0x27) cs"
proof -
  consider (1) "b < 0x80" | (2) "0xC2 \<le> b" "b \<le> 0xDF" | (3) "0xE0 \<le> b" "b \<le> 0xEF" | (4) "0xF0 \<le> b" "b \<le> 0xF4"
    using assms by (auto split: if_splits)
  then show thesis
  proof cases
    case 1
    then show ?thesis using assms by (intro that [of "[]" bs]) (auto simp: utf8_char_len_def)
  next
    case 2
    then have "\<not> b < 0x80" "b < 0xE0" "b \<noteq> 0x27" by (auto simp: word_le_nat_alt word_less_nat_alt)
    then show ?thesis using assms 2
      by (cases bs) (auto simp: utf8_char_len_def dest: cont_not_quote intro!: that [of "[hd bs]" "tl bs"])
  next
    case 3
    then have "\<not> b < 0x80" "\<not> b < 0xE0" "b < 0xF0" "b \<noteq> 0x27" "\<not> b \<le> 0xDF"
      by (auto simp: word_le_nat_alt word_less_nat_alt)
    then show ?thesis using assms 3
      by (cases bs; cases "tl bs")
        (auto simp: utf8_char_len_def dest: cont_not_quote split: if_splits intro!: that [of "[hd bs, hd (tl bs)]" "tl (tl bs)"])
  next
    case 4
    then have "\<not> b < 0x80" "\<not> b < 0xE0" "\<not> b < 0xF0" "b \<noteq> 0x27" "\<not> b \<le> 0xDF" "\<not> b \<le> 0xEF"
      by (auto simp: word_le_nat_alt word_less_nat_alt)
    then show ?thesis using assms 4
      by (cases bs; cases "tl bs"; cases "tl (tl bs)")
        (auto simp: utf8_char_len_def dest: cont_not_quote split: if_splits
          intro!: that [of "[hd bs, hd (tl bs), hd (tl (tl bs))]" "tl (tl (tl bs))"])
  qed
qed

lemma string_loop_quoted:
  assumes "utf8_valid s"
  shows "string_loop (pre @ quote_body s @ 0x27 # 0x20 # rest) start (length pre) v
    = Inr (v @ s, length pre + length (quote_body s) + 1)"
  using assms
proof (induction "length s" arbitrary: s pre v rule: less_induct)
  case less
  show ?case
  proof (cases s)
    case Nil
    then show ?thesis
      using peek_byte_append [of pre "0x27 # 0x20 # rest" 1]
      by (subst string_loop.simps) (simp add: peek_byte_at_def peek_byte_def)
  next
    case (Cons b bs)
    obtain cs r where c: "bs = cs @ r" "utf8_char_len b = length (b # cs)" "utf8_valid r"
      "b = 0x27 \<longrightarrow> cs = []" "list_all (\<lambda>c. c \<noteq> 0x27) cs"
      using utf8_first less.prems Cons by metis
    have IH: "string_loop (q @ quote_body r @ 0x27 # 0x20 # rest) start (length q) w
        = Inr (w @ r, length q + length (quote_body r) + 1)" for q w
      by (rule less.hyps) (simp_all add: Cons c)
    show ?thesis
    proof (cases "b = 0x27")
      case True
      have "string_loop (pre @ quote_body s @ 0x27 # 0x20 # rest) start (length pre) v
          = string_loop ((pre @ [0x27, 0x27]) @ quote_body r @ 0x27 # 0x20 # rest) start (length (pre @ [0x27, 0x27])) (v @ [0x27])"
        using True c Cons peek_byte_append [of pre "0x27 # 0x27 # quote_body r @ 0x27 # 0x20 # rest" 1]
        by (subst string_loop.simps) (simp add: peek_byte_at_def peek_byte_def)
      then show ?thesis using True c Cons by (simp only: IH) simp
    next
      case False
      have "string_loop (pre @ quote_body s @ 0x27 # 0x20 # rest) start (length pre) v
          = string_loop ((pre @ b # cs) @ quote_body r @ 0x27 # 0x20 # rest) start (length (pre @ b # cs)) (v @ b # cs)"
        using quote_step [OF False c(2,5), of pre "quote_body r @ 0x27 # 0x20 # rest"] False c Cons
        by (simp add: quote_body_id)
      then show ?thesis using False c Cons by (simp only: IH) (simp add: quote_body_id)
    qed
  qed
qed

lemma lex_quoted:
  assumes "utf8_valid s"
  shows "lex_token (pre @ (0x27 # quote_body s @ [0x27]) @ 0x20 # rest) (length pre)
    = Inr (TkStringLiteral s, length pre + Suc (Suc (length (quote_body s))))"
proof -
  have "\<not> is_ascii_digit 0x27" by (simp add: is_ascii_digit_def)
  moreover have "string_loop (pre @ 0x27 # quote_body s @ 0x27 # 0x20 # rest) (length pre) (Suc (length pre)) []
      = Inr (s, Suc (length pre) + length (quote_body s) + 1)"
    using string_loop_quoted [OF assms, of "pre @ [0x27]" rest "length pre" "[]"] by simp
  ultimately show ?thesis by (simp add: lex_token_def lex_string_def)
qed

lemma KEYWORDS_words:
  "list_all (\<lambda>(w, k). w \<noteq> [] \<and> is_ascii_alphabetic (hd w) \<and> list_all is_ident_byte w \<and> ascii_upper w = w) KEYWORDS"
  "distinct (map fst KEYWORDS)" "distinct (map fst SINGLE_PUNCT)"
  "list_all (\<lambda>(b, k). \<not> is_ascii_digit b \<and> b \<noteq> 0x27 \<and> b \<noteq> 0x24 \<and> b \<noteq> 0x5F \<and> \<not> is_ascii_alphabetic b
     \<and> \<not> is_ascii_whitespace b) SINGLE_PUNCT"
  by code_simp+

lemma map_of_swap: "map_of (map prod.swap xs) k = Some w \<Longrightarrow> (w, k) \<in> set xs"
  by (auto dest: map_of_SomeD)

lemma lex_keyword:
  assumes "(w, k) \<in> set KEYWORDS"
  shows "lex_token (pre @ w @ 0x20 # rest) (length pre) = Inr (k, length pre + length w)"
proof -
  have w: "w \<noteq> []" "is_ascii_alphabetic (hd w)" "list_all is_ident_byte w" "ascii_upper w = w"
    using assms KEYWORDS_words(1) by (auto simp: list_all_iff)
  have "word_kind w = k" using assms KEYWORDS_words(2) w(4) by (simp add: word_kind_def)
  then show ?thesis using lex_word [of w] w by simp
qed

lemma lex_single:
  assumes "(b, k) \<in> set SINGLE_PUNCT"
  shows "lex_token (pre @ [b] @ 0x20 # rest) (length pre) = Inr (k, length pre + 1)"
proof -
  have b: "\<not> is_ascii_digit b" "b \<noteq> 0x27" "b \<noteq> 0x24" "b \<noteq> 0x5F" "\<not> is_ascii_alphabetic b"
    using assms KEYWORDS_words(4) by (auto simp: list_all_iff)
  have "map_of SINGLE_PUNCT b = Some k" using assms KEYWORDS_words(3) by simp
  then show ?thesis using b by (simp add: lex_token_def lex_punct_def)
qed

lemma lex_comparison:
  "lex_token (pre @ [0x3C, 0x3E] @ 0x20 # rest) (length pre) = Inr (TkNotEq, length pre + 2)"
  "lex_token (pre @ [0x3C] @ 0x20 # rest) (length pre) = Inr (TkLt, length pre + 1)"
  "lex_token (pre @ [0x3C, 0x3D] @ 0x20 # rest) (length pre) = Inr (TkLtEq, length pre + 2)"
  "lex_token (pre @ [0x3E] @ 0x20 # rest) (length pre) = Inr (TkGt, length pre + 1)"
  "lex_token (pre @ [0x3E, 0x3D] @ 0x20 # rest) (length pre) = Inr (TkGtEq, length pre + 2)"
  using peek_byte_append [of pre _ 1]
  by (simp_all add: lex_token_def lex_punct_def SINGLE_PUNCT_def ascii_class_defs peek_byte_def nth_append)

lemma token_ok_cases:
  assumes "token_ok k"
  obtains (keyword) "(token_text k, k) \<in> set KEYWORDS"
    | (single) b where "token_text k = [b]" "(b, k) \<in> set SINGLE_PUNCT"
    | (comparison) "k \<in> {TkNotEq, TkLt, TkLtEq, TkGt, TkGtEq}"
    | (ident) w where "k = TkIdentifier w" "ident_ok w"
    | (integer) v where "k = TkIntegerLiteral v" "unat v < 2 ^ 63"
    | (quoted) s where "k = TkStringLiteral s" "utf8_valid s"
    | (parameter) i where "k = TkParameter i" "i \<noteq> 0"
proof (cases "map_of (map prod.swap KEYWORDS) k \<noteq> None \<or> map_of (map prod.swap SINGLE_PUNCT) k \<noteq> None")
  case True
  have "k \<noteq> TkIdentifier a \<and> k \<noteq> TkIntegerLiteral b \<and> k \<noteq> TkStringLiteral c \<and> k \<noteq> TkParameter d
      \<and> k \<notin> {TkNotEq, TkLt, TkLtEq, TkGt, TkGtEq}" for a b c d
    using True by (auto simp: KEYWORDS_def SINGLE_PUNCT_def)
  then have "token_text k = fixed_text k" by (cases k) auto
  then show thesis
    using True keyword single by (auto simp: fixed_text_def dest!: map_of_swap split: option.splits)
next
  case False
  then show thesis
    using assms comparison ident integer quoted parameter
    by (cases k) (auto simp: KEYWORDS_def SINGLE_PUNCT_def word_less_nat_alt)
qed

lemma lex_token_text:
  assumes "token_ok k"
  shows "lex_token (pre @ token_text k @ 0x20 # rest) (length pre) = Inr (k, length pre + length (token_text k))"
  using assms
proof (cases rule: token_ok_cases)
  case (ident w)
  then show ?thesis using lex_word [of w pre rest] by (simp add: ident_ok_def word_kind_def)
qed (use lex_keyword lex_single [of _ k pre rest] lex_comparison [of pre rest] lex_digits [of _ pre rest]
      lex_quoted [of _ pre rest] lex_parameter [of _ pre rest] in auto)

section \<open>Lexing a printed line\<close>

lemma token_text_start:
  assumes "token_ok k"
  obtains b t where "token_text k = b # t" "\<not> is_ascii_whitespace b" "b = 0x2D \<longrightarrow> t = []"
proof -
  have alpha: "\<not> is_ascii_whitespace b" "b \<noteq> 0x2D" if "b = 0x5F \<or> is_ascii_alphabetic b \<or> is_ascii_digit b" for b
    using that by (auto simp: ascii_class_defs word_le_nat_alt)
  have "token_text k \<noteq> [] \<and> \<not> is_ascii_whitespace (hd (token_text k)) \<and> (hd (token_text k) = 0x2D \<longrightarrow> tl (token_text k) = [])"
    using assms
  proof (cases rule: token_ok_cases)
    case keyword
    then show ?thesis using KEYWORDS_words(1) alpha by (fastforce simp: list_all_iff)
  next
    case single
    then show ?thesis using KEYWORDS_words(4) by (fastforce simp: list_all_iff)
  next
    case (ident w)
    then show ?thesis using alpha [of "hd w"] by (auto simp: ident_ok_def)
  next
    case (integer v)
    have "is_ascii_digit (hd (dec (unat v)))" using dec_digits [of "unat v"] by (cases "dec (unat v)") auto
    then show ?thesis using integer alpha by auto
  qed (auto simp: is_ascii_whitespace_def)
  then show thesis using that by (cases "token_text k") auto
qed

lemma tokenize_render:
  assumes "list_all token_ok ks"
  shows "\<exists>toks. tokenize_from (pre @ render ks) (length pre) = Inr toks \<and> map tk_kind toks = ks @ [TkEof]"
  using assms
proof (induction ks arbitrary: pre)
  case Nil
  then show ?case
    by (subst tokenize_from.simps) (simp add: render_def skip_trivia_end Let_def token_new_def)
next
  case (Cons k ks)
  let ?inp = "pre @ render (k # ks)" and ?q = "pre @ token_text k @ [0x20]"
  obtain b t where b: "token_text k = b # t" "\<not> is_ascii_whitespace b" "b = 0x2D \<longrightarrow> t = []"
    using token_text_start Cons.prems by (metis list.pred_inject(2))
  have inp: "?inp = pre @ token_text k @ 0x20 # render ks" "?inp = ?q @ render ks" by (simp_all add: render_def)
  have skip: "skip_trivia ?inp (length pre) = length pre"
    unfolding inp(1) using b skip_trivia_stop [of b "t @ 0x20 # render ks" pre] by (cases t) auto
  have lex: "lex_token ?inp (length pre) = Inr (k, length pre + length (token_text k))"
    unfolding inp(1) using lex_token_text Cons.prems by simp
  have sp: "skip_trivia ?inp (length pre + length (token_text k)) = skip_trivia ?inp (length ?q)"
    using skip_trivia_space [of "pre @ token_text k" "render ks"] by (simp add: inp(1))
  then have nxt: "tokenize_from ?inp (length pre + length (token_text k)) = tokenize_from ?inp (length ?q)"
    by (subst (1 2) tokenize_from.simps) simp
  obtain toks where "tokenize_from ?inp (length ?q) = Inr toks" "map tk_kind toks = ks @ [TkEof]"
    using Cons.IH [of ?q] Cons.prems unfolding inp(2) by auto
  then show ?case
    using nxt skip lex b(1) by (subst tokenize_from.simps) (simp add: inp(1) token_new_def)
qed

end
