(* ===== verification/Sql_Roundtrip.thy ===== *)
theory Sql_Roundtrip
  imports Sql_Print
begin

text \<open>
  Parsing what the printer writes. \<open>reads l s e\<close> says that the parser of precedence level \<open>l\<close> turns
  the token kinds \<open>s\<close> into the tree \<open>e\<close> and stops after them. The levels are those of the parser's
  functions: 0 \<open>OR\<close>, 1 \<open>AND\<close>, 2 \<open>NOT\<close>, 3 \<open>IS NULL\<close>, 4 comparison, 5 unary minus, 6 primary.
\<close>

section \<open>Printing\<close>

fun operator_level :: "binary_operator \<Rightarrow> nat" where
  "operator_level OpOr = 0"
| "operator_level OpAnd = 1"
| "operator_level _ = 4"

fun operator_token :: "binary_operator \<Rightarrow> token_kind" where
  "operator_token OpEq = TkEq"
| "operator_token OpNotEq = TkNotEq"
| "operator_token OpLt = TkLt"
| "operator_token OpLtEq = TkLtEq"
| "operator_token OpGt = TkGt"
| "operator_token OpGtEq = TkGtEq"
| "operator_token OpAnd = TkAnd"
| "operator_token OpOr = TkOr"
| "operator_token OpPlus = TkPlus"
| "operator_token OpMinus = TkMinus"
| "operator_token OpMultiply = TkStar"
| "operator_token OpDivide = TkSlash"

fun print_session :: "session_context_name \<Rightarrow> token_kind list" where
  "print_session Version = [TkIdentifier (ascii ''version''), TkLParen, TkRParen]"
| "print_session n = [TkIdentifier (session_column_name n)]"

fun print_literal :: "val \<Rightarrow> token_kind list" where
  "print_literal VNull = [TkNull]"
| "print_literal (VBoolean b) = [if b then TkTrue else TkFalse]"
| "print_literal (VBigInt v) = [TkIntegerLiteral v]"
| "print_literal (VDouble v) = [TkFloatLiteral v]"
| "print_literal (VVarchar s) = [TkStringLiteral s]"
| "print_literal (VInteger v) = []"

fun expr_level :: "expr \<Rightarrow> nat" where
  "expr_level (EBinaryOp _ op _) = operator_level op"
| "expr_level (EUnaryOp OpNot _) = 2"
| "expr_level (EIsNull _ _) = 3"
| "expr_level (EUnaryOp OpNegate _) = 5"
| "expr_level _ = 6"

definition paren_if :: "bool \<Rightarrow> token_kind list \<Rightarrow> token_kind list" where
  "paren_if b s = (if b then TkLParen # s @ [TkRParen] else s)"

fun print_expr :: "nat \<Rightarrow> expr \<Rightarrow> token_kind list" where
  "print_expr l (EBinaryOp e1 op e2) =
     paren_if (operator_level op < l)
       (print_expr (operator_level op) e1 @ operator_token op # print_expr (Suc (operator_level op)) e2)"
| "print_expr l (EUnaryOp OpNot e) = paren_if (2 < l) (TkNot # print_expr 2 e)"
| "print_expr l (EUnaryOp OpNegate e) = paren_if (5 < l) (TkMinus # print_expr 5 e)"
| "print_expr l (EIsNull e negated) =
     paren_if (3 < l) (print_expr 3 e @ TkIs # (if negated then [TkNot] else []) @ [TkNull])"
| "print_expr l (ELiteral v) = print_literal v"
| "print_expr l (ESessionContext n) = print_session n"
| "print_expr l (EColumn None name) = [TkIdentifier name]"
| "print_expr l (EColumn (Some t) name) = [TkIdentifier t, TkDot, TkIdentifier name]"
| "print_expr l (EParameter i) = [TkParameter i]"

text \<open>The trees the grammar can produce from text without floating-point literals.\<close>

fun literal_ok :: "val \<Rightarrow> bool" where
  "literal_ok (VBigInt v) = (v < 0x8000000000000000)"
| "literal_ok (VVarchar s) = utf8_valid s"
| "literal_ok (VInteger v) = False"
| "literal_ok (VDouble v) = False"
| "literal_ok _ = True"

definition is_arithmetic :: "binary_operator \<Rightarrow> bool" where
  "is_arithmetic op \<longleftrightarrow> op \<in> {OpPlus, OpMinus, OpMultiply, OpDivide}"

fun expr_ok :: "expr \<Rightarrow> bool" where
  "expr_ok (ELiteral v) = literal_ok v"
| "expr_ok (ESessionContext n) = True"
| "expr_ok (EColumn None name) = (ident_ok name \<and> session_keyword name = None)"
| "expr_ok (EColumn (Some t) name) = (ident_ok t \<and> ident_ok name)"
| "expr_ok (EBinaryOp e1 op e2) = (expr_ok e1 \<and> \<not> is_arithmetic op \<and> expr_ok e2)"
| "expr_ok (EUnaryOp op e) = expr_ok e"
| "expr_ok (EIsNull e negated) = expr_ok e"
| "expr_ok (EParameter i) = (i \<noteq> 0)"

section \<open>Positions as token kinds\<close>

definition kinds :: "parser \<Rightarrow> token_kind list" where
  "kinds p = map tk_kind (ps_tokens p)"

definition skip :: "nat \<Rightarrow> parser \<Rightarrow> parser" where
  "skip n p = p\<lparr>ps_tokens := drop n (ps_tokens p)\<rparr>"

lemma skip_simps [simp]: "skip m (skip n p) = skip (n + m) p" "skip 0 p = p"
  by (simp_all add: skip_def add.commute)

lemma advance_skip: "advance p = skip (Suc 0) p"
  by (simp add: advance_def skip_def drop_Suc)

lemma kinds_skip [simp]: "kinds (skip n p) = drop n (kinds p)"
  by (simp add: kinds_def skip_def drop_map)

lemma peek_kinds: "peek_kind p n = (if n < length (kinds p) then kinds p ! n else TkEof)"
  by (simp add: peek_kind_def kinds_def)

lemma tokens_left_kinds: "tokens_left p = length (kinds p)"
  by (simp add: tokens_left_def kinds_def)

lemma cur_kinds: "cur p = (case kinds p of [] \<Rightarrow> TkEof | k # _ \<Rightarrow> k)"
  by (simp add: kinds_def current_def token_new_def split: list.splits)

lemma pbind_Inr [simp]: "pbind (Some (Inr (x, p))) f = f x p"
  by (simp add: pbind_def)

text \<open>Tokens that a parser of a lower or equal level goes on with.\<close>

fun token_level :: "token_kind \<Rightarrow> nat option" where
  "token_level TkOr = Some 0"
| "token_level TkAnd = Some 1"
| "token_level TkIs = Some 3"
| "token_level TkDot = Some 6"
| "token_level TkLParen = Some 6"
| "token_level k = map_option (\<lambda>_. 4) (comparison_operator k)"

definition stops :: "nat \<Rightarrow> token_kind list \<Rightarrow> bool" where
  "stops l rest \<longleftrightarrow> (case rest of [] \<Rightarrow> True | k # _ \<Rightarrow> (case token_level k of None \<Rightarrow> True | Some m \<Rightarrow> m < l))"

definition level_parser :: "nat \<Rightarrow> (parser \<Rightarrow> expr parsed) \<Rightarrow> nat \<Rightarrow> parser \<Rightarrow> expr parsed" where
  "level_parser l primary n p =
     [parse_or primary n p, parse_and primary n p, parse_not primary n p, parse_is_null primary n p,
      parse_comparison primary n p, parse_unary primary n p, primary p] ! l"

definition level_loop :: "nat \<Rightarrow> (parser \<Rightarrow> expr parsed) \<Rightarrow> nat \<Rightarrow> expr \<Rightarrow> parser \<Rightarrow> expr parsed" where
  "level_loop l primary n =
     (if l = 0 then or_loop primary n else if l = 1 then and_loop primary n
      else if l = 3 then is_null_loop n else comparison_loop primary n)"

definition reads :: "nat \<Rightarrow> token_kind list \<Rightarrow> expr \<Rightarrow> bool" where
  "reads l s e \<longleftrightarrow> (\<forall>p rest n d. kinds p = s @ rest \<longrightarrow> stops l rest \<longrightarrow> tokens_left p < n \<longrightarrow> tokens_left p < d \<longrightarrow>
     level_parser l (parse_primary d) n p = Some (Inr (e, skip (length s) p)))"

text \<open>The same for a loop level, when more of the loop follows.\<close>

definition reads_on :: "nat \<Rightarrow> token_kind list \<Rightarrow> expr \<Rightarrow> bool" where
  "reads_on l s e \<longleftrightarrow> (\<forall>p rest n d r. kinds p = s @ rest \<longrightarrow> stops (Suc l) rest \<longrightarrow> tokens_left p < n \<longrightarrow> tokens_left p < d \<longrightarrow>
     (\<forall>m. length rest < m \<longrightarrow> level_loop l (parse_primary d) m e (skip (length s) p) = r) \<longrightarrow>
     level_parser l (parse_primary d) n p = r)"

lemma stops_mono: "stops l rest \<Longrightarrow> l \<le> m \<Longrightarrow> stops m rest"
  by (auto simp: stops_def split: list.splits option.splits)

lemma stops_cur:
  assumes "stops l rest" "kinds p = rest"
  shows "l = 0 \<Longrightarrow> cur p \<noteq> TkOr" "l \<le> 1 \<Longrightarrow> cur p \<noteq> TkAnd" "l \<le> 3 \<Longrightarrow> cur p \<noteq> TkIs"
    "l \<le> 4 \<Longrightarrow> comparison_operator (cur p) = None" "l \<le> 6 \<Longrightarrow> cur p \<noteq> TkDot \<and> cur p \<noteq> TkLParen"
proof -
  show "l \<le> 4 \<Longrightarrow> comparison_operator (cur p) = None"
    using assms by (cases "cur p") (auto simp: stops_def cur_kinds split: list.splits)
qed (use assms in \<open>auto simp: stops_def cur_kinds split: list.splits\<close>)

section \<open>From one level to the next\<close>

lemma loop_stops:
  assumes "stops l rest" "kinds p = rest" "l \<in> {0, 1, 3, 4}" "0 < n"
  shows "level_loop l primary n e p = Some (Inr (e, p))"
  using assms(3,4) stops_cur [OF assms(1,2)]
  by (cases n) (auto simp: level_loop_def)

lemma level_parser_loop:
  "l \<in> {0, 1, 3, 4} \<Longrightarrow> level_parser l primary n p = pbind (level_parser (Suc l) primary n p) (level_loop l primary n)"
  by (auto simp: level_parser_def level_loop_def parse_or_def parse_and_def parse_is_null_def parse_comparison_def
      numeral_eq_Suc)

lemma reads_on_from_next:
  assumes "reads (Suc l) s e" "l \<in> {0, 1, 3, 4}"
  shows "reads_on l s e"
proof -
  have "level_parser l (parse_primary d) n p = r"
    if a: "kinds p = s @ rest" "stops (Suc l) rest" "tokens_left p < n" "tokens_left p < d"
      "\<forall>m. length rest < m \<longrightarrow> level_loop l (parse_primary d) m e (skip (length s) p) = r" for p rest n d r
  proof -
    have "level_parser (Suc l) (parse_primary d) n p = Some (Inr (e, skip (length s) p))"
      using assms(1) a unfolding reads_def by blast
    moreover have "length rest < n" using a(1,3) by (simp add: tokens_left_kinds)
    ultimately show ?thesis using a(5) assms(2) by (simp add: level_parser_loop)
  qed
  then show ?thesis unfolding reads_on_def by blast
qed

lemma reads_from_on:
  assumes "reads_on l s e" "l \<in> {0, 1, 3, 4}"
  shows "reads l s e"
proof -
  have "level_parser l (parse_primary d) n p = Some (Inr (e, skip (length s) p))"
    if a: "kinds p = s @ rest" "stops l rest" "tokens_left p < n" "tokens_left p < d" for p rest n d
  proof -
    have "stops (Suc l) rest" using stops_mono a(2) by (metis le_SucI order_refl)
    moreover have "level_loop l (parse_primary d) m e (skip (length s) p) = Some (Inr (e, skip (length s) p))"
      if "length rest < m" for m
      using loop_stops [OF a(2)] assms(2) a(1) that by simp
    ultimately show ?thesis using assms(1) a unfolding reads_on_def by blast
  qed
  then show ?thesis unfolding reads_def by blast
qed

lemma reads_down:
  assumes "reads (Suc l) s e" "l < 6" "s \<noteq> []" "l = 2 \<longrightarrow> hd s \<noteq> TkNot" "l = 5 \<longrightarrow> hd s \<noteq> TkMinus"
  shows "reads l s e"
proof (cases "l \<in> {0, 1, 3, 4}")
  case True
  then show ?thesis using reads_from_on reads_on_from_next assms(1) by blast
next
  case False
  then have l: "l = 2 \<or> l = 5" using assms(2) by auto
  have "level_parser l primary n p = level_parser (Suc l) primary n p" if "kinds p = s @ rest" "0 < n" for primary n p rest
  proof -
    have "cur p = hd s" using that(1) assms(3) by (cases s) (simp_all add: cur_kinds)
    then show ?thesis using l assms(4,5) that(2) by (cases n) (auto simp: level_parser_def numeral_eq_Suc)
  qed
  then show ?thesis using assms(1) stops_mono unfolding reads_def by (metis le_SucI order_refl gr_zeroI not_less0)
qed

section \<open>Operators\<close>

lemma operator_token_level:
  "\<not> is_arithmetic op \<Longrightarrow> token_level (operator_token op) = Some (operator_level op)"
  "\<not> is_arithmetic op \<Longrightarrow> operator_level op \<in> {0, 1, 3, 4}"
  by (cases op; simp add: is_arithmetic_def)+

lemma level_loop_operator:
  assumes "\<not> is_arithmetic op" "cur p = operator_token op"
  shows "level_loop (operator_level op) primary (Suc n) e p
    = pbind (level_parser (Suc (operator_level op)) primary n (advance p))
        (\<lambda>right. level_loop (operator_level op) primary n (EBinaryOp e op right))"
  using assms by (cases op) (simp_all add: level_loop_def level_parser_def is_arithmetic_def numeral_eq_Suc)

lemma reads_binary:
  assumes op: "\<not> is_arithmetic op" and l: "l = operator_level op"
    and e1: "reads_on l s1 e1" and e2: "reads (Suc l) s2 e2"
  shows "reads_on l (s1 @ operator_token op # s2) (EBinaryOp e1 op e2)"
proof -
  let ?s = "s1 @ operator_token op # s2" and ?e = "EBinaryOp e1 op e2"
  have "level_parser l (parse_primary d) n p = r"
    if a: "kinds p = ?s @ rest" "stops (Suc l) rest" "tokens_left p < n" "tokens_left p < d"
      "\<forall>m. length rest < m \<longrightarrow> level_loop l (parse_primary d) m ?e (skip (length ?s) p) = r" for p rest n d r
  proof -
    let ?q = "skip (length s1) p"
    have q: "kinds ?q = operator_token op # s2 @ rest" using a(1) by simp
    have "level_loop l (parse_primary d) m e1 ?q = r" if m: "length (operator_token op # s2 @ rest) < m" for m
    proof (cases m)
      case (Suc k)
      have "cur ?q = operator_token op" using q by (simp add: cur_kinds)
      then have "level_loop l (parse_primary d) m e1 ?q
          = pbind (level_parser (Suc l) (parse_primary d) k (advance ?q)) (\<lambda>right. level_loop l (parse_primary d) k (EBinaryOp e1 op right))"
        unfolding Suc l by (rule level_loop_operator [OF op])
      also have "level_parser (Suc l) (parse_primary d) k (advance ?q) = Some (Inr (e2, skip (length s2) (advance ?q)))"
        using e2 a q m Suc unfolding reads_def by (auto simp: advance_skip tokens_left_kinds)
      finally show ?thesis using a(5) m Suc by (simp add: advance_skip add.commute add.left_commute)
    qed (use m in simp)
    moreover have "stops (Suc l) (operator_token op # s2 @ rest)"
      using operator_token_level(1) [OF op] by (simp add: stops_def l)
    ultimately show ?thesis using e1 a(1,3,4) unfolding reads_on_def by (metis append.assoc append_Cons)
  qed
  then show ?thesis unfolding reads_on_def by blast
qed

lemma reads_is_null:
  assumes e: "reads_on 3 s e"
  shows "reads_on 3 (s @ TkIs # (if negated then [TkNot] else []) @ [TkNull]) (EIsNull e negated)"
proof -
  let ?s = "s @ TkIs # (if negated then [TkNot] else []) @ [TkNull]"
  have "level_parser 3 (parse_primary d) n p = r"
    if a: "kinds p = ?s @ rest" "stops (Suc 3) rest" "tokens_left p < n" "tokens_left p < d"
      "\<forall>m. length rest < m \<longrightarrow> level_loop 3 (parse_primary d) m (EIsNull e negated) (skip (length ?s) p) = r" for p rest n d r
  proof -
    let ?q = "skip (length s) p"
    have q: "kinds ?q = TkIs # (if negated then [TkNot] else []) @ TkNull # rest" using a(1) by simp
    have "level_loop 3 (parse_primary d) m e ?q = r"
      if m: "length (TkIs # (if negated then [TkNot] else []) @ TkNull # rest) < m" for m
    proof (cases m)
      case (Suc k)
      have "level_loop 3 (parse_primary d) m e ?q = is_null_loop k (EIsNull e negated) (skip (length ?s) p)"
        using a(1) by (cases negated) (simp_all add: Suc level_loop_def cur_kinds Let_def expect_kind_def advance_skip)
      then show ?thesis using a(5) m Suc by (simp add: level_loop_def split: if_splits)
    qed (use m in simp)
    moreover have "stops (Suc 3) (TkIs # (if negated then [TkNot] else []) @ TkNull # rest)" by (simp add: stops_def)
    ultimately show ?thesis using e a(1,3,4) unfolding reads_on_def by (metis append.assoc append_Cons append_Nil)
  qed
  then show ?thesis unfolding reads_on_def by blast
qed

lemma reads_not:
  assumes "reads 2 s e"
  shows "reads 2 (TkNot # s) (EUnaryOp OpNot e)"
proof -
  have "level_parser 2 (parse_primary d) n p = Some (Inr (EUnaryOp OpNot e, skip (length (TkNot # s)) p))"
    if a: "kinds p = (TkNot # s) @ rest" "stops 2 rest" "tokens_left p < n" "tokens_left p < d" for p rest n d
  proof (cases n)
    case (Suc k)
    have "parse_not (parse_primary d) k (advance p) = Some (Inr (e, skip (length s) (advance p)))"
      using assms a Suc unfolding reads_def by (auto simp: level_parser_def tokens_left_kinds advance_skip)
    then show ?thesis using a Suc by (simp add: level_parser_def cur_kinds advance_skip)
  qed (use a in simp)
  then show ?thesis unfolding reads_def by blast
qed

lemma reads_negate:
  assumes "reads 5 s e"
  shows "reads 5 (TkMinus # s) (EUnaryOp OpNegate e)"
proof -
  have "level_parser 5 (parse_primary d) n p = Some (Inr (EUnaryOp OpNegate e, skip (length (TkMinus # s)) p))"
    if a: "kinds p = (TkMinus # s) @ rest" "stops 5 rest" "tokens_left p < n" "tokens_left p < d" for p rest n d
  proof (cases n)
    case (Suc k)
    have "parse_unary (parse_primary d) k (advance p) = Some (Inr (e, skip (length s) (advance p)))"
      using assms a Suc unfolding reads_def by (auto simp: level_parser_def tokens_left_kinds advance_skip)
    then show ?thesis using a Suc by (simp add: level_parser_def cur_kinds advance_skip)
  qed (use a in simp)
  then show ?thesis unfolding reads_def by blast
qed

lemma reads_paren:
  assumes "reads 0 s e"
  shows "reads 6 (TkLParen # s @ [TkRParen]) e"
proof -
  have "level_parser 6 (parse_primary d) n p = Some (Inr (e, skip (length (TkLParen # s @ [TkRParen])) p))"
    if a: "kinds p = (TkLParen # s @ [TkRParen]) @ rest" "tokens_left p < d" for p rest n d
  proof (cases d)
    case (Suc k)
    have "stops 0 (TkRParen # rest)" by (simp add: stops_def)
    moreover have "kinds (advance p) = s @ TkRParen # rest" using a by (simp add: advance_skip)
    moreover have "tokens_left (advance p) < k" using a Suc by (simp add: tokens_left_kinds advance_skip)
    ultimately have "parse_or (parse_primary k) k (advance p) = Some (Inr (e, skip (length s) (advance p)))"
      using assms unfolding reads_def by (auto simp: level_parser_def)
    then show ?thesis using a Suc by (simp add: level_parser_def cur_kinds advance_skip expect_kind_def)
  qed (use a in simp)
  then show ?thesis unfolding reads_def by blast
qed

section \<open>Primaries\<close>

lemma session_names:
  "session_keyword (ascii ''current_catalog'') = Some CurrentCatalog"
  "session_keyword (ascii ''current_schema'') = Some CurrentSchema"
  "session_keyword (ascii ''current_user'') = Some CurrentUser"
  "session_keyword (ascii ''session_user'') = Some SessionUser"
  "session_function (ascii ''version'') = Some Version"
  by code_simp+

lemma reads_primary:
  assumes "expr_ok e" "expr_level e = 6"
  shows "reads 6 (print_expr l e) e"
proof -
  have "parse_primary d p = Some (Inr (e, skip (length (print_expr l e)) p))"
    if a: "kinds p = print_expr l e @ rest" "stops 6 rest" "0 < d" for p rest d
  proof -
    obtain k where d: "d = Suc k" using a(3) by (cases d) auto
    have stop: "cur q \<noteq> TkDot" "cur q \<noteq> TkLParen" if "kinds q = rest" for q
      using stops_cur(5) [OF a(2) that] by auto
    show ?thesis
    proof (cases e)
      case (ELiteral v)
      then show ?thesis using a(1) assms by (cases v) (auto simp: d cur_kinds advance_skip split: if_splits)
    next
      case (ESessionContext n)
      then show ?thesis
        using a(1) stop [of "advance p"] session_names
        by (cases n) (auto simp: d cur_kinds advance_skip parse_name_def consume_empty_argument_list_def Let_def)
    next
      case (EColumn t name)
      then show ?thesis
        using a(1) stop [of "advance p"] assms
        by (cases t) (auto simp: d cur_kinds advance_skip parse_name_def expect_identifier_def)
    next
      case (EBinaryOp e1 op e2)
      then show ?thesis using assms by (cases op) simp_all
    next
      case (EUnaryOp op e1)
      then show ?thesis using assms by (cases op) simp_all
    qed (use a(1) assms in \<open>auto simp: d cur_kinds advance_skip\<close>)
  qed
  then show ?thesis unfolding reads_def by (auto simp: level_parser_def)
qed

section \<open>Expressions\<close>

lemma print_expr_nonempty: "expr_ok e \<Longrightarrow> print_expr l e \<noteq> []"
proof (induction l e rule: print_expr.induct)
  case (5 l v)
  then show ?case by (cases v) auto
next
  case (6 l n)
  then show ?case by (cases n) auto
qed (auto simp: paren_if_def)

text \<open>What a printed expression of a level can start with.\<close>

lemma print_expr_hd:
  "expr_ok e \<Longrightarrow> (3 \<le> l \<longrightarrow> hd (print_expr l e) \<noteq> TkNot) \<and> (6 \<le> l \<longrightarrow> hd (print_expr l e) \<noteq> TkMinus)"
proof (induction l e rule: print_expr.induct)
  case (1 l e1 op e2)
  then show ?case using print_expr_nonempty [of e1] by (cases op) (auto simp: paren_if_def is_arithmetic_def)
next
  case (4 l e negated)
  then show ?case using print_expr_nonempty [of e] by (auto simp: paren_if_def)
next
  case (5 l v)
  then show ?case by (cases v) auto
next
  case (6 l n)
  then show ?case by (cases n) auto
qed (auto simp: paren_if_def)

lemma print_expr_raw:
  "l \<le> expr_level e \<Longrightarrow> m \<le> expr_level e \<Longrightarrow> print_expr l e = print_expr m e"
proof (cases e)
  case (EUnaryOp op e1)
  then show "l \<le> expr_level e \<Longrightarrow> m \<le> expr_level e \<Longrightarrow> print_expr l e = print_expr m e"
    by (cases op) (auto simp: paren_if_def)
next
  case (EColumn t name)
  then show ?thesis by (cases t) auto
qed (auto simp: paren_if_def)

lemma print_expr_paren:
  "expr_level e < l \<Longrightarrow> l \<le> 6 \<Longrightarrow> print_expr l e = TkLParen # print_expr 0 e @ [TkRParen]"
proof (cases e)
  case (EUnaryOp op e1)
  then show "expr_level e < l \<Longrightarrow> l \<le> 6 \<Longrightarrow> print_expr l e = TkLParen # print_expr 0 e @ [TkRParen]"
    by (cases op) (auto simp: paren_if_def)
qed (auto simp: paren_if_def)

lemma expr_level_le: "expr_level e \<le> 6"
proof (cases e)
  case (EBinaryOp e1 op e2)
  then show ?thesis by (cases op) simp_all
next
  case (EUnaryOp op e1)
  then show ?thesis by (cases op) simp_all
qed simp_all

text \<open>Once the level of a tree is right, every lower level reads it too; above it, the parentheses do.\<close>

lemma reads_all_levels:
  assumes e: "expr_ok e" and own: "reads (expr_level e) (print_expr (expr_level e) e) e" and l: "l \<le> 6"
  shows "reads l (print_expr l e) e"
proof -
  have down: "reads j (print_expr m e) e"
    if m: "m \<le> 6" "reads m (print_expr m e) e" and same: "\<And>i. j \<le> i \<Longrightarrow> i \<le> m \<Longrightarrow> print_expr i e = print_expr m e"
      and j: "j \<le> m" for j m
    using j same
  proof (induction rule: inc_induct)
    case base
    then show ?case using m by simp
  next
    case (step i)
    have pr: "print_expr (Suc i) e = print_expr m e" using step.prems [of "Suc i"] step.hyps by simp
    have IH: "reads (Suc i) (print_expr m e) e" by (rule step.IH, rule step.prems) simp_all
    have "hd (print_expr m e) \<noteq> TkNot" if "i = 2" using print_expr_hd [OF e, of 3] that pr by simp
    moreover have "hd (print_expr m e) \<noteq> TkMinus" if "i = 5" using print_expr_hd [OF e, of 6] that pr by simp
    ultimately show ?case
      using step.hyps m(1) print_expr_nonempty [OF e, of m] by (intro reads_down [OF IH]) simp_all
  qed
  have low: "reads j (print_expr j e) e" if "j \<le> expr_level e" for j
  proof -
    have "reads j (print_expr (expr_level e) e) e"
      by (rule down [OF expr_level_le own]) (use that in \<open>auto intro: print_expr_raw\<close>)
    then show ?thesis using print_expr_raw [of j e "expr_level e"] that by simp
  qed
  show ?thesis
  proof (cases "l \<le> expr_level e")
    case False
    then have "reads 6 (print_expr 6 e) e"
      using reads_paren [OF low [of 0]] print_expr_paren [of e 6] expr_level_le [of e] l by simp
    then have "reads l (print_expr 6 e) e"
      by (rule down [rotated]) (use False l in \<open>auto simp: print_expr_paren\<close>)
    then show ?thesis using print_expr_paren [of e l] print_expr_paren [of e 6] False l by simp
  qed (use low in simp)
qed

lemma print_expr_next: "expr_level e \<noteq> l \<Longrightarrow> l < 6 \<Longrightarrow> print_expr (Suc l) e = print_expr l e"
  using print_expr_raw [of "Suc l" e l] print_expr_paren [of e "Suc l"] print_expr_paren [of e l]
  by (cases "l < expr_level e") auto

lemma reads_on_operand:
  assumes "reads (Suc l) (print_expr (Suc l) e) e" "l \<in> {0, 1, 3, 4}"
    "expr_level e = l \<longrightarrow> reads_on l (print_expr l e) e"
  shows "reads_on l (print_expr l e) e"
  using assms print_expr_next [of e l] reads_on_from_next [of l _ e] by (cases "expr_level e = l") auto

lemma reads_atom:
  assumes "expr_ok e" "expr_level e = 6"
  shows "(\<forall>l \<le> 6. reads l (print_expr l e) e) \<and>
    (expr_level e \<in> {0, 1, 3, 4} \<longrightarrow> reads_on (expr_level e) (print_expr (expr_level e) e) e)"
  using assms reads_all_levels [OF assms(1)] reads_primary [OF assms, of 6] by auto

lemma reads_expr_on:
  "expr_ok e \<Longrightarrow> (\<forall>l \<le> 6. reads l (print_expr l e) e) \<and>
     (expr_level e \<in> {0, 1, 3, 4} \<longrightarrow> reads_on (expr_level e) (print_expr (expr_level e) e) e)"
proof (induction e)
  case (EBinaryOp e1 op e2)
  let ?l = "operator_level op"
  have op: "\<not> is_arithmetic op" "?l \<in> {0, 1, 3, 4}" using EBinaryOp.prems operator_token_level by auto
  have le: "Suc ?l \<le> 6" using op(2) by auto
  then have r: "reads (Suc ?l) (print_expr (Suc ?l) e2) e2" "reads (Suc ?l) (print_expr (Suc ?l) e1) e1"
    using EBinaryOp by simp_all
  have "expr_level e1 = ?l \<longrightarrow> reads_on ?l (print_expr ?l e1) e1"
    using EBinaryOp.IH(1) EBinaryOp.prems op(2) by (metis expr_ok.simps(5))
  then have "reads_on ?l (print_expr ?l e1) e1" by (rule reads_on_operand [OF r(2) op(2)])
  with r(1) have on: "reads_on ?l (print_expr ?l (EBinaryOp e1 op e2)) (EBinaryOp e1 op e2)"
    using reads_binary [OF op(1) refl] by (simp add: paren_if_def)
  then show ?case using reads_all_levels [OF EBinaryOp.prems] reads_from_on [OF on op(2)] by simp
next
  case (EIsNull e negated)
  have "reads_on 3 (print_expr 3 e) e"
    by (rule reads_on_operand) (use EIsNull in simp_all)
  then have on: "reads_on 3 (print_expr 3 (EIsNull e negated)) (EIsNull e negated)"
    using reads_is_null by (simp add: paren_if_def)
  then show ?case using reads_all_levels [OF EIsNull.prems] reads_from_on [OF on] by simp
next
  case (EUnaryOp op e)
  then have "reads (expr_level (EUnaryOp op e)) (print_expr (expr_level (EUnaryOp op e)) (EUnaryOp op e)) (EUnaryOp op e)"
    by (cases op) (auto simp: paren_if_def intro!: reads_not reads_negate)
  then show ?case using reads_all_levels [OF EUnaryOp.prems] by (cases op) simp_all
qed (rule reads_atom; simp)+

lemma parse_expr_print:
  assumes "expr_ok e" "kinds p = print_expr 0 e @ rest" "stops 0 rest"
  shows "parse_expr p = Some (Inr (e, skip (length (print_expr 0 e)) p))"
  using reads_expr_on [OF assms(1)] assms(2,3) tokens_left_fuel [of p]
  unfolding reads_def parse_expr_def by (auto simp: level_parser_def)

section \<open>Statements\<close>

fun print_commas :: "('a \<Rightarrow> token_kind list) \<Rightarrow> 'a list \<Rightarrow> token_kind list" where
  "print_commas f [] = []"
| "print_commas f [x] = f x"
| "print_commas f (x # y # xs) = f x @ TkComma # print_commas f (y # xs)"

fun print_item :: "select_item \<Rightarrow> token_kind list" where
  "print_item SelWildcard = [TkStar]"
| "print_item (SelExpr e) = print_expr 0 e"

definition print_from :: "table_ref option \<Rightarrow> token_kind list" where
  "print_from f =
     (case f of
        None \<Rightarrow> []
      | Some t \<Rightarrow> TkFrom # TkIdentifier (tr_name t)
          # (case tr_alias t of None \<Rightarrow> [] | Some a \<Rightarrow> [TkAs, TkIdentifier a]))"

definition print_where :: "expr option \<Rightarrow> token_kind list" where
  "print_where w = (case w of None \<Rightarrow> [] | Some e \<Rightarrow> TkWhere # print_expr 0 e)"

definition print_row :: "expr list \<Rightarrow> token_kind list" where
  "print_row es = TkLParen # print_commas (print_expr 0) es @ [TkRParen]"

fun print_type :: "data_type \<Rightarrow> token_kind" where
  "print_type TInteger = TkIdentifier (ascii ''INTEGER'')"
| "print_type TBigInt = TkIdentifier (ascii ''BIGINT'')"
| "print_type TDouble = TkIdentifier (ascii ''DOUBLE'')"
| "print_type TBoolean = TkIdentifier (ascii ''BOOLEAN'')"
| "print_type (TVarchar n) = TkIdentifier (ascii ''TEXT'')"

definition print_column :: "column_def \<Rightarrow> token_kind list" where
  "print_column c = [TkIdentifier (cd_name c), print_type (cd_type c)]"

fun statement_tokens :: "statement \<Rightarrow> token_kind list" where
  "statement_tokens (StSelect s) =
     TkSelect # print_commas print_item (ss_items s) @ print_from (ss_from s) @ print_where (ss_where s)"
| "statement_tokens (StInsert s) =
     TkInsert # TkInto # TkIdentifier (is_table s)
       # (if is_columns s = [] then [] else TkLParen # print_commas (\<lambda>c. [TkIdentifier c]) (is_columns s) @ [TkRParen])
       @ TkValues # print_commas print_row (is_values s)"
| "statement_tokens (StCreateTable s) =
     TkCreate # TkTable # TkIdentifier (ct_table s) # TkLParen # print_commas print_column (ct_columns s) @ [TkRParen]"
| "statement_tokens (StCreateIndex s) =
     [TkCreate, TkIndex, TkIdentifier (ci_name s), TkOn, TkIdentifier (ci_table s), TkLParen,
      TkIdentifier (ci_column s), TkRParen]"
| "statement_tokens StBegin = [TkBegin]"
| "statement_tokens StCommit = [TkCommit]"
| "statement_tokens StRollback = [TkRollback]"
| "statement_tokens (StExplain verbose s) =
     TkExplain # (if verbose then [TkIdentifier (ascii ''VERBOSE'')] else []) @ statement_tokens s"

text \<open>The statements the grammar can produce.\<close>

fun type_ok :: "data_type \<Rightarrow> bool" where
  "type_ok (TVarchar n) = (n = 0xFFFFFFFF)"
| "type_ok _ = True"

fun is_explainable :: "statement \<Rightarrow> bool" where
  "is_explainable (StExplain _ _) = False"
| "is_explainable StBegin = False"
| "is_explainable StCommit = False"
| "is_explainable StRollback = False"
| "is_explainable _ = True"

fun item_ok :: "select_item \<Rightarrow> bool" where
  "item_ok SelWildcard = False"
| "item_ok (SelExpr e) = expr_ok e"

definition from_ok :: "table_ref option \<Rightarrow> bool" where
  "from_ok f \<longleftrightarrow> (case f of None \<Rightarrow> True
     | Some t \<Rightarrow> ident_ok (tr_name t) \<and> (case tr_alias t of None \<Rightarrow> True | Some a \<Rightarrow> ident_ok a))"

definition where_ok :: "expr option \<Rightarrow> bool" where
  "where_ok w \<longleftrightarrow> (case w of None \<Rightarrow> True | Some e \<Rightarrow> expr_ok e)"

definition row_ok :: "expr list \<Rightarrow> bool" where
  "row_ok es \<longleftrightarrow> es \<noteq> [] \<and> list_all expr_ok es"

fun statement_ok :: "statement \<Rightarrow> bool" where
  "statement_ok (StSelect s) =
     ((ss_items s = [SelWildcard] \<and> ss_from s \<noteq> None \<or> ss_items s \<noteq> [] \<and> list_all item_ok (ss_items s))
      \<and> from_ok (ss_from s) \<and> where_ok (ss_where s))"
| "statement_ok (StInsert s) =
     (ident_ok (is_table s) \<and> list_all ident_ok (is_columns s) \<and> is_values s \<noteq> [] \<and> list_all row_ok (is_values s))"
| "statement_ok (StCreateTable s) =
     (ident_ok (ct_table s) \<and> ct_columns s \<noteq> []
      \<and> list_all (\<lambda>c. ident_ok (cd_name c) \<and> type_ok (cd_type c) \<and> cd_nullable c) (ct_columns s))"
| "statement_ok (StCreateIndex s) = (ident_ok (ci_name s) \<and> ident_ok (ci_table s) \<and> ident_ok (ci_column s))"
| "statement_ok (StExplain verbose s) = (statement_ok s \<and> is_explainable s)"
| "statement_ok _ = True"

section \<open>Reading statements\<close>

lemma print_expr_star: "expr_ok e \<Longrightarrow> hd (print_expr l e) \<noteq> TkStar"
proof (induction l e rule: print_expr.induct)
  case (1 l e1 op e2)
  then show ?case using print_expr_nonempty [of e1] by (auto simp: paren_if_def)
next
  case (4 l e negated)
  then show ?case using print_expr_nonempty [of e] by (auto simp: paren_if_def)
next
  case (5 l v)
  then show ?case by (cases v) auto
next
  case (6 l n)
  then show ?case by (cases n) auto
qed (auto simp: paren_if_def)

text \<open>An item parser reads what an item printer writes, before a comma or a token of \<open>ends\<close>.\<close>

definition reads_item :: "(token_kind list \<Rightarrow> bool) \<Rightarrow> (parser \<Rightarrow> 'a parsed) \<Rightarrow> ('a \<Rightarrow> token_kind list) \<Rightarrow> 'a \<Rightarrow> bool" where
  "reads_item ends item f x \<longleftrightarrow> (\<forall>p rest. kinds p = f x @ rest \<longrightarrow> ends rest \<longrightarrow> item p = Some (Inr (x, skip (length (f x)) p)))"

definition no_comma :: "token_kind list \<Rightarrow> bool" where
  "no_comma rest \<longleftrightarrow> (case rest of [] \<Rightarrow> True | k # _ \<Rightarrow> k \<noteq> TkComma)"

lemma comma_loop_print:
  assumes "\<forall>y \<in> set ys. reads_item ends item f y" "\<And>r. ends (TkComma # r)" "ends rest" "no_comma rest"
    "kinds p = concat (map (\<lambda>y. TkComma # f y) ys) @ rest" "length ys < n"
  shows "comma_loop item n xs p = Some (Inr (xs @ ys, skip (length (concat (map (\<lambda>y. TkComma # f y) ys))) p))"
  using assms
proof (induction ys arbitrary: n xs p)
  case Nil
  then show ?case by (cases n) (auto simp: cur_kinds no_comma_def split: list.splits)
next
  case (Cons y ys)
  obtain m where n: "n = Suc m" using Cons.prems(6) by (cases n) auto
  let ?r = "concat (map (\<lambda>y. TkComma # f y) ys) @ rest"
  have "ends ?r" using Cons.prems(2,3) by (cases ys) auto
  moreover have "kinds (advance p) = f y @ ?r" using Cons.prems(5) by (simp add: advance_skip)
  ultimately have item: "item (advance p) = Some (Inr (y, skip (length (f y)) (advance p)))"
    using Cons.prems(1) by (simp add: reads_item_def)
  have "comma_loop item m (xs @ [y]) (skip (Suc (length (f y))) p)
      = Some (Inr ((xs @ [y]) @ ys, skip (length (concat (map (\<lambda>y. TkComma # f y) ys))) (skip (Suc (length (f y))) p)))"
    by (rule Cons.IH) (use Cons.prems n in simp_all)
  then show ?case using item Cons.prems(5) n by (simp add: cur_kinds advance_skip)
qed

lemma print_commas_concat: "print_commas f (x # xs) = f x @ concat (map (\<lambda>y. TkComma # f y) xs)"
  by (induction xs arbitrary: x) auto

lemma comma_list_print:
  assumes "xs \<noteq> []" "\<forall>y \<in> set xs. reads_item ends item f y" "\<And>r. ends (TkComma # r)" "ends rest" "no_comma rest"
    "kinds p = print_commas f xs @ rest"
  shows "comma_list item p = Some (Inr (xs, skip (length (print_commas f xs)) p))"
proof -
  obtain x ys where xs: "xs = x # ys" using assms(1) by (cases xs) auto
  let ?c = "concat (map (\<lambda>y. TkComma # f y) ys)"
  have k: "kinds p = f x @ ?c @ rest" using assms(6) by (simp add: xs print_commas_concat)
  have "ends (?c @ rest)" using assms(3,4) by (cases ys) auto
  then have item: "item p = Some (Inr (x, skip (length (f x)) p))"
    using assms(2) k by (simp add: xs reads_item_def)
  have "length ys \<le> length ?c" by (induction ys) auto
  then have "length ys < expr_fuel (skip (length (f x)) p)"
    using k by (simp add: expr_fuel_def skip_def) (metis kinds_def length_append length_map add_diff_cancel_left' le_add1 le_imp_less_Suc order_trans)
  then have "comma_loop item (expr_fuel (skip (length (f x)) p)) [x] (skip (length (f x)) p)
      = Some (Inr ([x] @ ys, skip (length ?c) (skip (length (f x)) p)))"
    using assms k by (intro comma_loop_print [where ends = ends and rest = rest]) (simp_all add: xs)
  then show ?thesis using item by (simp add: comma_list_def xs print_commas_concat)
qed

lemma reads_item_expr: "expr_ok e \<Longrightarrow> reads_item (stops 0) parse_expr (print_expr 0) e"
  unfolding reads_item_def using parse_expr_print by blast

lemma stops_simps [simp]:
  "stops l []" "stops l (TkComma # r)" "stops l (TkRParen # r)" "stops l (TkFrom # r)" "stops l (TkWhere # r)"
  by (simp_all add: stops_def)

lemma no_comma_simps [simp]:
  "no_comma []" "no_comma (TkRParen # r)" "no_comma (TkFrom # r)" "no_comma (TkWhere # r)"
  by (simp_all add: no_comma_def)

lemma expect_kind_print [simp]:
  "kinds p = k # rest \<Longrightarrow> expect_kind k s p = Inr (skip (Suc 0) p)"
  by (simp add: expect_kind_def cur_kinds advance_skip)

lemma expect_identifier_print [simp]:
  "kinds p = TkIdentifier w # rest \<Longrightarrow> expect_identifier p = Inr (w, skip (Suc 0) p)"
  by (simp add: expect_identifier_def cur_kinds advance_skip)

lemma kinds_advance: "kinds (advance p) = tl (kinds p)"
  by (simp add: advance_skip drop_Suc)

lemma parse_value_row_print: "row_ok es \<Longrightarrow> reads_item (\<lambda>_. True) parse_value_row print_row es"
proof -
  assume ok: "row_ok es"
  have "parse_value_row p = Some (Inr (es, skip (length (print_row es)) p))" if k: "kinds p = print_row es @ rest" for p rest
  proof -
    have "comma_list parse_expr (advance p) = Some (Inr (es, skip (length (print_commas (print_expr 0) es)) (advance p)))"
      by (rule comma_list_print [where ends = "stops 0" and rest = "TkRParen # rest"])
        (use ok k in \<open>auto simp: row_ok_def list_all_iff print_row_def kinds_advance intro: reads_item_expr\<close>)
    then show ?thesis
      using k by (simp add: parse_value_row_def print_row_def pexpect_def kinds_advance advance_skip)
  qed
  then show ?thesis by (simp add: reads_item_def)
qed

lemma parse_where_print:
  assumes "where_ok w" "kinds p = print_where w"
  shows "parse_where p = Some (Inr (w, skip (length (print_where w)) p))"
  using assms parse_expr_print [of _ "advance p" "[]"]
  by (auto simp: parse_where_def print_where_def where_ok_def cur_kinds kinds_advance advance_skip split: option.splits)

lemma parse_from_print:
  assumes "from_ok f" "kinds p = print_from f @ print_where w" "f = None \<longrightarrow> \<not> list_ex (\<lambda>item. item = SelWildcard) items"
  shows "parse_from off items p = Some (Inr (f, skip (length (print_from f)) p))"
proof (cases f)
  case None
  then show ?thesis using assms
    by (cases w) (auto simp: parse_from_def print_from_def print_where_def cur_kinds)
next
  case (Some t)
  have w: "kinds q = print_where w \<Longrightarrow> cur q = TkEof \<or> cur q = TkWhere" for q
    by (cases w) (auto simp: cur_kinds print_where_def)
  have "parse_optional_table_alias (skip (Suc (Suc 0)) p) = Some (Inr (tr_alias t, skip (length (print_from f) - 2) (skip (Suc (Suc 0)) p)))"
    using assms(2) Some w [of "skip (Suc (Suc 0)) p"]
    by (cases "tr_alias t") (auto simp: parse_optional_table_alias_def pname_def print_from_def cur_kinds kinds_advance advance_skip)
  moreover have "length (print_from f) = 2 + (length (print_from f) - 2)" using Some by (simp add: print_from_def)
  ultimately show ?thesis
    using assms(2) Some
    by (auto simp: parse_from_def parse_table_ref_def pname_def print_from_def cur_kinds kinds_advance advance_skip)
qed

lemma parse_select_print:
  assumes "statement_ok (StSelect s)" "kinds p = statement_tokens (StSelect s)"
  shows "parse_select p = Some (Inr (s, skip (length (kinds p)) p))"
proof -
  let ?items = "print_commas print_item (ss_items s)" and ?rest = "print_from (ss_from s) @ print_where (ss_where s)"
  let ?q = "skip (Suc 0) p"
  have rest: "stops 0 ?rest" "no_comma ?rest"
    by (auto simp: print_from_def print_where_def split: option.splits)
  have "parse_select_list ?q = Some (Inr (ss_items s, skip (length ?items) ?q))"
  proof (cases "ss_items s = [SelWildcard]")
    case True
    then show ?thesis using assms(2) by (simp add: parse_select_list_def cur_kinds advance_skip)
  next
    case False
    then have ok: "ss_items s \<noteq> []" "list_all item_ok (ss_items s)" using assms(1) by auto
    have k: "kinds ?q = ?items @ ?rest" using assms(2) by simp
    have "comma_list (\<lambda>p. pbind (parse_expr p) (\<lambda>e p. Some (Inr (SelExpr e, p)))) ?q
        = Some (Inr (ss_items s, skip (length ?items) ?q))"
    proof (rule comma_list_print [where ends = "stops 0" and rest = ?rest])
      show "\<forall>y \<in> set (ss_items s). reads_item (stops 0) (\<lambda>p. pbind (parse_expr p) (\<lambda>e p. Some (Inr (SelExpr e, p)))) print_item y"
      proof
        fix y assume "y \<in> set (ss_items s)"
        then have "item_ok y" using ok(2) by (simp add: list_all_iff)
        then obtain e where "y = SelExpr e" "expr_ok e" by (cases y) auto
        then show "reads_item (stops 0) (\<lambda>p. pbind (parse_expr p) (\<lambda>e p. Some (Inr (SelExpr e, p)))) print_item y"
          using reads_item_expr [of e] by (simp add: reads_item_def)
      qed
    qed (use ok rest k in simp_all)
    moreover have "cur ?q \<noteq> TkStar"
    proof -
      obtain e es where "ss_items s = SelExpr e # es" "expr_ok e"
        using ok by (cases "ss_items s"; cases "hd (ss_items s)") auto
      then show ?thesis using k print_expr_nonempty [of e 0] print_expr_star [of e 0]
        by (cases "print_expr 0 e") (auto simp: cur_kinds print_commas_concat)
    qed
    ultimately show ?thesis by (simp add: parse_select_list_def)
  qed
  moreover have "parse_from off (ss_items s) (skip (length ?items) ?q)
      = Some (Inr (ss_from s, skip (length (print_from (ss_from s))) (skip (length ?items) ?q)))" for off
    using assms by (intro parse_from_print [where w = "ss_where s"]) (auto simp: list_ex_iff list_all_iff)
  moreover have "parse_where (skip (length (print_from (ss_from s))) (skip (length ?items) ?q))
      = Some (Inr (ss_where s, skip (length (print_where (ss_where s))) (skip (length (print_from (ss_from s))) (skip (length ?items) ?q))))"
    using assms by (intro parse_where_print) auto
  ultimately show ?thesis
    using assms(2) by (simp add: parse_select_def pexpect_def Let_def add.assoc)
qed

lemma parse_insert_print:
  assumes "statement_ok (StInsert s)" "kinds p = statement_tokens (StInsert s)"
  shows "parse_insert p = Some (Inr (s, skip (length (kinds p)) p))"
proof -
  let ?cols = "if is_columns s = [] then [] else TkLParen # print_commas (\<lambda>c. [TkIdentifier c]) (is_columns s) @ [TkRParen]"
  let ?rows = "print_commas print_row (is_values s)" and ?q = "skip (Suc (Suc (Suc 0))) p"
  have k: "kinds ?q = ?cols @ TkValues # ?rows" using assms(2) by simp
  have "parse_insert_columns ?q = Some (Inr (is_columns s, skip (length ?cols) ?q))"
  proof (cases "is_columns s = []")
    case True
    then show ?thesis using k by (simp add: parse_insert_columns_def cur_kinds)
  next
    case False
    have "comma_list (\<lambda>p. Some (expect_identifier p)) (advance ?q)
        = Some (Inr (is_columns s, skip (length (print_commas (\<lambda>c. [TkIdentifier c]) (is_columns s))) (advance ?q)))"
      by (rule comma_list_print [where ends = "\<lambda>_. True" and rest = "TkRParen # TkValues # ?rows"])
        (use False k in \<open>auto simp: reads_item_def kinds_advance\<close>)
    then show ?thesis using False assms(2) by (simp add: parse_insert_columns_def cur_kinds pexpect_def advance_skip)
  qed
  moreover have "comma_list parse_value_row (skip (Suc (length ?cols)) ?q)
      = Some (Inr (is_values s, skip (length ?rows) (skip (Suc (length ?cols)) ?q)))"
    by (rule comma_list_print [where ends = "\<lambda>_. True" and rest = "[]"])
      (use assms k in \<open>auto simp: list_all_iff intro: parse_value_row_print\<close>)
  ultimately show ?thesis
    using assms(2) by (simp add: parse_insert_def pexpect_def pname_def add.assoc)
qed

lemma type_names:
  "map_of TYPE_NAMES (ascii_upper (ascii ''INTEGER'')) = Some TInteger"
  "map_of TYPE_NAMES (ascii_upper (ascii ''BIGINT'')) = Some TBigInt"
  "map_of TYPE_NAMES (ascii_upper (ascii ''DOUBLE'')) = Some TDouble"
  "map_of TYPE_NAMES (ascii_upper (ascii ''BOOLEAN'')) = Some TBoolean"
  "map_of TYPE_NAMES (ascii_upper (ascii ''TEXT'')) = Some (TVarchar 0xFFFFFFFF)"
  by code_simp+

lemma parse_col_def_print:
  assumes "ident_ok (cd_name c)" "type_ok (cd_type c)" "cd_nullable c"
  shows "reads_item (\<lambda>_. True) parse_col_def print_column c"
proof -
  have "parse_col_def p = Some (Inr (c, skip (Suc (Suc 0)) p))" if k: "kinds p = print_column c @ rest" for p rest
  proof -
    have "parse_type_name (skip (Suc 0) p) = Some (Inr (cd_type c, skip (Suc (Suc 0)) p))"
      using k assms(2) type_names
      by (cases "cd_type c") (auto simp: parse_type_name_def print_column_def cur_kinds advance_skip)
    then show ?thesis using k assms(3) by (simp add: parse_col_def_def pname_def print_column_def)
  qed
  then show ?thesis by (simp add: reads_item_def print_column_def)
qed

lemma parse_create_table_print:
  assumes "statement_ok (StCreateTable s)" "kinds p = statement_tokens (StCreateTable s)"
  shows "parse_create_table p = Some (Inr (s, skip (length (kinds p)) p))"
proof -
  let ?q = "skip (Suc (Suc (Suc (Suc 0)))) p"
  have "comma_list parse_col_def ?q = Some (Inr (ct_columns s, skip (length (print_commas print_column (ct_columns s))) ?q))"
    by (rule comma_list_print [where ends = "\<lambda>_. True" and rest = "[TkRParen]"])
      (use assms in \<open>auto simp: list_all_iff intro: parse_col_def_print\<close>)
  then show ?thesis
    using assms(2) by (simp add: parse_create_table_def pexpect_def pname_def)
qed

lemma parse_create_index_print:
  assumes "kinds p = statement_tokens (StCreateIndex s)"
  shows "parse_create_index p = Some (Inr (s, skip (length (kinds p)) p))"
  using assms by (simp add: parse_create_index_def pexpect_def pname_def)

lemma verbose_keyword: "eq_ignore_ascii_case (ascii ''VERBOSE'') (ascii ''VERBOSE'')"
  by (simp add: eq_ignore_ascii_case_def)

lemma statement_tokens_hd:
  "\<exists>k ks. statement_tokens s = k # ks \<and> k \<in> {TkSelect, TkInsert, TkCreate, TkBegin, TkCommit, TkRollback, TkExplain}"
  by (cases s) auto

lemma parse_statement_print:
  "statement_ok s \<Longrightarrow> kinds p = statement_tokens s \<Longrightarrow> length (kinds p) < n \<Longrightarrow>
     parse_statement n p = Some (Inr (s, skip (length (kinds p)) p))"
proof (induction s arbitrary: n p)
  case (StSelect x)
  then show ?case using parse_select_print [OF StSelect.prems(1,2)]
    by (cases n) (simp_all add: cur_kinds Let_def)
next
  case (StInsert x)
  then show ?case using parse_insert_print [OF StInsert.prems(1,2)]
    by (cases n) (simp_all add: cur_kinds Let_def)
next
  case (StCreateTable x)
  then show ?case using parse_create_table_print [OF StCreateTable.prems(1,2)]
    by (cases n) (simp_all add: cur_kinds Let_def peek_kinds)
next
  case (StCreateIndex x)
  then show ?case using parse_create_index_print [OF StCreateIndex.prems(2)]
    by (cases n) (simp_all add: cur_kinds Let_def peek_kinds)
next
  case (StExplain verbose s)
  obtain m where n: "n = Suc m" using StExplain.prems(3) by (cases n) auto
  let ?q = "skip (Suc (if verbose then 1 else 0)) p"
  have q: "kinds ?q = statement_tokens s" using StExplain.prems(2) by (cases verbose) simp_all
  have "parse_statement m ?q = Some (Inr (s, skip (length (kinds ?q)) ?q))"
    by (rule StExplain.IH) (use StExplain.prems n q in auto)
  moreover have "consume_verbose_keyword (skip (Suc 0) p) = (verbose, ?q)"
    using StExplain.prems(2) verbose_keyword statement_tokens_hd [of s]
    by (cases verbose) (auto simp: consume_verbose_keyword_def is_verbose_keyword_def cur_kinds advance_skip)
  moreover have "explain_statement off verbose s = Inr (StExplain verbose s)" for off
    using StExplain.prems(1) by (cases s) auto
  ultimately show ?case
    using StExplain.prems(2) n q by (simp add: cur_kinds Let_def parse_explain_def pexpect_def)
next
  case StBegin
  then show ?case by (cases n) (simp_all add: cur_kinds Let_def advance_skip)
next
  case StCommit
  then show ?case by (cases n) (simp_all add: cur_kinds Let_def advance_skip)
next
  case StRollback
  then show ?case by (cases n) (simp_all add: cur_kinds Let_def advance_skip)
qed

section \<open>From text to statement\<close>

lemma fixed_names_ok:
  "ident_ok (ascii ''VERBOSE'')" "ident_ok (ascii ''INTEGER'')" "ident_ok (ascii ''BIGINT'')" "ident_ok (ascii ''DOUBLE'')"
  "ident_ok (ascii ''BOOLEAN'')" "ident_ok (ascii ''TEXT'')" "ident_ok (ascii ''current_catalog'')"
  "ident_ok (ascii ''current_schema'')" "ident_ok (ascii ''current_user'')" "ident_ok (ascii ''session_user'')"
  "ident_ok (ascii ''version'')"
  by code_simp+

lemma print_expr_tokens: "expr_ok e \<Longrightarrow> list_all token_ok (print_expr l e)"
proof (induction l e rule: print_expr.induct)
  case (1 l e1 op e2)
  then show ?case by (cases op) (auto simp: paren_if_def is_arithmetic_def)
next
  case (5 l v)
  then show ?case by (cases v) auto
next
  case (6 l n)
  then show ?case using fixed_names_ok by (cases n) auto
qed (auto simp: paren_if_def)

lemma print_commas_tokens:
  "(\<And>x. x \<in> set xs \<Longrightarrow> list_all token_ok (f x)) \<Longrightarrow> list_all token_ok (print_commas f xs)"
  by (induction f xs rule: print_commas.induct) auto

lemma statement_tokens_ok: "statement_ok s \<Longrightarrow> list_all token_ok (statement_tokens s)"
proof (induction s)
  case (StSelect x)
  have "list_all token_ok (print_commas print_item (ss_items x))"
  proof (rule print_commas_tokens)
    fix y assume "y \<in> set (ss_items x)"
    then have "y = SelWildcard \<or> item_ok y" using StSelect by (auto simp: list_all_iff)
    then show "list_all token_ok (print_item y)" by (cases y) (auto intro: print_expr_tokens)
  qed
  then show ?case
    using StSelect by (auto simp: print_from_def print_where_def from_ok_def where_ok_def print_expr_tokens split: option.splits)
next
  case (StInsert x)
  have "list_all token_ok (print_row es)" if "es \<in> set (is_values x)" for es
  proof -
    have "list_all token_ok (print_commas (print_expr 0) es)"
      by (rule print_commas_tokens) (use StInsert that in \<open>auto simp: row_ok_def list_all_iff [of expr_ok] list_all_iff [of row_ok] intro: print_expr_tokens\<close>)
    then show ?thesis by (simp add: print_row_def)
  qed
  then have "list_all token_ok (print_commas print_row (is_values x))" by (rule print_commas_tokens)
  moreover have "list_all token_ok (print_commas (\<lambda>c. [TkIdentifier c]) (is_columns x))"
    by (rule print_commas_tokens) (use StInsert in \<open>auto simp: list_all_iff\<close>)
  ultimately show ?case using StInsert by simp
next
  case (StCreateTable x)
  have "token_ok (print_type t)" for t using fixed_names_ok by (cases t) auto
  then have "list_all token_ok (print_commas print_column (ct_columns x))"
    by (intro print_commas_tokens) (use StCreateTable in \<open>auto simp: list_all_iff print_column_def\<close>)
  then show ?case using StCreateTable by simp
qed (use fixed_names_ok in auto)

text \<open>C31: The lexer and the parser read what the printer writes: for every statement of the grammar
  without floating-point literals, parsing its text, with parentheses only where precedence needs
  them, gives the statement back.\<close>

theorem sql_round_trip:
  assumes "statement_ok s"
  shows "parse_sql (render (statement_tokens s)) = Some (Inr s)"
proof -
  obtain toks where t: "tokenize (render (statement_tokens s)) = Inr toks" "map tk_kind toks = statement_tokens s @ [TkEof]"
    using tokenize_render [OF statement_tokens_ok [OF assms], of "[]"] by (auto simp: tokenize_def)
  let ?p = "parser_new toks"
  have k: "kinds ?p = statement_tokens s"
    using t(2) by (simp add: parser_new_def kinds_def map_butlast)
  have "length (kinds ?p) < expr_fuel ?p" by (simp add: kinds_def expr_fuel_def)
  then have "parse_statement (expr_fuel ?p) ?p = Some (Inr (s, skip (length (kinds ?p)) ?p))"
    using parse_statement_print assms k by blast
  then show ?thesis by (simp add: parse_sql_def t(1) parse_def cur_kinds)
qed

definition demo_select :: statement where
  "demo_select =
     StSelect \<lparr>ss_items = [SelExpr (EColumn None (ascii ''a''))],
       ss_from = Some \<lparr>tr_name = ascii ''t'', tr_alias = None\<rparr>,
       ss_where = Some (EBinaryOp
         (EBinaryOp (EBinaryOp (EColumn None (ascii ''a'')) OpEq (ELiteral (VBigInt 1))) OpOr (EIsNull (EColumn None (ascii ''b'')) True))
         OpAnd (EUnaryOp OpNot (EColumn None (ascii ''c''))))\<rparr>"

lemma demo_select_ok: "statement_ok demo_select"
  by code_simp

lemma demo_select_text:
  "render (statement_tokens demo_select) = ascii ''SELECT a FROM t WHERE ( a = 1 OR b IS NOT NULL ) AND NOT c ''"
  by code_simp

theorem sql_round_trip_witness:
  "parse_sql (ascii ''SELECT a FROM t WHERE ( a = 1 OR b IS NOT NULL ) AND NOT c '') = Some (Inr demo_select)"
  using sql_round_trip [OF demo_select_ok] demo_select_text by simp

text \<open>C32: Every input is answered: lexing and parsing end with a statement or an error on every byte
  string.\<close>

theorem parse_sql_total: "\<exists>r. parse_sql sql = Some r"
  using parse_total by (auto simp: parse_sql_def split: sum.splits)

end
