(* ===== verification/Catalog_Codec.thy ===== *)
theory Catalog_Codec
  imports Tuple_Codec Storage_Base
begin

text \<open>
  Columns, schemas, table and index descriptions (\<open>catalog/src/column.rs\<close>, \<open>schema.rs\<close>,
  \<open>table_info.rs\<close>, \<open>index_info.rs\<close>), the catalog's errors, and the rows that store them
  (\<open>catalog/src/persist.rs\<close>): a schema is a length-prefixed byte string written in hexadecimal inside
  a row of the catalog table. Where the source formats a value into the reason of a \<open>Corrupt\<close> error
  the reason carries the value.
\<close>

section \<open>Descriptions\<close>

record column =
  col_name :: bytes
  col_type :: data_type
  col_nullable :: bool

definition column_new :: "bytes \<Rightarrow> data_type \<Rightarrow> bool \<Rightarrow> column" where
  "column_new name t nullable = \<lparr>col_name = name, col_type = t, col_nullable = nullable\<rparr>"

type_synonym schema = "column list"

fun position :: "('a \<Rightarrow> bool) \<Rightarrow> 'a list \<Rightarrow> nat option" where
  "position P [] = None"
| "position P (x # xs) = (if P x then Some 0 else map_option Suc (position P xs))"

definition column_index :: "schema \<Rightarrow> bytes \<Rightarrow> nat option" where
  "column_index schema name = position (\<lambda>c. col_name c = name) schema"


record table_info =
  ti_table_id :: table_id
  ti_name :: bytes
  ti_schema :: schema
  ti_first_page_id :: page_id

record index_info =
  ii_index_id :: index_id
  ii_name :: bytes
  ii_table_id :: table_id
  ii_column_index :: nat
  ii_catalog_rid :: rid
  ii_root_page_id_offset :: nat
  ii_root_page_id :: page_id

definition index_info_new ::
    "index_id \<Rightarrow> bytes \<Rightarrow> table_id \<Rightarrow> nat \<Rightarrow> page_id \<Rightarrow> rid \<Rightarrow> nat \<Rightarrow> index_info" where
  "index_info_new i name t col root r off =
     \<lparr>ii_index_id = i, ii_name = name, ii_table_id = t, ii_column_index = col, ii_catalog_rid = r,
      ii_root_page_id_offset = off, ii_root_page_id = root\<rparr>"

section \<open>Errors\<close>

datatype corrupt_reason =
    UnknownTypeTag byte
  | InvalidColumnName
  | UndecodableRow tuple_error
  | MalformedCatalogRow
  | MalformedIndexRow
  | TruncatedBlob
  | OddLengthHex
  | InvalidHexDigit
  | NoIndexCatalog

datatype catalog_error =
    TableAlreadyExists bytes
  | TableNotFound bytes
  | IndexAlreadyExists bytes
  | IndexNotFound bytes
  | ColumnNotFound bytes bytes
  | CatalogStorage storage_error
  | Corrupt corrupt_reason

section \<open>Hexadecimal\<close>

definition HEX_DIGITS :: bytes where
  "HEX_DIGITS = ascii ''0123456789abcdef''"

fun to_hex :: "bytes \<Rightarrow> bytes" where
  "to_hex [] = []"
| "to_hex (b # bs) = HEX_DIGITS ! unat (drop_bit 4 b) # HEX_DIGITS ! unat (b AND 0x0F) # to_hex bs"

definition hex_digit :: "byte \<Rightarrow> catalog_error + byte" where
  "hex_digit d =
     (if 0x30 \<le> d \<and> d \<le> 0x39 then Inr (d - 0x30)
      else if 0x61 \<le> d \<and> d \<le> 0x66 then Inr (d - 0x61 + 10)
      else Inl (Corrupt InvalidHexDigit))"

fun hex_pairs :: "bytes \<Rightarrow> catalog_error + bytes" where
  "hex_pairs (a # b # rest) =
     and_then (hex_digit a) (\<lambda>hi. and_then (hex_digit b) (\<lambda>lo.
     and_then (hex_pairs rest) (\<lambda>bs. Inr ((push_bit 4 hi OR lo) # bs))))"
| "hex_pairs _ = Inr []"

definition from_hex :: "bytes \<Rightarrow> catalog_error + bytes" where
  "from_hex text = (if length text mod 2 \<noteq> 0 then Inl (Corrupt OddLengthHex) else hex_pairs text)"

section \<open>Schemas\<close>

fun type_tag :: "data_type \<Rightarrow> byte" where
  "type_tag TBoolean = 0"
| "type_tag TInteger = 1"
| "type_tag TBigInt = 2"
| "type_tag TDouble = 3"
| "type_tag (TVarchar _) = 4"

definition tag_to_type :: "byte \<Rightarrow> u32 \<Rightarrow> catalog_error + data_type" where
  "tag_to_type tag varchar_len =
     (if tag = 0 then Inr TBoolean else if tag = 1 then Inr TInteger else if tag = 2 then Inr TBigInt
      else if tag = 3 then Inr TDouble else if tag = 4 then Inr (TVarchar varchar_len)
      else Inl (Corrupt (UnknownTypeTag tag)))"

definition encode_column :: "column \<Rightarrow> bytes" where
  "encode_column c =
     u32_le (of_nat (length (col_name c))) @ col_name c @ [type_tag (col_type c)]
       @ (case col_type c of TVarchar len \<Rightarrow> u32_le len | _ \<Rightarrow> []) @ [if col_nullable c then 1 else 0]"

definition encode_schema_blob :: "schema \<Rightarrow> bytes" where
  "encode_schema_blob schema = to_hex (u32_le (of_nat (length schema)) @ concat (map encode_column schema))"

definition blob_take :: "bytes \<Rightarrow> nat \<Rightarrow> nat \<Rightarrow> catalog_error + bytes" where
  "blob_take bytes offset len = ok_or (slice_at bytes offset len) (Corrupt TruncatedBlob)"

definition decode_column :: "bytes \<Rightarrow> nat \<Rightarrow> catalog_error + column \<times> nat" where
  "decode_column bytes offset =
     and_then (blob_take bytes offset 4) (\<lambda>name_len_bytes.
     let name_len = unat (le_u32 name_len_bytes); offset = offset + 4 in
     and_then (blob_take bytes offset name_len) (\<lambda>name.
     if \<not> utf8_valid name then Inl (Corrupt InvalidColumnName)
     else let offset = offset + name_len in
     and_then (blob_take bytes offset 1) (\<lambda>tag_byte.
     let tag = tag_byte ! 0; offset = offset + 1 in
     and_then
       (if tag = 4 then and_then (blob_take bytes offset 4) (\<lambda>len_bytes. Inr (le_u32 len_bytes, offset + 4))
        else Inr (0, offset)) (\<lambda>(varchar_len, offset).
     and_then (tag_to_type tag varchar_len) (\<lambda>t.
     and_then (blob_take bytes offset 1) (\<lambda>nullable.
       Inr (column_new name t (nullable ! 0 \<noteq> 0), offset + 1)))))))"

fun decode_columns_blob :: "bytes \<Rightarrow> nat \<Rightarrow> nat \<Rightarrow> catalog_error + schema" where
  "decode_columns_blob bytes offset 0 = Inr []"
| "decode_columns_blob bytes offset (Suc n) =
     and_then (decode_column bytes offset) (\<lambda>(c, offset).
     and_then (decode_columns_blob bytes offset n) (\<lambda>cs. Inr (c # cs)))"

definition decode_schema_blob :: "bytes \<Rightarrow> catalog_error + schema" where
  "decode_schema_blob blob =
     and_then (from_hex blob) (\<lambda>bytes.
     and_then (blob_take bytes 0 4) (\<lambda>count_bytes.
       decode_columns_blob bytes 4 (unat (le_u32 count_bytes))))"

section \<open>Rows\<close>

definition CATALOG_ROW_SCHEMA :: "data_type list" where
  "CATALOG_ROW_SCHEMA = [TInteger, TVarchar 0, TInteger, TVarchar 0]"

definition INDEX_CATALOG_ROW_SCHEMA :: "data_type list" where
  "INDEX_CATALOG_ROW_SCHEMA = [TInteger, TVarchar 0, TInteger, TInteger, TInteger]"

definition encode_table_info :: "table_info \<Rightarrow> bytes" where
  "encode_table_info info =
     encode_tuple [VInteger (ti_table_id info), VVarchar (ti_name info), VInteger (ti_first_page_id info),
       VVarchar (encode_schema_blob (ti_schema info))] []"

definition decode_table_info :: "bytes \<Rightarrow> catalog_error + table_info" where
  "decode_table_info bytes =
     (case decode_tuple bytes CATALOG_ROW_SCHEMA of
        Inl e \<Rightarrow> Inl (Corrupt (UndecodableRow e))
      | Inr values \<Rightarrow>
          (case values of
             [VInteger table_id, VVarchar name, VInteger first_page, VVarchar blob] \<Rightarrow>
               and_then (decode_schema_blob blob) (\<lambda>schema.
                 Inr \<lparr>ti_table_id = table_id, ti_name = name, ti_schema = schema, ti_first_page_id = first_page\<rparr>)
           | _ \<Rightarrow> Inl (Corrupt MalformedCatalogRow)))"

definition encode_index_row :: "index_id \<Rightarrow> bytes \<Rightarrow> table_id \<Rightarrow> nat \<Rightarrow> page_id \<Rightarrow> bytes" where
  "encode_index_row i name t col root =
     encode_tuple [VInteger i, VVarchar name, VInteger t, VInteger (of_nat col), VInteger root] []"

definition decode_index_row :: "bytes \<Rightarrow> rid \<Rightarrow> catalog_error + index_info" where
  "decode_index_row bytes catalog_rid =
     (case decode_tuple bytes INDEX_CATALOG_ROW_SCHEMA of
        Inl e \<Rightarrow> Inl (Corrupt (UndecodableRow e))
      | Inr values \<Rightarrow>
          (case values of
             [VInteger i, VVarchar name, VInteger t, VInteger col, VInteger root] \<Rightarrow>
               Inr (index_info_new i name t (unat (scast col :: u64)) root catalog_rid (length bytes - 4))
           | _ \<Rightarrow> Inl (Corrupt MalformedIndexRow)))"

section \<open>Round trips\<close>

lemma HEX_DIGITS_nth:
  assumes "n < 16"
  shows "hex_digit (HEX_DIGITS ! n) = Inr (of_nat n)" "HEX_DIGITS ! n < 0x80"
proof -
  have "n \<in> {0, 1, 2, 3, 4, 5, 6, 7, 8, 9, 10, 11, 12, 13, 14, 15}"
    using assms unfolding insert_iff empty_iff by presburger
  then show "hex_digit (HEX_DIGITS ! n) = Inr (of_nat n)" "HEX_DIGITS ! n < 0x80"
    by (auto simp: HEX_DIGITS_def ascii_def hex_digit_def)
qed

lemma nibbles:
  fixes b :: byte
  shows "push_bit 4 (drop_bit 4 b) OR (b AND 0x0F) = b" "unat (drop_bit 4 b) < 16" "unat (b AND 0x0F) < 16"
proof -
  have m: "(0x0F :: byte) = mask 4" by (simp add: mask_eq_exp_minus_1)
  show "push_bit 4 (drop_bit 4 b) OR (b AND 0x0F) = b"
    unfolding m by (rule bit_word_eqI) (auto simp: bit_simps)
  have "unat b < 256" using unat_bound [of b] by simp
  moreover have "unat (drop_bit 4 b) = unat b div 16" unfolding unat_drop_bit_eq by (simp add: drop_bit_eq_div)
  ultimately show "unat (drop_bit 4 b) < 16" by simp
  show "unat (b AND 0x0F) < 16"
    unfolding m take_bit_eq_mask [symmetric] unsigned_take_bit_eq by (simp add: take_bit_eq_mod)
qed

lemma hex_pairs_to_hex: "hex_pairs (to_hex bs) = Inr bs"
  by (induction bs) (simp_all add: HEX_DIGITS_nth nibbles)

lemma length_to_hex [simp]: "length (to_hex bs) = 2 * length bs"
  by (induction bs) simp_all

lemma from_hex_to_hex: "from_hex (to_hex bs) = Inr bs"
  by (simp add: from_hex_def hex_pairs_to_hex)

lemma utf8_valid_to_hex: "utf8_valid (to_hex bs)"
  by (induction bs) (simp_all add: HEX_DIGITS_nth nibbles)

abbreviation wf_column :: "column \<Rightarrow> bool" where
  "wf_column c \<equiv> utf8_valid (col_name c) \<and> length (col_name c) < 2 ^ 32"

lemma blob_take_at:
  "off = length pre \<Longrightarrow> n = length xs \<Longrightarrow> blob_take (pre @ xs @ post) off n = Inr xs"
  by (simp add: blob_take_def)

lemma decode_encode_column:
  assumes "wf_column c"
  shows "decode_column (pre @ encode_column c @ post) (length pre) = Inr (c, length pre + length (encode_column c))"
proof -
  let ?n = "u32_le (of_nat (length (col_name c)))" and ?t = "[type_tag (col_type c)]"
  let ?v = "case col_type c of TVarchar len \<Rightarrow> u32_le len | _ \<Rightarrow> []" and ?b = "[if col_nullable c then 1 else 0] :: bytes"
  let ?B = "pre @ encode_column c @ post"
  have un: "unat (of_nat (length (col_name c)) :: u32) = length (col_name c)"
    using assms unat_of_nat_small(2) by blast
  have 1: "blob_take ?B (length pre) 4 = Inr ?n"
    using blob_take_at [of "length pre" pre 4 ?n] by (simp add: encode_column_def)
  have 2: "blob_take ?B (length pre + 4) (length (col_name c)) = Inr (col_name c)"
    using blob_take_at [of "length pre + 4" "pre @ ?n" "length (col_name c)" "col_name c"] by (simp add: encode_column_def)
  have 3: "blob_take ?B (length pre + 4 + length (col_name c)) 1 = Inr ?t"
    using blob_take_at [of "length pre + 4 + length (col_name c)" "pre @ ?n @ col_name c" 1 ?t] by (simp add: encode_column_def)
  have 4: "blob_take ?B (length pre + 4 + length (col_name c) + 1) (length ?v) = Inr ?v"
    using blob_take_at [of "length pre + 4 + length (col_name c) + 1" "pre @ ?n @ col_name c @ ?t" "length ?v" ?v]
    by (simp add: encode_column_def)
  have 5: "blob_take ?B (length pre + 4 + length (col_name c) + 1 + length ?v) 1 = Inr ?b"
    using blob_take_at [of "length pre + 4 + length (col_name c) + 1 + length ?v" "pre @ ?n @ col_name c @ ?t @ ?v" 1 ?b]
    by (simp add: encode_column_def)
  note takes = 1 2 3 4 5
  show ?thesis
  proof (cases "col_type c")
    case (TVarchar n)
    then show ?thesis
      using takes assms un
      by (simp add: decode_column_def Let_def column_new_def tag_to_type_def encode_column_def add.assoc)
  qed (use takes assms un in \<open>simp_all add: decode_column_def Let_def column_new_def tag_to_type_def encode_column_def add.assoc\<close>)
qed

lemma decode_encode_columns:
  assumes "list_all wf_column cs"
  shows "decode_columns_blob (pre @ concat (map encode_column cs) @ post) (length pre) (length cs) = Inr cs"
  using assms
proof (induction cs arbitrary: pre)
  case (Cons c cs)
  have "decode_columns_blob ((pre @ encode_column c) @ concat (map encode_column cs) @ post) (length (pre @ encode_column c)) (length cs)
      = Inr cs"
    using Cons by (intro Cons.IH) simp
  then show ?case using decode_encode_column [of c pre "concat (map encode_column cs) @ post"] Cons.prems by simp
qed simp

lemma decode_encode_schema:
  assumes "list_all wf_column cs" "length cs < 2 ^ 32"
  shows "decode_schema_blob (encode_schema_blob cs) = Inr cs"
proof -
  let ?n = "u32_le (of_nat (length cs))"
  have "unat (of_nat (length cs) :: u32) = length cs" using assms(2) unat_of_nat_small(2) by blast
  moreover have "blob_take (?n @ concat (map encode_column cs)) 0 4 = Inr ?n"
    using blob_take_at [of 0 "[]" 4 ?n] by simp
  moreover have "decode_columns_blob (?n @ concat (map encode_column cs)) 4 (length cs) = Inr cs"
    using decode_encode_columns [OF assms(1), of ?n "[]"] by simp
  ultimately show ?thesis by (simp add: decode_schema_blob_def encode_schema_blob_def from_hex_to_hex)
qed

text \<open>A description that fits a row: the strings are valid and their lengths fit the length words.\<close>

definition wf_table_info :: "table_info \<Rightarrow> bool" where
  "wf_table_info info \<longleftrightarrow> utf8_valid (ti_name info) \<and> length (ti_name info) + 4 < 2 ^ 32
     \<and> list_all wf_column (ti_schema info) \<and> length (ti_schema info) < 2 ^ 32
     \<and> length (encode_schema_blob (ti_schema info)) + 4 < 2 ^ 32"

lemma decode_encode_table_info:
  assumes "wf_table_info info"
  shows "decode_table_info (encode_table_info info) = Inr info"
proof -
  have "decode_tuple (encode_table_info info @ []) CATALOG_ROW_SCHEMA
      = Inr [VInteger (ti_table_id info), VVarchar (ti_name info), VInteger (ti_first_page_id info),
          VVarchar (encode_schema_blob (ti_schema info))]"
    unfolding encode_table_info_def
    by (rule decode_encode_tuple)
      (use assms in \<open>simp add: CATALOG_ROW_SCHEMA_def wf_table_info_def encode_schema_blob_def utf8_valid_to_hex\<close>)
  then show ?thesis
    using assms decode_encode_schema by (simp add: decode_table_info_def wf_table_info_def)
qed

lemma column_index_cast: "col < 2 ^ 31 \<Longrightarrow> unat (scast (of_nat col :: i32) :: u64) = col"
proof -
  assume "col < 2 ^ 31"
  then have c: "int col < 2 ^ 31" by (metis of_nat_less_iff of_nat_numeral of_nat_power)
  have "sint (of_int (int col) :: i32) = int col" 
    using c by (simp only: signed_of_int) (simp add: signed_take_bit_int_eq_self)
  then have "(scast (of_nat col :: i32) :: u64) = of_nat col" by (metis of_int_of_nat_eq of_int_sint)
  then show ?thesis using c by (simp add: unat_of_nat)
qed

lemma encode_index_row_shape:
  "\<exists>pre. \<forall>root. encode_index_row i name t col root = pre @ u32_le root"
  by (intro exI [of _ "null_bits (replicate 1 0) 0 [VInteger i, VVarchar name, VInteger t, VInteger (of_nat col), VInteger 0]
        @ concat (map payload [VInteger i, VVarchar name, VInteger t, VInteger (of_nat col)])"])
    (simp add: encode_index_row_def encode_tuple_shape)

lemma patch_index_row:
  "splice (encode_index_row i name t col root) (length (encode_index_row i name t col root) - 4) (u32_le root')
    = encode_index_row i name t col root'"
proof -
  obtain pre where "\<forall>root. encode_index_row i name t col root = pre @ u32_le root"
    using encode_index_row_shape by blast
  then show ?thesis by (simp add: splice_def)
qed

lemma decode_encode_index_row:
  assumes "utf8_valid name" "length name + 4 < 2 ^ 32" "col < 2 ^ 31"
  shows "decode_index_row (encode_index_row i name t col root) r
    = Inr (index_info_new i name t col root r (length (encode_index_row i name t col root) - 4))"
proof -
  have "decode_tuple (encode_index_row i name t col root @ []) INDEX_CATALOG_ROW_SCHEMA
      = Inr [VInteger i, VVarchar name, VInteger t, VInteger (of_nat col), VInteger root]"
    unfolding encode_index_row_def
    by (rule decode_encode_tuple) (use assms in \<open>simp add: INDEX_CATALOG_ROW_SCHEMA_def\<close>)
  then show ?thesis
    using column_index_cast [OF assms(3)] by (simp add: decode_index_row_def)
qed

text \<open>C33: Catalog rows read back. Decoding the row of a table gives its description, schema included.
  Decoding the row of an index gives the identifier, name, table, column and root page that were
  written, the row's own position, and the offset of the root page in it, the last four bytes; and
  after the root page has been overwritten in place at that offset, decoding gives the new root and
  everything else unchanged.\<close>

theorem catalog_rows_round_trip:
  assumes "wf_table_info info" and "utf8_valid name" "length name + 4 < 2 ^ 32" "col < 2 ^ 31"
    and "row = encode_index_row i name t col root"
    and "ix = \<lparr>ii_index_id = i, ii_name = name, ii_table_id = t, ii_column_index = col, ii_catalog_rid = r,
           ii_root_page_id_offset = length row - 4, ii_root_page_id = root\<rparr>"
  shows "decode_table_info (encode_table_info info) = Inr info \<and>
    decode_index_row row r = Inr ix \<and>
    decode_index_row (splice row (ii_root_page_id_offset ix) (u32_le root')) r = Inr (ix\<lparr>ii_root_page_id := root'\<rparr>)"
proof (intro conjI)
  show "decode_table_info (encode_table_info info) = Inr info"
    using assms(1) by (rule decode_encode_table_info)
  have len: "length (encode_index_row i name t col root') = length (encode_index_row i name t col root)"
    using encode_index_row_shape [of i name t col] by auto
  show "decode_index_row row r = Inr ix"
    using decode_encode_index_row [OF assms(2,3,4), of i t root r] by (simp add: assms(5,6) index_info_new_def)
  show "decode_index_row (splice row (ii_root_page_id_offset ix) (u32_le root')) r = Inr (ix\<lparr>ii_root_page_id := root'\<rparr>)"
    using decode_encode_index_row [OF assms(2,3,4), of i t root' r] len
    by (simp add: assms(5,6) index_info_new_def patch_index_row)
qed

definition demo_table_info :: table_info where
  "demo_table_info =
     \<lparr>ti_table_id = 3, ti_name = [0x74],
      ti_schema = [column_new [0x61] TInteger False, column_new [0x62] (TVarchar 20) True], ti_first_page_id = 7\<rparr>"

lemma demo_table_info_wf: "wf_table_info demo_table_info"
  by (simp add: wf_table_info_def demo_table_info_def column_new_def encode_schema_blob_def encode_column_def)

theorem catalog_rows_round_trip_witness:
  "decode_table_info (encode_table_info demo_table_info) = Inr demo_table_info \<and>
   decode_index_row (encode_index_row 1 [0x69] 3 0 9) (0, 2) =
     Inr \<lparr>ii_index_id = 1, ii_name = [0x69], ii_table_id = 3, ii_column_index = 0, ii_catalog_rid = (0, 2),
       ii_root_page_id_offset = 18, ii_root_page_id = 9\<rparr> \<and>
   decode_index_row (splice (encode_index_row 1 [0x69] 3 0 9) 18 (u32_le 12)) (0, 2) =
     Inr \<lparr>ii_index_id = 1, ii_name = [0x69], ii_table_id = 3, ii_column_index = 0, ii_catalog_rid = (0, 2),
       ii_root_page_id_offset = 18, ii_root_page_id = 12\<rparr>"
proof -
  have "length (encode_index_row 1 [0x69] 3 0 9) = 22"
    by (simp add: encode_index_row_def encode_tuple_shape)
  then show ?thesis
    using catalog_rows_round_trip [OF demo_table_info_wf, of "[0x69]" 0 "encode_index_row 1 [0x69] 3 0 9" 1 3 9 _ "(0, 2)" 12]
    by simp
qed

end
