(* ===== verification/Catalog_State.thy ===== *)
theory Catalog_State
  imports Catalog_Codec "HOL-Library.Finite_Map"
begin

text \<open>
  The catalog's in-memory state of \<open>catalog/src/catalog.rs\<close>: tables and indexes by name, by
  identifier and by table, with the questions the planner and the executor ask. The state invariant
  says that the maps agree and that the next identifiers are unused. The bytes of the catalog's rows
  are in the theory of the row codec; the operations that write them to pages are not modelled.
\<close>

record catalog_state =
  cs_tables_by_name :: "(bytes, table_info) fmap"
  cs_tables_by_id :: "(table_id, bytes) fmap"
  cs_next_table_id :: u32
  cs_catalog_first_page :: "page_id option"
  cs_indexes_by_name :: "(bytes, index_info) fmap"
  cs_indexes_by_id :: "(index_id, bytes) fmap"
  cs_indexes_by_table :: "(table_id, index_id list) fmap"
  cs_next_index_id :: u32
  cs_index_catalog_first_page :: "page_id option"

definition catalog_empty :: catalog_state where
  "catalog_empty =
     \<lparr>cs_tables_by_name = fmempty, cs_tables_by_id = fmempty, cs_next_table_id = 0, cs_catalog_first_page = None,
      cs_indexes_by_name = fmempty, cs_indexes_by_id = fmempty, cs_indexes_by_table = fmempty, cs_next_index_id = 0,
      cs_index_catalog_first_page = None\<rparr>"

definition insert_table :: "table_info \<Rightarrow> catalog_state \<Rightarrow> catalog_state" where
  "insert_table info c = c
     \<lparr>cs_next_table_id := max (cs_next_table_id c) (ti_table_id info + 1),
      cs_tables_by_id := fmupd (ti_table_id info) (ti_name info) (cs_tables_by_id c),
      cs_tables_by_name := fmupd (ti_name info) info (cs_tables_by_name c)\<rparr>"

definition insert_index :: "index_info \<Rightarrow> catalog_state \<Rightarrow> catalog_state" where
  "insert_index info c = c
     \<lparr>cs_next_index_id := max (cs_next_index_id c) (ii_index_id info + 1),
      cs_indexes_by_id := fmupd (ii_index_id info) (ii_name info) (cs_indexes_by_id c),
      cs_indexes_by_table := fmupd (ii_table_id info)
        ((case fmlookup (cs_indexes_by_table c) (ii_table_id info) of None \<Rightarrow> [] | Some is \<Rightarrow> is) @ [ii_index_id info])
        (cs_indexes_by_table c),
      cs_indexes_by_name := fmupd (ii_name info) info (cs_indexes_by_name c)\<rparr>"

definition table_by_id :: "table_id \<Rightarrow> catalog_state \<Rightarrow> catalog_error + table_info" where
  "table_by_id t c =
     and_then (ok_or (fmlookup (cs_tables_by_id c) t) (TableNotFound (ascii (''table id '' @ nat_str (unat t))))) (\<lambda>name.
       ok_or (fmlookup (cs_tables_by_name c) name) (TableNotFound name))"

definition index_by_id :: "index_id \<Rightarrow> catalog_state \<Rightarrow> catalog_error + index_info" where
  "index_by_id i c =
     (let missing = IndexNotFound (ascii (''index id '' @ nat_str (unat i))) in
      and_then (ok_or (fmlookup (cs_indexes_by_id c) i) missing) (\<lambda>name.
        ok_or (fmlookup (cs_indexes_by_name c) name) missing))"

definition from_tables :: "table_info list \<Rightarrow> catalog_state" where
  "from_tables tables = fold insert_table tables catalog_empty"

definition from_tables_and_indexes :: "table_info list \<Rightarrow> index_info list \<Rightarrow> catalog_state" where
  "from_tables_and_indexes tables indexes = fold insert_index indexes (from_tables tables)"

definition get_table :: "bytes \<Rightarrow> catalog_state \<Rightarrow> catalog_error + table_info" where
  "get_table name c = ok_or (fmlookup (cs_tables_by_name c) name) (TableNotFound name)"

definition get_table_by_id :: "table_id \<Rightarrow> catalog_state \<Rightarrow> catalog_error + table_info" where
  "get_table_by_id = table_by_id"

definition table_names :: "catalog_state \<Rightarrow> bytes list" where
  "table_names c = sorted_list_of_set (fset (fmdom (cs_tables_by_name c)))"

definition index_named :: "catalog_state \<Rightarrow> index_id \<Rightarrow> index_info option" where
  "index_named c i = Option.bind (fmlookup (cs_indexes_by_id c) i) (fmlookup (cs_indexes_by_name c))"

fun find_map :: "('a \<Rightarrow> 'b option) \<Rightarrow> 'a list \<Rightarrow> 'b option" where
  "find_map f [] = None"
| "find_map f (x # xs) = (case f x of Some y \<Rightarrow> Some y | None \<Rightarrow> find_map f xs)"

definition index_for_column :: "table_id \<Rightarrow> nat \<Rightarrow> catalog_state \<Rightarrow> index_info option" where
  "index_for_column t col c =
     Option.bind (fmlookup (cs_indexes_by_table c) t)
       (find_map (\<lambda>i. Option.bind (index_named c i) (\<lambda>info. if ii_column_index info = col then Some info else None)))"

definition indexes_for_table :: "table_id \<Rightarrow> catalog_state \<Rightarrow> index_info list" where
  "indexes_for_table t c =
     (case fmlookup (cs_indexes_by_table c) t of None \<Rightarrow> [] | Some is \<Rightarrow> List.map_filter (index_named c) is)"

definition index_root_page :: "index_id \<Rightarrow> catalog_state \<Rightarrow> catalog_error + page_id" where
  "index_root_page i c = and_then (index_by_id i c) (\<lambda>info. Inr (ii_root_page_id info))"

definition set_index_root :: "index_id \<Rightarrow> page_id \<Rightarrow> catalog_state \<Rightarrow> catalog_state" where
  "set_index_root i root c =
     (case fmlookup (cs_indexes_by_id c) i of
        None \<Rightarrow> c
      | Some name \<Rightarrow> c\<lparr>cs_indexes_by_name :=
          fmmap_keys (\<lambda>n info. if n = name then info\<lparr>ii_root_page_id := root\<rparr> else info) (cs_indexes_by_name c)\<rparr>)"

section \<open>The maps agree\<close>

definition tables_wf :: "catalog_state \<Rightarrow> bool" where
  "tables_wf c \<longleftrightarrow>
     (\<forall>t name. fmlookup (cs_tables_by_id c) t = Some name \<longrightarrow>
        (\<exists>info. fmlookup (cs_tables_by_name c) name = Some info \<and> ti_table_id info = t)) \<and>
     (\<forall>name info. fmlookup (cs_tables_by_name c) name = Some info \<longrightarrow>
        ti_name info = name \<and> fmlookup (cs_tables_by_id c) (ti_table_id info) = Some name \<and> ti_table_id info < cs_next_table_id c)"

definition indexes_wf :: "catalog_state \<Rightarrow> bool" where
  "indexes_wf c \<longleftrightarrow>
     (\<forall>i name. fmlookup (cs_indexes_by_id c) i = Some name \<longrightarrow>
        (\<exists>info. fmlookup (cs_indexes_by_name c) name = Some info \<and> ii_index_id info = i)) \<and>
     (\<forall>name info. fmlookup (cs_indexes_by_name c) name = Some info \<longrightarrow>
        ii_name info = name \<and> fmlookup (cs_indexes_by_id c) (ii_index_id info) = Some name \<and> ii_index_id info < cs_next_index_id c
        \<and> (\<exists>is. fmlookup (cs_indexes_by_table c) (ii_table_id info) = Some is \<and> ii_index_id info \<in> set is)) \<and>
     (\<forall>t is i. fmlookup (cs_indexes_by_table c) t = Some is \<longrightarrow> i \<in> set is \<longrightarrow>
        (\<exists>info. index_named c i = Some info \<and> ii_table_id info = t \<and> ii_index_id info = i))"

lemma indexes_wf_by_id:
  "indexes_wf c \<Longrightarrow> fmlookup (cs_indexes_by_id c) i = Some name \<Longrightarrow>
   \<exists>info. fmlookup (cs_indexes_by_name c) name = Some info \<and> ii_index_id info = i"
  by (simp add: indexes_wf_def)

lemma indexes_wf_by_name:
  assumes "indexes_wf c" "fmlookup (cs_indexes_by_name c) name = Some info"
  shows "ii_name info = name" "fmlookup (cs_indexes_by_id c) (ii_index_id info) = Some name"
    "ii_index_id info < cs_next_index_id c"
    "\<exists>is. fmlookup (cs_indexes_by_table c) (ii_table_id info) = Some is \<and> ii_index_id info \<in> set is"
  using assms by (simp_all add: indexes_wf_def)

lemma indexes_wf_by_table:
  "indexes_wf c \<Longrightarrow> fmlookup (cs_indexes_by_table c) t = Some is \<Longrightarrow> i \<in> set is \<Longrightarrow>
   \<exists>info. index_named c i = Some info \<and> ii_table_id info = t \<and> ii_index_id info = i"
  by (simp add: indexes_wf_def)

lemma catalog_empty_wf: "tables_wf catalog_empty" "indexes_wf catalog_empty"
  by (simp_all add: tables_wf_def indexes_wf_def catalog_empty_def)

lemma less_increment: "(x :: u32) \<noteq> - 1 \<Longrightarrow> x < x + 1"
  by (metis add.commute add_eq_0_iff unatSuc lessI word_less_nat_alt)

lemma insert_table_wf:
  assumes wf: "tables_wf c" and fresh: "fmlookup (cs_tables_by_name c) (ti_name info) = None"
    and nid: "ti_table_id info = cs_next_table_id c" and room: "cs_next_table_id c \<noteq> - 1"
  shows "tables_wf (insert_table info c)"
proof -
  have lt: "cs_next_table_id c < cs_next_table_id c + 1"
    by (rule less_increment [OF room])
  then have mx: "max (cs_next_table_id c) (cs_next_table_id c + 1) = cs_next_table_id c + 1"
    by simp
  have old: "ti_table_id i < cs_next_table_id c" if "fmlookup (cs_tables_by_name c) n = Some i" for n i
    using wf that by (simp add: tables_wf_def)
  show ?thesis
    using wf fresh lt unfolding tables_wf_def insert_table_def nid
    by (auto simp: mx nid dest: old less_trans [OF old lt])
       (use old in \<open>fastforce\<close>)+
qed

lemma insert_table_indexes_wf [simp]: "indexes_wf (insert_table info c) = indexes_wf c"
  by (simp add: indexes_wf_def index_named_def insert_table_def)

lemma index_named_insert:
  assumes "fmlookup (cs_indexes_by_id c) (ii_index_id info) = None" "fmlookup (cs_indexes_by_name c) (ii_name info) = None"
    and "index_named c i = Some x"
  shows "index_named (insert_index info c) i = Some x"
proof -
  obtain name where "fmlookup (cs_indexes_by_id c) i = Some name" "fmlookup (cs_indexes_by_name c) name = Some x"
    using assms(3) unfolding index_named_def bind_eq_Some_conv by blast
  moreover from this have "i \<noteq> ii_index_id info" "name \<noteq> ii_name info"
    using assms(1,2) by force+
  ultimately show ?thesis by (simp add: index_named_def insert_index_def)
qed

lemma index_named_inserted: "index_named (insert_index info c) (ii_index_id info) = Some info"
  by (simp add: index_named_def insert_index_def)

lemma insert_index_wf:
  assumes wf: "indexes_wf c" and fresh: "fmlookup (cs_indexes_by_name c) (ii_name info) = None"
    and nid: "ii_index_id info = cs_next_index_id c" and room: "cs_next_index_id c \<noteq> - 1"
  shows "indexes_wf (insert_index info c)"
proof -
  have lt: "cs_next_index_id c < cs_next_index_id c + 1"
    by (rule less_increment [OF room])
  then have mx: "max (cs_next_index_id c) (cs_next_index_id c + 1) = cs_next_index_id c + 1"
    by simp
  note old = indexes_wf_by_name(3) [OF wf]
  have idfresh: "fmlookup (cs_indexes_by_id c) (ii_index_id info) = None"
  proof (rule ccontr)
    assume "fmlookup (cs_indexes_by_id c) (ii_index_id info) \<noteq> None"
    then obtain name j where "fmlookup (cs_indexes_by_name c) name = Some j" "ii_index_id j = ii_index_id info"
      using indexes_wf_by_id [OF wf, of "ii_index_id info"] by auto
    then show False using old [of name j] nid by simp
  qed
  note named = index_named_insert [OF idfresh fresh]
  let ?c = "insert_index info c"
  have byid: "\<exists>j. fmlookup (cs_indexes_by_name ?c) name = Some j \<and> ii_index_id j = i"
    if "fmlookup (cs_indexes_by_id ?c) i = Some name" for i name
    using indexes_wf_by_id [OF wf, of i name] fresh that by (auto simp: insert_index_def split: if_splits)
  have byname: "ii_name j = name \<and> fmlookup (cs_indexes_by_id ?c) (ii_index_id j) = Some name \<and> ii_index_id j < cs_next_index_id ?c
      \<and> (\<exists>is. fmlookup (cs_indexes_by_table ?c) (ii_table_id j) = Some is \<and> ii_index_id j \<in> set is)"
    if j: "fmlookup (cs_indexes_by_name ?c) name = Some j" for j name
  proof (cases "name = ii_name info")
    case True
    then have ji: "j = info" using j by (simp add: insert_index_def)
    show ?thesis unfolding ji True using lt by (simp add: insert_index_def mx nid)
  next
    case False
    then have j': "fmlookup (cs_indexes_by_name c) name = Some j"
      using j by (simp add: insert_index_def)
    then obtain "is" where "fmlookup (cs_indexes_by_table c) (ii_table_id j) = Some is" "ii_index_id j \<in> set is"
      "ii_name j = name" "fmlookup (cs_indexes_by_id c) (ii_index_id j) = Some name"
      using indexes_wf_by_name [OF wf j'] by auto
    then show ?thesis
      using less_trans [OF old [OF j'] lt] old [OF j'] by (auto simp: insert_index_def mx nid)
  qed
  have bytable: "\<exists>j. index_named ?c i = Some j \<and> ii_table_id j = t \<and> ii_index_id j = i"
    if l: "fmlookup (cs_indexes_by_table ?c) t = Some is" and i: "i \<in> set is" for t "is" i
  proof (cases "t = ii_table_id info \<and> i = ii_index_id info")
    case True
    then show ?thesis using index_named_inserted by simp
  next
    case False
    then obtain os where "fmlookup (cs_indexes_by_table c) t = Some os" "i \<in> set os"
      using l i by (auto simp: insert_index_def split: if_splits option.splits)
    then show ?thesis
      using indexes_wf_by_table [OF wf, of t os i] named by auto
  qed
  show ?thesis
    unfolding indexes_wf_def
  proof (intro conjI allI impI, goal_cases)
    case (1 i name)
    then show ?case by (rule byid)
  next
    case (6 t "is" i)
    then show ?case by (rule bytable)
  qed (drule byname; simp)+
qed

lemma insert_index_tables_wf [simp]: "tables_wf (insert_index info c) = tables_wf c"
  by (simp add: tables_wf_def insert_index_def)

lemma find_map_Some: "find_map f xs = Some y \<Longrightarrow> \<exists>x \<in> set xs. f x = Some y"
  by (induction xs) (auto split: option.splits)

lemma find_map_None: "find_map f xs = None \<longleftrightarrow> (\<forall>x \<in> set xs. f x = None)"
  by (induction xs) (auto split: option.splits)

lemma index_for_column_Some:
  assumes wf: "indexes_wf c" and f: "index_for_column t col c = Some info"
  shows "ii_table_id info = t" "ii_column_index info = col" "index_named c (ii_index_id info) = Some info"
proof -
  obtain "is" i where "fmlookup (cs_indexes_by_table c) t = Some is" "i \<in> set is" "index_named c i = Some info"
    "ii_column_index info = col"
    using f by (auto simp: index_for_column_def bind_eq_Some_conv dest!: find_map_Some split: if_splits)
  then show "ii_table_id info = t" "ii_column_index info = col" "index_named c (ii_index_id info) = Some info"
    using indexes_wf_by_table [OF wf, of t "is" i] by auto
qed

lemma index_for_column_None:
  assumes wf: "indexes_wf c" and f: "index_for_column t col c = None"
    and l: "fmlookup (cs_indexes_by_name c) n = Some info" and t: "ii_table_id info = t"
  shows "ii_column_index info \<noteq> col"
proof -
  obtain "is" where "fmlookup (cs_indexes_by_table c) t = Some is" "ii_index_id info \<in> set is"
    "index_named c (ii_index_id info) = Some info"
    using indexes_wf_by_name [OF wf l] l t by (auto simp: index_named_def)
  then show ?thesis
    using f by (auto simp: index_for_column_def find_map_None)
qed

end
