(* ===== verification/Binder.thy ===== *)
theory Binder
  imports Sql_Ast Catalog_State
begin

text \<open>
  Name and type resolution, \<open>planner/src/binder.rs\<close>, and the planner's errors. A bound expression
  names columns by position and every operator carries its type. Where the source formats types
  into the message of a type mismatch the reason carries them. \<open>bind\<close> panics on transaction control,
  which the engine handles before binding: the panic is \<open>None\<close>.
\<close>

section \<open>Errors and bound statements\<close>

datatype mismatch_reason =
    WhereNotBoolean data_type
  | ColumnExpects bytes data_type data_type
  | NotRequiresBoolean data_type
  | NegateOfNull
  | NegateNotNumeric data_type
  | RequiresBoolean binary_operator data_type
  | CannotCompare data_type data_type
  | ArithmeticNotSupported

datatype planner_error =
    UnknownTable bytes
  | UnknownColumn bytes
  | UndefinedParameter u32
  | ColumnCountMismatch nat nat
  | ParameterCountMismatch nat nat
  | ExprTypeMismatch mismatch_reason
  | AmbiguousColumn bytes
  | LiteralOutOfRange bytes int data_type

datatype bound_expr =
    BLiteral val
  | BColumnRef nat data_type
  | BBinaryOp bound_expr binary_operator bound_expr data_type
  | BUnaryOp unary_operator bound_expr data_type
  | BIsNull bound_expr bool
  | BSessionContext session_context_name val

record bound_select =
  bs_table_id :: "table_id option"
  bs_projections :: "bound_expr list"
  bs_column_names :: "bytes list"
  bs_column_types :: "data_type option list"
  bs_predicate :: "bound_expr option"

record bound_insert =
  bi_table_id :: table_id
  bi_rows :: "bound_expr list list"

record bound_column_def =
  bcd_name :: bytes
  bcd_type :: data_type
  bcd_nullable :: bool

record bound_create_table =
  bct_table_name :: bytes
  bct_columns :: "bound_column_def list"

record bound_create_index =
  bci_index_name :: bytes
  bci_table_id :: table_id
  bci_column_index :: nat

datatype bound_statement =
    BSelect bound_select
  | BInsert bound_insert
  | BCreateTable bound_create_table
  | BCreateIndex bound_create_index
  | BExplain bool bound_statement

record session_context =
  sc_database :: bytes
  sc_schema :: bytes
  sc_user :: bytes
  sc_server_version :: bytes

definition DEFAULT_SCHEMA_NAME :: bytes where "DEFAULT_SCHEMA_NAME = ascii ''public''"

definition FIXED_USER_NAME :: bytes where "FIXED_USER_NAME = ascii ''postgres''"

definition session_context_new :: "bytes \<Rightarrow> session_context" where
  "session_context_new database =
     \<lparr>sc_database = database, sc_schema = DEFAULT_SCHEMA_NAME, sc_user = FIXED_USER_NAME,
      sc_server_version = ascii ''PostgreSQL 15.0 (simple_rdbms 0.1.0)''\<rparr>"

fun value_of :: "session_context \<Rightarrow> session_context_name \<Rightarrow> val" where
  "value_of s CurrentCatalog = VVarchar (sc_database s)"
| "value_of s CurrentSchema = VVarchar (sc_schema s)"
| "value_of s CurrentUser = VVarchar (sc_user s)"
| "value_of s SessionUser = VVarchar (sc_user s)"
| "value_of s Version = VVarchar (sc_server_version s)"

section \<open>Types of operands\<close>

definition is_numeric :: "data_type \<Rightarrow> bool" where
  "is_numeric t = (t = TInteger \<or> t = TBigInt \<or> t = TDouble)"

fun data_types_match :: "data_type \<Rightarrow> data_type \<Rightarrow> bool" where
  "data_types_match (TVarchar _) (TVarchar _) = True"
| "data_types_match a b = (a = b)"

fun coerce_literal_to_column :: "val \<Rightarrow> data_type \<Rightarrow> bytes \<Rightarrow> planner_error + val" where
  "coerce_literal_to_column (VBigInt v) TInteger column_name =
     (if - (2 ^ 31) \<le> sint v \<and> sint v < 2 ^ 31 then Inr (VInteger (word_of_int (sint v)))
      else Inl (LiteralOutOfRange column_name (sint v) TInteger))"
| "coerce_literal_to_column v _ _ = Inr v"

type_synonym typed_expr = "bound_expr \<times> data_type option"

definition coerce_comparison_operands ::
    "typed_expr \<Rightarrow> typed_expr \<Rightarrow> schema \<Rightarrow> planner_error + typed_expr \<times> typed_expr" where
  "coerce_comparison_operands l r schema =
     (case (fst l, fst r) of
        (BLiteral v, BColumnRef i t) \<Rightarrow>
          and_then (coerce_literal_to_column v t (col_name (schema ! i))) (\<lambda>c.
            Inr ((BLiteral c, value_data_type c), (BColumnRef i t, snd r)))
      | (BColumnRef i t, BLiteral v) \<Rightarrow>
          and_then (coerce_literal_to_column v t (col_name (schema ! i))) (\<lambda>c.
            Inr ((BColumnRef i t, snd l), (BLiteral c, value_data_type c)))
      | _ \<Rightarrow> Inr (l, r))"

section \<open>Expressions\<close>

fun bind_unary_op :: "unary_operator \<Rightarrow> typed_expr \<Rightarrow> planner_error + typed_expr" where
  "bind_unary_op OpNot (b, t) =
     (case t of
        Some t' \<Rightarrow> if t' \<noteq> TBoolean then Inl (ExprTypeMismatch (NotRequiresBoolean t'))
                   else Inr (BUnaryOp OpNot b TBoolean, Some TBoolean)
      | None \<Rightarrow> Inr (BUnaryOp OpNot b TBoolean, Some TBoolean))"
| "bind_unary_op OpNegate (b, t) =
     and_then (ok_or t (ExprTypeMismatch NegateOfNull)) (\<lambda>t'.
       if \<not> is_numeric t' then Inl (ExprTypeMismatch (NegateNotNumeric t'))
       else Inr (BUnaryOp OpNegate b t', Some t'))"

definition is_comparison :: "binary_operator \<Rightarrow> bool" where
  "is_comparison op = (op \<in> {OpEq, OpNotEq, OpLt, OpLtEq, OpGt, OpGtEq})"

definition require_boolean :: "binary_operator \<Rightarrow> data_type option \<Rightarrow> planner_error + unit" where
  "require_boolean op t =
     (case t of
        Some t' \<Rightarrow> if t' \<noteq> TBoolean then Inl (ExprTypeMismatch (RequiresBoolean op t')) else Inr ()
      | None \<Rightarrow> Inr ())"

definition bind_binary_op :: "typed_expr \<Rightarrow> binary_operator \<Rightarrow> typed_expr \<Rightarrow> schema \<Rightarrow> planner_error + typed_expr" where
  "bind_binary_op l op r schema =
     and_then (coerce_comparison_operands l r schema) (\<lambda>((lb, lt), (rb, rt)).
       if op = OpAnd \<or> op = OpOr then
         and_then (require_boolean op lt) (\<lambda>_. and_then (require_boolean op rt) (\<lambda>_.
           Inr (BBinaryOp lb op rb TBoolean, Some TBoolean)))
       else if is_comparison op then
         (case (lt, rt) of
            (Some a, Some b) \<Rightarrow>
              if \<not> data_types_match a b then Inl (ExprTypeMismatch (CannotCompare a b))
              else Inr (BBinaryOp lb op rb TBoolean, Some TBoolean)
          | _ \<Rightarrow> Inr (BBinaryOp lb op rb TBoolean, Some TBoolean))
       else Inl (ExprTypeMismatch ArithmeticNotSupported))"

fun bind_expr :: "session_context \<Rightarrow> schema \<Rightarrow> bytes option \<Rightarrow> expr \<Rightarrow> planner_error + typed_expr" where
  "bind_expr session schema scope (ELiteral v) = Inr (BLiteral v, value_data_type v)"
| "bind_expr session schema scope (ESessionContext name) =
     (let v = value_of session name in Inr (BSessionContext name v, value_data_type v))"
| "bind_expr session schema scope (EColumn table name) =
     (if table \<noteq> None \<and> scope \<noteq> table then Inl (UnknownTable (the table))
      else and_then (ok_or (column_index schema name) (UnknownColumn name)) (\<lambda>i.
        let t = col_type (schema ! i) in Inr (BColumnRef i t, Some t)))"
| "bind_expr session schema scope (EUnaryOp op e) =
     and_then (bind_expr session schema scope e) (bind_unary_op op)"
| "bind_expr session schema scope (EBinaryOp l op r) =
     and_then (bind_expr session schema scope l) (\<lambda>lb.
       and_then (bind_expr session schema scope r) (\<lambda>rb. bind_binary_op lb op rb schema))"
| "bind_expr session schema scope (EIsNull e negated) =
     and_then (bind_expr session schema scope e) (\<lambda>(b, _). Inr (BIsNull b negated, Some TBoolean))"
| "bind_expr session schema scope (EParameter i) = Inl (UndefinedParameter i)"

section \<open>Statements\<close>

text \<open>The loop over the select list extends three lists at once.\<close>

type_synonym select_columns = "bound_expr list \<times> bytes list \<times> data_type option list"

definition wildcard_columns :: "schema \<Rightarrow> select_columns" where
  "wildcard_columns schema =
     (map (\<lambda>(i, c). BColumnRef i (col_type c)) (enumerate 0 schema), map col_name schema,
      map (\<lambda>c. Some (col_type c)) schema)"

fun item_name :: "expr \<Rightarrow> nat \<Rightarrow> bytes" where
  "item_name (EColumn _ name) n = name"
| "item_name (ESessionContext name) n = session_column_name name"
| "item_name _ n = ascii (''column'' @ nat_str (n + 1))"

fun bind_items ::
    "session_context \<Rightarrow> schema \<Rightarrow> bytes option \<Rightarrow> select_item list \<Rightarrow> select_columns \<Rightarrow> planner_error + select_columns" where
  "bind_items session schema scope [] cols = Inr cols"
| "bind_items session schema scope (SelWildcard # items) (ps, ns, ts) =
     (case wildcard_columns schema of (ps', ns', ts') \<Rightarrow>
        bind_items session schema scope items (ps @ ps', ns @ ns', ts @ ts'))"
| "bind_items session schema scope (SelExpr e # items) (ps, ns, ts) =
     and_then (bind_expr session schema scope e) (\<lambda>(b, t).
       bind_items session schema scope items (ps @ [b], ns @ [item_name e (length ns)], ts @ [t]))"

definition bind_predicate ::
    "session_context \<Rightarrow> schema \<Rightarrow> bytes option \<Rightarrow> expr option \<Rightarrow> planner_error + bound_expr option" where
  "bind_predicate session schema scope w =
     (case w of
        None \<Rightarrow> Inr None
      | Some e \<Rightarrow> and_then (bind_expr session schema scope e) (\<lambda>(b, t).
          case t of
            Some t' \<Rightarrow> if t' \<noteq> TBoolean then Inl (ExprTypeMismatch (WhereNotBoolean t')) else Inr (Some b)
          | None \<Rightarrow> Inr (Some b)))"

definition lookup_table :: "catalog_state \<Rightarrow> bytes \<Rightarrow> planner_error + table_info" where
  "lookup_table c name = (case get_table name c of Inl _ \<Rightarrow> Inl (UnknownTable name) | Inr t \<Rightarrow> Inr t)"

definition bind_select :: "catalog_state \<Rightarrow> session_context \<Rightarrow> select_statement \<Rightarrow> planner_error + bound_select" where
  "bind_select c session s =
     and_then (case ss_from s of
         None \<Rightarrow> Inr None
       | Some from \<Rightarrow> and_then (lookup_table c (tr_name from)) (\<lambda>t. Inr (Some t))) (\<lambda>table.
       let schema = (case table of None \<Rightarrow> [] | Some t \<Rightarrow> ti_schema t);
           scope = map_option (\<lambda>from. case tr_alias from of None \<Rightarrow> tr_name from | Some a \<Rightarrow> a) (ss_from s) in
       and_then (bind_items session schema scope (ss_items s) ([], [], [])) (\<lambda>(ps, ns, ts).
         and_then (bind_predicate session schema scope (ss_where s)) (\<lambda>p.
           Inr \<lparr>bs_table_id = map_option ti_table_id table, bs_projections = ps, bs_column_names = ns,
                bs_column_types = ts, bs_predicate = p\<rparr>)))"

fun target_indices :: "schema \<Rightarrow> bytes list \<Rightarrow> planner_error + nat list" where
  "target_indices schema [] = Inr []"
| "target_indices schema (name # names) =
     and_then (ok_or (column_index schema name) (UnknownColumn name)) (\<lambda>i.
       and_then (target_indices schema names) (\<lambda>is. Inr (i # is)))"

definition bind_cell :: "session_context \<Rightarrow> column \<Rightarrow> expr \<Rightarrow> planner_error + bound_expr" where
  "bind_cell session column e =
     and_then (bind_expr session [] None e) (\<lambda>(b, t).
       and_then (case b of
           BLiteral v \<Rightarrow> and_then (coerce_literal_to_column v (col_type column) (col_name column)) (\<lambda>c.
             Inr (BLiteral c, value_data_type c))
         | _ \<Rightarrow> Inr (b, t)) (\<lambda>(b, t).
         case t of
           Some t' \<Rightarrow> if \<not> data_types_match t' (col_type column)
             then Inl (ExprTypeMismatch (ColumnExpects (col_name column) (col_type column) t')) else Inr b
         | None \<Rightarrow> Inr b))"

fun bind_cells ::
    "session_context \<Rightarrow> schema \<Rightarrow> (expr \<times> nat) list \<Rightarrow> bound_expr list \<Rightarrow> planner_error + bound_expr list" where
  "bind_cells session schema [] row = Inr row"
| "bind_cells session schema ((e, i) # cells) row =
     and_then (bind_cell session (schema ! i) e) (\<lambda>b. bind_cells session schema cells (row[i := b]))"

definition bind_row ::
    "session_context \<Rightarrow> schema \<Rightarrow> nat list \<Rightarrow> expr list \<Rightarrow> planner_error + bound_expr list" where
  "bind_row session schema targets row =
     (if length row \<noteq> length targets then Inl (ColumnCountMismatch (length targets) (length row))
      else bind_cells session schema (zip row targets) (replicate (length schema) (BLiteral VNull)))"

fun bind_rows ::
    "session_context \<Rightarrow> schema \<Rightarrow> nat list \<Rightarrow> expr list list \<Rightarrow> planner_error + bound_expr list list" where
  "bind_rows session schema targets [] = Inr []"
| "bind_rows session schema targets (row # rows) =
     and_then (bind_row session schema targets row) (\<lambda>b.
       and_then (bind_rows session schema targets rows) (\<lambda>bs. Inr (b # bs)))"

definition bind_insert :: "catalog_state \<Rightarrow> session_context \<Rightarrow> insert_statement \<Rightarrow> planner_error + bound_insert" where
  "bind_insert c session s =
     and_then (lookup_table c (is_table s)) (\<lambda>table.
       let schema = ti_schema table in
       and_then (if is_columns s = [] then Inr [0..<length schema] else target_indices schema (is_columns s)) (\<lambda>targets.
         and_then (bind_rows session schema targets (is_values s)) (\<lambda>rows.
           Inr \<lparr>bi_table_id = ti_table_id table, bi_rows = rows\<rparr>)))"

definition bind_create_table :: "create_table_statement \<Rightarrow> bound_create_table" where
  "bind_create_table s =
     \<lparr>bct_table_name = ct_table s,
      bct_columns = map (\<lambda>c. \<lparr>bcd_name = cd_name c, bcd_type = cd_type c, bcd_nullable = cd_nullable c\<rparr>) (ct_columns s)\<rparr>"

definition bind_create_index :: "catalog_state \<Rightarrow> create_index_statement \<Rightarrow> planner_error + bound_create_index" where
  "bind_create_index c s =
     and_then (lookup_table c (ci_table s)) (\<lambda>table.
       and_then (ok_or (column_index (ti_schema table) (ci_column s)) (UnknownColumn (ci_column s))) (\<lambda>i.
         Inr \<lparr>bci_index_name = ci_name s, bci_table_id = ti_table_id table, bci_column_index = i\<rparr>))"

fun bind :: "catalog_state \<Rightarrow> session_context \<Rightarrow> statement \<Rightarrow> (planner_error + bound_statement) option" where
  "bind c session (StSelect s) = Some (and_then (bind_select c session s) (\<lambda>b. Inr (BSelect b)))"
| "bind c session (StInsert s) = Some (and_then (bind_insert c session s) (\<lambda>b. Inr (BInsert b)))"
| "bind c session (StCreateTable s) = Some (Inr (BCreateTable (bind_create_table s)))"
| "bind c session (StCreateIndex s) = Some (and_then (bind_create_index c s) (\<lambda>b. Inr (BCreateIndex b)))"
| "bind c session (StExplain verbose inner) =
     map_option (\<lambda>r. and_then r (\<lambda>b. Inr (BExplain verbose b))) (bind c session inner)"
| "bind c session StBegin = None"
| "bind c session StCommit = None"
| "bind c session StRollback = None"

end
