(* ===== verification/Expression.thy ===== *)
theory Expression
  imports Binder Txn_Manager
begin

text \<open>
  The executor's errors (\<open>executor/src/error.rs\<close>) and expression evaluation
  (\<open>executor/src/expression.rs\<close>): three-valued logic, comparison through \<open>Value::compare\<close>, and the
  errors of ill-typed operands. The main result is type soundness of the binder: an expression that
  binds evaluates, on every row of the table's types, to a value of the type the binder gave it.
\<close>

datatype evaluation_reason =
    ColumnOutOfBounds nat nat
  | NotOperand val
  | NegateOperand val
  | LogicOperand val
  | Incomparable value_error

datatype executor_error =
    Evaluation evaluation_reason
  | CorruptTuple tuple_error
  | ExecNotSupported string
  | ExecStorage storage_error
  | ExecCatalog catalog_error
  | ExecLock txn_error

fun matches_comparison :: "binary_operator \<Rightarrow> ordering \<Rightarrow> bool" where
  "matches_comparison OpEq r = (r = Equal)"
| "matches_comparison OpNotEq r = (r \<noteq> Equal)"
| "matches_comparison OpLt r = (r = Less)"
| "matches_comparison OpLtEq r = (r \<noteq> Greater)"
| "matches_comparison OpGt r = (r = Greater)"
| "matches_comparison OpGtEq r = (r \<noteq> Less)"
| "matches_comparison _ r = False"

fun as_bool :: "val \<Rightarrow> executor_error + bool option" where
  "as_bool VNull = Inr None"
| "as_bool (VBoolean b) = Inr (Some b)"
| "as_bool v = Inl (Evaluation (LogicOperand v))"

definition three_valued_and :: "val \<Rightarrow> val \<Rightarrow> executor_error + val" where
  "three_valued_and l r =
     and_then (as_bool l) (\<lambda>a. and_then (as_bool r) (\<lambda>b.
       Inr (if a = Some False \<or> b = Some False then VBoolean False
            else if a = Some True \<and> b = Some True then VBoolean True else VNull)))"

definition three_valued_or :: "val \<Rightarrow> val \<Rightarrow> executor_error + val" where
  "three_valued_or l r =
     and_then (as_bool l) (\<lambda>a. and_then (as_bool r) (\<lambda>b.
       Inr (if a = Some True \<or> b = Some True then VBoolean True
            else if a = Some False \<and> b = Some False then VBoolean False else VNull)))"

definition evaluate_comparison :: "binary_operator \<Rightarrow> val \<Rightarrow> val \<Rightarrow> executor_error + val" where
  "evaluate_comparison op l r =
     (case compare_values l r of
        Inl e \<Rightarrow> Inl (Evaluation (Incomparable e))
      | Inr None \<Rightarrow> Inr VNull
      | Inr (Some ord) \<Rightarrow> Inr (VBoolean (matches_comparison op ord)))"

text \<open>\<open>matches_comparison\<close> is reached with comparison operators only.
  Negating a double flips its sign bit; integers wrap, as in a release build.\<close>

fun evaluate_unary :: "unary_operator \<Rightarrow> val \<Rightarrow> executor_error + val" where
  "evaluate_unary OpNot VNull = Inr VNull"
| "evaluate_unary OpNot (VBoolean b) = Inr (VBoolean (\<not> b))"
| "evaluate_unary OpNot v = Inl (Evaluation (NotOperand v))"
| "evaluate_unary OpNegate VNull = Inr VNull"
| "evaluate_unary OpNegate (VInteger v) = Inr (VInteger (- v))"
| "evaluate_unary OpNegate (VBigInt v) = Inr (VBigInt (- v))"
| "evaluate_unary OpNegate (VDouble v) = Inr (VDouble (v XOR SIGN_BIT_64))"
| "evaluate_unary OpNegate v = Inl (Evaluation (NegateOperand v))"

fun evaluate :: "bound_expr \<Rightarrow> tuple \<Rightarrow> executor_error + val" where
  "evaluate (BLiteral v) tuple = Inr v"
| "evaluate (BSessionContext _ v) tuple = Inr v"
| "evaluate (BColumnRef i _) tuple =
     (if i < length tuple then Inr (tuple ! i) else Inl (Evaluation (ColumnOutOfBounds i (length tuple))))"
| "evaluate (BUnaryOp op e _) tuple = and_then (evaluate e tuple) (evaluate_unary op)"
| "evaluate (BBinaryOp l op r _) tuple =
     (if op = OpAnd then
        and_then (evaluate l tuple) (\<lambda>a. and_then (evaluate r tuple) (\<lambda>b. three_valued_and a b))
      else if op = OpOr then
        and_then (evaluate l tuple) (\<lambda>a. and_then (evaluate r tuple) (\<lambda>b. three_valued_or a b))
      else if is_comparison op then
        and_then (evaluate l tuple) (\<lambda>a. and_then (evaluate r tuple) (\<lambda>b. evaluate_comparison op a b))
      else Inl (ExecNotSupported ''arithmetic operators are not supported''))"
| "evaluate (BIsNull e negated) tuple =
     and_then (evaluate e tuple) (\<lambda>v. Inr (VBoolean (is_null v \<noteq> negated)))"

section \<open>Bound expressions are type safe\<close>

text \<open>The binder gives the \<open>NULL\<close> literal no type; every other type admits its values and \<open>NULL\<close>.\<close>

fun has_type :: "val \<Rightarrow> data_type option \<Rightarrow> bool" where
  "has_type v None = (v = VNull)"
| "has_type v (Some t) = of_type v t"

definition conforms :: "tuple \<Rightarrow> schema \<Rightarrow> bool" where
  "conforms row schema = list_all2 of_type row (map col_type schema)"

lemma conforms_nth: "conforms row schema \<Longrightarrow> i < length schema \<Longrightarrow> i < length row \<and> of_type (row ! i) (col_type (schema ! i))"
  by (auto simp: conforms_def list_all2_conv_all_nth)

lemma conforms_Nil: "conforms [] []"
  by (simp add: conforms_def)

lemma position_Some: "position P xs = Some i \<Longrightarrow> i < length xs \<and> P (xs ! i)"
  by (induction xs arbitrary: i) (auto split: if_splits)

lemma column_index_Some: "column_index schema name = Some i \<Longrightarrow> i < length schema \<and> col_name (schema ! i) = name"
  unfolding column_index_def by (drule position_Some) simp

lemma value_has_type: "has_type v (value_data_type v)"
  by (cases v) auto

lemma of_type_boolean: "of_type v TBoolean \<longleftrightarrow> v = VNull \<or> (\<exists>b. v = VBoolean b)"
  by (cases v) auto

lemma as_bool_ok: "of_type v TBoolean \<Longrightarrow> \<exists>b. as_bool v = Inr b"
  by (auto simp: of_type_boolean)

lemma logic_ok:
  assumes "of_type v TBoolean" "of_type w TBoolean"
  shows "\<exists>x. three_valued_and v w = Inr x \<and> of_type x TBoolean" "\<exists>x. three_valued_or v w = Inr x \<and> of_type x TBoolean"
  using assms by (auto simp: three_valued_and_def three_valued_or_def of_type_boolean simp del: and_then_eq_Inr)

lemma of_type_match: "of_type v a \<Longrightarrow> data_types_match a b \<Longrightarrow> of_type v b"
  by (cases a; cases b) (auto elim: of_type.elims)

lemma compare_typed_ok:
  assumes "has_type v s" "has_type w t" "\<And>a b. s = Some a \<Longrightarrow> t = Some b \<Longrightarrow> data_types_match a b"
  shows "\<exists>x. evaluate_comparison op v w = Inr x \<and> of_type x TBoolean"
proof -
  have "\<exists>r. compare_values v w = Inr r"
  proof (cases "v = VNull \<or> w = VNull")
    case False
    then obtain a b where "s = Some a" "t = Some b"
      using assms(1,2) by (cases s; cases t) auto
    then show ?thesis
      using assms compare_values_total [of v b w] of_type_match [of v a b] by auto
  qed auto
  then show ?thesis
    by (auto simp: evaluate_comparison_def split: option.splits)
qed

text \<open>What the binder promises of a bound operand.\<close>

definition typed_in :: "schema \<Rightarrow> typed_expr \<Rightarrow> bool" where
  "typed_in schema bt \<longleftrightarrow>
     (\<forall>row. conforms row schema \<longrightarrow> (\<exists>v. evaluate (fst bt) row = Inr v \<and> has_type v (snd bt)))"

lemma typed_inD: "typed_in schema (b, t) \<Longrightarrow> conforms row schema \<Longrightarrow> \<exists>v. evaluate b row = Inr v \<and> has_type v t"
  by (simp add: typed_in_def)

lemma typed_literal [simp]: "typed_in schema (BLiteral v, value_data_type v)"
  by (simp add: typed_in_def value_has_type)

lemma coerce_operands_typed:
  assumes "coerce_comparison_operands l r schema = Inr (l', r')" "typed_in schema l" "typed_in schema r"
  shows "typed_in schema l' \<and> typed_in schema r'"
  using assms unfolding coerce_comparison_operands_def
  by (cases l; cases r) (auto split: bound_expr.split_asm)

lemma unary_typed:
  assumes "bind_unary_op op (b, t) = Inr bt" "typed_in schema (b, t)"
  shows "typed_in schema bt"
proof (cases op)
  case OpNot
  then have bt: "bt = (BUnaryOp OpNot b TBoolean, Some TBoolean)" and t: "t = None \<or> t = Some TBoolean"
    using assms(1) by (auto split: option.splits if_splits)
  show ?thesis
    unfolding typed_in_def bt
  proof (intro allI impI)
    fix row
    assume "conforms row schema"
    then obtain v where "evaluate b row = Inr v" "has_type v t"
      using typed_inD [OF assms(2)] by blast
    then show "\<exists>v. evaluate (fst (BUnaryOp OpNot b TBoolean, Some TBoolean)) row = Inr v
        \<and> has_type v (snd (BUnaryOp OpNot b TBoolean, Some TBoolean))"
      using t by (auto simp: of_type_boolean)
  qed
next
  case OpNegate
  then obtain t' where t: "t = Some t'" and n: "is_numeric t'" and bt: "bt = (BUnaryOp OpNegate b t', Some t')"
    using assms(1) by (auto split: if_splits)
  show ?thesis
    unfolding typed_in_def bt
  proof (intro allI impI)
    fix row
    assume "conforms row schema"
    then obtain v where "evaluate b row = Inr v" "of_type v t'"
      using typed_inD [OF assms(2)] t by force
    then show "\<exists>v. evaluate (fst (BUnaryOp OpNegate b t', Some t')) row = Inr v
        \<and> has_type v (snd (BUnaryOp OpNegate b t', Some t'))"
      using n by (cases v) (auto simp: is_numeric_def)
  qed
qed

lemma typed_binaryI:
  assumes l: "typed_in schema (lb, lt)" and r: "typed_in schema (rb, rt)"
    and op: "\<And>v w. has_type v lt \<Longrightarrow> has_type w rt \<Longrightarrow>
      \<exists>x. (if op = OpAnd then three_valued_and v w else if op = OpOr then three_valued_or v w
           else evaluate_comparison op v w) = Inr x \<and> of_type x TBoolean"
    and known: "op = OpAnd \<or> op = OpOr \<or> is_comparison op"
  shows "typed_in schema (BBinaryOp lb op rb TBoolean, Some TBoolean)"
  unfolding typed_in_def fst_conv snd_conv
proof (intro allI impI)
  fix row
  assume c: "conforms row schema"
  obtain v w where v: "evaluate lb row = Inr v" "has_type v lt" and w: "evaluate rb row = Inr w" "has_type w rt"
    using typed_inD [OF l c] typed_inD [OF r c] by blast
  show "\<exists>v. evaluate (BBinaryOp lb op rb TBoolean) row = Inr v \<and> has_type v (Some TBoolean)"
    using op [OF v(2) w(2)] known by (auto simp: v w simp del: and_then_eq_Inr split: if_splits)
qed

lemma binary_typed:
  assumes "bind_binary_op l op r schema = Inr bt" "typed_in schema l" "typed_in schema r"
  shows "typed_in schema bt"
proof -
  obtain lb lt rb rt where c: "coerce_comparison_operands l r schema = Inr ((lb, lt), (rb, rt))"
    and bt: "(if op = OpAnd \<or> op = OpOr then
         and_then (require_boolean op lt) (\<lambda>_. and_then (require_boolean op rt) (\<lambda>_.
           Inr (BBinaryOp lb op rb TBoolean, Some TBoolean)))
       else if is_comparison op then
         (case (lt, rt) of
            (Some a, Some b) \<Rightarrow>
              if \<not> data_types_match a b then Inl (ExprTypeMismatch (CannotCompare a b))
              else Inr (BBinaryOp lb op rb TBoolean, Some TBoolean)
          | _ \<Rightarrow> Inr (BBinaryOp lb op rb TBoolean, Some TBoolean))
       else Inl (ExprTypeMismatch ArithmeticNotSupported)) = Inr bt"
    using assms(1) unfolding bind_binary_op_def by (auto split: prod.splits)
  note lr = coerce_operands_typed [OF c assms(2,3)]
  have eq: "bt = (BBinaryOp lb op rb TBoolean, Some TBoolean)"
    using bt by (auto split: if_splits option.splits)
  have boolean: "of_type v TBoolean" if "has_type v t" "require_boolean op t = Inr ()" for v t
    using that by (auto simp: require_boolean_def split: option.splits if_splits)
  consider (logic) "op = OpAnd \<or> op = OpOr" "require_boolean op lt = Inr ()" "require_boolean op rt = Inr ()"
    | (compare) "op \<noteq> OpAnd" "op \<noteq> OpOr" "is_comparison op" "\<And>a b. lt = Some a \<Longrightarrow> rt = Some b \<Longrightarrow> data_types_match a b"
    using bt by (auto split: if_splits option.splits)
  then show ?thesis
  proof cases
    case logic
    then show ?thesis unfolding eq
      using lr by (intro typed_binaryI [of _ lb lt rb rt]) (auto intro!: logic_ok boolean)
  next
    case compare
    then show ?thesis unfolding eq
      using lr compare_typed_ok by (intro typed_binaryI [of _ lb lt rb rt]) auto
  qed
qed

lemma bind_expr_typed:
  assumes "bind_expr session schema scope e = Inr bt"
  shows "typed_in schema bt"
  using assms
proof (induction e arbitrary: bt)
  case (EColumn table name)
  then show ?case
    by (auto simp: typed_in_def Let_def split: if_splits dest!: column_index_Some conforms_nth)
next
  case (EUnaryOp op e)
  then show ?case by (auto intro: unary_typed)
next
  case (EBinaryOp l op r)
  then show ?case by (auto intro: binary_typed)
next
  case (EIsNull e negated)
  then obtain b t where b: "bind_expr session schema scope e = Inr (b, t)" and bt: "bt = (BIsNull b negated, Some TBoolean)"
    by auto
  show ?case
    using EIsNull.IH [OF b] by (fastforce simp: typed_in_def bt)
qed (auto simp: typed_in_def Let_def value_has_type)

section \<open>Bound statements are type safe\<close>

lemma wildcard_typed:
  "case wildcard_columns schema of (ps, ns, ts) \<Rightarrow>
     length ns = length ps \<and> list_all2 (\<lambda>p t. typed_in schema (p, t)) ps ts"
  by (auto simp: wildcard_columns_def list_all2_conv_all_nth nth_enumerate_eq typed_in_def dest: conforms_nth)

lemma bind_items_typed:
  assumes "bind_items session schema scope items cols = Inr (ps, ns, ts)"
    "case cols of (ps, ns, ts) \<Rightarrow> length ns = length ps \<and> list_all2 (\<lambda>p t. typed_in schema (p, t)) ps ts"
  shows "length ns = length ps \<and> list_all2 (\<lambda>p t. typed_in schema (p, t)) ps ts"
  using assms
proof (induction session schema scope items cols rule: bind_items.induct)
  case (2 session schema scope items qs ms us)
  then show ?case
    using wildcard_typed [of schema] by (cases "wildcard_columns schema") (auto intro: list_all2_appendI)
next
  case (3 session schema scope e items qs ms us)
  then obtain b t where b: "bind_expr session schema scope e = Inr (b, t)"
    and r: "bind_items session schema scope items (qs @ [b], ms @ [item_name e (length ms)], us @ [t]) = Inr (ps, ns, ts)"
    by auto
  show ?case
    using 3(1) [OF b refl r] 3(3) bind_expr_typed [OF b] by (simp add: list_all2_appendI)
qed auto

lemma bind_predicate_typed:
  assumes "bind_predicate session schema scope w = Inr (Some p)"
  shows "\<exists>t. typed_in schema (p, t) \<and> (t = None \<or> t = Some TBoolean)"
proof -
  obtain e where w: "w = Some e"
    using assms by (cases w) (auto simp: bind_predicate_def)
  then obtain b t where e: "bind_expr session schema scope e = Inr (b, t)"
    using assms by (auto simp: bind_predicate_def)
  then have "b = p \<and> (t = None \<or> t = Some TBoolean)"
    using assms w by (cases t) (auto simp: bind_predicate_def split: if_splits)
  then show ?thesis using bind_expr_typed [OF e] by blast
qed

lemma lookup_table_id:
  assumes "tables_wf c" "lookup_table c name = Inr info"
  shows "get_table_by_id (ti_table_id info) c = Inr info"
  using assms
  by (auto simp: lookup_table_def get_table_def get_table_by_id_def table_by_id_def tables_wf_def split: sum.splits)

lemma bind_cell_typed:
  assumes "bind_cell session column e = Inr b"
  shows "\<exists>v. evaluate b [] = Inr v \<and> of_type v (col_type column)"
proof -
  have match: "of_type v (col_type column)"
    if "has_type v t" "\<And>t'. t = Some t' \<Longrightarrow> data_types_match t' (col_type column)" for v t
    using that of_type_match by (cases t) auto
  obtain b0 t0 where b0: "bind_expr session [] None e = Inr (b0, t0)"
    using assms by (auto simp: bind_cell_def)
  obtain b1 t where b1: "typed_in [] (b1, t)"
    and c: "(case t of Some t' \<Rightarrow> if \<not> data_types_match t' (col_type column)
        then Inl (ExprTypeMismatch (ColumnExpects (col_name column) (col_type column) t')) else Inr b1
      | None \<Rightarrow> Inr b1) = Inr b"
  proof (cases b0)
    case (BLiteral v)
    then show ?thesis
      using assms that [OF typed_literal] by (auto simp: bind_cell_def b0)
  qed (use assms that [OF bind_expr_typed [OF b0]] in \<open>auto simp: bind_cell_def b0\<close>)
  have "typed_in [] (b, t)" "\<And>t'. t = Some t' \<Longrightarrow> data_types_match t' (col_type column)"
    using b1 c by (auto split: option.split_asm if_split_asm)
  then show ?thesis
    using typed_inD [OF _ conforms_Nil] match by blast
qed

definition row_typed :: "schema \<Rightarrow> bound_expr list \<Rightarrow> bool" where
  "row_typed schema row \<longleftrightarrow> list_all2 (\<lambda>b c. \<exists>v. evaluate b [] = Inr v \<and> of_type v (col_type c)) row schema"

lemma bind_cells_typed:
  assumes "bind_cells session schema cells row = Inr row'" "row_typed schema row" "\<forall>i \<in> set (map snd cells). i < length schema"
  shows "row_typed schema row'"
  using assms
proof (induction session schema cells row rule: bind_cells.induct)
  case (2 session schema e i cells row)
  then obtain b where b: "bind_cell session (schema ! i) e = Inr b" "bind_cells session schema cells (row[i := b]) = Inr row'"
    by auto
  have "row_typed schema (row[i := b])"
    using 2(3,4) bind_cell_typed [OF b(1)] by (auto simp: row_typed_def list_all2_conv_all_nth nth_list_update)
  then show ?case
    using 2 b by auto
qed simp

lemma target_indices_bound:
  "target_indices schema names = Inr is \<Longrightarrow> i \<in> set is \<Longrightarrow> i < length schema"
  by (induction names arbitrary: "is") (auto dest: column_index_Some)

lemma bind_row_typed:
  assumes "bind_row session schema targets row = Inr b" "\<forall>i \<in> set targets. i < length schema"
  shows "row_typed schema b"
proof -
  have b: "bind_cells session schema (zip row targets) (replicate (length schema) (BLiteral VNull)) = Inr b"
    using assms(1) by (simp add: bind_row_def split: if_splits)
  show ?thesis
  proof (rule bind_cells_typed [OF b])
    show "row_typed schema (replicate (length schema) (BLiteral VNull))"
      by (simp add: row_typed_def list_all2_conv_all_nth)
    show "\<forall>i \<in> set (map snd (zip row targets)). i < length schema"
      using assms(2) by (auto dest: set_zip_rightD)
  qed
qed

lemma bind_rows_typed:
  assumes "bind_rows session schema targets rows = Inr rows'" "\<forall>i \<in> set targets. i < length schema" "row \<in> set rows'"
  shows "row_typed schema row"
  using assms by (induction rows arbitrary: rows') (auto dest: bind_row_typed)

lemma row_typed_values:
  assumes "row_typed schema row"
  shows "\<exists>vs. list_all2 (\<lambda>b v. evaluate b [] = Inr v) row vs \<and> conforms vs schema"
  using assms unfolding row_typed_def conforms_def
proof (induction row schema rule: list_all2_induct)
  case (Cons b row c schema)
  then obtain v vs where "evaluate b [] = Inr v" "of_type v (col_type c)"
    "list_all2 (\<lambda>b v. evaluate b [] = Inr v) row vs" "list_all2 of_type vs (map col_type schema)"
    by blast
  then show ?case by (intro exI [of _ "v # vs"]) simp
qed simp

text \<open>C34: A \<open>SELECT\<close> that binds runs without a type error: on every row of the table's column types each
  projection evaluates to a value of the type the binder reports for that output column, and the
  predicate evaluates to a Boolean or \<open>NULL\<close>. No column reference is out of bounds.\<close>

theorem bound_select_type_safe:
  assumes "tables_wf c" "bind_select c session s = Inr b"
    and row: "case bs_table_id b of None \<Rightarrow> row = []
      | Some t \<Rightarrow> (\<exists>info. get_table_by_id t c = Inr info \<and> conforms row (ti_schema info))"
  shows "list_all2 (\<lambda>p t. \<exists>v. evaluate p row = Inr v \<and> has_type v t) (bs_projections b) (bs_column_types b)
    \<and> length (bs_column_names b) = length (bs_projections b)
    \<and> (\<forall>p. bs_predicate b = Some p \<longrightarrow> (\<exists>v. evaluate p row = Inr v \<and> of_type v TBoolean))"
proof -
  define schema where "schema = (case ss_from s of None \<Rightarrow> [] | Some from \<Rightarrow> ti_schema (projr (lookup_table c (tr_name from))))"
  obtain scope where items: "bind_items session schema scope (ss_items s) ([], [], []) = Inr (bs_projections b, bs_column_names b, bs_column_types b)"
    and pred: "bind_predicate session schema scope (ss_where s) = Inr (bs_predicate b)"
    and source: "(bs_table_id b = None \<and> schema = [])
      \<or> (\<exists>name info. lookup_table c name = Inr info \<and> bs_table_id b = Some (ti_table_id info) \<and> schema = ti_schema info)"
    using assms(2) unfolding bind_select_def schema_def Let_def by (cases "ss_from s") (auto, blast)
  have conf: "conforms row schema"
    using source row lookup_table_id [OF assms(1)] by (auto simp: conforms_Nil)
  note typed = bind_items_typed [OF items]
  have "\<exists>v. evaluate p row = Inr v \<and> of_type v TBoolean" if "bs_predicate b = Some p" for p
    using bind_predicate_typed [OF pred [unfolded that]] typed_inD [OF _ conf] by force
  then show ?thesis
    using typed by (auto elim!: list_all2_mono dest: typed_inD [OF _ conf])
qed

definition demo_items :: table_info where
  "demo_items = \<lparr>ti_table_id = 0, ti_name = ascii ''items'',
     ti_schema = [column_new (ascii ''id'') TInteger True, column_new (ascii ''name'') (TVarchar 10) True], ti_first_page_id = 7\<rparr>"

definition demo_catalog :: catalog_state where
  "demo_catalog = from_tables [demo_items]"

definition demo_session :: session_context where
  "demo_session = session_context_new (ascii ''db'')"

definition demo_query :: select_statement where
  "demo_query = \<lparr>ss_items = [SelWildcard, SelExpr (EIsNull (EColumn None (ascii ''name'')) False)],
     ss_from = Some \<lparr>tr_name = ascii ''items'', tr_alias = None\<rparr>,
     ss_where = Some (EBinaryOp (EColumn None (ascii ''id'')) OpLt (ELiteral (VBigInt 9)))\<rparr>"

lemma demo_catalog_wf: "tables_wf demo_catalog" "get_table (ascii ''items'') demo_catalog = Inr demo_items"
  "get_table_by_id 0 demo_catalog = Inr demo_items"
  by (auto simp: demo_catalog_def from_tables_def demo_items_def insert_table_def catalog_empty_def tables_wf_def
        get_table_def get_table_by_id_def table_by_id_def split: if_splits)

theorem bound_select_type_safe_witness:
  "\<exists>b. bind_select demo_catalog demo_session demo_query = Inr b
     \<and> list_all2 (\<lambda>p t. \<exists>v. evaluate p [VInteger 3, VNull] = Inr v \<and> has_type v t) (bs_projections b) (bs_column_types b)
     \<and> length (bs_projections b) = 3"
proof -
  obtain b where b: "bind_select demo_catalog demo_session demo_query = Inr b" "bs_table_id b = Some 0"
    "length (bs_projections b) = 3"
    by (simp add: bind_select_def demo_query_def lookup_table_def demo_catalog_wf(2) [unfolded ascii_def, simplified] wildcard_columns_def demo_items_def
          column_new_def column_index_def ascii_def bind_predicate_def bind_binary_op_def coerce_comparison_operands_def
          is_comparison_def Let_def del: and_then_eq_Inr)
  have "conforms [VInteger 3, VNull] (ti_schema demo_items)"
    by (simp add: conforms_def demo_items_def column_new_def)
  then show ?thesis
    using bound_select_type_safe [OF demo_catalog_wf(1) b(1), of "[VInteger 3, VNull]"] b demo_catalog_wf(3) by auto
qed

text \<open>C35: An \<open>INSERT\<close> that binds writes rows of the table's shape: every bound row has one expression per
  column, each evaluates without an error on the empty row, and the values have the column types,
  columns left out of the statement being \<open>NULL\<close>.\<close>

theorem bound_insert_type_safe:
  assumes "tables_wf c" "bind_insert c session s = Inr b"
  shows "\<exists>info. get_table_by_id (bi_table_id b) c = Inr info \<and>
    (\<forall>row \<in> set (bi_rows b). \<exists>vs. list_all2 (\<lambda>e v. evaluate e [] = Inr v) row vs \<and> conforms vs (ti_schema info))"
proof -
  obtain info targets where info: "lookup_table c (is_table s) = Inr info" "bi_table_id b = ti_table_id info"
    and t: "(if is_columns s = [] then Inr [0..<length (ti_schema info)] else target_indices (ti_schema info) (is_columns s)) = Inr targets"
    and rows: "bind_rows session (ti_schema info) targets (is_values s) = Inr (bi_rows b)"
    using assms(2) unfolding bind_insert_def Let_def by auto
  have "\<forall>i \<in> set targets. i < length (ti_schema info)"
    using t by (auto split: if_splits intro: target_indices_bound)
  then show ?thesis
    using lookup_table_id [OF assms(1) info(1)] info(2) row_typed_values [OF bind_rows_typed [OF rows]] by auto
qed

theorem bound_insert_type_safe_witness:
  "\<exists>b. bind_insert demo_catalog demo_session
      \<lparr>is_table = ascii ''items'', is_columns = [ascii ''id''], is_values = [[ELiteral (VBigInt 5)]]\<rparr> = Inr b
     \<and> bi_rows b = [[BLiteral (VInteger 5), BLiteral VNull]]
     \<and> (\<forall>row \<in> set (bi_rows b). \<exists>vs. list_all2 (\<lambda>e v. evaluate e [] = Inr v) row vs \<and> conforms vs (ti_schema demo_items))"
proof -
  let ?s = "\<lparr>is_table = ascii ''items'', is_columns = [ascii ''id''], is_values = [[ELiteral (VBigInt 5)]]\<rparr>"
  have b: "bind_insert demo_catalog demo_session ?s = Inr \<lparr>bi_table_id = 0, bi_rows = [[BLiteral (VInteger 5), BLiteral VNull]]\<rparr>"
    by (simp add: bind_insert_def lookup_table_def demo_catalog_wf(2) [unfolded ascii_def, simplified] demo_items_def ascii_def
          column_new_def column_index_def bind_row_def bind_cell_def del: and_then_eq_Inr)
  show ?thesis
    using bound_insert_type_safe [OF demo_catalog_wf(1) b] b demo_catalog_wf(3) by auto
qed

text \<open>C36: A negative number cannot be written into an \<open>INTEGER\<close> column, nor compared with one. Number
  literals are \<open>BIGINT\<close>, the parser keeps a minus sign as an operator, and the conversion to the
  column's type is applied to plain literals only, so both forms are rejected as type mismatches
  whatever the number is.\<close>

theorem negative_integer_rejected:
  "bind_cell session \<lparr>col_name = name, col_type = TInteger, col_nullable = nullable\<rparr> (EUnaryOp OpNegate (ELiteral (VBigInt n)))
     = Inl (ExprTypeMismatch (ColumnExpects name TInteger TBigInt))
   \<and> bind_expr session [\<lparr>col_name = name, col_type = TInteger, col_nullable = nullable\<rparr>] None
       (EBinaryOp (EColumn None name) OpEq (EUnaryOp OpNegate (ELiteral (VBigInt n))))
     = Inl (ExprTypeMismatch (CannotCompare TInteger TBigInt))"
  by (simp add: bind_cell_def is_numeric_def column_index_def bind_binary_op_def coerce_comparison_operands_def is_comparison_def
        del: and_then_eq_Inr)

end
