(* ===== verification/Planner.thy ===== *)
theory Planner
  imports Expression Memcomparable
begin

text \<open>
  Plans and the optimiser: \<open>planner/src/plan.rs\<close>, \<open>logical_plan.rs\<close>, \<open>physical_plan.rs\<close> and
  \<open>optimizer.rs\<close>. The index-scan rule turns the comparisons of a filter into a range of encoded keys;
  the lemmas show that a row that passes the filter has its key in that range.
  \<open>plan\<close> panics on an \<open>EXPLAIN\<close> wrapper, which the engine takes off before planning: \<open>None\<close>.
\<close>

section \<open>Plans\<close>

datatype logical_plan =
    LOneRow
  | LSeqScan table_id
  | LIndexScan index_id table_id "bytes option" "bytes option"
  | LFilter bound_expr logical_plan
  | LProjection "bound_expr list" logical_plan
  | LJoin logical_plan logical_plan bound_expr
  | LInsert table_id "bound_expr list list"
  | LCreateTable bytes "bound_column_def list"
  | LCreateIndex bytes table_id nat

datatype physical_plan =
    POneRow
  | PSeqScan table_id
  | PIndexScan index_id table_id "bytes option" "bytes option"
  | PFilter bound_expr physical_plan
  | PProjection "bound_expr list" physical_plan
  | PNestedLoopJoin physical_plan physical_plan bound_expr
  | PInsert table_id "bound_expr list list"
  | PCreateTable bytes "bound_column_def list"
  | PCreateIndex bytes table_id nat

fun plan :: "bound_statement \<Rightarrow> logical_plan option" where
  "plan (BSelect s) =
     (let scan = (case bs_table_id s of Some t \<Rightarrow> LSeqScan t | None \<Rightarrow> LOneRow);
          input = (case bs_predicate s of Some p \<Rightarrow> LFilter p scan | None \<Rightarrow> scan) in
      Some (LProjection (bs_projections s) input))"
| "plan (BInsert s) = Some (LInsert (bi_table_id s) (bi_rows s))"
| "plan (BCreateTable s) = Some (LCreateTable (bct_table_name s) (bct_columns s))"
| "plan (BCreateIndex s) = Some (LCreateIndex (bci_index_name s) (bci_table_id s) (bci_column_index s))"
| "plan (BExplain _ _) = None"

fun to_physical :: "logical_plan \<Rightarrow> physical_plan" where
  "to_physical LOneRow = POneRow"
| "to_physical (LSeqScan t) = PSeqScan t"
| "to_physical (LIndexScan i t s e) = PIndexScan i t s e"
| "to_physical (LFilter p i) = PFilter p (to_physical i)"
| "to_physical (LProjection es i) = PProjection es (to_physical i)"
| "to_physical (LJoin l r p) = PNestedLoopJoin (to_physical l) (to_physical r) p"
| "to_physical (LInsert t rows) = PInsert t rows"
| "to_physical (LCreateTable n cols) = PCreateTable n cols"
| "to_physical (LCreateIndex n t i) = PCreateIndex n t i"

section \<open>The optimiser\<close>

type_synonym optimizer_rule = "logical_plan \<Rightarrow> catalog_state \<Rightarrow> logical_plan"

definition apply_rules :: "optimizer_rule list \<Rightarrow> catalog_state \<Rightarrow> logical_plan \<Rightarrow> logical_plan" where
  "apply_rules rules c p = foldl (\<lambda>p rule. rule p c) p rules"

fun optimize :: "optimizer_rule list \<Rightarrow> catalog_state \<Rightarrow> logical_plan \<Rightarrow> logical_plan" where
  "optimize rules c (LFilter p i) = apply_rules rules c (LFilter p (optimize rules c i))"
| "optimize rules c (LProjection es i) = apply_rules rules c (LProjection es (optimize rules c i))"
| "optimize rules c (LJoin l r p) = apply_rules rules c (LJoin (optimize rules c l) (optimize rules c r) p)"
| "optimize rules c leaf = apply_rules rules c leaf"

fun flatten_and_conjuncts :: "bound_expr \<Rightarrow> bound_expr list" where
  "flatten_and_conjuncts (BBinaryOp l op r t) =
     (if op = OpAnd then flatten_and_conjuncts l @ flatten_and_conjuncts r else [BBinaryOp l op r t])"
| "flatten_and_conjuncts e = [e]"

fun column_and_literal :: "bound_expr \<Rightarrow> (nat \<times> binary_operator \<times> val) option" where
  "column_and_literal (BBinaryOp (BColumnRef i _) op (BLiteral v) _) =
     (if op \<in> {OpEq, OpLt, OpLtEq, OpGt, OpGtEq} then Some (i, op, v) else None)"
| "column_and_literal _ = None"

definition successor :: "bytes \<Rightarrow> bytes" where
  "successor bs = bs @ [0]"

type_synonym key_range = "bytes option \<times> bytes option"

definition candidate_range :: "binary_operator \<Rightarrow> bytes \<Rightarrow> key_range" where
  "candidate_range op encoded =
     (if op = OpEq then (Some encoded, Some (successor encoded))
      else if op = OpLt then (None, Some encoded)
      else if op = OpLtEq then (None, Some (successor encoded))
      else if op = OpGt then (Some (successor encoded), None)
      else (Some encoded, None))"

definition tighten :: "key_range \<Rightarrow> key_range \<Rightarrow> key_range" where
  "tighten rng candidate =
     ((case fst candidate of
         None \<Rightarrow> fst rng
       | Some s \<Rightarrow> Some (case fst rng of Some current \<Rightarrow> if current \<ge> s then current else s | None \<Rightarrow> s)),
      (case snd candidate of
         None \<Rightarrow> snd rng
       | Some e \<Rightarrow> Some (case snd rng of Some current \<Rightarrow> if current \<le> e then current else e | None \<Rightarrow> e)))"

definition narrow :: "nat \<Rightarrow> key_range \<Rightarrow> bound_expr \<Rightarrow> key_range" where
  "narrow target rng expr =
     (case column_and_literal expr of
        None \<Rightarrow> rng
      | Some (i, op, v) \<Rightarrow>
          if i \<noteq> target then rng
          else (case encode_memcomparable v [] of
                  Inl _ \<Rightarrow> rng
                | Inr encoded \<Rightarrow> tighten rng (candidate_range op encoded)))"

definition index_scan_bounds ::
    "bound_expr \<Rightarrow> table_id \<Rightarrow> catalog_state \<Rightarrow> (index_id \<times> bytes option \<times> bytes option) option" where
  "index_scan_bounds predicate t c =
     (let conjuncts = flatten_and_conjuncts predicate in
      Option.bind
        (find_map (\<lambda>expr. Option.bind (column_and_literal expr) (\<lambda>(i, _, _).
           map_option (\<lambda>info. (i, ii_index_id info)) (index_for_column t i c))) conjuncts)
        (\<lambda>(target, index). Some (index, foldl (narrow target) (None, None) conjuncts)))"

fun index_scan_rule :: optimizer_rule where
  "index_scan_rule (LFilter p (LSeqScan t)) c =
     (case index_scan_bounds p t c of
        Some (i, s, e) \<Rightarrow> LFilter p (LIndexScan i t s e)
      | None \<Rightarrow> LFilter p (LSeqScan t))"
| "index_scan_rule other c = other"

section \<open>Rows that pass the filter lie in the range\<close>

definition in_range :: "key_range \<Rightarrow> bytes \<Rightarrow> bool" where
  "in_range rng k \<longleftrightarrow>
     (case fst rng of None \<Rightarrow> True | Some s \<Rightarrow> s \<le> k) \<and> (case snd rng of None \<Rightarrow> True | Some e \<Rightarrow> k < e)"

lemma less_successor: "k < successor xs \<longleftrightarrow> k \<le> (xs :: bytes)"
proof (induction xs arbitrary: k)
  case Nil
  show ?case by (cases k) (auto simp: successor_def)
next
  case (Cons x xs)
  then show ?case by (cases k) (auto simp: successor_def)
qed

lemma successor_le: "successor xs \<le> k \<longleftrightarrow> xs < (k :: bytes)"
  using less_successor [of k xs] by (simp add: not_less [symmetric])

lemma in_range_tighten: "in_range rng k \<Longrightarrow> in_range candidate k \<Longrightarrow> in_range (tighten rng candidate) k"
  by (auto simp: in_range_def tighten_def split: option.splits)

lemma candidate_covers:
  assumes "cmp k encoded = ord" "matches_comparison op ord" "op \<in> {OpEq, OpLt, OpLtEq, OpGt, OpGtEq}"
  shows "in_range (candidate_range op encoded) k"
  using assms by (auto simp: candidate_range_def in_range_def less_successor successor_le cmp_def split: if_splits)

lemma three_valued_and_True: "three_valued_and v w = Inr (VBoolean True) \<Longrightarrow> v = VBoolean True \<and> w = VBoolean True"
  by (cases v; cases w) (auto simp: three_valued_and_def split: if_splits)

lemma conjuncts_true:
  "evaluate p row = Inr (VBoolean True) \<Longrightarrow> e \<in> set (flatten_and_conjuncts p) \<Longrightarrow> evaluate e row = Inr (VBoolean True)"
proof (induction p rule: flatten_and_conjuncts.induct)
  case (1 l op r t)
  show ?case
  proof (cases "op = OpAnd")
    case True
    then obtain v w where "evaluate l row = Inr v" "evaluate r row = Inr w" "three_valued_and v w = Inr (VBoolean True)"
      using 1(3) by auto
    then show ?thesis using 1 True three_valued_and_True [of v w] by auto
  qed (use 1 in simp)
qed auto

lemma column_and_literal_Some:
  assumes "column_and_literal e = Some (i, op, v)" "evaluate e row = Inr (VBoolean True)"
  shows "\<exists>k encoded. i < length row \<and> encode_memcomparable (row ! i) [] = Inr k
    \<and> encode_memcomparable v [] = Inr encoded \<and> in_range (candidate_range op encoded) k"
proof -
  obtain ct t where e: "e = BBinaryOp (BColumnRef i ct) op (BLiteral v) t" and op: "op \<in> {OpEq, OpLt, OpLtEq, OpGt, OpGtEq}"
    using assms(1) by (cases e rule: column_and_literal.cases) (auto split: if_splits)
  have i: "i < length row" and c: "evaluate_comparison op (row ! i) v = Inr (VBoolean True)"
    using assms(2) op unfolding e by (auto simp: is_comparison_def split: if_splits)
  obtain ord where ord: "compare_values (row ! i) v = Inr (Some ord)" "matches_comparison op ord"
    using c by (auto simp: evaluate_comparison_def split: sum.splits option.splits)
  obtain k encoded where "encode_memcomparable (row ! i) [] = Inr k" "encode_memcomparable v [] = Inr encoded" "cmp k encoded = ord"
    using encode_memcomparable_cmp [OF ord(1)] by blast
  then show ?thesis
    using i candidate_covers [OF _ ord(2) op] by blast
qed

lemma narrow_covers:
  assumes k: "encode_memcomparable (row ! target) [] = Inr k" and "in_range rng k"
    and "\<forall>e \<in> set es. evaluate e row = Inr (VBoolean True)"
  shows "in_range (foldl (narrow target) rng es) k"
  using assms(2,3)
proof (induction es arbitrary: rng)
  case (Cons e es)
  have "in_range (narrow target rng e) k"
  proof (cases "column_and_literal e")
    case (Some x)
    then obtain i op v where c: "column_and_literal e = Some (i, op, v)"
      by (cases x) auto
    show ?thesis
    proof (cases "i = target")
      case True
      then obtain encoded where "encode_memcomparable v [] = Inr encoded" "in_range (candidate_range op encoded) k"
        using column_and_literal_Some [OF c, of row] Cons.prems k by auto
      then show ?thesis
        using Cons.prems True by (simp add: narrow_def c in_range_tighten)
    qed (use Cons.prems in \<open>simp add: narrow_def c\<close>)
  qed (use Cons.prems in \<open>simp add: narrow_def\<close>)
  then show ?case using Cons by simp
qed simp

lemma index_scan_bounds_cover:
  assumes wf: "indexes_wf c" and b: "index_scan_bounds p t c = Some (i, rng)"
    and row: "evaluate p row = Inr (VBoolean True)"
  shows "\<exists>info k. index_named c i = Some info \<and> ii_table_id info = t \<and> ii_column_index info < length row
    \<and> encode_memcomparable (row ! ii_column_index info) [] = Inr k \<and> in_range rng k"
proof -
  let ?es = "flatten_and_conjuncts p"
  obtain target where f: "find_map (\<lambda>expr. Option.bind (column_and_literal expr) (\<lambda>(i, _, _).
      map_option (\<lambda>info. (i, ii_index_id info)) (index_for_column t i c))) ?es = Some (target, i)"
    and rng: "rng = foldl (narrow target) (None, None) ?es"
    using b by (auto simp: index_scan_bounds_def Let_def bind_eq_Some_conv)
  obtain e op v info where e: "e \<in> set ?es" "column_and_literal e = Some (target, op, v)"
    and info: "index_for_column t target c = Some info" "i = ii_index_id info"
    using find_map_Some [OF f] by (auto simp: bind_eq_Some_conv split: prod.splits)
  note true = conjuncts_true [OF row]
  obtain k where k: "target < length row" "encode_memcomparable (row ! target) [] = Inr k"
    using column_and_literal_Some [OF e(2) true [OF e(1)]] by blast
  have "in_range rng k"
    unfolding rng using true by (intro narrow_covers [OF k(2)]) (auto simp: in_range_def)
  then show ?thesis
    using index_for_column_Some [OF wf info(1)] k info(2) by auto
qed

text \<open>C37: The index-scan rule loses no row. Where it replaces a sequential scan under a filter, the index is one
  on the scanned table, and every row on which the filter is true has its indexed value encoded
  to a key inside the range the index scan reads.\<close>

theorem index_scan_keeps_rows:
  assumes "indexes_wf c" "index_scan_rule (LFilter p (LSeqScan t)) c = LFilter p (LIndexScan i t' s e)"
    "evaluate p row = Inr (VBoolean True)"
  shows "t' = t \<and> (\<exists>info k. index_by_id i c = Inr info \<and> ii_table_id info = t \<and> ii_column_index info < length row
    \<and> encode_memcomparable (row ! ii_column_index info) [] = Inr k \<and> in_range (s, e) k)"
proof -
  have b: "index_scan_bounds p t c = Some (i, s, e)" and t: "t' = t"
    using assms(2) by (auto split: option.splits)
  show ?thesis
    using index_scan_bounds_cover [OF assms(1) b assms(3)] t
    by (auto simp: index_named_def index_by_id_def bind_eq_Some_conv)
qed

definition demo_index :: index_info where
  "demo_index = index_info_new 0 (ascii ''items_id'') 0 0 9 (8, 0) 20"

definition demo_indexed :: catalog_state where
  "demo_indexed = from_tables_and_indexes [demo_items] [demo_index]"

definition demo_predicate :: bound_expr where
  "demo_predicate = BBinaryOp (BBinaryOp (BColumnRef 0 TInteger) OpLt (BLiteral (VInteger 9)) TBoolean) OpAnd
     (BBinaryOp (BColumnRef 0 TInteger) OpGt (BLiteral (VInteger 2)) TBoolean) TBoolean"

lemma demo_indexed_wf: "indexes_wf demo_indexed"
proof -
  have "indexes_wf (insert_index demo_index (insert_table demo_items catalog_empty))"
    by (rule insert_index_wf) (simp_all add: catalog_empty_wf, simp_all add: insert_table_def catalog_empty_def demo_index_def index_info_new_def)
  then show ?thesis
    by (simp add: demo_indexed_def from_tables_and_indexes_def from_tables_def)
qed

theorem index_scan_keeps_rows_witness:
  "\<exists>s e. index_scan_rule (LFilter demo_predicate (LSeqScan 0)) demo_indexed = LFilter demo_predicate (LIndexScan 0 0 s e)
     \<and> (\<exists>info k. index_by_id 0 demo_indexed = Inr info \<and> ii_column_index info < 2
         \<and> encode_memcomparable ([VInteger 3, VNull] ! ii_column_index info) [] = Inr k \<and> in_range (s, e) k)"
proof -
  have l: "index_for_column 0 0 demo_indexed = Some demo_index"
    by (simp add: demo_indexed_def from_tables_and_indexes_def from_tables_def insert_index_def insert_table_def catalog_empty_def
          index_for_column_def index_named_def demo_index_def index_info_new_def)
  obtain s e where n: "foldl (narrow 0) (None, None) (flatten_and_conjuncts demo_predicate) = (s, e)"
    by fastforce
  have r: "index_scan_rule (LFilter demo_predicate (LSeqScan 0)) demo_indexed = LFilter demo_predicate (LIndexScan 0 0 s e)"
    using n by (simp add: demo_predicate_def index_scan_bounds_def l) (simp add: demo_index_def index_info_new_def)
  have v: "evaluate demo_predicate [VInteger 3, VNull] = Inr (VBoolean True)"
    by (simp add: demo_predicate_def is_comparison_def evaluate_comparison_def three_valued_and_def cmp_def del: and_then_eq_Inr)
  show ?thesis
    using index_scan_keeps_rows [OF demo_indexed_wf r v] r by auto
qed

section \<open>The optimiser only replaces scans\<close>

fun erase_index_scans :: "logical_plan \<Rightarrow> logical_plan" where
  "erase_index_scans (LIndexScan i t s e) = LSeqScan t"
| "erase_index_scans (LFilter p i) = LFilter p (erase_index_scans i)"
| "erase_index_scans (LProjection es i) = LProjection es (erase_index_scans i)"
| "erase_index_scans (LJoin l r p) = LJoin (erase_index_scans l) (erase_index_scans r) p"
| "erase_index_scans leaf = leaf"

lemma index_scan_rule_erase: "erase_index_scans (index_scan_rule p c) = erase_index_scans p"
  by (induction p c rule: index_scan_rule.induct) (auto split: option.splits)

lemma optimize_erase: "erase_index_scans (optimize [index_scan_rule] c p) = erase_index_scans p"
  by (induction "[index_scan_rule]" c p rule: optimize.induct) (simp_all add: apply_rules_def index_scan_rule_erase)

lemma plan_has_no_index_scan: "plan b = Some p \<Longrightarrow> erase_index_scans p = p"
  by (cases b) (auto simp: Let_def split: option.splits)

end
