(* ===== verification/Parameters.thy ===== *)
theory Parameters
  imports Binder
begin

text \<open>
  Statement parameters, \<open>planner/src/parameters.rs\<close>: inferring a type for every \<open>$n\<close> of a prepared
  statement and replacing the parameters by values. The lemmas relate the two passes: both walk the
  same occurrences (except in the surplus values of an INSERT row, which inference does not look at
  and the binder rejects), so the inferred list has one entry for each value the substitution asks
  for, and a substituted statement has no parameter left for the binder to reject.
\<close>

type_synonym parameter_types = "(u32, data_type option) fmap"

section \<open>Inference\<close>

definition record_parameter :: "u32 \<Rightarrow> data_type option \<Rightarrow> parameter_types \<Rightarrow> parameter_types" where
  "record_parameter i t types =
     (case fmlookup types i of
        Some (Some t') \<Rightarrow> types
      | _ \<Rightarrow> fmupd i t types)"

fun column_type :: "expr \<Rightarrow> schema option \<Rightarrow> bytes option \<Rightarrow> data_type option" where
  "column_type (EColumn table name) schema scope =
     (case schema of
        None \<Rightarrow> None
      | Some s \<Rightarrow> if table \<noteq> None \<and> scope \<noteq> table then None
                  else map_option (\<lambda>i. col_type (s ! i)) (column_index s name))"
| "column_type _ _ _ = None"

fun parameter_index :: "expr \<Rightarrow> u32 option" where
  "parameter_index (EParameter i) = Some i"
| "parameter_index _ = None"

fun collect_expr :: "schema option \<Rightarrow> bytes option \<Rightarrow> expr \<Rightarrow> parameter_types \<Rightarrow> parameter_types" where
  "collect_expr schema scope (EParameter i) types = record_parameter i None types"
| "collect_expr schema scope (EUnaryOp op e) types = collect_expr schema scope e types"
| "collect_expr schema scope (EIsNull e negated) types = collect_expr schema scope e types"
| "collect_expr schema scope (EBinaryOp l op r) types =
     (let types = (case parameter_index l of
            Some i \<Rightarrow> record_parameter i (column_type r schema scope) types
          | None \<Rightarrow> collect_expr schema scope l types) in
      case parameter_index r of
        Some i \<Rightarrow> record_parameter i (column_type l schema scope) types
      | None \<Rightarrow> collect_expr schema scope r types)"
| "collect_expr schema scope _ types = types"

definition collect_item :: "schema option \<Rightarrow> bytes option \<Rightarrow> select_item \<Rightarrow> parameter_types \<Rightarrow> parameter_types" where
  "collect_item schema scope item types =
     (case item of SelExpr e \<Rightarrow> collect_expr schema scope e types | SelWildcard \<Rightarrow> types)"

definition collect_select ::
    "catalog_state \<Rightarrow> select_statement \<Rightarrow> parameter_types \<Rightarrow> planner_error + parameter_types" where
  "collect_select c s types =
     and_then (case ss_from s of
         None \<Rightarrow> Inr None
       | Some from \<Rightarrow> and_then (lookup_table c (tr_name from)) (\<lambda>t. Inr (Some (ti_schema t)))) (\<lambda>schema.
       let scope = map_option (\<lambda>from. case tr_alias from of None \<Rightarrow> tr_name from | Some a \<Rightarrow> a) (ss_from s);
           types = fold (collect_item schema scope) (ss_items s) types in
       Inr (case ss_where s of None \<Rightarrow> types | Some e \<Rightarrow> collect_expr schema scope e types))"

definition collect_cell :: "schema \<Rightarrow> expr \<times> nat \<Rightarrow> parameter_types \<Rightarrow> parameter_types" where
  "collect_cell schema cell types =
     (case parameter_index (fst cell) of
        Some i \<Rightarrow> record_parameter i (Some (col_type (schema ! snd cell))) types
      | None \<Rightarrow> collect_expr None None (fst cell) types)"

definition collect_insert ::
    "catalog_state \<Rightarrow> insert_statement \<Rightarrow> parameter_types \<Rightarrow> planner_error + parameter_types" where
  "collect_insert c s types =
     and_then (lookup_table c (is_table s)) (\<lambda>table.
       let schema = ti_schema table in
       and_then (if is_columns s = [] then Inr [0..<length schema] else target_indices schema (is_columns s)) (\<lambda>targets.
         Inr (fold (\<lambda>row. fold (collect_cell schema) (zip row targets)) (is_values s) types)))"

fun collect_statement :: "catalog_state \<Rightarrow> statement \<Rightarrow> parameter_types \<Rightarrow> planner_error + parameter_types" where
  "collect_statement c (StSelect s) types = collect_select c s types"
| "collect_statement c (StInsert s) types = collect_insert c s types"
| "collect_statement c (StExplain _ inner) types = collect_statement c inner types"
| "collect_statement c _ types = Inr types"

fun finalize_from :: "parameter_types \<Rightarrow> u32 list \<Rightarrow> planner_error + data_type option list" where
  "finalize_from types [] = Inr []"
| "finalize_from types (i # is) =
     (case fmlookup types i of
        Some t \<Rightarrow> and_then (finalize_from types is) (\<lambda>ts. Inr (t # ts))
      | None \<Rightarrow> Inl (UndefinedParameter i))"

definition indices_to :: "u32 \<Rightarrow> u32 list" where
  "indices_to m = map of_nat [1..<Suc (unat m)]"

definition finalize :: "parameter_types \<Rightarrow> planner_error + data_type option list" where
  "finalize types =
     (let keys = fset (fmdom types) in
      if keys = {} then Inr [] else finalize_from types (indices_to (Max keys)))"

definition infer_parameter_types :: "statement \<Rightarrow> catalog_state \<Rightarrow> planner_error + data_type option list" where
  "infer_parameter_types st c = and_then (collect_statement c st fmempty) finalize"

section \<open>Substitution\<close>

fun scan_expr :: "expr \<Rightarrow> u32 \<Rightarrow> u32" where
  "scan_expr (EParameter i) m = (if i > m then i else m)"
| "scan_expr (EUnaryOp op e) m = scan_expr e m"
| "scan_expr (EIsNull e negated) m = scan_expr e m"
| "scan_expr (EBinaryOp l op r) m = scan_expr r (scan_expr l m)"
| "scan_expr _ m = m"

definition scan_item :: "select_item \<Rightarrow> u32 \<Rightarrow> u32" where
  "scan_item item m = (case item of SelExpr e \<Rightarrow> scan_expr e m | SelWildcard \<Rightarrow> m)"

fun scan_statement :: "statement \<Rightarrow> u32 \<Rightarrow> u32" where
  "scan_statement (StSelect s) m =
     (let m = fold scan_item (ss_items s) m in case ss_where s of None \<Rightarrow> m | Some e \<Rightarrow> scan_expr e m)"
| "scan_statement (StInsert s) m = fold (fold scan_expr) (is_values s) m"
| "scan_statement (StExplain _ inner) m = scan_statement inner m"
| "scan_statement _ m = m"

definition max_parameter_index :: "statement \<Rightarrow> u32" where
  "max_parameter_index st = scan_statement st 0"

fun substitute_expr :: "val list \<Rightarrow> expr \<Rightarrow> expr" where
  "substitute_expr vs (EParameter i) = ELiteral (vs ! unat (i - 1))"
| "substitute_expr vs (EBinaryOp l op r) = EBinaryOp (substitute_expr vs l) op (substitute_expr vs r)"
| "substitute_expr vs (EUnaryOp op e) = EUnaryOp op (substitute_expr vs e)"
| "substitute_expr vs (EIsNull e negated) = EIsNull (substitute_expr vs e) negated"
| "substitute_expr vs e = e"

fun substitute_item :: "val list \<Rightarrow> select_item \<Rightarrow> select_item" where
  "substitute_item vs SelWildcard = SelWildcard"
| "substitute_item vs (SelExpr e) = SelExpr (substitute_expr vs e)"

definition substitute_select :: "val list \<Rightarrow> select_statement \<Rightarrow> select_statement" where
  "substitute_select vs s =
     \<lparr>ss_items = map (substitute_item vs) (ss_items s), ss_from = ss_from s, ss_where = map_option (substitute_expr vs) (ss_where s)\<rparr>"

definition substitute_insert :: "val list \<Rightarrow> insert_statement \<Rightarrow> insert_statement" where
  "substitute_insert vs s =
     \<lparr>is_table = is_table s, is_columns = is_columns s, is_values = map (map (substitute_expr vs)) (is_values s)\<rparr>"

fun substitute_statement :: "val list \<Rightarrow> statement \<Rightarrow> statement" where
  "substitute_statement vs (StSelect s) = StSelect (substitute_select vs s)"
| "substitute_statement vs (StInsert s) = StInsert (substitute_insert vs s)"
| "substitute_statement vs (StExplain verbose inner) = StExplain verbose (substitute_statement vs inner)"
| "substitute_statement vs st = st"

definition substitute_parameters :: "statement \<Rightarrow> val list \<Rightarrow> planner_error + statement" where
  "substitute_parameters st vs =
     (let expected = unat (max_parameter_index st) in
      if expected \<noteq> length vs then Inl (ParameterCountMismatch expected (length vs))
      else Inr (substitute_statement vs st))"

section \<open>The parameters of a statement\<close>

fun expr_params :: "expr \<Rightarrow> u32 set" where
  "expr_params (EParameter i) = {i}"
| "expr_params (EBinaryOp l op r) = expr_params l \<union> expr_params r"
| "expr_params (EUnaryOp op e) = expr_params e"
| "expr_params (EIsNull e negated) = expr_params e"
| "expr_params _ = {}"

fun item_params :: "select_item \<Rightarrow> u32 set" where
  "item_params (SelExpr e) = expr_params e"
| "item_params SelWildcard = {}"

fun statement_params :: "statement \<Rightarrow> u32 set" where
  "statement_params (StSelect s) =
     (\<Union>i \<in> set (ss_items s). item_params i) \<union> (case ss_where s of None \<Rightarrow> {} | Some e \<Rightarrow> expr_params e)"
| "statement_params (StInsert s) = (\<Union>row \<in> set (is_values s). \<Union>e \<in> set row. expr_params e)"
| "statement_params (StExplain _ inner) = statement_params inner"
| "statement_params _ = {}"

lemma finite_expr_params [simp]: "finite (expr_params e)"
  by (induction e) auto

lemma finite_item_params [simp]: "finite (item_params i)"
  by (cases i) auto

lemma finite_statement_params [simp]: "finite (statement_params st)"
  by (induction st) (auto split: option.splits)

text \<open>A scan folds the maximum over the parameters it meets.\<close>

definition max_over :: "u32 set \<Rightarrow> u32 \<Rightarrow> u32" where
  "max_over A m = Max (insert m A)"

lemma max_over_empty [simp]: "max_over {} m = m"
  by (simp add: max_over_def)

lemma max_over_union: "finite A \<Longrightarrow> finite B \<Longrightarrow> max_over B (max_over A m) = max_over (A \<union> B) m"
  by (cases "A = {}"; cases "B = {}") (auto simp: max_over_def Max_insert Max.union max.assoc max.commute max.left_commute)

lemma scan_expr_max: "scan_expr e m = max_over (expr_params e) m"
  by (induction e arbitrary: m) (auto simp: max_over_union, auto simp: max_over_def)

lemma fold_max_over:
  assumes "\<And>x m. x \<in> set xs \<Longrightarrow> f x m = max_over (A x) m" "\<And>x. x \<in> set xs \<Longrightarrow> finite (A x)"
  shows "fold f xs m = max_over (\<Union>x \<in> set xs. A x) m"
  using assms by (induction xs arbitrary: m) (auto simp: max_over_union)

lemma scan_statement_max: "scan_statement st m = max_over (statement_params st) m"
proof (induction st arbitrary: m)
  case (StSelect s)
  have "fold scan_item (ss_items s) m = max_over (\<Union>i \<in> set (ss_items s). item_params i) m" for m
    by (rule fold_max_over) (auto simp: scan_item_def scan_expr_max split: select_item.splits)
  then show ?case by (auto simp: scan_expr_max max_over_union split: option.splits)
next
  case (StInsert s)
  have "fold scan_expr row m = max_over (\<Union>e \<in> set row. expr_params e) m" for row m
    by (rule fold_max_over) (auto simp: scan_expr_max)
  then have "fold (fold scan_expr) (is_values s) m = max_over (\<Union>row \<in> set (is_values s). \<Union>e \<in> set row. expr_params e) m"
    by (intro fold_max_over) (auto simp: scan_expr_max)
  then show ?case by simp
qed auto

section \<open>No parameter is left\<close>

lemma substitute_expr_params: "expr_params (substitute_expr vs e) = {}"
  by (induction e) auto

lemma substitute_statement_params: "statement_params (substitute_statement vs st) = {}"
proof (induction st)
  case (StSelect s)
  have "item_params (substitute_item vs i) = {}" for i
    by (cases i) (auto simp: substitute_expr_params)
  then show ?case
    by (auto simp: substitute_select_def substitute_expr_params split: option.splits)
qed (auto simp: substitute_insert_def substitute_expr_params)

definition parameters_defined :: "planner_error + 'a \<Rightarrow> bool" where
  "parameters_defined r \<longleftrightarrow> (\<forall>i. r \<noteq> Inl (UndefinedParameter i))"

named_theorems defined_intros \<open>results that are not an undefined parameter\<close>

lemma defined_and_then [defined_intros]:
  "parameters_defined r \<Longrightarrow> (\<And>x. r = Inr x \<Longrightarrow> parameters_defined (f x)) \<Longrightarrow> parameters_defined (and_then r f)"
  by (cases r) (auto simp: parameters_defined_def)

lemma defined_simps [simp]:
  "parameters_defined (Inr x)" "parameters_defined (Inl e) \<longleftrightarrow> (\<forall>i. e \<noteq> UndefinedParameter i)"
  "parameters_defined (ok_or v e) \<longleftrightarrow> v \<noteq> None \<or> (\<forall>i. e \<noteq> UndefinedParameter i)"
  by (cases v; auto simp: parameters_defined_def)+

lemma defined_unary [defined_intros]: "parameters_defined (bind_unary_op op bt)"
  by (cases op; cases bt) (auto intro!: defined_intros split: option.splits)

lemma defined_coerce [defined_intros]: "parameters_defined (coerce_literal_to_column v t n)"
  by (cases "(v, t, n)" rule: coerce_literal_to_column.cases) auto

lemma defined_operands [defined_intros]: "parameters_defined (coerce_comparison_operands l r schema)"
  by (auto simp: coerce_comparison_operands_def intro!: defined_intros split: bound_expr.splits)

lemma defined_binary [defined_intros]: "parameters_defined (bind_binary_op l op r schema)"
  unfolding bind_binary_op_def require_boolean_def
  by (auto intro!: defined_intros split: option.splits prod.splits)

lemma defined_expr [defined_intros]: "expr_params e = {} \<Longrightarrow> parameters_defined (bind_expr session schema scope e)"
  by (induction e) (auto simp: Let_def intro!: defined_intros split: prod.splits)

lemma defined_lookup [defined_intros]: "parameters_defined (lookup_table c name)"
  by (auto simp: lookup_table_def split: sum.splits)

lemma defined_items [defined_intros]:
  "\<forall>i \<in> set items. item_params i = {} \<Longrightarrow> parameters_defined (bind_items session schema scope items cols)"
  by (induction session schema scope items cols rule: bind_items.induct) (auto intro!: defined_intros split: prod.splits)

lemma defined_select:
  "statement_params (StSelect s) = {} \<Longrightarrow> parameters_defined (bind_select c session s)"
  unfolding bind_select_def bind_predicate_def Let_def
  by (auto intro!: defined_intros split: option.splits prod.splits)

lemma defined_cells [defined_intros]:
  "\<forall>cell \<in> set cells. expr_params (fst cell) = {} \<Longrightarrow> parameters_defined (bind_cells session schema cells row)"
  by (induction session schema cells row rule: bind_cells.induct)
    (auto simp: bind_cell_def intro!: defined_intros split: option.splits prod.splits bound_expr.splits)

lemma defined_rows [defined_intros]:
  "\<forall>row \<in> set rows. \<forall>e \<in> set row. expr_params e = {} \<Longrightarrow> parameters_defined (bind_rows session schema targets rows)"
  by (induction rows) (auto simp: bind_row_def intro!: defined_intros dest: set_zip_leftD)

lemma defined_targets [defined_intros]: "parameters_defined (target_indices schema names)"
  by (induction names) (auto intro!: defined_intros)

lemma defined_insert:
  "statement_params (StInsert s) = {} \<Longrightarrow> parameters_defined (bind_insert c session s)"
  unfolding bind_insert_def Let_def
  by (auto intro!: defined_intros)

lemma defined_bind:
  "statement_params st = {} \<Longrightarrow> bind c session st = Some r \<Longrightarrow> parameters_defined r"
proof (induction st arbitrary: r)
  case (StSelect s)
  then show ?case using defined_select [of s c session] by (auto intro!: defined_and_then)
next
  case (StInsert s)
  then show ?case using defined_insert [of s c session] by (auto intro!: defined_and_then)
qed (auto simp: bind_create_index_def intro!: defined_intros)

section \<open>Inference meets every parameter\<close>

lemma dom_record [simp]: "fset (fmdom (record_parameter i t types)) = insert i (fset (fmdom types))"
  by (auto simp: record_parameter_def fmlookup_dom_iff split: option.splits)

lemma collect_expr_dom: "fset (fmdom (collect_expr schema scope e types)) = fset (fmdom types) \<union> expr_params e"
proof (induction e arbitrary: types)
  case (EBinaryOp l op r)
  have "expr_params e = {i}" if "parameter_index e = Some i" for e i
    using that by (cases e) auto
  then show ?case using EBinaryOp by (auto simp: Let_def split: option.splits)
qed auto

lemma fold_dom:
  assumes "\<And>x types. x \<in> set xs \<Longrightarrow> fset (fmdom (f x types)) = fset (fmdom types) \<union> A x"
  shows "fset (fmdom (fold f xs types)) = fset (fmdom types) \<union> (\<Union>x \<in> set xs. A x)"
  using assms by (induction xs arbitrary: types) auto

text \<open>Every row of an INSERT has one value for each target column. Rows that are longer are cut off by
  inference; the binder rejects them.\<close>

fun rows_fit :: "catalog_state \<Rightarrow> statement \<Rightarrow> bool" where
  "rows_fit c (StInsert s) =
     (\<forall>row \<in> set (is_values s). \<forall>table. get_table (is_table s) c = Inr table \<longrightarrow>
        length row = (if is_columns s = [] then length (ti_schema table) else length (is_columns s)))"
| "rows_fit c (StExplain _ inner) = rows_fit c inner"
| "rows_fit c _ = True"

lemma length_target_indices: "target_indices schema names = Inr is \<Longrightarrow> length is = length names"
  by (induction names arbitrary: "is") auto

lemma collect_row_dom:
  assumes "length row = length targets"
  shows "fset (fmdom (fold (collect_cell schema) (zip row targets) types)) = fset (fmdom types) \<union> (\<Union>e \<in> set row. expr_params e)"
proof -
  have p: "expr_params e = {i}" if "parameter_index e = Some i" for e i
    using that by (cases e) auto
  have "fset (fmdom (fold (collect_cell schema) (zip row targets) types))
      = fset (fmdom types) \<union> (\<Union>cell \<in> set (zip row targets). expr_params (fst cell))"
    by (rule fold_dom) (auto simp: collect_cell_def collect_expr_dom p split: option.splits)
  also have "(\<Union>cell \<in> set (zip row targets). expr_params (fst cell)) = (\<Union>e \<in> fst ` set (zip row targets). expr_params e)"
    by blast
  also have "fst ` set (zip row targets) = set row"
    using assms by (metis list.set_map map_fst_zip)
  finally show ?thesis .
qed

lemma collect_statement_dom:
  assumes "collect_statement c st types = Inr types'" "rows_fit c st"
  shows "fset (fmdom types') = fset (fmdom types) \<union> statement_params st"
  using assms
proof (induction st)
  case (StSelect s)
  then obtain schema scope where t: "types' = (let types = fold (collect_item schema scope) (ss_items s) types in
      case ss_where s of None \<Rightarrow> types | Some e \<Rightarrow> collect_expr schema scope e types)"
    by (auto simp: collect_select_def Let_def)
  have "fset (fmdom (fold (collect_item schema scope) (ss_items s) types)) = fset (fmdom types) \<union> (\<Union>i \<in> set (ss_items s). item_params i)"
    by (rule fold_dom) (auto simp: collect_item_def collect_expr_dom split: select_item.splits)
  then show ?case
    by (auto simp: t Let_def collect_expr_dom split: option.splits)
next
  case (StInsert s)
  then obtain table targets where l: "lookup_table c (is_table s) = Inr table"
    and t: "(if is_columns s = [] then Inr [0..<length (ti_schema table)] else target_indices (ti_schema table) (is_columns s)) = Inr targets"
    and types': "types' = fold (\<lambda>row. fold (collect_cell (ti_schema table)) (zip row targets)) (is_values s) types"
    by (auto simp: collect_insert_def Let_def)
  have g: "get_table (is_table s) c = Inr table"
    using l by (auto simp: lookup_table_def split: sum.splits)
  have len: "length row = length targets" if "row \<in> set (is_values s)" for row
    using StInsert.prems(2) that g t by (auto split: if_splits dest: length_target_indices)
  show ?case
    unfolding types' by (subst fold_dom [where A = "\<lambda>row. \<Union>e \<in> set row. expr_params e"]) (auto simp: collect_row_dom len)
qed auto

lemma length_finalize_from: "finalize_from types is = Inr ts \<Longrightarrow> length ts = length is"
  by (induction "is" arbitrary: ts) (auto split: option.splits)

lemma length_finalize:
  assumes "finalize types = Inr ts"
  shows "length ts = unat (max_over (fset (fmdom types)) 0)"
proof (cases "fset (fmdom types) = {}")
  case False
  then have "max_over (fset (fmdom types)) 0 = Max (fset (fmdom types))"
    by (simp add: max_over_def)
  then show ?thesis
    using assms False length_finalize_from [of types "indices_to (Max (fset (fmdom types)))" ts]
    by (simp add: finalize_def Let_def indices_to_def del: upt_Suc)
qed (use assms in \<open>simp add: finalize_def\<close>)

lemma bind_rows_length: "bind_rows session schema targets rows = Inr bs \<Longrightarrow> row \<in> set rows \<Longrightarrow> length row = length targets"
  by (induction rows arbitrary: bs) (auto simp: bind_row_def split: if_splits)

lemma bound_rows_fit: "bind c session (substitute_statement vs st) = Some (Inr b) \<Longrightarrow> rows_fit c st"
proof (induction st arbitrary: b)
  case (StInsert s)
  have "length row = (if is_columns s = [] then length (ti_schema table) else length (is_columns s))"
    if row: "row \<in> set (is_values s)" and g: "get_table (is_table s) c = Inr table" for row table
  proof -
    obtain targets bs where t: "(if is_columns s = [] then Inr [0..<length (ti_schema table)]
        else target_indices (ti_schema table) (is_columns s)) = Inr targets"
      and bs: "bind_rows session (ti_schema table) targets (map (map (substitute_expr vs)) (is_values s)) = Inr bs"
      using StInsert g by (auto simp: bind_insert_def substitute_insert_def lookup_table_def Let_def cong: if_cong)
    have "map (substitute_expr vs) row \<in> set (map (map (substitute_expr vs)) (is_values s))" using row by simp
    from bind_rows_length [OF bs this] have "length row = length targets" by simp
    then show ?thesis using t length_target_indices by (auto split: if_splits)
  qed
  then show ?case by simp
qed (auto split: option.splits)

text \<open>C38: Preparing and executing a statement agree on its parameters. When inference succeeds,
  substitution accepts exactly the value lists as long as the inferred type list, provided the rows
  of an INSERT have one value for each target column; whenever the substituted statement binds, the
  value list is as long as the inferred type list; and binding it never reports an undefined
  parameter.\<close>

theorem parameters_agree:
  assumes "infer_parameter_types st c = Inr types"
  shows "(rows_fit c st \<longrightarrow> ((\<exists>st'. substitute_parameters st vs = Inr st') \<longleftrightarrow> length vs = length types))
    \<and> (\<forall>st' i. substitute_parameters st vs = Inr st' \<longrightarrow> bind c session st' \<noteq> Some (Inl (UndefinedParameter i)))
    \<and> (\<forall>st' b. substitute_parameters st vs = Inr st' \<longrightarrow> bind c session st' = Some (Inr b) \<longrightarrow> length vs = length types)"
proof -
  obtain m where m: "collect_statement c st fmempty = Inr m" "finalize m = Inr types"
    using assms(1) by (auto simp: infer_parameter_types_def)
  have "length types = unat (max_parameter_index st)" if "rows_fit c st"
    using length_finalize [OF m(2)] collect_statement_dom [OF m(1) that]
    by (simp add: max_parameter_index_def scan_statement_max)
  moreover have "rows_fit c st" if "bind c session (substitute_statement vs st) = Some (Inr b)" for b
    using bound_rows_fit [OF that] .
  ultimately show ?thesis
    using defined_bind [OF substitute_statement_params [of vs st], of c session]
    by (auto simp: substitute_parameters_def Let_def parameters_defined_def split: if_splits)
qed

text \<open>A catalog with one table, \<open>t (a INTEGER, b VARCHAR)\<close>, and \<open>INSERT INTO t (a) VALUES (...)\<close> with the
  parameters \<open>$1\<close> to \<open>$n\<close> as values.\<close>

definition demo_catalog :: catalog_state where
  "demo_catalog = insert_table demo_table_info catalog_empty"

definition insert_params :: "u32 list \<Rightarrow> statement" where
  "insert_params ps = StInsert \<lparr>is_table = [0x74], is_columns = [[0x61]], is_values = [map EParameter ps]\<rparr>"

lemma demo_lookup: "get_table [0x74] demo_catalog = Inr demo_table_info" "column_index (ti_schema demo_table_info) [0x61] = Some 0"
  "col_type (ti_schema demo_table_info ! 0) = TInteger"
  by (simp_all add: demo_catalog_def get_table_def insert_table_def demo_table_info_def column_new_def column_index_def)

lemma insert_params_infer: "infer_parameter_types (insert_params (1 # ps)) demo_catalog = Inr [Some TInteger]"
  by (simp add: infer_parameter_types_def insert_params_def collect_insert_def lookup_table_def demo_lookup collect_cell_def
      record_parameter_def finalize_def indices_to_def del: and_then_eq_Inr)

theorem parameters_agree_witness:
  "infer_parameter_types (insert_params [1]) demo_catalog = Inr [Some TInteger]
    \<and> (\<exists>st'. substitute_parameters (insert_params [1]) [VBoolean True] = Inr st')
    \<and> (\<nexists>st'. substitute_parameters (insert_params [1]) [] = Inr st')"
proof -
  have i: "infer_parameter_types (insert_params [1]) demo_catalog = Inr [Some TInteger]" by (rule insert_params_infer)
  have "rows_fit demo_catalog (insert_params [1])" by (simp add: insert_params_def)
  then show ?thesis
    using i parameters_agree [OF i, of "[VBoolean True]"] parameters_agree [OF i, of "[]"] by simp
qed

text \<open>The surplus value of \<open>INSERT INTO t (a) VALUES ($1, $2)\<close>: inference reports one parameter,
  substitution asks for two.\<close>

lemma surplus_parameter_unseen:
  "infer_parameter_types (insert_params [1, 2]) demo_catalog = Inr [Some TInteger]
    \<and> substitute_parameters (insert_params [1, 2]) [v] = Inl (ParameterCountMismatch 2 1)"
  using insert_params_infer [of "[2]"]
  by (simp add: substitute_parameters_def max_parameter_index_def insert_params_def)

end
