(* ===== verification/BTree_Node.thy ===== *)
theory BTree_Node
  imports Slotted_Page
begin

text \<open>
  Nodes of the B+ tree of \<open>storage/src/btree.rs\<close>: the page layout, entry payloads, the searches within a
  node, split points, and the operations that write a node through a page guard. A node's entries are
  the payloads its slot array points at. The lemmas show that the binary searches find the partition
  point, that the split points stay in range, and what each write leaves in the page.
\<close>

section \<open>Layout\<close>

definition NODE_TYPE_OFFSET :: nat where "NODE_TYPE_OFFSET = 12"
definition NODE_COUNT_OFFSET :: nat where "NODE_COUNT_OFFSET = 13"
definition NODE_USED_OFFSET :: nat where "NODE_USED_OFFSET = 15"
definition TAIL_OFFSET :: nat where "TAIL_OFFSET = 17"
definition NODE_HEADER_SIZE :: nat where "NODE_HEADER_SIZE = 21"
definition NODE_SLOT_SIZE :: nat where "NODE_SLOT_SIZE = 4"
definition LEAF_TAG :: byte where "LEAF_TAG = 0"
definition INTERNAL_TAG :: byte where "INTERNAL_TAG = 1"
definition KEY_LEN_PREFIX :: nat where "KEY_LEN_PREFIX = 2"
definition RID_TRAILER_SIZE :: nat where "RID_TRAILER_SIZE = 6"
definition CHILD_TRAILER_SIZE :: nat where "CHILD_TRAILER_SIZE = 4"

definition MAX_KEY_SIZE :: nat where
  "MAX_KEY_SIZE = PAGE_SIZE - NODE_HEADER_SIZE - NODE_SLOT_SIZE - KEY_LEN_PREFIX - RID_TRAILER_SIZE - CHILD_TRAILER_SIZE"

definition MAX_INTERNAL_PUSH_UP_SIZE :: nat where
  "MAX_INTERNAL_PUSH_UP_SIZE = KEY_LEN_PREFIX + MAX_KEY_SIZE + RID_TRAILER_SIZE + CHILD_TRAILER_SIZE"

definition NODE_MAX_SLOTS :: u16 where
  "NODE_MAX_SLOTS = of_nat ((PAGE_SIZE - NODE_HEADER_SIZE) div NODE_SLOT_SIZE)"

lemmas node_consts = NODE_TYPE_OFFSET_def NODE_COUNT_OFFSET_def NODE_USED_OFFSET_def TAIL_OFFSET_def
  NODE_HEADER_SIZE_def NODE_SLOT_SIZE_def LEAF_TAG_def INTERNAL_TAG_def KEY_LEN_PREFIX_def RID_TRAILER_SIZE_def
  CHILD_TRAILER_SIZE_def

datatype node_type = Leaf | Internal

fun node_tag :: "node_type \<Rightarrow> byte" where
  "node_tag Leaf = LEAF_TAG"
| "node_tag Internal = INTERNAL_TAG"

definition node_type_of :: "bytes \<Rightarrow> node_type" where
  "node_type_of bs = (if bs ! NODE_TYPE_OFFSET = INTERNAL_TAG then Internal else Leaf)"

definition read_u32 :: "bytes \<Rightarrow> nat \<Rightarrow> u32" where
  "read_u32 bs at = le_u32 (bytes_at bs at 4)"

definition node_slot_count :: "bytes \<Rightarrow> u16" where
  "node_slot_count bs = read_u16 bs NODE_COUNT_OFFSET"

definition node_data_used :: "bytes \<Rightarrow> u16" where
  "node_data_used bs = read_u16 bs NODE_USED_OFFSET"

definition node_data_start :: "bytes \<Rightarrow> nat" where
  "node_data_start bs = PAGE_SIZE - unat (node_data_used bs)"

definition tail_raw :: "bytes \<Rightarrow> page_id option" where
  "tail_raw bs = (let p = read_u32 bs TAIL_OFFSET in if p \<noteq> 0 then Some p else None)"

definition node_count_reason :: "u16 \<Rightarrow> string" where
  "node_count_reason count =
     ''slot count '' @ nat_str (unat count) @ '' exceeds the '' @ nat_str (unat NODE_MAX_SLOTS)
       @ '' slots a '' @ nat_str PAGE_SIZE @ ''-byte page can hold''"

definition node_checked_count :: "bytes \<Rightarrow> page_id \<Rightarrow> storage_error + u16" where
  "node_checked_count bs pid =
     (let count = node_slot_count bs in
      if count > NODE_MAX_SLOTS then Inl (CorruptPage pid (node_count_reason count)) else Inr count)"

definition node_slot_offset :: "nat \<Rightarrow> nat" where
  "node_slot_offset slot = NODE_HEADER_SIZE + slot * NODE_SLOT_SIZE"

definition missing_slot_reason :: "nat \<Rightarrow> u16 \<Rightarrow> string" where
  "missing_slot_reason slot count =
     ''slot '' @ nat_str slot @ '' does not exist ('' @ nat_str (unat count) @ '' slots present)''"

definition node_slot_entry :: "bytes \<Rightarrow> nat \<Rightarrow> page_id \<Rightarrow> storage_error + (u16 \<times> u16)" where
  "node_slot_entry bs slot pid =
     and_then (node_checked_count bs pid) (\<lambda>count.
       if slot \<ge> unat count then Inl (CorruptPage pid (missing_slot_reason slot count))
       else let at = node_slot_offset slot in Inr (read_u16 bs at, read_u16 bs (at + 2)))"

definition entry_overlap_reason :: "nat \<Rightarrow> nat \<Rightarrow> nat \<Rightarrow> string" where
  "entry_overlap_reason slot start slots_end =
     ''slot '' @ nat_str slot @ [CHR 0x27] @ ''s entry at offset '' @ nat_str start @ '' overlaps the ''
       @ nat_str slots_end @ ''-byte slot array''"

definition entry_past_end_reason :: "nat \<Rightarrow> nat \<Rightarrow> nat \<Rightarrow> nat \<Rightarrow> string" where
  "entry_past_end_reason slot start finish len =
     ''slot '' @ nat_str slot @ [CHR 0x27] @ ''s entry range '' @ nat_str start @ ''..'' @ nat_str finish
       @ '' runs past the '' @ nat_str len @ ''-byte page''"

definition entry_payload :: "bytes \<Rightarrow> nat \<Rightarrow> page_id \<Rightarrow> storage_error + bytes" where
  "entry_payload bs slot pid =
     and_then (node_slot_entry bs slot pid) (\<lambda>(off, len).
     and_then (node_checked_count bs pid) (\<lambda>count.
       let slots_end = node_slot_offset (unat count);
           start = unat off;
           finish = start + unat len
       in if start < slots_end then Inl (CorruptPage pid (entry_overlap_reason slot start slots_end))
          else ok_or (slice_at bs start (unat len)) (CorruptPage pid (entry_past_end_reason slot start finish (length bs)))))"

section \<open>Payloads\<close>

definition payload_key_len :: "bytes \<Rightarrow> nat" where
  "payload_key_len p = (case slice_at p 0 2 of None \<Rightarrow> 0 | Some b \<Rightarrow> unat (le_u16 b))"

definition entry_key :: "bytes \<Rightarrow> bytes" where
  "entry_key p = (case slice_at p KEY_LEN_PREFIX (payload_key_len p) of None \<Rightarrow> [] | Some k \<Rightarrow> k)"

definition leaf_sort_key :: "bytes \<Rightarrow> bytes" where
  "leaf_sort_key p = (case slice_at p KEY_LEN_PREFIX (payload_key_len p + RID_TRAILER_SIZE) of None \<Rightarrow> [] | Some k \<Rightarrow> k)"

definition leaf_rid :: "bytes \<Rightarrow> rid" where
  "leaf_rid p = (let at = KEY_LEN_PREFIX + unat (read_u16 p 0) in (read_u32 p at, read_u16 p (at + 4)))"

definition internal_child :: "bytes \<Rightarrow> page_id" where
  "internal_child p = read_u32 p (KEY_LEN_PREFIX + unat (read_u16 p 0))"

definition build_leaf_payload :: "bytes \<Rightarrow> rid \<Rightarrow> bytes" where
  "build_leaf_payload key r = u16_le (of_nat (length key)) @ key @ u32_le (fst r) @ u16_le (snd r)"

definition build_internal_payload :: "bytes \<Rightarrow> page_id \<Rightarrow> bytes" where
  "build_internal_payload key child = u16_le (of_nat (length key)) @ key @ u32_le child"

section \<open>Searching a node\<close>

text \<open>The three searches share one loop: \<open>right mid\<close> says whether the answer lies beyond \<open>mid\<close>.\<close>

function bound_search :: "(nat \<Rightarrow> 'e + bool) \<Rightarrow> nat \<Rightarrow> nat \<Rightarrow> 'e + nat" where
  "bound_search right lo hi =
     (if lo < hi then
        (let mid = lo + (hi - lo) div 2 in
         and_then (right mid) (\<lambda>r. if r then bound_search right (mid + 1) hi else bound_search right lo mid))
      else Inr lo)"
  by pat_completeness auto

termination
  by (relation "measure (\<lambda>(right, lo, hi). hi - lo)") auto

declare bound_search.simps [simp del]

definition node_search :: "(bytes \<Rightarrow> bool) \<Rightarrow> bytes \<Rightarrow> page_id \<Rightarrow> storage_error + nat" where
  "node_search P bs pid =
     and_then (node_checked_count bs pid) (\<lambda>count.
       bound_search (\<lambda>mid. and_then (entry_payload bs mid pid) (\<lambda>p. Inr (P p))) 0 (unat count))"

definition upper_bound :: "bytes \<Rightarrow> bytes \<Rightarrow> page_id \<Rightarrow> storage_error + nat" where
  "upper_bound bs key pid = node_search (\<lambda>p. entry_key p \<le> key) bs pid"

definition upper_bound_leaf :: "bytes \<Rightarrow> bytes \<Rightarrow> page_id \<Rightarrow> storage_error + nat" where
  "upper_bound_leaf bs skey pid = node_search (\<lambda>p. leaf_sort_key p \<le> skey) bs pid"

definition lower_bound_leaf :: "bytes \<Rightarrow> bytes \<Rightarrow> page_id \<Rightarrow> storage_error + nat" where
  "lower_bound_leaf bs key pid = node_search (\<lambda>p. leaf_sort_key p < key) bs pid"

text \<open>\<open>partition_point\<close> of a partitioned slice.\<close>

definition partition_point :: "('a \<Rightarrow> bool) \<Rightarrow> 'a list \<Rightarrow> nat" where
  "partition_point P xs = length (takeWhile P xs)"

definition upper_bound_in :: "bytes list \<Rightarrow> bytes \<Rightarrow> nat" where
  "upper_bound_in payloads key = partition_point (\<lambda>p. entry_key p \<le> key) payloads"

definition upper_bound_in_leaf :: "bytes list \<Rightarrow> bytes \<Rightarrow> nat" where
  "upper_bound_in_leaf payloads skey = partition_point (\<lambda>p. leaf_sort_key p \<le> skey) payloads"

definition no_tail_reason :: string where
  "no_tail_reason = ''internal node has no tail (leftmost child) pointer''"

definition child_for_key :: "bytes \<Rightarrow> bytes \<Rightarrow> page_id \<Rightarrow> storage_error + page_id" where
  "child_for_key bs key pid =
     and_then (upper_bound bs key pid) (\<lambda>idx.
       if idx = 0 then ok_or (tail_raw bs) (CorruptPage pid no_tail_reason)
       else and_then (entry_payload bs (idx - 1) pid) (\<lambda>p. Inr (internal_child p)))"

definition node_will_fit :: "bytes \<Rightarrow> nat \<Rightarrow> bool" where
  "node_will_fit bs payload_len =
     (NODE_HEADER_SIZE + (unat (node_slot_count bs) + 1) * NODE_SLOT_SIZE + payload_len \<le> node_data_start bs)"

fun payloads_from :: "bytes \<Rightarrow> page_id \<Rightarrow> nat \<Rightarrow> nat \<Rightarrow> storage_error + bytes list" where
  "payloads_from bs pid slot 0 = Inr []"
| "payloads_from bs pid slot (Suc n) =
     and_then (entry_payload bs slot pid) (\<lambda>p. and_then (payloads_from bs pid (Suc slot) n) (\<lambda>ps. Inr (p # ps)))"

definition read_entries :: "bytes \<Rightarrow> page_id \<Rightarrow> storage_error + page_id option \<times> bytes list" where
  "read_entries bs pid =
     and_then (node_checked_count bs pid) (\<lambda>count.
     and_then (payloads_from bs pid 0 (unat count)) (\<lambda>ps. Inr (tail_raw bs, ps)))"

section \<open>Choosing the split point\<close>

definition entry_cost :: "bytes \<Rightarrow> nat" where
  "entry_cost p = NODE_SLOT_SIZE + length p"

fun split_scan :: "nat \<Rightarrow> nat \<Rightarrow> nat \<Rightarrow> bytes list \<Rightarrow> nat option" where
  "split_scan target running i [] = None"
| "split_scan target running i (e # es) =
     (if running + entry_cost e \<ge> target then Some i else split_scan target (running + entry_cost e) (Suc i) es)"

definition byte_balanced_split_point :: "bytes list \<Rightarrow> nat" where
  "byte_balanced_split_point entries =
     (let tot = sum_list (map entry_cost entries) in
      case split_scan (tot div 2) 0 0 entries of Some i \<Rightarrow> i | None \<Rightarrow> length entries - 1)"

definition clamp :: "nat \<Rightarrow> nat \<Rightarrow> nat \<Rightarrow> nat" where
  "clamp lo hi x = (if x < lo then lo else if x > hi then hi else x)"

definition leaf_split_point :: "bytes list \<Rightarrow> nat" where
  "leaf_split_point entries = clamp 1 (length entries - 1) (byte_balanced_split_point entries + 1)"

definition internal_split_point :: "bytes list \<Rightarrow> nat" where
  "internal_split_point entries =
     (let mid = byte_balanced_split_point entries in
      if length entries \<ge> 3 then clamp 1 (length entries - 2) mid else min mid (length entries - 1))"

section \<open>Writing a node\<close>

definition slot_bytes :: "nat \<Rightarrow> nat \<Rightarrow> bytes" where
  "slot_bytes at len = u16_le (of_nat at) @ u16_le (of_nat len)"

lemma length_slot_bytes [simp]: "length (slot_bytes at len) = 4"
  by (simp add: slot_bytes_def)

definition node_init :: "frame_id \<Rightarrow> page_id \<Rightarrow> txn_id \<Rightarrow> node_type \<Rightarrow> page_id option \<Rightarrow> unit pool_m" where
  "node_init f pid txn kind tail =
     guard_write f pid txn NODE_TYPE_OFFSET
       (node_tag kind # replicate 4 0 @ u32_le (case tail of None \<Rightarrow> 0 | Some p \<Rightarrow> p))"

definition find_insert_index :: "bytes \<Rightarrow> page_id \<Rightarrow> bytes \<Rightarrow> storage_error + nat" where
  "find_insert_index bs pid skey =
     (case node_type_of bs of Leaf \<Rightarrow> upper_bound_leaf bs skey pid | Internal \<Rightarrow> upper_bound bs skey pid)"

definition node_insert_at :: "frame_id \<Rightarrow> page_id \<Rightarrow> txn_id \<Rightarrow> nat \<Rightarrow> bytes \<Rightarrow> unit pool_m" where
  "node_insert_at f pid txn index payload bp =
     (let count = unat (node_slot_count (frame_data bp f));
          data_at = node_data_start (frame_data bp f) - length payload
      in sbind (guard_write f pid txn data_at payload) (\<lambda>_.
         sbind (if index < count then
                  sbind (sget (\<lambda>bp. bytes_at (frame_data bp f) (node_slot_offset index) (node_slot_offset count - node_slot_offset index)))
                    (\<lambda>shifted. guard_write f pid txn (node_slot_offset (index + 1)) shifted)
                else sreturn ()) (\<lambda>_.
         sbind (guard_write f pid txn (node_slot_offset index)
                  (slot_bytes data_at (length payload))) (\<lambda>_.
         sbind (sget (\<lambda>bp. node_data_used (frame_data bp f))) (\<lambda>used.
           guard_write f pid txn NODE_COUNT_OFFSET
             (u16_le (of_nat count + 1) @ u16_le (used + of_nat (length payload))))))) bp)"

fun rebuild_slots :: "nat \<Rightarrow> nat \<Rightarrow> bytes list \<Rightarrow> bytes \<Rightarrow> bytes" where
  "rebuild_slots i data_end [] body = body"
| "rebuild_slots i data_end (e # es) body =
     (let data_end = data_end - length e;
          slot_at = (NODE_HEADER_SIZE - NODE_TYPE_OFFSET) + i * NODE_SLOT_SIZE;
          body = splice body data_end e;
          body = splice body slot_at (slot_bytes (data_end + NODE_TYPE_OFFSET) (length e))
      in rebuild_slots (Suc i) data_end es body)"

definition rebuild_required :: "bytes list \<Rightarrow> nat" where
  "rebuild_required entries =
     (NODE_HEADER_SIZE - NODE_TYPE_OFFSET) + length entries * NODE_SLOT_SIZE + sum_list (map length entries)"

definition rebuild_body :: "node_type \<Rightarrow> page_id option \<Rightarrow> bytes list \<Rightarrow> bytes \<Rightarrow> bytes" where
  "rebuild_body kind tail entries current =
     (let header = node_tag kind # u16_le (of_nat (length entries)) @ u16_le (of_nat (sum_list (map length entries)))
            @ u32_le (case tail of None \<Rightarrow> 0 | Some p \<Rightarrow> p)
      in rebuild_slots 0 (length current) entries (splice current 0 header))"

definition REBUILD_MERGE_GAP :: nat where "REBUILD_MERGE_GAP = 16"

fun run_end :: "bytes \<Rightarrow> bytes \<Rightarrow> nat" where
  "run_end (a # as) (b # bs) = (if a \<noteq> b then Suc (run_end as bs) else 0)"
| "run_end _ _ = 0"

definition push_run :: "(nat \<times> nat) list \<Rightarrow> nat \<Rightarrow> nat \<Rightarrow> (nat \<times> nat) list" where
  "push_run runs start finish =
     (if runs \<noteq> [] \<and> start - snd (last runs) < REBUILD_MERGE_GAP
      then butlast runs @ [(fst (last runs), finish)]
      else runs @ [(start, finish)])"

function changed_runs_from :: "bytes \<Rightarrow> bytes \<Rightarrow> nat \<Rightarrow> (nat \<times> nat) list \<Rightarrow> (nat \<times> nat) list" where
  "changed_runs_from old new i runs =
     (if i < length old then
        if old ! i = new ! i then changed_runs_from old new (Suc i) runs
        else (let finish = Suc i + run_end (drop (Suc i) old) (drop (Suc i) new)
              in changed_runs_from old new finish (push_run runs i finish))
      else runs)"
  by pat_completeness auto

termination
  by (relation "measure (\<lambda>(old, new, i, runs). length old - i)") auto

declare changed_runs_from.simps [simp del]

definition changed_byte_runs :: "bytes \<Rightarrow> bytes \<Rightarrow> (nat \<times> nat) list" where
  "changed_byte_runs old new = changed_runs_from old new 0 []"

definition node_rebuild ::
    "frame_id \<Rightarrow> page_id \<Rightarrow> txn_id \<Rightarrow> node_type \<Rightarrow> page_id option \<Rightarrow> bytes list \<Rightarrow> unit pool_m" where
  "node_rebuild f pid txn kind tail entries bp =
     (let current = drop NODE_TYPE_OFFSET (frame_data bp f);
          required = rebuild_required entries
      in if required > length current then (Inl (NodeOverflow pid required (length current)), bp)
         else let body = rebuild_body kind tail entries current in
           sforeach (changed_byte_runs current body) (\<lambda>(start, finish).
             guard_write f pid txn (NODE_TYPE_OFFSET + start) (bytes_at body start (finish - start))) bp)"

section \<open>Payloads read back\<close>

lemma payload_len_u16: "length key < 65536 \<Longrightarrow> unat (of_nat (length key) :: u16) = length key"
  by (simp add: unat_of_nat_small)

lemma leaf_payload_parts [simp]:
  assumes "length key < 65536"
  shows "entry_key (build_leaf_payload key r) = key"
    "leaf_sort_key (build_leaf_payload key r) = key @ u32_le (fst r) @ u16_le (snd r)"
    "leaf_rid (build_leaf_payload key r) = r"
    "length (build_leaf_payload key r) = length key + 8"
proof -
  let ?p = "build_leaf_payload key r"
  have len: "length ?p = length key + 8" by (simp add: build_leaf_payload_def)
  have k: "payload_key_len ?p = length key"
    using payload_len_u16 [OF assms] by (simp add: payload_key_len_def build_leaf_payload_def slice_at_def)
  have at: "read_u16 ?p 0 = of_nat (length key)"
    by (simp add: read_u16_def build_leaf_payload_def bytes_at_append)
  show "entry_key ?p = key"
    unfolding entry_key_def k by (simp add: slice_at_def node_consts build_leaf_payload_def)
  show "leaf_sort_key ?p = key @ u32_le (fst r) @ u16_le (snd r)"
    unfolding leaf_sort_key_def k by (simp add: slice_at_def node_consts build_leaf_payload_def)
  have "read_u32 ?p (2 + length key) = fst r" "read_u16 ?p (2 + length key + 4) = snd r"
    by (simp_all add: read_u32_def read_u16_def build_leaf_payload_def bytes_at_def)
  then show "leaf_rid ?p = r"
    by (simp add: leaf_rid_def at payload_len_u16 [OF assms] KEY_LEN_PREFIX_def)
  show "length ?p = length key + 8" by (rule len)
qed

lemma internal_payload_parts [simp]:
  assumes "length key < 65536"
  shows "entry_key (build_internal_payload key c) = key"
    "internal_child (build_internal_payload key c) = c"
    "length (build_internal_payload key c) = length key + 6"
proof -
  let ?p = "build_internal_payload key c"
  have k: "payload_key_len ?p = length key"
    using payload_len_u16 [OF assms] by (simp add: payload_key_len_def build_internal_payload_def slice_at_def)
  have at: "read_u16 ?p 0 = of_nat (length key)"
    by (simp add: read_u16_def build_internal_payload_def bytes_at_append)
  show "entry_key ?p = key"
    unfolding entry_key_def k by (simp add: slice_at_def node_consts build_internal_payload_def)
  have "read_u32 ?p (2 + length key) = c"
    by (simp add: read_u32_def build_internal_payload_def bytes_at_def)
  then show "internal_child ?p = c"
    by (simp add: internal_child_def at payload_len_u16 [OF assms] KEY_LEN_PREFIX_def)
  show "length ?p = length key + 6" by (simp add: build_internal_payload_def)
qed

section \<open>The searches find the partition point\<close>

definition partitioned :: "('a \<Rightarrow> bool) \<Rightarrow> 'a list \<Rightarrow> bool" where
  "partitioned P xs \<longleftrightarrow> (\<forall>j < length xs. \<forall>i < j. P (xs ! j) \<longrightarrow> P (xs ! i))"

lemma partition_point_le: "partition_point P xs \<le> length xs"
  by (simp add: partition_point_def length_takeWhile_le)

lemma before_partition_point: "i < partition_point P xs \<Longrightarrow> P (xs ! i)"
  by (metis nth_mem partition_point_def set_takeWhileD takeWhile_nth)

lemma after_partition_point:
  assumes "partitioned P xs" "partition_point P xs \<le> i" "i < length xs"
  shows "\<not> P (xs ! i)"
proof
  assume i: "P (xs ! i)"
  let ?n = "partition_point P xs"
  have "?n < length xs" using assms by simp
  then have no: "\<not> P (xs ! ?n)"
    by (simp add: partition_point_def nth_length_takeWhile)
  then have "?n \<noteq> i" using i by metis
  then show False using assms i no by (auto simp: partitioned_def)
qed

lemma partition_point_unique:
  assumes "n \<le> length xs" "\<And>i. i < n \<Longrightarrow> P (xs ! i)" "n < length xs \<Longrightarrow> \<not> P (xs ! n)"
  shows "partition_point P xs = n"
proof -
  have "takeWhile P xs = take n xs"
  proof (cases "n < length xs")
    case True
    then have "\<forall>i < n. P (xs ! i)" "\<not> P (xs ! n)" using assms by auto
    then show ?thesis using True by (intro takeWhile_eq_take_P_nth) auto
  next
    case False
    then have "n = length xs" using assms(1) by simp
    then show ?thesis using assms(2) by (simp add: takeWhile_eq_all_conv) (metis in_set_conv_nth)
  qed
  then show ?thesis using assms(1) by (simp add: partition_point_def)
qed

lemma bound_search_partition:
  assumes "\<And>i. i < length xs \<Longrightarrow> right i = Inr (P (xs ! i))" "partitioned P xs"
    "lo \<le> partition_point P xs" "partition_point P xs \<le> hi" "hi \<le> length xs"
  shows "bound_search right lo hi = Inr (partition_point P xs)"
  using assms(3-5)
proof (induction "hi - lo" arbitrary: lo hi rule: less_induct)
  case less
  let ?mid = "lo + (hi - lo) div 2" and ?n = "partition_point P xs"
  show ?case
  proof (cases "lo < hi")
    case True
    then have mid: "?mid < hi" "lo \<le> ?mid" by auto
    then have r: "right ?mid = Inr (P (xs ! ?mid))" using assms(1) less.prems(3) by simp
    show ?thesis
    proof (cases "P (xs ! ?mid)")
      case P: True
      then have "?mid < ?n"
        using after_partition_point [OF assms(2), of ?mid] mid less.prems(3) by (meson not_le order.strict_trans2)
      then have "bound_search right (?mid + 1) hi = Inr ?n"
        using True mid less.prems by (intro less.hyps) auto
      then show ?thesis using True r P by (simp add: bound_search.simps [of right lo hi] Let_def)
    next
      case notP: False
      then have "?n \<le> ?mid" using before_partition_point [of ?mid P xs] by (meson not_le)
      then have "bound_search right lo ?mid = Inr ?n"
        using True mid less.prems by (intro less.hyps) auto
      then show ?thesis using True r notP by (simp add: bound_search.simps [of right lo hi] Let_def)
    qed
  qed (use less.prems in \<open>simp add: bound_search.simps\<close>)
qed

section \<open>Split points\<close>

lemma split_scan_Some:
  assumes "split_scan target running i es = Some j"
  shows "i \<le> j \<and> j < i + length es
    \<and> target \<le> running + sum_list (map entry_cost (take (Suc (j - i)) es))
    \<and> (j = i \<or> running + sum_list (map entry_cost (take (j - i) es)) < target)"
  using assms
proof (induction es arbitrary: running i)
  case (Cons e es)
  show ?case
  proof (cases "running + entry_cost e \<ge> target")
    case False
    then have "split_scan target (running + entry_cost e) (Suc i) es = Some j" using Cons.prems by simp
    note IH = Cons.IH [OF this]
    then have "Suc (j - Suc i) = j - i" by auto
    then show ?thesis using IH False by (cases "j = Suc i") (auto simp: ac_simps take_Cons')
  qed (use Cons.prems in auto)
qed simp

lemma split_scan_None: "split_scan target running i es = None \<Longrightarrow> es \<noteq> [] \<Longrightarrow> running + sum_list (map entry_cost es) < target"
  by (induction es arbitrary: running i) (auto simp: add.assoc split: if_splits, force)

text \<open>The chosen entry is the first at which the running total reaches half of all bytes.\<close>

lemma byte_balanced:
  assumes "es \<noteq> []"
  defines "i \<equiv> byte_balanced_split_point es" and "tot \<equiv> sum_list (map entry_cost es)"
  shows "i < length es" "tot div 2 \<le> sum_list (map entry_cost (take (Suc i) es))"
    "i = 0 \<or> sum_list (map entry_cost (take i es)) < tot div 2"
proof -
  have "split_scan (tot div 2) 0 0 es \<noteq> None"
    using split_scan_None [of "tot div 2" 0 0 es] assms(1) div_le_dividend [of tot 2] unfolding tot_def by linarith
  then have "split_scan (tot div 2) 0 0 es = Some i"
    by (auto simp: i_def byte_balanced_split_point_def tot_def)
  from split_scan_Some [OF this] show "i < length es" "tot div 2 \<le> sum_list (map entry_cost (take (Suc i) es))"
    "i = 0 \<or> sum_list (map entry_cost (take i es)) < tot div 2"
    by auto
qed

lemma leaf_split_bounds: "2 \<le> length es \<Longrightarrow> 1 \<le> leaf_split_point es \<and> leaf_split_point es < length es"
  by (auto simp: leaf_split_point_def clamp_def)

lemma internal_split_bounds: "3 \<le> length es \<Longrightarrow> 1 \<le> internal_split_point es \<and> Suc (internal_split_point es) < length es"
  by (auto simp: internal_split_point_def clamp_def Let_def)

lemma cost_take_Suc: "i < length es \<Longrightarrow>
    sum_list (map entry_cost (take (Suc i) es)) = sum_list (map entry_cost (take i es)) + entry_cost (es ! i)"
  by (simp add: take_Suc_conv_app_nth)

lemma cost_take_drop: "sum_list (map entry_cost es) = sum_list (map entry_cost (take i es)) + sum_list (map entry_cost (drop i es))"
  by (metis append_take_drop_id map_append sum_list_append)

lemma cost_drop_last: "es \<noteq> [] \<Longrightarrow> sum_list (map entry_cost (drop (length es - 1) es)) = entry_cost (last es)"
  by (cases es rule: rev_cases) auto

lemma leaf_split_costs:
  assumes len: "2 \<le> length es" and small: "\<forall>e \<in> set es. entry_cost e \<le> m"
  shows "sum_list (map entry_cost (take (leaf_split_point es) es)) \<le> sum_list (map entry_cost es) div 2 + m"
    "sum_list (map entry_cost (drop (leaf_split_point es) es)) \<le> sum_list (map entry_cost es) div 2 + m"
proof -
  let ?i = "byte_balanced_split_point es" and ?t = "sum_list (map entry_cost es)"
  have ne: "es \<noteq> []" using len by auto
  note b = byte_balanced [OF ne]
  have m: "entry_cost (es ! ?i) \<le> m" "entry_cost (last es) \<le> m" using small b(1) ne by auto
  have upto: "sum_list (map entry_cost (take (Suc ?i) es)) \<le> ?t div 2 + m"
    using b(1,3) m by (auto simp: cost_take_Suc)
  show "sum_list (map entry_cost (take (leaf_split_point es) es)) \<le> ?t div 2 + m"
  proof (cases "Suc ?i \<le> length es - 1")
    case True
    then show ?thesis using upto by (simp add: leaf_split_point_def clamp_def)
  next
    case False
    then have i: "?i = length es - 1" using b(1) by simp
    then have "leaf_split_point es = ?i" using len by (simp add: leaf_split_point_def clamp_def)
    then show ?thesis using upto b(1) by (simp add: cost_take_Suc)
  qed
  show "sum_list (map entry_cost (drop (leaf_split_point es) es)) \<le> ?t div 2 + m"
  proof (cases "Suc ?i \<le> length es - 1")
    case True
    then have "leaf_split_point es = Suc ?i" by (simp add: leaf_split_point_def clamp_def)
    then have "sum_list (map entry_cost (drop (leaf_split_point es) es)) + ?t div 2 \<le> ?t"
      using b(2) cost_take_drop [of es "Suc ?i"] by simp
    moreover have "1 \<le> m" using m(1) by (simp add: entry_cost_def node_consts)
    ultimately show ?thesis by linarith
  next
    case False
    then have "leaf_split_point es = length es - 1" using len b(1) by (simp add: leaf_split_point_def clamp_def)
    then show ?thesis using m(2) cost_drop_last [OF ne] by simp
  qed
qed

lemma internal_split_costs:
  assumes len: "3 \<le> length es" and small: "\<forall>e \<in> set es. entry_cost e \<le> m"
  shows "sum_list (map entry_cost (take (internal_split_point es) es)) \<le> sum_list (map entry_cost es) div 2 + m"
    "sum_list (map entry_cost (drop (Suc (internal_split_point es)) es)) \<le> sum_list (map entry_cost es) div 2 + m"
proof -
  let ?i = "byte_balanced_split_point es" and ?t = "sum_list (map entry_cost es)" and ?s = "internal_split_point es"
  have ne: "es \<noteq> []" using len by auto
  note b = byte_balanced [OF ne]
  have m: "entry_cost (es ! 0) \<le> m" "entry_cost (last es) \<le> m" using small len ne by auto
  have one: "1 \<le> m" using m(1) by (simp add: entry_cost_def node_consts)
  have rest: "sum_list (map entry_cost (drop (Suc ?i) es)) \<le> ?t div 2 + m"
    using b(2) cost_take_drop [of es "Suc ?i"] one by linarith
  have drop_mono: "sum_list (map entry_cost (drop (Suc j) es)) \<le> sum_list (map entry_cost (drop j es))" for j
    by (cases "j < length es") (simp_all add: Cons_nth_drop_Suc [symmetric])
  have take_mono: "sum_list (map entry_cost (take j es)) \<le> sum_list (map entry_cost (take (Suc j) es))" for j
    by (cases "j < length es") (simp_all add: cost_take_Suc)
  consider (first) "?i = 0" "?s = 1" | (mid) "?i \<noteq> 0" "?s = ?i" | (last) "?i = length es - 1" "?i \<noteq> 0" "?s = length es - 2"
  proof (cases "?i = 0")
    case False
    then show ?thesis
      using b(1) len that by (cases "?i \<le> length es - 2") (simp_all add: internal_split_point_def clamp_def Let_def)
  qed (use len that in \<open>simp add: internal_split_point_def clamp_def Let_def\<close>)
  then have "sum_list (map entry_cost (take ?s es)) \<le> ?t div 2 + m \<and> sum_list (map entry_cost (drop (Suc ?s) es)) \<le> ?t div 2 + m"
  proof cases
    case first
    then show ?thesis
      using m(1) rest drop_mono [of 1] len by (simp add: cost_take_Suc [of 0 es, simplified] ne)
  next
    case mid
    then show ?thesis using b(3) rest by simp
  next
    case last
    have e: "Suc (length es - 2) = length es - 1" using len by simp
    show ?thesis
      using last b(3) take_mono [of "length es - 2"] m(2) cost_drop_last [OF ne] e by simp
  qed
  then show "sum_list (map entry_cost (take ?s es)) \<le> ?t div 2 + m"
    "sum_list (map entry_cost (drop (Suc ?s) es)) \<le> ?t div 2 + m" by auto
qed

lemma rebuild_required_cost:
  "rebuild_required es = (NODE_HEADER_SIZE - NODE_TYPE_OFFSET) + sum_list (map entry_cost es)"
  by (induction es) (auto simp: rebuild_required_def entry_cost_def)

text \<open>Splitting an overfull node works for entries of moderate size. If the entries of a node fit a page
  and every entry, the new one included, takes at most a third of the room of a page, then the split
  points leave entries on both sides and each half fits a page: rebuilding the halves cannot report an
  overflow.\<close>

theorem split_halves_fit:
  assumes old: "rebuild_required old \<le> PAGE_SIZE - NODE_TYPE_OFFSET" and es: "es = take i old @ new # drop i old"
    and small: "\<forall>e \<in> set es. entry_cost e \<le> (PAGE_SIZE - NODE_HEADER_SIZE) div 3" and len: "2 \<le> length old"
  shows "(let s = leaf_split_point es in 1 \<le> s \<and> s < length es
      \<and> rebuild_required (take s es) \<le> PAGE_SIZE - NODE_TYPE_OFFSET \<and> rebuild_required (drop s es) \<le> PAGE_SIZE - NODE_TYPE_OFFSET)
    \<and> (let s = internal_split_point es in 1 \<le> s \<and> Suc s < length es
      \<and> rebuild_required (take s es) \<le> PAGE_SIZE - NODE_TYPE_OFFSET \<and> rebuild_required (drop (Suc s) es) \<le> PAGE_SIZE - NODE_TYPE_OFFSET)"
proof -
  have "sum_list (map entry_cost es) = sum_list (map entry_cost old) + entry_cost new"
    unfolding es using cost_take_drop [of old i] by simp
  moreover have "entry_cost new \<le> (PAGE_SIZE - NODE_HEADER_SIZE) div 3" using small es by simp
  ultimately have tot: "sum_list (map entry_cost es) \<le> 5433"
    using old by (simp add: rebuild_required_cost node_consts PAGE_SIZE_def)
  then have half: "sum_list (map entry_cost es) div 2 + 1358 \<le> 4075" by linarith
  have small': "\<forall>e \<in> set es. entry_cost e \<le> 1358" using small by (simp add: node_consts PAGE_SIZE_def)
  have l: "3 \<le> length es" using len es by simp
  show ?thesis
    using leaf_split_bounds [of es] internal_split_bounds [OF l] l leaf_split_costs [OF _ small'] internal_split_costs [OF l small'] half
    by (simp add: Let_def rebuild_required_cost node_consts PAGE_SIZE_def)
qed

theorem split_halves_fit_witness:
  "(let es = [build_leaf_payload (replicate 1300 1) (1, 0), build_leaf_payload (replicate 1300 2) (1, 1),
        build_leaf_payload (replicate 1300 3) (1, 2), build_leaf_payload (replicate 1300 4) (1, 3)] in
    leaf_split_point es < length es
    \<and> rebuild_required (take (leaf_split_point es) es) \<le> PAGE_SIZE - NODE_TYPE_OFFSET
    \<and> rebuild_required (drop (leaf_split_point es) es) \<le> PAGE_SIZE - NODE_TYPE_OFFSET)"
proof -
  let ?p = "\<lambda>b s. build_leaf_payload (replicate 1300 b) (1, s)"
  let ?old = "[?p 1 0, ?p 2 1, ?p 3 2]"
  have c: "entry_cost (?p b s) = 1312" for b s
    by (simp add: entry_cost_def node_consts)
  have o: "rebuild_required ?old \<le> PAGE_SIZE - NODE_TYPE_OFFSET"
    by (simp add: rebuild_required_cost c) (simp add: node_consts PAGE_SIZE_def)
  have "\<forall>e \<in> set (?old @ [?p 4 3]). entry_cost e \<le> (PAGE_SIZE - NODE_HEADER_SIZE) div 3"
    by (simp add: c) (simp add: node_consts PAGE_SIZE_def)
  from split_halves_fit [OF o, of "?old @ [?p 4 3]" 3 "?p 4 3"] this show ?thesis
    by (simp add: Let_def)
qed

lemma less_replicate: "(a :: byte) < b \<Longrightarrow> 0 < n \<Longrightarrow> 0 < m \<Longrightarrow> replicate n a < replicate m b"
  by (cases n; cases m) auto

text \<open>C39: A split can fail on keys that \<open>insert\<close> accepts. Three leaf entries in key order, the outer two sharing
  a page and the middle one new, are split after the middle one; the left half does not fit a page, so
  rebuilding it reports an overflow instead of storing the entry.\<close>

theorem leaf_split_overflows:
  "\<exists>a b c. length a \<le> MAX_KEY_SIZE \<and> length b \<le> MAX_KEY_SIZE \<and> length c \<le> MAX_KEY_SIZE \<and> a < b \<and> b < c \<and>
    (let es = map (\<lambda>k. build_leaf_payload k (1, 0)) [a, b, c]; s = leaf_split_point es in
     rebuild_required [es ! 0, es ! 2] \<le> PAGE_SIZE - NODE_TYPE_OFFSET \<and>
     (\<forall>pid txn tail dm dw lm rep. node_rebuild 0 pid txn Leaf tail (take s es) (pool_new dm dw lm 1 rep)
       = (Inl (NodeOverflow pid (rebuild_required (take s es)) (PAGE_SIZE - NODE_TYPE_OFFSET)), pool_new dm dw lm 1 rep)))"
proof -
  let ?p = "\<lambda>k. build_leaf_payload k (1, 0)"
  let ?a = "replicate 1000 1 :: bytes" and ?b = "replicate 3200 2 :: bytes" and ?c = "replicate 1000 3 :: bytes"
  let ?es = "[?p ?a, ?p ?b, ?p ?c]"
  have c: "entry_cost (?p ?a) = 1012" "entry_cost (?p ?b) = 3212" "entry_cost (?p ?c) = 1012"
    by (simp_all add: entry_cost_def node_consts)
  have s: "leaf_split_point ?es = 2"
    by (simp add: leaf_split_point_def clamp_def byte_balanced_split_point_def c Let_def)
  have r: "rebuild_required (take 2 ?es) > PAGE_SIZE - NODE_TYPE_OFFSET" "rebuild_required [?p ?a, ?p ?c] \<le> PAGE_SIZE - NODE_TYPE_OFFSET"
    by (simp_all add: rebuild_required_cost c, simp_all add: node_consts PAGE_SIZE_def)
  have "?a < ?b" "?b < ?c" "length ?a \<le> MAX_KEY_SIZE" "length ?b \<le> MAX_KEY_SIZE" "length ?c \<le> MAX_KEY_SIZE"
    by (simp_all add: MAX_KEY_SIZE_def node_consts PAGE_SIZE_def less_replicate)
  moreover have "length (frame_data (pool_new dm dw lm 1 rep) 0) = PAGE_SIZE" for dm dw lm rep
    by (simp add: pool_new_def page_new_def)
  ultimately show ?thesis
    using r s by (intro exI [of _ ?a] exI [of _ ?b] exI [of _ ?c]) (simp add: Let_def node_rebuild_def)
qed

end
