(* ===== verification/BTree_Page.thy ===== *)
theory BTree_Page
  imports BTree_Node Table_Heap
begin

text \<open>
  What a node page holds and what each write to it does. A node is well formed when its entries lie
  between the slot array and the end of the page; its abstract contents are the list of its entries
  and its tail pointer. Only the bytes after the common page header matter, so the effects are stated
  on that part of the page, which neither the LSN nor the checksum touches.
\<close>

section \<open>The body of a page\<close>

abbreviation page_body :: "bytes \<Rightarrow> bytes" where
  "page_body v \<equiv> drop 12 v"

lemma bytes_at_body: "12 \<le> off \<Longrightarrow> bytes_at v off n = bytes_at (page_body v) (off - 12) n"
  by (simp add: bytes_at_def)

lemma body_stamp [simp]: "length v = PAGE_SIZE \<Longrightarrow> page_body (stamp_checksum v) = page_body v"
  by (simp add: stamp_checksum_shape PAGE_SIZE_def)

lemma body_write_bytes:
  assumes "length v = PAGE_SIZE" "12 \<le> off" "off + length bs \<le> PAGE_SIZE"
  shows "page_body (write_bytes v off bs l) = splice (page_body v) (off - 12) bs"
proof -
  have "page_body (write_bytes v off bs l) = page_body (set_page_lsn (splice v off bs) l)"
    using assms by (simp add: write_bytes_def body_stamp)
  also have "\<dots> = page_body (splice v off bs)"
    using assms by (simp add: set_page_lsn_def splice_def [of "splice v off bs"] PAGE_LSN_OFFSET_def PAGE_SIZE_def)
  also have "\<dots> = splice (page_body v) (off - 12) bs"
    using assms by (simp add: splice_def drop_take)
  finally show ?thesis .
qed

lemma node_reads_body:
  assumes "length v = PAGE_SIZE" "length w = PAGE_SIZE" "page_body v = page_body w"
  shows "node_slot_count v = node_slot_count w" "node_data_used v = node_data_used w" "tail_raw v = tail_raw w"
    "node_type_of v = node_type_of w" "node_data_start v = node_data_start w"
    "node_checked_count v pid = node_checked_count w pid" "entry_payload v i pid = entry_payload w i pid"
    "node_will_fit v n = node_will_fit w n" "read_entries v pid = read_entries w pid"
    "node_search P v pid = node_search P w pid" "child_for_key v key pid = child_for_key w key pid"
    "find_insert_index v pid key = find_insert_index w pid key"
proof -
  have at: "bytes_at v off n = bytes_at w off n" if "12 \<le> off" for off n
    using that assms(3) by (simp add: bytes_at_body)
  show c: "node_slot_count v = node_slot_count w" and u: "node_data_used v = node_data_used w" and t: "tail_raw v = tail_raw w"
    using at by (simp_all add: node_slot_count_def node_data_used_def tail_raw_def read_u16_def read_u32_def node_consts)
  have "v ! 12 = w ! 12"
    using arg_cong [OF assms(3), of "\<lambda>b. b ! 0"] assms(1,2) by (simp add: PAGE_SIZE_def)
  then show ty: "node_type_of v = node_type_of w" by (simp add: node_type_of_def node_consts)
  show "node_data_start v = node_data_start w" using u by (simp add: node_data_start_def)
  then show "node_will_fit v n = node_will_fit w n" for n using c by (simp add: node_will_fit_def)
  show cc: "node_checked_count v pid = node_checked_count w pid" for pid
    using c by (simp add: node_checked_count_def)
  have "read_u16 v (node_slot_offset i) = read_u16 w (node_slot_offset i)"
    "read_u16 v (node_slot_offset i + 2) = read_u16 w (node_slot_offset i + 2)" for i
    unfolding read_u16_def by (simp_all only: at node_slot_offset_def node_consts)
  then have se: "node_slot_entry v i pid = node_slot_entry w i pid" for i
    by (simp add: node_slot_entry_def cc Let_def cong: if_cong)
  have sl: "slice_at v off n = slice_at w off n" if "12 \<le> off" for off n
    using at [OF that] assms(1,2) by (simp add: slice_at_def bytes_at_def)
  show ep: "entry_payload v i pid = entry_payload w i pid" for i
    unfolding entry_payload_def se cc using sl assms(1,2)
    by (auto simp: Let_def node_slot_offset_def node_consts intro!: and_then_cong split: prod.splits)
  have "payloads_from v pid slot n = payloads_from w pid slot n" for slot n
    by (induction n arbitrary: slot) (simp_all add: ep)
  then show "read_entries v pid = read_entries w pid" by (simp add: read_entries_def cc t)
  show ns: "node_search P v pid = node_search P w pid" for P
    by (simp add: node_search_def cc ep)
  show "child_for_key v key pid = child_for_key w key pid"
    by (simp add: child_for_key_def upper_bound_def ns t ep cong: if_cong)
  show "find_insert_index v pid key = find_insert_index w pid key"
    by (cases "node_type_of w") (simp_all add: find_insert_index_def upper_bound_def upper_bound_leaf_def ns ty)
qed

lemmas node_reads_stamp = node_reads_body [OF _ _ body_stamp [symmetric]]

section \<open>Well-formed nodes\<close>

definition node_count :: "bytes \<Rightarrow> nat" where
  "node_count v = unat (node_slot_count v)"

definition node_slot :: "bytes \<Rightarrow> nat \<Rightarrow> nat \<times> nat" where
  "node_slot v i = (unat (read_u16 v (node_slot_offset i)), unat (read_u16 v (node_slot_offset i + 2)))"

definition node_entry :: "bytes \<Rightarrow> nat \<Rightarrow> bytes" where
  "node_entry v i = bytes_at v (fst (node_slot v i)) (snd (node_slot v i))"

definition node_entries :: "bytes \<Rightarrow> bytes list" where
  "node_entries v = map (node_entry v) [0..<node_count v]"

definition node_wf :: "bytes \<Rightarrow> bool" where
  "node_wf v \<longleftrightarrow> length v = PAGE_SIZE \<and> stamp_checksum v = v \<and>
     node_slot_offset (node_count v) \<le> node_data_start v \<and>
     (\<forall>i < node_count v. node_data_start v \<le> fst (node_slot v i) \<and> fst (node_slot v i) + snd (node_slot v i) \<le> PAGE_SIZE)"

lemma length_node_entries [simp]: "length (node_entries v) = node_count v"
  by (simp add: node_entries_def)

lemma node_wf_count:
  assumes "node_wf v"
  shows "node_count v \<le> 1018" "node_checked_count v pid = Inr (node_slot_count v)"
proof -
  have "node_slot_offset (node_count v) \<le> PAGE_SIZE"
    using assms diff_le_self [of PAGE_SIZE "unat (node_data_used v)"] by (auto simp: node_wf_def node_data_start_def)
  then show c: "node_count v \<le> 1018" by (simp add: node_slot_offset_def node_consts PAGE_SIZE_def)
  have "unat NODE_MAX_SLOTS = 1018" by (simp add: NODE_MAX_SLOTS_def node_consts PAGE_SIZE_def)
  then show "node_checked_count v pid = Inr (node_slot_count v)"
    using c by (simp add: node_checked_count_def Let_def node_count_def word_less_nat_alt)
qed

lemma entry_payload_wf:
  assumes wf: "node_wf v" and i: "i < node_count v"
  shows "entry_payload v i pid = Inr (node_entries v ! i)"
proof -
  have s: "node_slot_offset (node_count v) \<le> fst (node_slot v i)" "fst (node_slot v i) + snd (node_slot v i) \<le> length v"
    using wf i by (auto simp: node_wf_def)
  have "node_slot_entry v i pid = Inr (read_u16 v (node_slot_offset i), read_u16 v (node_slot_offset i + 2))"
    using i node_wf_count(2) [OF wf] by (simp add: node_slot_entry_def node_count_def Let_def)
  then show ?thesis
    using s i node_wf_count(2) [OF wf]
    by (simp add: entry_payload_def Let_def node_slot_def node_count_def node_entries_def node_entry_def slice_at_eq del: ok_or_eq_Inr)
qed

lemma read_entries_wf:
  assumes "node_wf v"
  shows "read_entries v pid = Inr (tail_raw v, node_entries v)"
proof -
  have "payloads_from v pid k n = Inr (drop k (node_entries v))" if "k + n = node_count v" for k n
    using that
  proof (induction n arbitrary: k)
    case (Suc n)
    have "k < node_count v" using Suc.prems by simp
    then show ?case
      using Suc entry_payload_wf [OF assms] by (simp add: Cons_nth_drop_Suc [symmetric] del: and_then_eq_Inr)
  qed simp
  from this [of 0 "node_count v"] show ?thesis
    using node_wf_count(2) [OF assms] by (simp add: read_entries_def node_count_def del: and_then_eq_Inr)
qed

lemma node_search_wf:
  assumes "node_wf v" "partitioned P (node_entries v)"
  shows "node_search P v pid = Inr (partition_point P (node_entries v))"
proof -
  have "bound_search (\<lambda>mid. and_then (entry_payload v mid pid) (\<lambda>p. Inr (P p))) 0 (node_count v) = Inr (partition_point P (node_entries v))"
    using assms partition_point_le [of P "node_entries v"]
    by (intro bound_search_partition) (simp_all add: entry_payload_wf del: and_then_eq_Inr)
  then show ?thesis
    using node_wf_count(2) [OF assms(1)] by (simp add: node_search_def node_count_def del: and_then_eq_Inr)
qed

text \<open>A sorted list of entries is partitioned by every search predicate.\<close>

lemma sorted_partitioned:
  assumes "sorted (map k xs)"
  shows "partitioned (\<lambda>x. k x \<le> y) xs" "partitioned (\<lambda>x. k x < y) xs"
  using assms by (auto simp: partitioned_def sorted_iff_nth_mono_less intro: order_trans le_less_trans)

lemma node_searches_wf:
  assumes "node_wf v"
  shows "sorted (map entry_key (node_entries v)) \<Longrightarrow>
      upper_bound v key pid = Inr (partition_point (\<lambda>p. entry_key p \<le> key) (node_entries v))"
    "sorted (map leaf_sort_key (node_entries v)) \<Longrightarrow>
      upper_bound_leaf v key pid = Inr (partition_point (\<lambda>p. leaf_sort_key p \<le> key) (node_entries v))"
    "sorted (map leaf_sort_key (node_entries v)) \<Longrightarrow>
      lower_bound_leaf v key pid = Inr (partition_point (\<lambda>p. leaf_sort_key p < key) (node_entries v))"
  unfolding upper_bound_def upper_bound_leaf_def lower_bound_leaf_def
  by (rule node_search_wf [OF assms]; rule sorted_partitioned; assumption)+

section \<open>Contents from the body\<close>

text \<open>A page with the header fields, the slots and the payloads of a list of entries holds that list.\<close>

lemma node_contentsI:
  assumes v: "length v = PAGE_SIZE" "stamp_checksum v = v"
    and c: "node_slot_count v = of_nat (length es)" "length es \<le> 1018"
    and room: "node_slot_offset (length es) \<le> node_data_start v"
    and slot: "\<And>i. i < length es \<Longrightarrow> node_data_start v \<le> at i \<and> at i + length (es ! i) \<le> PAGE_SIZE
      \<and> bytes_at v (node_slot_offset i) 4 = slot_bytes (at i) (length (es ! i))
      \<and> bytes_at v (at i) (length (es ! i)) = es ! i"
  shows "node_wf v" "node_entries v = es" "node_count v = length es"
proof -
  show n: "node_count v = length es"
    using c by (simp add: node_count_def unat_of_nat_small)
  have s: "node_slot v i = (at i, length (es ! i))" if "i < length es" for i
  proof -
    let ?b = "bytes_at v (node_slot_offset i) 4"
    have "bytes_at v (node_slot_offset i) 2 = take 2 ?b" "bytes_at v (node_slot_offset i + 2) 2 = drop 2 ?b"
      by (simp_all add: bytes_at_def drop_take add.commute)
    moreover have "at i < 65536" "length (es ! i) < 65536" using slot [OF that] by (simp_all add: PAGE_SIZE_def)
    ultimately show ?thesis
      using slot [OF that] by (simp add: node_slot_def read_u16_def unat_of_nat_small slot_bytes_def)
  qed
  show "node_wf v" using v room slot s n by (auto simp: node_wf_def)
  show "node_entries v = es"
    using slot s n by (auto simp: node_entries_def node_entry_def intro!: nth_equalityI)
qed

lemma node_slot_bytes:
  assumes "node_wf v" "i < node_count v"
  shows "bytes_at v (node_slot_offset i) 4 = slot_bytes (fst (node_slot v i)) (snd (node_slot v i))"
proof -
  let ?b = "bytes_at v (node_slot_offset i) 4"
  have "node_slot_offset i + 4 \<le> PAGE_SIZE"
    using node_wf_count(1) [OF assms(1)] assms(2) by (simp add: node_slot_offset_def node_consts PAGE_SIZE_def)
  then have "length ?b = 4" using assms(1) by (simp add: node_wf_def)
  moreover have "bytes_at v (node_slot_offset i) 2 = take 2 ?b" "bytes_at v (node_slot_offset i + 2) 2 = drop 2 ?b"
    by (simp_all add: bytes_at_def drop_take add.commute)
  ultimately show ?thesis
    using word_le_round(1) [of "take 2 ?b"] word_le_round(1) [of "drop 2 ?b"]
    by (simp add: node_slot_def read_u16_def slot_bytes_def)
qed

section \<open>Rebuilding\<close>

lemma rebuild_slots_Cons:
  "rebuild_slots i fin (e # es) body = rebuild_slots (Suc i) (fin - length e) es
     (splice (splice body (fin - length e) e) (9 + i * 4) (slot_bytes (fin - length e + 12) (length e)))"
  by (simp add: Let_def node_consts)

lemma length_rebuild_slots:
  "9 + (i + length es) * 4 + sum_list (map length es) \<le> fin \<Longrightarrow> fin \<le> length body \<Longrightarrow>
   length (rebuild_slots i fin es body) = length body"
proof (induction es arbitrary: i fin body)
  case (Cons e es)
  then show ?case unfolding rebuild_slots_Cons by (subst Cons.IH) simp_all
qed simp

fun payload_start :: "nat \<Rightarrow> bytes list \<Rightarrow> nat \<Rightarrow> nat" where
  "payload_start fin (e # es) 0 = fin - length e"
| "payload_start fin (e # es) (Suc k) = payload_start (fin - length e) es k"
| "payload_start fin [] k = fin"

lemma payload_start_bounds:
  assumes "k < length es" "sum_list (map length es) \<le> fin"
  shows "fin - sum_list (map length es) \<le> payload_start fin es k \<and> payload_start fin es k + length (es ! k) \<le> fin"
  using assms
proof (induction fin es k rule: payload_start.induct)
  case (2 fin e es k)
  then have "fin - length e - sum_list (map length es) \<le> payload_start (fin - length e) es k"
    "payload_start (fin - length e) es k + length (es ! k) \<le> fin - length e"
    by auto
  then show ?case by simp
qed auto

lemma rebuild_slots_other:
  assumes "9 + (i + length es) * 4 + sum_list (map length es) \<le> fin" "fin \<le> length body"
    "off + n \<le> 9 + i * 4 \<or> fin \<le> off \<and> off + n \<le> length body"
  shows "bytes_at (rebuild_slots i fin es body) off n = bytes_at body off n"
  using assms
proof (induction es arbitrary: i fin body)
  case (Cons e es)
  let ?d = "fin - length e"
  let ?b2 = "splice (splice body ?d e) (9 + i * 4) (slot_bytes (?d + 12) (length e))"
  have "bytes_at (rebuild_slots (Suc i) ?d es ?b2) off n = bytes_at ?b2 off n"
    using Cons.prems by (intro Cons.IH) auto
  also have "\<dots> = bytes_at body off n"
    using Cons.prems by (auto simp: bytes_at_splice_other)
  finally show ?case unfolding rebuild_slots_Cons .
qed simp

lemma rebuild_slots_contents:
  assumes "9 + (i + length es) * 4 + sum_list (map length es) \<le> fin" "fin \<le> length body" "k < length es"
  shows "bytes_at (rebuild_slots i fin es body) (9 + (i + k) * 4) 4 = slot_bytes (payload_start fin es k + 12) (length (es ! k))"
    and "bytes_at (rebuild_slots i fin es body) (payload_start fin es k) (length (es ! k)) = es ! k"
  using assms
proof (induction es arbitrary: i fin body k)
  case (Cons e es)
  {
    case 1
    let ?d = "fin - length e"
    let ?b2 = "splice (splice body ?d e) (9 + i * 4) (slot_bytes (?d + 12) (length e))"
    have room: "9 + (Suc i + length es) * 4 + sum_list (map length es) \<le> ?d" "?d \<le> length ?b2" "9 + i * 4 + 4 \<le> length body"
      using 1 by auto
    show ?case
    proof (cases k)
      case 0
      have "bytes_at (rebuild_slots (Suc i) ?d es ?b2) (9 + i * 4) 4 = bytes_at ?b2 (9 + i * 4) 4"
        by (rule rebuild_slots_other [OF room(1,2)]) simp
      then show ?thesis unfolding rebuild_slots_Cons using 0 1 room by simp
    next
      case (Suc j)
      then show ?thesis unfolding rebuild_slots_Cons using Cons.IH(1) [OF room(1,2), of j] 1(3) by simp
    qed
  next
    case 2
    let ?d = "fin - length e"
    let ?b2 = "splice (splice body ?d e) (9 + i * 4) (slot_bytes (?d + 12) (length e))"
    have room: "9 + (Suc i + length es) * 4 + sum_list (map length es) \<le> ?d" "?d \<le> length ?b2" "9 + i * 4 + 4 \<le> ?d"
      "?d + length e \<le> length body"
      using 2 by auto
    show ?case
    proof (cases k)
      case 0
      have "bytes_at (rebuild_slots (Suc i) ?d es ?b2) ?d (length e) = bytes_at ?b2 ?d (length e)"
        using room by (intro rebuild_slots_other [OF room(1,2)]) auto
      also have "\<dots> = bytes_at (splice body ?d e) ?d (length e)"
        using room by (intro bytes_at_splice_other) auto
      finally show ?thesis unfolding rebuild_slots_Cons using 0 room by simp
    next
      case (Suc j)
      then show ?thesis unfolding rebuild_slots_Cons using Cons.IH(2) [OF room(1,2), of j] 2(3) by simp
    qed
  }
qed simp_all

end
