(* ===== verification/BTree_Write.thy ===== *)
theory BTree_Write
  imports BTree_Page
begin

text \<open>
  What the two logged writers of a node leave on its page. \<open>node_holds v kind tail es\<close> says that the
  page \<open>v\<close> is a node of that kind with that tail pointer and exactly those entries. Rebuilding a node
  gives the entries it was asked for, although only the byte runs that changed are written; inserting
  an entry puts it at its slot and keeps the others.
\<close>

type_synonym guard = "page_id \<times> frame_id"

definition node_holds :: "bytes \<Rightarrow> node_type \<Rightarrow> page_id option \<Rightarrow> bytes list \<Rightarrow> bool" where
  "node_holds v kind tail es \<longleftrightarrow> node_wf v \<and> node_type_of v = kind \<and> tail_raw v = tail \<and> node_entries v = es \<and>
     unat (node_data_used v) = sum_list (map length es)"

definition node_bytes :: "bytes list \<Rightarrow> nat" where
  "node_bytes es = sum_list (map entry_cost es)"

lemma node_bytes_simps [simp]:
  "node_bytes [] = 0" "node_bytes (e # es) = entry_cost e + node_bytes es" "node_bytes (xs @ ys) = node_bytes xs + node_bytes ys"
  by (simp_all add: node_bytes_def)

lemma node_bytes_eq: "node_bytes es = length es * 4 + sum_list (map length es)"
  by (induction es) (simp_all add: entry_cost_def node_consts)

lemma rebuild_required_bytes: "rebuild_required es = 9 + node_bytes es"
  by (simp add: rebuild_required_def node_bytes_eq node_consts)

lemma node_holds_fit:
  assumes "node_holds v kind tail es"
  shows "node_bytes es \<le> 4075" "node_will_fit v n \<longleftrightarrow> node_bytes es + 4 + n \<le> 4075"
    "node_data_start v = 4096 - sum_list (map length es)"
proof -
  have c: "unat (node_slot_count v) = length es"
    using assms length_node_entries [of v] by (auto simp: node_holds_def node_count_def)
  show d: "node_data_start v = 4096 - sum_list (map length es)"
    using assms by (simp add: node_holds_def node_data_start_def PAGE_SIZE_def)
  have "node_slot_offset (length es) \<le> node_data_start v"
    using assms c by (simp add: node_holds_def node_wf_def node_count_def)
  then show "node_bytes es \<le> 4075" unfolding d by (simp add: node_slot_offset_def node_consts node_bytes_eq)
  then show "node_will_fit v n \<longleftrightarrow> node_bytes es + 4 + n \<le> 4075"
    unfolding node_will_fit_def c d by (auto simp: node_consts node_bytes_eq)
qed

section \<open>Rebuilding\<close>

lemma rebuild_body_header:
  assumes "length cur = 4084" "rebuild_required es \<le> 4084" "off + n \<le> 9"
  shows "bytes_at (rebuild_body kind tail es cur) off n = bytes_at (node_tag kind # u16_le (of_nat (length es)) @
      u16_le (of_nat (sum_list (map length es))) @ u32_le (case tail of None \<Rightarrow> 0 | Some p \<Rightarrow> p)) off n"
proof -
  let ?h = "node_tag kind # u16_le (of_nat (length es)) @
      u16_le (of_nat (sum_list (map length es))) @ u32_le (case tail of None \<Rightarrow> 0 | Some p \<Rightarrow> p)"
  have h: "length ?h = 9" by simp
  have "bytes_at (rebuild_slots 0 4084 es (splice cur 0 ?h)) off n = bytes_at (splice cur 0 ?h) off n"
    using assms h by (intro rebuild_slots_other) (auto simp: rebuild_required_def node_consts)
  also have "\<dots> = bytes_at ?h off n"
    using bytes_at_splice_inside [of 0 ?h cur off n] assms h by simp
  finally show ?thesis using assms(1) by (simp add: rebuild_body_def Let_def)
qed

lemma length_rebuild_body:
  "length cur = 4084 \<Longrightarrow> rebuild_required es \<le> 4084 \<Longrightarrow> length (rebuild_body kind tail es cur) = 4084"
  unfolding rebuild_body_def Let_def by (subst length_rebuild_slots) (auto simp: rebuild_required_def node_consts)

lemma rebuild_body_holds:
  assumes w: "length w = PAGE_SIZE" "stamp_checksum w = w" "page_body w = rebuild_body kind tail es cur"
    and cur: "length cur = 4084" and fit: "rebuild_required es \<le> 4084" and tail: "tail \<noteq> Some 0"
  shows "node_holds w kind tail es"
proof -
  let ?h = "node_tag kind # u16_le (of_nat (length es)) @
      u16_le (of_nat (sum_list (map length es))) @ u32_le (case tail of None \<Rightarrow> 0 | Some p \<Rightarrow> p)"
  have sum: "sum_list (map length es) + 4 * length es + 9 \<le> 4084" using fit by (simp add: rebuild_required_def node_consts)
  have at: "bytes_at w off n = bytes_at ?h (off - 12) n" if "12 \<le> off" "off + n \<le> 21" for off n
    using that rebuild_body_header [OF cur fit, of "off - 12" n kind tail] by (simp add: bytes_at_body w(3))
  have c: "node_slot_count w = of_nat (length es)"
    using at [of 13 2] by (simp add: node_slot_count_def read_u16_def node_consts bytes_at_def)
  have u: "node_data_used w = of_nat (sum_list (map length es))"
    using at [of 15 2] by (simp add: node_data_used_def read_u16_def node_consts bytes_at_def)
  have used: "unat (node_data_used w) = sum_list (map length es)" using u sum by (simp add: unat_of_nat_small)
  have t: "tail_raw w = tail"
    using at [of 17 4] tail by (cases tail) (auto simp: tail_raw_def read_u32_def node_consts bytes_at_def)
  have "w ! 12 = node_tag kind"
    using at [of 12 1] w(1) by (simp add: bytes_at_def PAGE_SIZE_def take_Suc hd_drop_conv_nth)
  then have k: "node_type_of w = kind" by (cases kind) (simp_all add: node_type_of_def node_consts)
  have start: "node_data_start w = 4096 - sum_list (map length es)" by (simp add: node_data_start_def used PAGE_SIZE_def)
  have slot: "node_data_start w \<le> payload_start 4084 es i + 12 \<and> payload_start 4084 es i + 12 + length (es ! i) \<le> PAGE_SIZE
      \<and> bytes_at w (node_slot_offset i) 4 = slot_bytes (payload_start 4084 es i + 12) (length (es ! i))
      \<and> bytes_at w (payload_start 4084 es i + 12) (length (es ! i)) = es ! i" if "i < length es" for i
  proof -
    note R = rebuild_slots_contents [of 0 es 4084 "splice cur 0 ?h" i] and P = payload_start_bounds [OF that, of 4084]
    have "page_body w = rebuild_slots 0 4084 es (splice cur 0 ?h)" using w(3) cur by (simp add: rebuild_body_def)
    moreover have "4096 - sum_list (map length es) \<le> payload_start 4084 es i + 12" using P sum by linarith
    ultimately show ?thesis
      using R P that sum cur start by (simp add: bytes_at_body node_slot_offset_def node_consts PAGE_SIZE_def mult.commute)
  qed
  have "length es \<le> 1018" "node_slot_offset (length es) \<le> node_data_start w"
    using sum start by (simp_all add: node_slot_offset_def node_consts)
  then have "node_wf w" "node_entries w = es" using node_contentsI [OF w(1,2) c _ _ slot] by auto
  then show ?thesis using k t used by (simp add: node_holds_def)
qed

section \<open>The runs that are written\<close>

definition run_set :: "(nat \<times> nat) list \<Rightarrow> nat set" where
  "run_set runs = (\<Union>(a, b) \<in> set runs. {a..<b})"

definition runs_cover :: "bytes \<Rightarrow> bytes \<Rightarrow> nat \<Rightarrow> (nat \<times> nat) list \<Rightarrow> bool" where
  "runs_cover old new i runs \<longleftrightarrow> (\<forall>r \<in> set runs. fst r \<le> snd r \<and> snd r \<le> i) \<and>
     (\<forall>j < i. j \<in> run_set runs \<or> old ! j = new ! j)"

lemma run_set_simps [simp]:
  "run_set [] = {}" "run_set (r # runs) = {fst r..<snd r} \<union> run_set runs" "run_set (xs @ ys) = run_set xs \<union> run_set ys"
  by (auto simp: run_set_def)

lemma run_end_le: "run_end xs ys \<le> length xs"
  by (induction xs ys rule: run_end.induct) auto

lemma push_run_cover:
  assumes c: "runs_cover old new i runs" and i: "i < fin"
  shows "runs_cover old new fin (push_run runs i fin)" "length (push_run runs i fin) \<le> Suc (length runs)"
proof -
  show "length (push_run runs i fin) \<le> Suc (length runs)" by (simp add: push_run_def)
  have cov: "j \<in> run_set runs \<or> i \<le> j \<or> old ! j = new ! j" for j using c by (auto simp: runs_cover_def not_less)
  show "runs_cover old new fin (push_run runs i fin)"
  proof (cases "runs \<noteq> [] \<and> i - snd (last runs) < REBUILD_MERGE_GAP")
    case True
    then obtain rs r where runs: "runs = rs @ [r]" by (metis append_butlast_last_id)
    then have "push_run runs i fin = rs @ [(fst r, fin)]" using True by (simp add: push_run_def)
    moreover have "fst r \<le> snd r" "snd r \<le> i" using c by (auto simp: runs_cover_def runs)
    moreover have "\<forall>q \<in> set rs. fst q \<le> snd q \<and> snd q \<le> fin" using c i by (fastforce simp: runs_cover_def runs)
    ultimately show ?thesis
      using i cov unfolding runs_cover_def runs by fastforce
  next
    case False
    then have "push_run runs i fin = runs @ [(i, fin)]" by (auto simp: push_run_def)
    moreover have "\<forall>q \<in> set runs. fst q \<le> snd q \<and> snd q \<le> fin" using c i by (fastforce simp: runs_cover_def)
    ultimately show ?thesis using i cov unfolding runs_cover_def by fastforce
  qed
qed

lemma changed_runs_cover:
  assumes "runs_cover old new i runs" "i \<le> length old"
  shows "runs_cover old new (length old) (changed_runs_from old new i runs) \<and>
    length (changed_runs_from old new i runs) \<le> length runs + (length old - i)"
  using assms
proof (induction old new i runs rule: changed_runs_from.induct)
  case (1 old new i runs)
  show ?case
  proof (cases "i < length old")
    case True
    show ?thesis
    proof (cases "old ! i = new ! i")
      case eq: True
      have "runs_cover old new (Suc i) runs"
        using 1(3) eq by (fastforce simp: runs_cover_def less_Suc_eq)
      then show ?thesis
        using 1(1) [OF True eq] True eq by (simp add: changed_runs_from.simps [of old new i runs]) linarith
    next
      case False
      let ?fin = "Suc i + run_end (drop (Suc i) old) (drop (Suc i) new)"
      have fin: "?fin \<le> length old" using run_end_le [of "drop (Suc i) old" "drop (Suc i) new"] True by simp
      note P = push_run_cover [OF 1(3), of ?fin]
      have "runs_cover old new (length old) (changed_runs_from old new ?fin (push_run runs i ?fin)) \<and>
          length (changed_runs_from old new ?fin (push_run runs i ?fin)) \<le> length (push_run runs i ?fin) + (length old - ?fin)"
        using 1(2) [OF True False refl P(1) fin] by simp
      then show ?thesis using P(2) True False fin by (simp add: changed_runs_from.simps [of old new i runs] Let_def) linarith
    qed
  next
    case False
    then have "changed_runs_from old new i runs = runs" by (simp add: changed_runs_from.simps [of old new i runs])
    then show ?thesis using 1(3,4) False by simp
  qed
qed

lemma changed_byte_runs_cover:
  "runs_cover old new (length old) (changed_byte_runs old new)" "length (changed_byte_runs old new) \<le> length old"
  using changed_runs_cover [of old new 0 "[]"] by (simp_all add: changed_byte_runs_def runs_cover_def)

text \<open>Writing the runs one after the other turns the old body into the new one.\<close>

definition write_run :: "bytes \<Rightarrow> nat \<times> nat \<Rightarrow> bytes \<Rightarrow> bytes" where
  "write_run new r cur = splice cur (fst r) (bytes_at new (fst r) (snd r - fst r))"

lemma write_runs:
  assumes "length cur = length new" "\<forall>r \<in> set runs. fst r \<le> snd r \<and> snd r \<le> length new"
  shows "length (fold (write_run new) runs cur) = length new \<and>
    (\<forall>j < length new. fold (write_run new) runs cur ! j = (if j \<in> run_set runs then new ! j else cur ! j))"
  using assms
proof (induction runs arbitrary: cur)
  case (Cons r runs)
  have r: "fst r \<le> snd r" "snd r \<le> length new" using Cons.prems by auto
  have l: "length (write_run new r cur) = length new" using r Cons.prems by (simp add: write_run_def)
  have n: "write_run new r cur ! j = (if fst r \<le> j \<and> j < snd r then new ! j else cur ! j)" if "j < length new" for j
    using that r Cons.prems(1) by (auto simp: write_run_def nth_splice bytes_at_def)
  show ?case using Cons.IH [OF l] Cons.prems n by auto
qed simp

lemma write_changed_runs:
  assumes "length cur = length new"
  shows "fold (write_run new) (changed_byte_runs cur new) cur = new"
proof (rule nth_equalityI)
  note C = changed_byte_runs_cover(1) [of cur new, unfolded runs_cover_def]
  note W = write_runs [OF assms, of "changed_byte_runs cur new"]
  show "length (fold (write_run new) (changed_byte_runs cur new) cur) = length new" using W C assms by simp
  fix j assume "j < length (fold (write_run new) (changed_byte_runs cur new) cur)"
  then show "fold (write_run new) (changed_byte_runs cur new) cur ! j = new ! j" using W C assms by auto
qed

section \<open>Writing under guards\<close>

text \<open>What a write to page \<open>p\<close> under the guards \<open>gs\<close> leaves: only that page changed, to \<open>w\<close>.\<close>

definition page_written :: "guard list \<Rightarrow> page_id \<Rightarrow> bytes \<Rightarrow> nat \<Rightarrow> buffer_pool \<Rightarrow> buffer_pool \<Rightarrow> bool" where
  "page_written gs p w k bp bp' \<longleftrightarrow> pool.held gs bp' \<and> pool_view bp' = (pool_view bp)(p \<mapsto> w) \<and>
     nframes bp' = nframes bp \<and> next_page bp' = next_page bp \<and> log_room k bp'"

lemma held_pool_inv: "pool.held gs bp \<Longrightarrow> pool_inv bp"
  by (simp add: pool.held_def)

lemma held_guard_write:
  assumes "pool.held gs bp" "(p, f) \<in> set gs" "pool_view bp p = Some v" "12 \<le> off" "off + length bs \<le> PAGE_SIZE" "log_room (Suc k) bp"
  shows "\<exists>bp' w. guard_write f p txn off bs bp = (Inr (), bp') \<and> page_written gs p w k bp bp' \<and>
    page_body w = splice (page_body v) (off - 12) bs"
proof -
  have "length v = PAGE_SIZE" using pool_view_length [OF held_pool_inv [OF assms(1)] assms(3)] by simp
  then show ?thesis
    using pool.held_write [OF assms(1-3,5,6), of txn] body_write_bytes [of v off bs] assms(4,5)
    unfolding page_written_def by blast
qed

lemma page_written_trans:
  "page_written gs p w k bp bp1 \<Longrightarrow> page_written gs p w' k' bp1 bp2 \<Longrightarrow> page_written gs p w' k' bp bp2"
  by (simp add: page_written_def)

lemma page_written_view: "page_written gs p w k bp bp' \<Longrightarrow> pool_view bp' p = Some w"
  by (simp add: page_written_def)

lemma page_written_held: "page_written gs p w k bp bp' \<Longrightarrow> pool.held gs bp'"
  by (simp add: page_written_def)

lemma page_written_wf: "page_written gs p w k bp bp' \<Longrightarrow> length w = PAGE_SIZE \<and> stamp_checksum w = w"
  using pool_view_length [OF held_pool_inv page_written_view] page_written_held by blast

lemma held_write_runs:
  assumes "pool.held gs bp" "(p, f) \<in> set gs" "pool_view bp p = Some v" "length body = 4084"
    "\<forall>r \<in> set runs. fst r \<le> snd r \<and> snd r \<le> 4084" "log_room (length runs + k) bp"
  shows "\<exists>bp' w. sforeach runs (\<lambda>(start, finish). guard_write f p txn (NODE_TYPE_OFFSET + start) (bytes_at body start (finish - start))) bp
      = (Inr (), bp') \<and> page_written gs p w k bp bp' \<and> page_body w = fold (write_run body) runs (page_body v)"
  using assms(1,3,5,6)
proof (induction runs arbitrary: bp v)
  case Nil
  then show ?case by (intro exI [of _ bp] exI [of _ v]) (simp add: page_written_def fun_upd_idem)
next
  case (Cons r runs)
  let ?bs = "bytes_at body (fst r) (snd r - fst r)"
  have r: "fst r \<le> snd r" "snd r \<le> 4084" using Cons.prems(3) by auto
  then have l: "length ?bs = snd r - fst r" using assms(4) by simp
  obtain bp1 w1 where w1: "guard_write f p txn (12 + fst r) ?bs bp = (Inr (), bp1)" "page_written gs p w1 (length runs + k) bp bp1"
    "page_body w1 = splice (page_body v) (fst r) ?bs"
    using held_guard_write [OF Cons.prems(1) assms(2) Cons.prems(2), of "12 + fst r" ?bs "length runs + k" txn] Cons.prems(4) r l
    by (auto simp: PAGE_SIZE_def)
  obtain bp2 w2 where w2: "sforeach runs (\<lambda>(start, finish). guard_write f p txn (NODE_TYPE_OFFSET + start) (bytes_at body start (finish - start))) bp1
      = (Inr (), bp2)" "page_written gs p w2 k bp1 bp2" "page_body w2 = fold (write_run body) runs (page_body w1)"
    using Cons.IH [of bp1 w1] Cons.prems(3) w1(2) by (auto simp: page_written_def)
  have "page_written gs p w2 k bp bp2" by (rule page_written_trans [OF w1(2) w2(2)])
  moreover have "page_body w2 = fold (write_run body) (r # runs) (page_body v)" using w1(3) w2(3) by (simp add: write_run_def)
  moreover have "sforeach (r # runs) (\<lambda>(start, finish). guard_write f p txn (NODE_TYPE_OFFSET + start) (bytes_at body start (finish - start))) bp
      = (Inr (), bp2)"
    using w1(1) w2(1) by (simp add: sbind_def case_prod_unfold NODE_TYPE_OFFSET_def)
  ultimately show ?case by blast
qed

text \<open>At most one write for every byte of the body.\<close>

definition REBUILD_ROOM :: nat where "REBUILD_ROOM = 4084"

theorem node_rebuild_effect:
  assumes h: "pool.held gs bp" "(p, f) \<in> set gs" and fit: "9 + node_bytes es \<le> 4084" and tail: "tail \<noteq> Some 0"
    and room: "log_room (REBUILD_ROOM + k) bp"
  shows "\<exists>bp' w. node_rebuild f p txn kind tail es bp = (Inr (), bp') \<and> page_written gs p w k bp bp' \<and> node_holds w kind tail es"
proof -
  let ?d = "frame_data bp f" and ?v = "stamp_checksum (frame_data bp f)"
  let ?cur = "page_body ?d"
  let ?body = "rebuild_body kind tail es ?cur"
  have v: "pool_view bp p = Some ?v" "length ?d = PAGE_SIZE" using pool.held_data [OF h] by auto
  have cur: "length ?cur = 4084" "page_body ?v = ?cur" using v(2) by (simp_all add: PAGE_SIZE_def)
  have req: "rebuild_required es \<le> 4084" using fit by (simp add: rebuild_required_bytes)
  note B = length_rebuild_body [OF cur(1) req, of kind tail]
  note C = changed_byte_runs_cover [of ?cur ?body, unfolded runs_cover_def cur(1)]
  have "log_room (length (changed_byte_runs ?cur ?body) + k) bp"
    by (rule log_room_mono [OF room]) (use C(2) in \<open>simp add: REBUILD_ROOM_def\<close>)
  then obtain bp' w where w: "sforeach (changed_byte_runs ?cur ?body)
      (\<lambda>(start, finish). guard_write f p txn (NODE_TYPE_OFFSET + start) (bytes_at ?body start (finish - start))) bp = (Inr (), bp')"
    "page_written gs p w k bp bp'" "page_body w = fold (write_run ?body) (changed_byte_runs ?cur ?body) ?cur"
    using held_write_runs [OF h v(1) B, of "changed_byte_runs ?cur ?body" k txn] C(1) cur(2) by auto
  then have "page_body w = ?body" using write_changed_runs [of ?cur ?body] B cur(1) by simp
  then have "node_holds w kind tail es"
    using rebuild_body_holds [OF _ _ _ cur(1) req tail, of w kind] page_written_wf [OF w(2)] by blast
  moreover have "node_rebuild f p txn kind tail es bp = (Inr (), bp')"
    using w(1) req cur(1) by (simp add: node_rebuild_def Let_def node_consts)
  ultimately show ?thesis using w(2) by blast
qed

section \<open>Inserting an entry\<close>

text \<open>The body of a node after the payload, the shifted slots, the new slot and the counters are written.\<close>

definition inserted_body :: "bytes \<Rightarrow> nat \<Rightarrow> nat \<Rightarrow> nat \<Rightarrow> bytes \<Rightarrow> bytes" where
  "inserted_body b idx count d payload =
     (let b1 = splice b (d - 12) payload;
          b2 = splice b1 (9 + 4 * Suc idx) (bytes_at b (9 + 4 * idx) (4 * (count - idx)));
          b3 = splice b2 (9 + 4 * idx) (slot_bytes d (length payload))
      in b3)"

lemma inserted_body_reads:
  assumes "length b = 4084" "idx \<le> count" "21 + 4 * Suc count \<le> d" "d + length payload \<le> 4096"
  shows "length (inserted_body b idx count d payload) = 4084"
    "off + n \<le> 9 + 4 * idx \<Longrightarrow> bytes_at (inserted_body b idx count d payload) off n = bytes_at b off n"
    "bytes_at (inserted_body b idx count d payload) (9 + 4 * idx) 4 = slot_bytes d (length payload)"
    "idx \<le> i \<Longrightarrow> i < count \<Longrightarrow> bytes_at (inserted_body b idx count d payload) (9 + 4 * Suc i) 4 = bytes_at b (9 + 4 * i) 4"
    "bytes_at (inserted_body b idx count d payload) (d - 12) (length payload) = payload"
    "d + length payload - 12 \<le> off \<Longrightarrow> off + n \<le> 4084 \<Longrightarrow> bytes_at (inserted_body b idx count d payload) off n = bytes_at b off n"
proof -
  let ?b1 = "splice b (d - 12) payload"
  let ?sh = "bytes_at b (9 + 4 * idx) (4 * (count - idx))"
  let ?b2 = "splice ?b1 (9 + 4 * Suc idx) ?sh"
  let ?b3 = "splice ?b2 (9 + 4 * idx) (slot_bytes d (length payload))"
  have d: "9 + 4 * Suc count \<le> d - 12" "d - 12 + length payload \<le> 4084" "12 \<le> d" using assms(3,4) by auto
  have l1: "length ?b1 = 4084" using d assms(1) by simp
  have lsh: "length ?sh = 4 * (count - idx)" using d assms(1,2) by simp
  have l2: "length ?b2 = 4084" using l1 lsh d assms(2) by simp
  have l3: "length ?b3 = 4084" using l2 d assms(2) by simp
  have eq: "inserted_body b idx count d payload = ?b3" by (simp add: inserted_body_def Let_def)
  show "length (inserted_body b idx count d payload) = 4084" using l3 by (simp add: eq)
  show "bytes_at (inserted_body b idx count d payload) off n = bytes_at b off n" if "off + n \<le> 9 + 4 * idx"
  proof -
    have "bytes_at ?b3 off n = bytes_at ?b2 off n" using that l2 d assms(2) by (intro bytes_at_splice_other) auto
    also have "\<dots> = bytes_at ?b1 off n" using that l1 lsh d assms(2) by (intro bytes_at_splice_other) auto
    also have "\<dots> = bytes_at b off n" using that d assms(1,2) by (intro bytes_at_splice_other) auto
    finally show ?thesis by (simp add: eq)
  qed
  show "bytes_at (inserted_body b idx count d payload) (9 + 4 * idx) 4 = slot_bytes d (length payload)"
    unfolding eq using l2 d assms(2) by (intro bytes_at_splice_same) auto
  show "bytes_at (inserted_body b idx count d payload) (9 + 4 * Suc i) 4 = bytes_at b (9 + 4 * i) 4" if "idx \<le> i" "i < count"
  proof -
    have "bytes_at ?b3 (9 + 4 * Suc i) 4 = bytes_at ?b2 (9 + 4 * Suc i) 4"
      using that l2 d by (intro bytes_at_splice_other) auto
    also have "\<dots> = bytes_at ?sh (9 + 4 * Suc i - (9 + 4 * Suc idx)) 4"
      using that l1 lsh d by (intro bytes_at_splice_inside) auto
    also have "\<dots> = bytes_at b (9 + 4 * i) 4"
      using that by (simp add: bytes_at_def drop_take min_def algebra_simps)
    finally show ?thesis by (simp add: eq)
  qed
  show "bytes_at (inserted_body b idx count d payload) (d - 12) (length payload) = payload"
  proof -
    have "bytes_at ?b3 (d - 12) (length payload) = bytes_at ?b2 (d - 12) (length payload)"
      using l2 d assms(2) by (intro bytes_at_splice_other) auto
    also have "\<dots> = bytes_at ?b1 (d - 12) (length payload)" using l1 lsh d assms(2) by (intro bytes_at_splice_other) auto
    also have "\<dots> = payload" using d assms(1) by simp
    finally show ?thesis by (simp add: eq)
  qed
  show "bytes_at (inserted_body b idx count d payload) off n = bytes_at b off n" if "d + length payload - 12 \<le> off" "off + n \<le> 4084"
  proof -
    have "bytes_at ?b3 off n = bytes_at ?b2 off n" using that l2 d assms(2) by (intro bytes_at_splice_other) auto
    also have "\<dots> = bytes_at ?b1 off n" using that l1 lsh d assms(2) by (intro bytes_at_splice_other) auto
    also have "\<dots> = bytes_at b off n" using that d assms(1,2) by (intro bytes_at_splice_other) auto
    finally show ?thesis by (simp add: eq)
  qed
qed

lemma inserted_holds:
  assumes v: "node_holds v kind tail es" and fit: "node_bytes es + 4 + length payload \<le> 4075" and idx: "idx \<le> length es"
    and w: "length w = PAGE_SIZE" "stamp_checksum w = w"
    and b: "page_body w = splice (inserted_body (page_body v) idx (length es) (node_data_start v - length payload) payload) 1
      (u16_le (of_nat (length es) + 1) @ u16_le (node_data_used v + of_nat (length payload)))"
  shows "node_holds w kind tail (take idx es @ payload # drop idx es)"
proof -
  let ?d = "node_data_start v - length payload" and ?n = "length es" and ?es = "take idx es @ payload # drop idx es"
  let ?b = "inserted_body (page_body v) idx ?n ?d payload"
  have wf: "node_wf v" "length v = PAGE_SIZE" "node_entries v = es" "node_count v = ?n"
    "unat (node_data_used v) = sum_list (map length es)"
    using v length_node_entries [of v] by (auto simp: node_holds_def node_wf_def)
  have start: "node_data_start v = 4096 - sum_list (map length es)" by (rule node_holds_fit(3) [OF v])
  have sum: "21 + 4 * Suc ?n + length payload \<le> node_data_start v" "node_data_start v \<le> 4096"
    "sum_list (map length es) + length payload + 4 * Suc ?n + 21 \<le> 4096"
    using fit unfolding start by (simp_all add: node_bytes_eq)
  have pre: "length (page_body v) = 4084" "idx \<le> ?n" "21 + 4 * Suc ?n \<le> ?d" "?d + length payload \<le> 4096"
    using wf(2) idx sum by (auto simp: PAGE_SIZE_def)
  note R = inserted_body_reads [OF pre]
  have lc: "length (u16_le (of_nat ?n + 1) @ u16_le (node_data_used v + of_nat (length payload))) = 4" by simp
  have far: "bytes_at w off n = bytes_at ?b (off - 12) n" if "17 \<le> off \<or> 12 \<le> off \<and> off + n \<le> 13" "off + n \<le> 4096" for off n
  proof -
    have "bytes_at w off n = bytes_at (page_body w) (off - 12) n" using that by (intro bytes_at_body) auto
    also have "\<dots> = bytes_at ?b (off - 12) n" unfolding b using that R(1) lc by (intro bytes_at_splice_other) auto
    finally show ?thesis .
  qed
  have head: "bytes_at w off n = bytes_at v off n" if "17 \<le> off \<and> off + n \<le> 21 + 4 * idx \<or> off = 12 \<and> n = 1" for off n
    using that far [of off n] R(2) [of "off - 12" n] sum(1,2) idx by (auto simp: bytes_at_body)
  have "bytes_at w 13 4 = u16_le (of_nat ?n + 1) @ u16_le (node_data_used v + of_nat (length payload))"
    using R(1) by (simp add: bytes_at_body b)
  then have cu: "bytes_at w 13 2 = u16_le (of_nat ?n + 1)" "bytes_at w 15 2 = u16_le (node_data_used v + of_nat (length payload))"
    using bytes_at_drop [of 13 w 2 2] by (auto simp: bytes_at_def drop_take take_eq_Nil dest: arg_cong [of _ _ "take 2"] arg_cong [of _ _ "drop 2"])
  have c: "node_slot_count w = of_nat (length ?es)"
    using cu(1) idx by (simp add: node_slot_count_def read_u16_def node_consts add.commute)
  have u: "unat (node_data_used w) = sum_list (map length ?es)"
  proof -
    have "unat (node_data_used v + of_nat (length payload)) = sum_list (map length es) + length payload"
      using wf(5) sum by (simp add: unat_word_ariths unat_of_nat)
    moreover have "sum_list (map length es) = sum_list (map length (take idx es)) + sum_list (map length (drop idx es))"
      by (metis append_take_drop_id map_append sum_list_append)
    ultimately show ?thesis using cu(2) by (simp add: node_data_used_def read_u16_def node_consts)
  qed
  have ds: "node_data_start w = ?d" using u start sum wf(5) by (simp add: node_data_start_def PAGE_SIZE_def)
      (metis append_take_drop_id map_append sum_list_append add.assoc add.commute)
  define at where "at i = (if i < idx then fst (node_slot v i) else if i = idx then ?d else fst (node_slot v (i - 1)))" for i
  have old: "node_data_start v \<le> fst (node_slot v j)" "fst (node_slot v j) + length (es ! j) \<le> 4096"
    "bytes_at v (node_slot_offset j) 4 = slot_bytes (fst (node_slot v j)) (length (es ! j))"
    "bytes_at w (fst (node_slot v j)) (length (es ! j)) = es ! j" if "j < ?n" for j
  proof -
    have b: "node_data_start v \<le> fst (node_slot v j)" "fst (node_slot v j) + snd (node_slot v j) \<le> 4096"
      using that wf unfolding node_wf_def by (auto simp: PAGE_SIZE_def)
    have "node_entries v ! j = node_entry v j" using that wf(4) by (simp add: node_entries_def)
    then have s: "snd (node_slot v j) = length (es ! j)" "bytes_at v (fst (node_slot v j)) (length (es ! j)) = es ! j"
      using b(2) wf(2,3) by (simp_all add: node_entry_def PAGE_SIZE_def)
    show "node_data_start v \<le> fst (node_slot v j)" "fst (node_slot v j) + length (es ! j) \<le> 4096" using b s by auto
    show "bytes_at v (node_slot_offset j) 4 = slot_bytes (fst (node_slot v j)) (length (es ! j))"
      using node_slot_bytes [OF wf(1), of j] that wf(4) s by simp
    have "bytes_at w (fst (node_slot v j)) (length (es ! j)) = bytes_at (page_body v) (fst (node_slot v j) - 12) (length (es ! j))"
      using far [of "fst (node_slot v j)" "length (es ! j)"] R(6) [of "fst (node_slot v j) - 12" "length (es ! j)"] b s sum by simp
    then show "bytes_at w (fst (node_slot v j)) (length (es ! j)) = es ! j"
      using s b sum by (simp add: bytes_at_body)
  qed
  have slot: "node_data_start w \<le> at i \<and> at i + length (?es ! i) \<le> PAGE_SIZE \<and>
      bytes_at w (node_slot_offset i) 4 = slot_bytes (at i) (length (?es ! i)) \<and> bytes_at w (at i) (length (?es ! i)) = ?es ! i"
    if "i < length ?es" for i
  proof -
    consider "i < idx" | "i = idx" | j where "i = Suc j" "idx \<le> j" "j < ?n"
      using \<open>i < length ?es\<close> idx by (cases i) (auto simp: not_less, linarith+)
    then show ?thesis
    proof cases
      case 1
      then have "?es ! i = es ! i" using idx by (simp add: nth_append)
      then show ?thesis using 1 old [of i] idx head [of "node_slot_offset i" 4] ds sum
        by (simp add: at_def PAGE_SIZE_def node_slot_offset_def node_consts)
    next
      case 2
      then have e: "?es ! i = payload" using idx by (simp add: nth_append)
      have "bytes_at w (node_slot_offset i) 4 = slot_bytes ?d (length payload)"
        using far [of "node_slot_offset i" 4] R(3) 2 idx sum by (simp add: node_slot_offset_def node_consts mult.commute)
      moreover have "bytes_at w ?d (length payload) = payload" using far [of ?d "length payload"] R(5) pre(3,4) by simp
      ultimately show ?thesis using 2 e ds pre(4) by (simp add: at_def PAGE_SIZE_def)
    next
      case (3 j)
      then have e: "?es ! i = es ! j" using idx by (simp add: nth_append Suc_diff_le)
      have "bytes_at w (node_slot_offset i) 4 = bytes_at v (node_slot_offset j) 4"
        using far [of "node_slot_offset i" 4] R(4) [OF 3(2,3)] 3 sum by (simp add: node_slot_offset_def node_consts bytes_at_body mult.commute)
      then show ?thesis using 3 e old [of j] ds sum by (simp add: at_def PAGE_SIZE_def)
    qed
  qed
  have "length ?es \<le> 1018" "node_slot_offset (length ?es) \<le> node_data_start w"
    using sum ds idx pre(3) by (simp_all add: node_slot_offset_def node_consts)
  then have "node_wf w" "node_entries w = ?es" using node_contentsI [OF w c _ _ slot] by auto
  moreover have "tail_raw w = tail" "node_type_of w = kind"
    using head [of 17 4] head [of 12 1] v w(1) wf(2)
    by (auto simp: node_holds_def tail_raw_def read_u32_def node_consts node_type_of_def bytes_at_def PAGE_SIZE_def take_Suc hd_drop_conv_nth)
  ultimately show ?thesis using u by (simp add: node_holds_def)
qed

lemma splice_nil: "splice b off [] = b"
  by (simp add: splice_def)

lemma held_read:
  assumes "pool.held gs bp" "(p, f) \<in> set gs" "pool_view bp p = Some w"
  shows "page_body (frame_data bp f) = page_body w" "length (frame_data bp f) = PAGE_SIZE" "length w = PAGE_SIZE"
    "12 \<le> off \<Longrightarrow> bytes_at (frame_data bp f) off n = bytes_at w off n"
proof -
  have "w = stamp_checksum (frame_data bp f)" "length (frame_data bp f) = PAGE_SIZE"
    using pool.held_data [OF assms(1,2)] assms(3) by auto
  then show b: "page_body (frame_data bp f) = page_body w" and "length (frame_data bp f) = PAGE_SIZE" "length w = PAGE_SIZE"
    by simp_all
  show "12 \<le> off \<Longrightarrow> bytes_at (frame_data bp f) off n = bytes_at w off n" using b by (simp add: bytes_at_body)
qed

lemma held_reads:
  assumes "pool.held gs bp" "(p, f) \<in> set gs" "pool_view bp p = Some w"
  shows "node_slot_count (frame_data bp f) = node_slot_count w" "node_data_start (frame_data bp f) = node_data_start w"
    "tail_raw (frame_data bp f) = tail_raw w" "node_type_of (frame_data bp f) = node_type_of w"
    "node_checked_count (frame_data bp f) pid = node_checked_count w pid" "entry_payload (frame_data bp f) i pid = entry_payload w i pid"
    "node_will_fit (frame_data bp f) n = node_will_fit w n" "read_entries (frame_data bp f) pid = read_entries w pid"
    "child_for_key (frame_data bp f) key pid = child_for_key w key pid" "node_search P (frame_data bp f) pid = node_search P w pid"
    "find_insert_index (frame_data bp f) pid key = find_insert_index w pid key"
  using node_reads_body [OF held_read(2,3,1) [OF assms]] by metis+

theorem node_insert_at_effect:
  assumes h: "pool.held gs bp" "(p, f) \<in> set gs" and v: "pool_view bp p = Some v" "node_holds v kind tail es"
    and idx: "idx \<le> length es" and fit: "node_bytes es + 4 + length payload \<le> 4075" and room: "log_room (4 + k) bp"
  shows "\<exists>bp' w. node_insert_at f p txn idx payload bp = (Inr (), bp') \<and> page_written gs p w k bp bp' \<and>
    node_holds w kind tail (take idx es @ payload # drop idx es)"
proof -
  let ?n = "length es" and ?d = "node_data_start v - length payload"
  have start: "node_data_start v = 4096 - sum_list (map length es)" by (rule node_holds_fit(3) [OF v(2)])
  have d: "21 + 4 * Suc ?n \<le> ?d" "?d + length payload \<le> 4096" "12 \<le> ?d"
    using fit unfolding start by (simp_all add: node_bytes_eq)
  have cnt: "unat (node_slot_count v) = ?n"
    using v(2) length_node_entries [of v] by (auto simp: node_holds_def node_count_def)
  have cnt': "node_slot_count v = of_nat ?n" by (simp flip: cnt)
  note H = held_reads [OF h v(1)]
  have room4: "log_room (Suc (Suc (Suc (Suc k)))) bp" using room by (simp add: numeral_eq_Suc)
  let ?sh = "bytes_at (page_body v) (9 + 4 * idx) (4 * (?n - idx))"
  let ?b1 = "splice (page_body v) (?d - 12) payload"
  let ?b2 = "splice ?b1 (9 + 4 * Suc idx) ?sh"
  have lv: "length v = PAGE_SIZE" "length (page_body v) = 4084" using v(2) by (simp_all add: node_holds_def node_wf_def PAGE_SIZE_def)
  have lsh: "length ?sh = 4 * (?n - idx)" using lv d idx by simp
  obtain bp1 w1 where w1: "guard_write f p txn ?d payload bp = (Inr (), bp1)" "page_written gs p w1 (Suc (Suc (Suc k))) bp bp1" "page_body w1 = ?b1"
    using held_guard_write [OF h v(1) d(3), of payload "Suc (Suc (Suc k))" txn] d(2) room4 by (auto simp: PAGE_SIZE_def)
  note W1 = page_written_held [OF w1(2)] page_written_view [OF w1(2)]
  have sh: "bytes_at (frame_data bp1 f) (node_slot_offset idx) (node_slot_offset ?n - node_slot_offset idx) = ?sh"
  proof -
    have "bytes_at (frame_data bp1 f) (21 + 4 * idx) (4 * (?n - idx)) = bytes_at (page_body w1) (9 + 4 * idx) (4 * (?n - idx))"
      using held_read(4) [OF W1(1) h(2) W1(2), of "21 + 4 * idx"] by (simp add: bytes_at_body)
    also have "\<dots> = ?sh" unfolding w1(3) using lv d idx by (intro bytes_at_splice_other) auto
    finally show ?thesis using idx by (simp add: node_slot_offset_def node_consts mult.commute diff_mult_distrib)
  qed
  obtain bp2 w2 where w2: "(if idx < ?n then sbind (sget (\<lambda>bp. bytes_at (frame_data bp f) (node_slot_offset idx) (node_slot_offset ?n - node_slot_offset idx)))
        (\<lambda>shifted. guard_write f p txn (node_slot_offset (idx + 1)) shifted) else sreturn ()) bp1 = (Inr (), bp2)"
    "page_written gs p w2 (Suc (Suc k)) bp1 bp2" "page_body w2 = ?b2"
  proof (cases "idx < ?n")
    case True
    have "guard_write f p txn (node_slot_offset (idx + 1)) ?sh bp1 = (Inr (), bp2) \<Longrightarrow> page_written gs p w2 (Suc (Suc k)) bp1 bp2 \<Longrightarrow>
        page_body w2 = ?b2 \<Longrightarrow> thesis" for bp2 w2
      using that [of bp2 w2] True sh by (simp add: sbind_def)
    moreover have "\<exists>bp2 w2. guard_write f p txn (node_slot_offset (idx + 1)) ?sh bp1 = (Inr (), bp2) \<and>
        page_written gs p w2 (Suc (Suc k)) bp1 bp2 \<and> page_body w2 = splice (page_body w1) (node_slot_offset (idx + 1) - 12) ?sh"
      by (rule held_guard_write [OF W1(1) h(2) W1(2)])
        (use w1(2) lsh d idx in \<open>auto simp: node_slot_offset_def node_consts PAGE_SIZE_def page_written_def\<close>)
    ultimately show thesis using w1(3) by (auto simp: node_slot_offset_def node_consts mult.commute)
  next
    case False
    then have "page_body w1 = ?b2" using w1(3) idx by (simp add: splice_nil bytes_at_def)
    moreover have "page_written gs p w1 (Suc (Suc k)) bp1 bp1"
      using w1(2) log_room_mono [of "Suc (Suc (Suc k))" bp1 "Suc (Suc k)"] by (auto simp: page_written_def fun_upd_idem)
    ultimately show thesis using that [of bp1 w1] False by simp
  qed
  note W2 = page_written_held [OF w2(2)] page_written_view [OF w2(2)]
  obtain bp3 w3 where w3: "guard_write f p txn (node_slot_offset idx) (slot_bytes ?d (length payload)) bp2 = (Inr (), bp3)"
    "page_written gs p w3 (Suc k) bp2 bp3" "page_body w3 = inserted_body (page_body v) idx ?n ?d payload"
  proof -
    have so: "node_slot_offset idx = 21 + 4 * idx" "12 \<le> node_slot_offset idx" "node_slot_offset idx + 4 \<le> PAGE_SIZE"
      using d idx by (auto simp: node_slot_offset_def node_consts PAGE_SIZE_def)
    show thesis
      using held_guard_write [OF W2(1) h(2) W2(2) so(2), of "slot_bytes ?d (length payload)" "Suc k" txn] so w2(2,3) that
      by (auto simp: page_written_def inserted_body_def Let_def)
  qed
  note W3 = page_written_held [OF w3(2)] page_written_view [OF w3(2)]
  have pre: "length (page_body v) = 4084" "idx \<le> ?n" "21 + 4 * Suc ?n \<le> ?d" "?d + length payload \<le> 4096" using lv idx d by auto
  have used: "node_data_used (frame_data bp3 f) = node_data_used v"
  proof -
    have "bytes_at (frame_data bp3 f) 15 2 = bytes_at (page_body w3) 3 2"
      using held_read(4) [OF W3(1) h(2) W3(2), of 15] by (simp add: bytes_at_body)
    also have "\<dots> = bytes_at v 15 2" unfolding w3(3) using inserted_body_reads(2) [OF pre, of 3 2] by (simp add: bytes_at_body)
    finally show ?thesis by (simp add: node_data_used_def read_u16_def node_consts)
  qed
  let ?c = "u16_le (of_nat ?n + 1) @ u16_le (node_data_used v + of_nat (length payload))"
  obtain bp4 w4 where w4: "guard_write f p txn NODE_COUNT_OFFSET ?c bp3 = (Inr (), bp4)"
    "page_written gs p w4 k bp3 bp4" "page_body w4 = splice (page_body w3) 1 ?c"
    using held_guard_write [OF W3(1) h(2) W3(2), of NODE_COUNT_OFFSET ?c k txn] w3(2)
    by (auto simp: node_consts PAGE_SIZE_def page_written_def)
  have "node_insert_at f p txn idx payload bp = (Inr (), bp4)"
    using w1(1) w2(1) w3(1) w4(1) used H(1,2) cnt cnt' by (simp add: node_insert_at_def sbind_def Let_def)
  moreover have "page_written gs p w4 k bp bp4"
    using w1(2) w2(2) w3(2) w4(2) by (meson page_written_trans)
  moreover have "node_holds w4 kind tail (take idx es @ payload # drop idx es)"
    using page_written_wf [OF w4(2)] w4(3) w3(3) by (intro inserted_holds [OF v(2) fit idx]) auto
  ultimately show ?thesis by blast
qed

end
