(* ===== verification/BTree.thy ===== *)
theory BTree
  imports BTree_Write
begin

text \<open>
  The B+ tree operations of \<open>storage/src/btree.rs\<close> on the buffer pool: creation, the descents with their
  guards, point lookup, leaf scans, the range iterator, and insertion with its cascade of splits. A
  guard is the pair of a page and the frame that holds it; dropping it unpins the frame. Loops that
  follow page links are partial functions, undefined where the links do not end.
\<close>

definition drop_guards :: "guard list \<Rightarrow> buffer_pool \<Rightarrow> buffer_pool" where
  "drop_guards gs bp = fold (\<lambda>(_, f). unpin_frame f) gs bp"

definition btree_create :: "txn_id \<Rightarrow> page_id pool_m" where
  "btree_create txn =
     sbind (new_page txn) (\<lambda>(pid, f) bp.
       case node_init f pid txn Leaf None bp of
         (Inl e, bp') \<Rightarrow> (Inl e, unpin_frame f bp')
       | (Inr _, bp') \<Rightarrow> (Inr pid, unpin_frame f bp'))"

section \<open>Descending\<close>

text \<open>The parent's guard is dropped once the child's page is latched.\<close>

partial_function (option) descend_to_leaf ::
    "bytes \<Rightarrow> page_id \<Rightarrow> guard list \<Rightarrow> page_id list \<Rightarrow> buffer_pool
      \<Rightarrow> ((storage_error + page_id \<times> page_id list) \<times> buffer_pool) option" where
  "descend_to_leaf key current parent path bp =
     (case fetch_frame current bp of
        (Inl e, bp1) \<Rightarrow> Some (Inl e, drop_guards parent bp1)
      | (Inr f, bp1) \<Rightarrow>
          (let bp2 = drop_guards parent bp1 in
           case node_type_of (frame_data bp2 f) of
             Leaf \<Rightarrow> Some (Inr (current, path), unpin_frame f bp2)
           | Internal \<Rightarrow>
               (case child_for_key (frame_data bp2 f) key current of
                  Inl e \<Rightarrow> Some (Inl e, unpin_frame f bp2)
                | Inr child \<Rightarrow> descend_to_leaf key child [(current, f)] (path @ [current]) bp2)))"

definition leftmost_step :: "page_id \<Rightarrow> page_id option pool_m" where
  "leftmost_step pid =
     with_page pid (\<lambda>f bp.
       (case node_type_of (frame_data bp f) of
          Leaf \<Rightarrow> Inr None
        | Internal \<Rightarrow> and_then (ok_or (tail_raw (frame_data bp f)) (CorruptPage pid no_tail_reason)) (\<lambda>c. Inr (Some c)), bp))"

partial_function (option) leftmost_leaf :: "page_id \<Rightarrow> buffer_pool \<Rightarrow> ((storage_error + page_id) \<times> buffer_pool) option" where
  "leftmost_leaf current bp =
     (case leftmost_step current bp of
        (Inl e, bp1) \<Rightarrow> Some (Inl e, bp1)
      | (Inr None, bp1) \<Rightarrow> Some (Inr current, bp1)
      | (Inr (Some child), bp1) \<Rightarrow> leftmost_leaf child bp1)"

text \<open>The retained ancestors, the most recent first, and the leaf.\<close>

partial_function (option) descend_for_insert ::
    "bytes \<Rightarrow> nat \<Rightarrow> page_id \<Rightarrow> guard list \<Rightarrow> buffer_pool
      \<Rightarrow> ((storage_error + guard list \<times> guard) \<times> buffer_pool) option" where
  "descend_for_insert skey payload_len current ancestors bp =
     (case fetch_frame current bp of
        (Inl e, bp1) \<Rightarrow> Some (Inl e, drop_guards ancestors bp1)
      | (Inr f, bp1) \<Rightarrow>
          (let bs = frame_data bp1 f in
           case node_type_of bs of
             Leaf \<Rightarrow>
               if node_will_fit bs payload_len then Some (Inr ([], (current, f)), drop_guards ancestors bp1)
               else Some (Inr (ancestors, (current, f)), bp1)
           | Internal \<Rightarrow>
               (case child_for_key bs skey current of
                  Inl e \<Rightarrow> Some (Inl e, drop_guards ancestors (unpin_frame f bp1))
                | Inr child \<Rightarrow>
                    if node_will_fit bs MAX_INTERNAL_PUSH_UP_SIZE
                    then descend_for_insert skey payload_len child [(current, f)] (drop_guards ancestors bp1)
                    else descend_for_insert skey payload_len child ((current, f) # ancestors) bp1)))"

section \<open>Reading\<close>

text \<open>The entries from \<open>idx\<close> on that have the key; \<open>n\<close> is how many are left.\<close>

fun collect_rids :: "bytes \<Rightarrow> bytes \<Rightarrow> page_id \<Rightarrow> nat \<Rightarrow> nat \<Rightarrow> storage_error + rid list \<times> nat" where
  "collect_rids bs key pid idx 0 = Inr ([], idx)"
| "collect_rids bs key pid idx (Suc n) =
     and_then (entry_payload bs idx pid) (\<lambda>p.
       if entry_key p \<noteq> key then Inr ([], idx)
       else and_then (collect_rids bs key pid (Suc idx) n) (\<lambda>(rs, i). Inr (leaf_rid p # rs, i)))"

definition leaf_matches :: "bytes \<Rightarrow> bytes \<Rightarrow> page_id \<Rightarrow> storage_error + rid list \<times> bool" where
  "leaf_matches bs key pid =
     and_then (node_checked_count bs pid) (\<lambda>count.
     and_then (lower_bound_leaf bs key pid) (\<lambda>idx.
     and_then (collect_rids bs key pid idx (unat count - idx)) (\<lambda>(rs, i). Inr (rs, i = unat count))))"

partial_function (option) get_loop ::
    "bytes \<Rightarrow> guard \<Rightarrow> rid list \<Rightarrow> buffer_pool \<Rightarrow> ((storage_error + rid list) \<times> buffer_pool) option" where
  "get_loop key g results bp =
     (case leaf_matches (frame_data bp (snd g)) key (fst g) of
        Inl e \<Rightarrow> Some (Inl e, unpin_frame (snd g) bp)
      | Inr (rs, ran_off) \<Rightarrow>
          (case if ran_off then tail_raw (frame_data bp (snd g)) else None of
             Some next_pid \<Rightarrow>
               (case fetch_frame next_pid bp of
                  (Inl e, bp1) \<Rightarrow> Some (Inl e, unpin_frame (snd g) bp1)
                | (Inr f, bp1) \<Rightarrow> get_loop key (next_pid, f) (results @ rs) (unpin_frame (snd g) bp1))
           | None \<Rightarrow> Some (Inr (results @ rs), unpin_frame (snd g) bp)))"

definition btree_get :: "page_id \<Rightarrow> bytes \<Rightarrow> buffer_pool \<Rightarrow> ((storage_error + rid list) \<times> buffer_pool) option" where
  "btree_get root key bp =
     (case descend_to_leaf key root [] [] bp of
        None \<Rightarrow> None
      | Some (Inl e, bp1) \<Rightarrow> Some (Inl e, bp1)
      | Some (Inr (leaf, _), bp1) \<Rightarrow>
          (case fetch_frame leaf bp1 of
             (Inl e, bp2) \<Rightarrow> Some (Inl e, bp2)
           | (Inr f, bp2) \<Rightarrow> get_loop key (leaf, f) [] bp2))"

definition leaf_for_start :: "page_id \<Rightarrow> bytes option \<Rightarrow> buffer_pool \<Rightarrow> ((storage_error + page_id) \<times> buffer_pool) option" where
  "leaf_for_start root start bp =
     (case start of
        Some key \<Rightarrow> map_option (\<lambda>(r, bp1). (and_then r (\<lambda>(leaf, _). Inr leaf), bp1)) (descend_to_leaf key root [] [] bp)
      | None \<Rightarrow> leftmost_leaf root bp)"

datatype leaf_scan = ScanEntry nat bytes bytes rid | EndOfLeaf "page_id option"

definition scan_leaf_bytes :: "bytes \<Rightarrow> page_id \<Rightarrow> bytes option \<Rightarrow> storage_error + leaf_scan" where
  "scan_leaf_bytes bs pid after =
     and_then (node_checked_count bs pid) (\<lambda>count.
     and_then (case after of Some k \<Rightarrow> lower_bound_leaf bs k pid | None \<Rightarrow> Inr 0) (\<lambda>slot.
     and_then (case after of
         Some k \<Rightarrow> if slot < unat count
           then and_then (entry_payload bs slot pid) (\<lambda>p. Inr (if leaf_sort_key p = k then slot + 1 else slot))
           else Inr slot
       | None \<Rightarrow> Inr slot) (\<lambda>slot.
       if slot \<ge> unat count then Inr (EndOfLeaf (tail_raw bs))
       else and_then (entry_payload bs slot pid) (\<lambda>p. Inr (ScanEntry slot (entry_key p) (leaf_sort_key p) (leaf_rid p))))))"

definition scan_leaf :: "page_id \<Rightarrow> bytes option \<Rightarrow> leaf_scan pool_m" where
  "scan_leaf pid after = with_page pid (\<lambda>f bp. (scan_leaf_bytes (frame_data bp f) pid after, bp))"

datatype range_state = NotStarted "bytes option" | InLeaf page_id "bytes option" | RangeDone

text \<open>One call of the iterator's \<open>next\<close>: the item, the state it leaves, the pool.\<close>

definition past_end :: "bytes option \<Rightarrow> bytes \<Rightarrow> bool" where
  "past_end fin key = (case fin of None \<Rightarrow> False | Some e \<Rightarrow> key \<ge> e)"

partial_function (option) range_next ::
    "page_id \<Rightarrow> bytes option \<Rightarrow> range_state \<Rightarrow> buffer_pool
      \<Rightarrow> ((storage_error + bytes \<times> rid) option \<times> range_state \<times> buffer_pool) option" where
  "range_next root fin st bp =
     (case st of
        RangeDone \<Rightarrow> Some (None, RangeDone, bp)
      | NotStarted start \<Rightarrow>
          Option.bind (leaf_for_start root start bp) (\<lambda>(r, bp1).
            case r of
              Inl e \<Rightarrow> Some (Some (Inl e), RangeDone, bp1)
            | Inr leaf \<Rightarrow> range_next root fin (InLeaf leaf start) bp1)
      | InLeaf pid after \<Rightarrow>
          (case scan_leaf pid after bp of
             (Inl e, bp1) \<Rightarrow> Some (Some (Inl e), RangeDone, bp1)
           | (Inr (EndOfLeaf nxt), bp1) \<Rightarrow>
               range_next root fin (case nxt of Some n \<Rightarrow> InLeaf n after | None \<Rightarrow> RangeDone) bp1
           | (Inr (ScanEntry _ key skey r), bp1) \<Rightarrow>
               if past_end fin key then Some (None, RangeDone, bp1)
               else Some (Some (Inr (key, r)), InLeaf pid (Some skey), bp1)))"

section \<open>Inserting\<close>

definition node_insert :: "guard \<Rightarrow> txn_id \<Rightarrow> bytes \<Rightarrow> bytes \<Rightarrow> unit pool_m" where
  "node_insert g txn key payload =
     sbind (\<lambda>bp. (find_insert_index (frame_data bp (snd g)) (fst g) key, bp)) (\<lambda>idx.
       node_insert_at (snd g) (fst g) txn idx payload)"

definition new_node :: "txn_id \<Rightarrow> node_type \<Rightarrow> page_id option \<Rightarrow> bytes list \<Rightarrow> page_id pool_m" where
  "new_node txn kind tail entries =
     sbind (new_page txn) (\<lambda>(pid, f) bp.
       case node_rebuild f pid txn kind tail entries bp of
         (Inl e, bp1) \<Rightarrow> (Inl e, unpin_frame f bp1)
       | (Inr _, bp1) \<Rightarrow> (Inr pid, unpin_frame f bp1))"

text \<open>A split keeps the left part in place and returns the separator with the new right page.\<close>

definition split_leaf :: "guard \<Rightarrow> txn_id \<Rightarrow> bytes \<Rightarrow> bytes \<Rightarrow> (bytes \<times> page_id) pool_m" where
  "split_leaf g txn skey payload =
     sbind (\<lambda>bp. (read_entries (frame_data bp (snd g)) (fst g), bp)) (\<lambda>(old_tail, old).
       let at = upper_bound_in_leaf old skey;
           payloads = take at old @ payload # drop at old;
           mid = leaf_split_point payloads
       in sbind (new_node txn Leaf old_tail (drop mid payloads)) (\<lambda>right.
          sbind (node_rebuild (snd g) (fst g) txn Leaf (Some right) (take mid payloads)) (\<lambda>_.
            sreturn (leaf_sort_key (payloads ! mid), right))))"

definition split_internal :: "guard \<Rightarrow> txn_id \<Rightarrow> bytes \<Rightarrow> bytes \<Rightarrow> (bytes \<times> page_id) pool_m" where
  "split_internal g txn key payload =
     sbind (\<lambda>bp. (read_entries (frame_data bp (snd g)) (fst g), bp)) (\<lambda>(tail, old).
     sbind (slift (ok_or tail (CorruptPage (fst g) no_tail_reason))) (\<lambda>old_tail.
       let at = upper_bound_in old key;
           entries = take at old @ payload # drop at old;
           mid = internal_split_point entries;
           pushed = entries ! mid
       in sbind (new_node txn Internal (Some (internal_child pushed)) (drop (Suc mid) entries)) (\<lambda>right.
          sbind (node_rebuild (snd g) (fst g) txn Internal (Some old_tail) (take mid entries)) (\<lambda>_.
            sreturn (entry_key pushed, right)))))"

text \<open>The cascade: \<open>left\<close> is the guard of the node that was split, still held.\<close>

fun insert_up :: "txn_id \<Rightarrow> page_id \<Rightarrow> guard list \<Rightarrow> guard \<Rightarrow> bytes \<times> page_id \<Rightarrow> page_id pool_m" where
  "insert_up txn root [] left (key, right) bp =
     (case new_node txn Internal (Some (fst left)) [build_internal_payload key right] bp of
        (Inl e, bp1) \<Rightarrow> (Inl e, unpin_frame (snd left) bp1)
      | (Inr new_root, bp1) \<Rightarrow> (Inr new_root, unpin_frame (snd left) bp1))"
| "insert_up txn root (parent # ancestors) left (key, right) bp =
     (let payload = build_internal_payload key right in
      if node_will_fit (frame_data bp (snd parent)) (length payload) then
        (case node_insert parent txn key payload bp of
           (Inl e, bp1) \<Rightarrow> (Inl e, drop_guards (left # parent # ancestors) bp1)
         | (Inr _, bp1) \<Rightarrow> (Inr root, drop_guards (left # parent # ancestors) bp1))
      else
        (case split_internal parent txn key payload bp of
           (Inl e, bp1) \<Rightarrow> (Inl e, drop_guards (left # parent # ancestors) bp1)
         | (Inr pushed, bp1) \<Rightarrow> insert_up txn root ancestors parent pushed (unpin_frame (snd left) bp1)))"

text \<open>The result is the root of the tree after the insertion.\<close>

definition btree_insert ::
    "page_id \<Rightarrow> txn_id \<Rightarrow> bytes \<Rightarrow> rid \<Rightarrow> buffer_pool \<Rightarrow> ((storage_error + page_id) \<times> buffer_pool) option" where
  "btree_insert root txn key r bp =
     (if length key > MAX_KEY_SIZE then Some (Inl (KeyTooLarge (length key) MAX_KEY_SIZE), bp)
      else
        let payload = build_leaf_payload key r; skey = leaf_sort_key payload in
        case descend_for_insert skey (length payload) root [] bp of
          None \<Rightarrow> None
        | Some (Inl e, bp1) \<Rightarrow> Some (Inl e, bp1)
        | Some (Inr (ancestors, leaf), bp1) \<Rightarrow>
            Some (if node_will_fit (frame_data bp1 (snd leaf)) (length payload) then
                    (case node_insert leaf txn skey payload bp1 of
                       (Inl e, bp2) \<Rightarrow> (Inl e, drop_guards (leaf # ancestors) bp2)
                     | (Inr _, bp2) \<Rightarrow> (Inr root, drop_guards (leaf # ancestors) bp2))
                  else
                    (case split_leaf leaf txn skey payload bp1 of
                       (Inl e, bp2) \<Rightarrow> (Inl e, drop_guards (leaf # ancestors) bp2)
                     | (Inr pushed, bp2) \<Rightarrow> insert_up txn root ancestors leaf pushed bp2)))"

end
