(* ===== verification/BTree_Tree.thy ===== *)
theory BTree_Tree
  imports BTree "HOL-Library.Multiset"
begin

text \<open>
  The trees that index pages represent. A \<open>btree\<close> records the pages of an index with the entries,
  separators and links on them; \<open>stored\<close> says that the pages of the pool hold it, \<open>ordered\<close> that the keys lie
  between their separators, \<open>chained\<close> that the leaves are linked in key order, \<open>uniform\<close> that all leaves have
  the same depth. A path from a leaf to the root is a list of holes; \<open>grows\<close> is what a cascade of
  splits does to the tree around it.
\<close>

datatype btree = LeafAt page_id "bytes list" "page_id option" | NodeAt page_id "bytes list" "btree list"

fun tree_root :: "btree \<Rightarrow> page_id" where
  "tree_root (LeafAt p es nxt) = p"
| "tree_root (NodeAt p ks cs) = p"

fun leaves :: "btree \<Rightarrow> (page_id \<times> bytes list \<times> page_id option) list" where
  "leaves (LeafAt p es nxt) = [(p, es, nxt)]"
| "leaves (NodeAt p ks cs) = concat (map leaves cs)"

fun tree_pages :: "btree \<Rightarrow> page_id list" where
  "tree_pages (LeafAt p es nxt) = [p]"
| "tree_pages (NodeAt p ks cs) = p # concat (map tree_pages cs)"

definition tree_entries :: "btree \<Rightarrow> bytes list" where
  "tree_entries t = concat (map (\<lambda>(p, es, nxt). es) (leaves t))"

fun uniform :: "nat \<Rightarrow> btree \<Rightarrow> bool" where
  "uniform n (LeafAt p es nxt) = (n = 0)"
| "uniform n (NodeAt p ks cs) = (case n of 0 \<Rightarrow> False | Suc m \<Rightarrow> \<forall>c \<in> set cs. uniform m c)"

fun chained :: "(page_id \<times> bytes list \<times> page_id option) list \<Rightarrow> bool" where
  "chained [] = True"
| "chained [(p, es, nxt)] = (nxt = None)"
| "chained ((p, es, nxt) # (q, fs, nxt') # ls) = (nxt = Some q \<and> chained ((q, fs, nxt') # ls))"

definition node_at :: "(page_id \<Rightarrow> bytes option) \<Rightarrow> page_id \<Rightarrow> bytes list \<Rightarrow> page_id list \<Rightarrow> bool" where
  "node_at vw p ks rs \<longleftrightarrow> (\<exists>v. vw p = Some v \<and>
     node_holds v Internal (Some (hd rs)) (map2 build_internal_payload ks (tl rs)))"

fun stored :: "(page_id \<Rightarrow> bytes option) \<Rightarrow> btree \<Rightarrow> bool" where
  "stored vw (LeafAt p es nxt) = (\<exists>v. vw p = Some v \<and> node_holds v Leaf nxt es)"
| "stored vw (NodeAt p ks cs) = (node_at vw p ks (map tree_root cs) \<and> (\<forall>c \<in> set cs. stored vw c))"

text \<open>Keys small enough that every split succeeds.\<close>

definition SMALL_KEY :: nat where "SMALL_KEY = 1342"

definition small_entry :: "bytes \<Rightarrow> bool" where
  "small_entry e \<longleftrightarrow> (\<exists>k r. e = build_leaf_payload k r \<and> length k \<le> SMALL_KEY)"

definition small_sep :: "bytes \<Rightarrow> bool" where
  "small_sep k \<longleftrightarrow> length k \<le> SMALL_KEY + 6"

definition at_least :: "bytes option \<Rightarrow> bytes \<Rightarrow> bool" where
  "at_least lo k = (case lo of None \<Rightarrow> True | Some l \<Rightarrow> l \<le> k)"

definition exceeds :: "bytes option \<Rightarrow> bytes \<Rightarrow> bool" where
  "exceeds lo k = (case lo of None \<Rightarrow> True | Some l \<Rightarrow> l < k)"

definition below :: "bytes \<Rightarrow> bytes option \<Rightarrow> bool" where
  "below k hi = (case hi of None \<Rightarrow> True | Some h \<Rightarrow> k < h)"

fun ordered :: "bytes option \<Rightarrow> bytes option \<Rightarrow> btree \<Rightarrow> bool"
and ordereds :: "bytes option \<Rightarrow> bytes option \<Rightarrow> bytes list \<Rightarrow> btree list \<Rightarrow> bool" where
  "ordered lo hi (LeafAt p es nxt) = (sorted_wrt (<) (map leaf_sort_key es) \<and>
     (\<forall>e \<in> set es. small_entry e \<and> at_least lo (leaf_sort_key e) \<and> below (leaf_sort_key e) hi))"
| "ordered lo hi (NodeAt p ks cs) = (ks \<noteq> [] \<and> length cs = Suc (length ks) \<and> sorted_wrt (<) ks \<and>
     (\<forall>k \<in> set ks. small_sep k \<and> exceeds lo k \<and> below k hi) \<and> ordereds lo hi ks cs)"
| "ordereds lo hi ks [] = True"
| "ordereds lo hi [] (c # cs) = (ordered lo hi c \<and> ordereds lo hi [] cs)"
| "ordereds lo hi (k # ks) (c # cs) = (ordered lo (Some k) c \<and> ordereds (Some k) hi ks cs)"

section \<open>Holes\<close>

datatype hole = Hole page_id "bytes list" "btree list" "bytes list" "btree list"

fun plug :: "btree \<Rightarrow> hole list \<Rightarrow> btree" where
  "plug t [] = t"
| "plug t (Hole p ks1 cs1 ks2 cs2 # ctx) = plug (NodeAt p (ks1 @ ks2) (cs1 @ t # cs2)) ctx"

fun hole_page :: "hole \<Rightarrow> page_id" where
  "hole_page (Hole p ks1 cs1 ks2 cs2) = p"

fun leaves_left :: "hole list \<Rightarrow> (page_id \<times> bytes list \<times> page_id option) list" where
  "leaves_left [] = []"
| "leaves_left (Hole p ks1 cs1 ks2 cs2 # ctx) = leaves_left ctx @ concat (map leaves cs1)"

fun leaves_right :: "hole list \<Rightarrow> (page_id \<times> bytes list \<times> page_id option) list" where
  "leaves_right [] = []"
| "leaves_right (Hole p ks1 cs1 ks2 cs2 # ctx) = concat (map leaves cs2) @ leaves_right ctx"

fun hole_pages :: "hole list \<Rightarrow> page_id list" where
  "hole_pages [] = []"
| "hole_pages (Hole p ks1 cs1 ks2 cs2 # ctx) = p # concat (map tree_pages cs1) @ concat (map tree_pages cs2) @ hole_pages ctx"

definition last_key :: "bytes option \<Rightarrow> bytes list \<Rightarrow> bytes option" where
  "last_key lo ks = (if ks = [] then lo else Some (last ks))"

definition next_key :: "bytes list \<Rightarrow> bytes option \<Rightarrow> bytes option" where
  "next_key ks hi = (case ks of [] \<Rightarrow> hi | k # _ \<Rightarrow> Some k)"

fun hole_low :: "hole list \<Rightarrow> bytes option" where
  "hole_low [] = None"
| "hole_low (Hole p ks1 cs1 ks2 cs2 # ctx) = last_key (hole_low ctx) ks1"

fun hole_high :: "hole list \<Rightarrow> bytes option" where
  "hole_high [] = None"
| "hole_high (Hole p ks1 cs1 ks2 cs2 # ctx) = next_key ks2 (hole_high ctx)"

fun lefts :: "bytes option \<Rightarrow> bytes list \<Rightarrow> btree list \<Rightarrow> bool" where
  "lefts lo (k # ks) (c # cs) = (ordered lo (Some k) c \<and> lefts (Some k) ks cs)"
| "lefts lo _ _ = True"

fun rights :: "bytes list \<Rightarrow> bytes option \<Rightarrow> btree list \<Rightarrow> bool" where
  "rights (k # ks) hi (c # cs) = (ordered (Some k) (next_key ks hi) c \<and> rights ks hi cs)"
| "rights _ hi _ = True"

fun holes_ok :: "hole list \<Rightarrow> bool" where
  "holes_ok [] = True"
| "holes_ok (Hole p ks1 cs1 ks2 cs2 # ctx) = (holes_ok ctx \<and> length ks1 = length cs1 \<and> length ks2 = length cs2 \<and>
     ks1 @ ks2 \<noteq> [] \<and> sorted_wrt (<) (ks1 @ ks2) \<and>
     (\<forall>k \<in> set ks1 \<union> set ks2. small_sep k \<and> exceeds (hole_low ctx) k \<and> below k (hole_high ctx)) \<and>
     lefts (hole_low ctx) ks1 cs1 \<and> rights ks2 (hole_high ctx) cs2)"

fun holes_uniform :: "nat \<Rightarrow> hole list \<Rightarrow> bool" where
  "holes_uniform n [] = True"
| "holes_uniform n (Hole p ks1 cs1 ks2 cs2 # ctx) = ((\<forall>c \<in> set cs1 \<union> set cs2. uniform n c) \<and> holes_uniform (Suc n) ctx)"

fun holes_stored :: "(page_id \<Rightarrow> bytes option) \<Rightarrow> page_id \<Rightarrow> hole list \<Rightarrow> bool" where
  "holes_stored vw c [] = True"
| "holes_stored vw c (Hole p ks1 cs1 ks2 cs2 # ctx) = (node_at vw p (ks1 @ ks2) (map tree_root cs1 @ c # map tree_root cs2) \<and>
     (\<forall>c \<in> set cs1 \<union> set cs2. stored vw c) \<and> holes_stored vw p ctx)"

lemma leaves_plug: "leaves (plug t ctx) = leaves_left ctx @ leaves t @ leaves_right ctx"
  by (induction t ctx rule: plug.induct) simp_all

lemma pages_plug: "mset (tree_pages (plug t ctx)) = mset (tree_pages t) + mset (hole_pages ctx)"
  by (induction t ctx rule: plug.induct) (simp_all add: ac_simps)

lemma stored_plug: "stored vw (plug t ctx) \<longleftrightarrow> stored vw t \<and> holes_stored vw (tree_root t) ctx"
  by (induction t ctx rule: plug.induct) auto

lemma uniform_plug: "uniform (n + length ctx) (plug t ctx) \<longleftrightarrow> uniform n t \<and> holes_uniform n ctx"
proof (induction t ctx arbitrary: n rule: plug.induct)
  case (2 t p ks1 cs1 ks2 cs2 ctx)
  from 2 [of "Suc n"] show ?case by auto
qed simp

lemma ordereds_append:
  "length ks1 = length cs1 \<Longrightarrow> ordereds lo hi (ks1 @ ks2) (cs1 @ cs2) \<longleftrightarrow> lefts lo ks1 cs1 \<and> ordereds (last_key lo ks1) hi ks2 cs2"
  by (induction ks1 cs1 arbitrary: lo rule: list_induct2) (auto simp: last_key_def)

lemma ordereds_Cons:
  "length ks = length cs \<Longrightarrow> ordereds lo hi ks (c # cs) \<longleftrightarrow> ordered lo (next_key ks hi) c \<and> rights ks hi cs"
proof (induction ks cs arbitrary: lo c rule: list_induct2)
  case Nil
  then show ?case by (simp add: next_key_def)
next
  case (Cons k ks d ds)
  then show ?case by (simp add: next_key_def)
qed

lemma ordereds_nth: "ordereds lo hi ks cs \<Longrightarrow> i < length cs \<Longrightarrow> \<exists>lo' hi'. ordered lo' hi' (cs ! i)"
proof (induction ks arbitrary: lo cs i)
  case Nil
  then show ?case by (induction cs arbitrary: i) (auto simp: nth_Cons split: nat.splits)
next
  case (Cons k ks)
  then show ?case by (cases cs; cases i) auto
qed

lemma ordered_hole:
  assumes "holes_ok ctx" "length ks1 = length cs1" "length ks2 = length cs2"
  shows "ordered (hole_low ctx) (hole_high ctx) (NodeAt p (ks1 @ ks2) (cs1 @ t # cs2)) \<longleftrightarrow>
    holes_ok (Hole p ks1 cs1 ks2 cs2 # ctx) \<and> ordered (hole_low (Hole p ks1 cs1 ks2 cs2 # ctx)) (hole_high (Hole p ks1 cs1 ks2 cs2 # ctx)) t"
  using assms by (auto simp: ordereds_append ordereds_Cons)

lemma ordered_plug: "holes_ok ctx \<Longrightarrow> ordered (hole_low ctx) (hole_high ctx) t \<Longrightarrow> ordered None None (plug t ctx)"
proof (induction t ctx rule: plug.induct)
  case (2 t p ks1 cs1 ks2 cs2 ctx)
  then show ?case using ordered_hole [of ctx ks1 cs1 ks2 cs2 p t] by simp
qed simp

text \<open>Separators are strictly ordered through the bounds of a hole.\<close>

lemma bound_simps [simp]:
  "at_least None k" "at_least (Some l) k \<longleftrightarrow> l \<le> k" "exceeds None k" "exceeds (Some l) k \<longleftrightarrow> l < k" "below k None" "below k (Some h) \<longleftrightarrow> k < h"
  by (simp_all add: at_least_def exceeds_def below_def)

lemma bound_trans:
  "exceeds lo k \<Longrightarrow> k \<le> x \<Longrightarrow> exceeds lo x" "below k hi \<Longrightarrow> x \<le> k \<Longrightarrow> below x hi"
  "at_least lo k \<Longrightarrow> k \<le> x \<Longrightarrow> at_least lo x" "exceeds lo k \<Longrightarrow> at_least lo k" "at_least lo k \<Longrightarrow> k < x \<Longrightarrow> exceeds lo x"
  by (auto simp: exceeds_def below_def at_least_def split: option.splits)

lemma hole_key:
  assumes "sorted_wrt (<) (ks1 @ ks2)" "\<forall>k \<in> set ks1 \<union> set ks2. exceeds lo k \<and> below k hi"
    "exceeds (last_key lo ks1) k" "below k (next_key ks2 hi)"
  shows "sorted_wrt (<) (ks1 @ k # ks2)" "exceeds lo k" "below k hi"
proof -
  have l: "x < k" if "x \<in> set ks1" for x
  proof -
    have "x \<le> last ks1"
      using that assms(1) by (cases ks1 rule: rev_cases) (auto simp: sorted_wrt_append intro: less_imp_le)
    also have "last ks1 < k" using assms(3) that by (auto simp: last_key_def split: if_splits)
    finally show ?thesis .
  qed
  have r: "k < x" if "x \<in> set ks2" for x
    using that assms(1,4) by (cases ks2) (auto simp: next_key_def sorted_wrt_append)
  show "sorted_wrt (<) (ks1 @ k # ks2)"
    using assms(1) l r by (auto simp: sorted_wrt_append)
  show "exceeds lo k"
  proof (cases ks1)
    case (Cons a ks)
    then show ?thesis using assms(2) l [of a] bound_trans(1) [of lo a k] by simp
  qed (use assms(3) in \<open>simp add: last_key_def\<close>)
  show "below k hi"
  proof (cases ks2)
    case (Cons a ks)
    then show ?thesis using assms(2) r [of a] bound_trans(2) [of a hi k] by simp
  qed (use assms(4) in \<open>simp add: next_key_def\<close>)
qed

lemma ordered_grow:
  assumes ok: "holes_ok (Hole p ks1 cs1 ks2 cs2 # ctx)"
    and k: "small_sep k" "exceeds (hole_low (Hole p ks1 cs1 ks2 cs2 # ctx)) k" "below k (hole_high (Hole p ks1 cs1 ks2 cs2 # ctx))"
    and lr: "ordered (hole_low (Hole p ks1 cs1 ks2 cs2 # ctx)) (Some k) l" "ordered (Some k) (hole_high (Hole p ks1 cs1 ks2 cs2 # ctx)) r"
  shows "ordered (hole_low ctx) (hole_high ctx) (NodeAt p (ks1 @ k # ks2) (cs1 @ l # r # cs2))"
proof -
  note K = hole_key [of ks1 ks2 "hole_low ctx" "hole_high ctx" k]
  show ?thesis using ok k lr K by (auto simp: ordereds_append ordereds_Cons)
qed

lemma ordered_split:
  assumes "ordered lo hi (NodeAt p (ka @ k # kb) (ca @ cb))" "length ca = Suc (length ka)" "ka \<noteq> []" "kb \<noteq> []"
  shows "ordered lo (Some k) (NodeAt p ka ca)" "ordered (Some k) hi (NodeAt q kb cb)" "small_sep k" "exceeds lo k" "below k hi"
proof -
  obtain ca' c where ca: "ca = ca' @ [c]" "length ca' = length ka" using assms(2) by (cases ca rule: rev_cases) auto
  have "ordereds lo (Some k) ka ca"
    unfolding ca using assms(1) ca ordereds_append [of ka ca' lo "Some k" "[]" "[c]"]
    by (simp add: ordereds_append)
  then show "ordered lo (Some k) (NodeAt p ka ca)" using assms by (auto simp: sorted_wrt_append)
  have "ordereds (Some k) hi kb cb" using assms(1) ca by (simp add: ordereds_append)
  then show "ordered (Some k) hi (NodeAt q kb cb)" using assms by (auto simp: sorted_wrt_append)
  show "small_sep k" "exceeds lo k" "below k hi" using assms(1) by auto
qed

section \<open>What a cascade of splits does\<close>

inductive grows :: "hole list \<Rightarrow> btree \<Rightarrow> bytes \<Rightarrow> btree \<Rightarrow> page_id list \<Rightarrow> btree \<Rightarrow> bool" where
  root: "grows [] l k r [q] (NodeAt q [k] [l, r])"
| fits: "grows (Hole p ks1 cs1 ks2 cs2 # ctx) l k r [] (plug (NodeAt p (ks1 @ k # ks2) (cs1 @ l # r # cs2)) ctx)"
| split: "ks1 @ k # ks2 = ka @ k' # kb \<Longrightarrow> cs1 @ l # r # cs2 = ca @ cb \<Longrightarrow> length ca = Suc (length ka) \<Longrightarrow> ka \<noteq> [] \<Longrightarrow> kb \<noteq> [] \<Longrightarrow>
    grows ctx (NodeAt p ka ca) k' (NodeAt q kb cb) ns t' \<Longrightarrow> grows (Hole p ks1 cs1 ks2 cs2 # ctx) l k r (q # ns) t'"

lemma grows_leaves: "grows ctx l k r ns t' \<Longrightarrow> leaves t' = leaves_left ctx @ leaves l @ leaves r @ leaves_right ctx"
proof (induction rule: grows.induct)
  case (split ks1 k ks2 ka k' kb cs1 l r cs2 ca cb ctx p q ns t')
  have "concat (map leaves ca) @ concat (map leaves cb) = concat (map leaves (cs1 @ l # r # cs2))"
    unfolding split.hyps(2) by simp
  then show ?case using split.IH by simp
qed (simp_all add: leaves_plug)

lemma grows_pages:
  "grows ctx l k r ns t' \<Longrightarrow> mset (tree_pages t') = mset (hole_pages ctx) + mset (tree_pages l) + mset (tree_pages r) + mset ns"
proof (induction rule: grows.induct)
  case (split ks1 k ks2 ka k' kb cs1 l r cs2 ca cb ctx p q ns t')
  have "mset (concat (map tree_pages ca)) + mset (concat (map tree_pages cb)) = mset (concat (map tree_pages (cs1 @ l # r # cs2)))"
    unfolding split.hyps(2) by simp
  then show ?case using split.IH by (simp add: ac_simps)
qed (simp_all add: pages_plug ac_simps)

lemma grows_new: "grows ctx l k r ns t' \<Longrightarrow> length ns \<le> Suc (length ctx)"
  by (induction rule: grows.induct) simp_all

lemma grows_uniform:
  "grows ctx l k r ns t' \<Longrightarrow> holes_uniform n ctx \<Longrightarrow> uniform n l \<Longrightarrow> uniform n r \<Longrightarrow> \<exists>m \<le> Suc (n + length ctx). uniform m t'"
proof (induction arbitrary: n rule: grows.induct)
  case (root l k r q)
  then show ?case by (intro exI [of _ "Suc n"]) simp
next
  case (fits p ks1 cs1 ks2 cs2 ctx l k r)
  then have "uniform (Suc n + length ctx) (plug (NodeAt p (ks1 @ k # ks2) (cs1 @ l # r # cs2)) ctx)"
    by (subst uniform_plug) auto
  then show ?case by (intro exI [of _ "Suc n + length ctx"]) simp
next
  case (split ks1 k ks2 ka k' kb cs1 l r cs2 ca cb ctx p q ns t')
  have "\<forall>c \<in> set ca \<union> set cb. uniform n c"
    using split.prems arg_cong [OF split.hyps(2), of set] by auto
  then show ?case using split.IH [of "Suc n"] split.prems(1) by auto
qed

lemma grows_ordered:
  "grows ctx l k r ns t' \<Longrightarrow> holes_ok ctx \<Longrightarrow> small_sep k \<Longrightarrow> exceeds (hole_low ctx) k \<Longrightarrow> below k (hole_high ctx) \<Longrightarrow>
   ordered (hole_low ctx) (Some k) l \<Longrightarrow> ordered (Some k) (hole_high ctx) r \<Longrightarrow> ordered None None t'"
proof (induction rule: grows.induct)
  case (root l k r q)
  then show ?case by simp
next
  case (fits p ks1 cs1 ks2 cs2 ctx l k r)
  then have "ordered (hole_low ctx) (hole_high ctx) (NodeAt p (ks1 @ k # ks2) (cs1 @ l # r # cs2))" by (intro ordered_grow)
  then show ?case using fits.prems(1) by (intro ordered_plug) auto
next
  case (split ks1 k ks2 ka k' kb cs1 l r cs2 ca cb ctx p q ns t')
  have "ordered (hole_low ctx) (hole_high ctx) (NodeAt p (ks1 @ k # ks2) (cs1 @ l # r # cs2))"
    using split.prems by (intro ordered_grow)
  then have "ordered (hole_low ctx) (hole_high ctx) (NodeAt p (ka @ k' # kb) (ca @ cb))" unfolding split.hyps(1,2) .
  from ordered_split [OF this split.hyps(3-5)] show ?case using split.IH split.prems(1) by auto
qed

section \<open>Entries and links\<close>

lemma tree_root_in_pages [simp]: "tree_root t \<in> set (tree_pages t)"
  by (cases t) simp_all

lemma stored_cong: "\<forall>q \<in> set (tree_pages t). vw' q = vw q \<Longrightarrow> stored vw' t = stored vw t"
proof (induction t)
  case (NodeAt p ks cs)
  have "stored vw' c = stored vw c" if "c \<in> set cs" for c using NodeAt that by (intro NodeAt.IH) auto
  then show ?case using NodeAt.prems by (auto simp: node_at_def)
qed simp

lemma holes_stored_cong: "\<forall>q \<in> set (hole_pages ctx). vw' q = vw q \<Longrightarrow> holes_stored vw' c ctx = holes_stored vw c ctx"
proof (induction vw c ctx rule: holes_stored.induct)
  case (2 vw c p ks1 cs1 ks2 cs2 ctx)
  have "stored vw' t = stored vw t" if "t \<in> set cs1 \<union> set cs2" for t
    using that 2(2) by (intro stored_cong) auto
  then show ?case using 2 by (auto simp: node_at_def)
qed simp

lemma chained_Cons: "chained ((p, es, nxt) # ls) \<longleftrightarrow> nxt = (case ls of [] \<Rightarrow> None | (q, fs, n) # _ \<Rightarrow> Some q) \<and> chained ls"
  by (cases ls) auto

lemma chained_update: "chained (xs @ (p, es, nxt) # ys) \<Longrightarrow> chained (xs @ (p, fs, nxt) # ys)"
proof (induction xs)
  case (Cons x xs)
  then show ?case by (cases x; cases xs) (auto simp: chained_Cons)
qed (auto simp: chained_Cons)

lemma chained_split: "chained (xs @ (p, es, nxt) # ys) \<Longrightarrow> chained (xs @ (p, fs, Some q) # (q, gs, nxt) # ys)"
proof (induction xs)
  case (Cons x xs)
  then show ?case by (cases x; cases xs) (auto simp: chained_Cons)
qed (auto simp: chained_Cons)

lemma tree_entries_simps [simp]:
  "tree_entries (LeafAt p es nxt) = es" "tree_entries (NodeAt p ks cs) = concat (map tree_entries cs)"
proof -
  show "tree_entries (NodeAt p ks cs) = concat (map tree_entries cs)"
    by (simp add: tree_entries_def) (induction cs; simp add: tree_entries_def)
qed (simp add: tree_entries_def)

lemma sorted_keys_append:
  "sorted_wrt (<) (map f xs) \<Longrightarrow> sorted_wrt (<) (map f ys) \<Longrightarrow> \<forall>x \<in> set xs. f x < k \<Longrightarrow> \<forall>y \<in> set ys. (k :: bytes) \<le> f y \<Longrightarrow>
   sorted_wrt (<) (map f (xs @ ys))"
  by (fastforce simp: sorted_wrt_append)

text \<open>The entries of an ordered tree are in key order and lie within its bounds.\<close>

definition entries_between :: "bytes option \<Rightarrow> bytes option \<Rightarrow> bytes list \<Rightarrow> bool" where
  "entries_between lo hi es \<longleftrightarrow> sorted_wrt (<) (map leaf_sort_key es) \<and>
     (\<forall>e \<in> set es. small_entry e \<and> at_least lo (leaf_sort_key e) \<and> below (leaf_sort_key e) hi)"

lemma entries_between_append:
  assumes "entries_between lo (Some k) xs" "entries_between (Some k) hi ys" "exceeds lo k" "below k hi"
  shows "entries_between lo hi (xs @ ys)"
proof -
  have "sorted_wrt (<) (map leaf_sort_key (xs @ ys))"
    by (rule sorted_keys_append [of _ _ _ k]) (use assms in \<open>auto simp: entries_between_def\<close>)
  moreover have "below (leaf_sort_key e) hi" if "e \<in> set xs" for e
    using assms(1,4) that bound_trans(2) [of k hi "leaf_sort_key e"] by (auto simp: entries_between_def)
  moreover have "at_least lo (leaf_sort_key e)" if "e \<in> set ys" for e
    using assms(2,3) that bound_trans(3) [of lo k "leaf_sort_key e"] bound_trans(4) by (auto simp: entries_between_def)
  ultimately show ?thesis using assms(1,2) by (auto simp: entries_between_def)
qed

lemma ordered_entries:
  "ordered lo hi t \<Longrightarrow> entries_between lo hi (tree_entries t)"
  "sorted_wrt (<) ks \<Longrightarrow> \<forall>k \<in> set ks. exceeds lo k \<and> below k hi \<Longrightarrow> ordereds lo hi ks cs \<Longrightarrow> length cs = Suc (length ks) \<Longrightarrow>
   entries_between lo hi (concat (map tree_entries cs))"
proof (induction lo hi t and lo hi ks cs rule: ordered_ordereds.induct)
  case (5 lo hi k ks c cs)
  have "entries_between lo (Some k) (tree_entries c)" using 5 by simp
  moreover have "entries_between (Some k) hi (concat (map tree_entries cs))" using 5 by simp
  ultimately show ?case using 5(4) by (auto intro: entries_between_append)
qed (auto simp: entries_between_def)

definition index_tree :: "(page_id \<Rightarrow> bytes option) \<Rightarrow> btree \<Rightarrow> bool" where
  "index_tree vw t \<longleftrightarrow> stored vw t \<and> ordered None None t \<and> chained (leaves t) \<and> distinct (tree_pages t) \<and> 0 \<notin> set (tree_pages t) \<and> (\<exists>n. uniform n t)"

section \<open>Choosing a child\<close>

lemma small_sep_len: "small_sep k \<Longrightarrow> length k < 65536"
  by (simp add: small_sep_def SMALL_KEY_def)

lemma internal_keys:
  assumes "length rs = length ks" "\<forall>k \<in> set ks. small_sep k"
  shows "map entry_key (map2 build_internal_payload ks rs) = ks" "map internal_child (map2 build_internal_payload ks rs) = rs"
  using assms by (induction rs ks rule: list_induct2) (auto simp: small_sep_len)

definition child_index :: "bytes list \<Rightarrow> bytes \<Rightarrow> nat" where
  "child_index ks key = partition_point (\<lambda>k. k \<le> key) ks"

lemma child_for_key_node:
  assumes v: "node_holds v Internal (Some (hd rs)) (map2 build_internal_payload ks (tl rs))"
    and n: "length rs = Suc (length ks)" and ks: "\<forall>k \<in> set ks. small_sep k" "sorted_wrt (<) ks"
  shows "child_for_key v key pid = Inr (rs ! child_index ks key)"
    "upper_bound v key pid = Inr (child_index ks key)"
proof -
  let ?es = "map2 build_internal_payload ks (tl rs)" and ?i = "child_index ks key"
  have l: "length (tl rs) = length ks" using n by simp
  note K = internal_keys [OF l ks(1)]
  have wf: "node_wf v" "node_entries v = ?es" "tail_raw v = Some (hd rs)" using v by (simp_all add: node_holds_def)
  have "sorted (map entry_key ?es)" using K ks(2) by (simp add: strict_sorted_imp_sorted)
  then have "upper_bound v key pid = Inr (partition_point (\<lambda>p. entry_key p \<le> key) ?es)"
    using node_searches_wf(1) [OF wf(1)] wf(2) by simp
  moreover have "partition_point (\<lambda>p. entry_key p \<le> key) ?es = ?i"
    using arg_cong [OF K(1), of "partition_point (\<lambda>k. k \<le> key)"]
    by (simp add: child_index_def partition_point_def takeWhile_map o_def)
  ultimately show ub: "upper_bound v key pid = Inr ?i" by simp
  have i: "?i \<le> length ks" by (simp add: child_index_def partition_point_le)
  show "child_for_key v key pid = Inr (rs ! ?i)"
  proof (cases ?i)
    case 0
    then show ?thesis using ub wf(3) n by (cases rs) (simp_all add: child_for_key_def)
  next
    case (Suc j)
    then have j: "j < length ?es" using i l by simp
    have "entry_payload v j pid = Inr (?es ! j)"
      using entry_payload_wf [OF wf(1), of j pid] j length_node_entries [of v] unfolding wf(2) by simp
    moreover have "internal_child (?es ! j) = tl rs ! j" using arg_cong [OF K(2), of "\<lambda>xs. xs ! j"] j by simp
    ultimately show ?thesis using ub Suc n by (cases rs) (simp_all add: child_for_key_def del: and_then_eq_Inr)
  qed
qed

lemma child_index_split:
  assumes "sorted_wrt (<) ks" "length cs = Suc (length ks)"
  obtains ks1 ks2 cs1 cs2 where "ks = ks1 @ ks2" "cs = cs1 @ cs ! child_index ks key # cs2" "length ks1 = length cs1"
    "length ks2 = length cs2" "length ks1 = child_index ks key" "\<forall>k \<in> set ks1. k \<le> key" "\<forall>k \<in> set ks2. key < k"
proof -
  let ?i = "child_index ks key"
  have i: "?i \<le> length ks" by (simp add: child_index_def partition_point_le)
  have a: "\<forall>k \<in> set (take ?i ks). k \<le> key"
    unfolding child_index_def partition_point_def takeWhile_eq_take [symmetric] by (auto dest: set_takeWhileD)
  have p: "partitioned (\<lambda>k. k \<le> key) ks" using sorted_partitioned(1) [of id ks key] assms(1) by (simp add: strict_sorted_imp_sorted)
  have b: "\<forall>k \<in> set (drop ?i ks). key < k"
    using after_partition_point [OF p] by (auto simp: child_index_def in_set_conv_nth not_le)
  have "cs = take ?i cs @ cs ! ?i # drop (Suc ?i) cs" using i assms(2) by (simp add: id_take_nth_drop)
  then show thesis
    using that [of "take ?i ks" "drop ?i ks" "take ?i cs" "drop (Suc ?i) cs"] a b i assms(2) by simp
qed

end
