(* ===== verification/BTree_Read.thy ===== *)
theory BTree_Read
  imports BTree_Tree "HOL-Library.Sublist"
begin

text \<open>
  Reading an index: a descent ends at the leaf where a key belongs, and a lookup returns the rows of the
  entries with the key, from the first that does not sort before it. Both return every guard and
  leave every page as it is.
\<close>

section \<open>Guards\<close>

lemma drop_guards_simps [simp]:
  "drop_guards [] bp = bp" "drop_guards ((p, f) # gs) bp = drop_guards gs (unpin_frame f bp)"
  by (simp_all add: drop_guards_def)

lemma same_pages_refl [simp]: "pool.same_pages bp bp"
  by (simp add: pool.same_pages_def)

lemma held_drop:
  "pool.held (xs @ gs @ ys) bp \<Longrightarrow> pool.held (xs @ ys) (drop_guards gs bp) \<and> pool.same_pages bp (drop_guards gs bp)"
proof (induction gs arbitrary: bp)
  case (Cons g gs)
  obtain p f where g: "g = (p, f)" by fastforce
  have h: "pool.held (xs @ (p, f) # gs @ ys) bp" using Cons.prems g by simp
  note U = pool.held_unpin [OF h]
  show ?case using Cons.IH [OF U(1)] pool.same_pages_trans [OF U(2)] by (simp add: g)
qed simp

lemma same_pagesD:
  "pool.same_pages bp bp' \<Longrightarrow> pool_view bp' = pool_view bp" "pool.same_pages bp bp' \<Longrightarrow> nframes bp' = nframes bp"
  "pool.same_pages bp bp' \<Longrightarrow> next_page bp' = next_page bp" "pool.same_pages bp bp' \<Longrightarrow> log_room k bp \<Longrightarrow> log_room k bp'"
  by (simp_all add: pool.same_pages_def)

section \<open>Where a key belongs\<close>

definition leaf_entries :: "(page_id \<times> bytes list \<times> page_id option) list \<Rightarrow> bytes list" where
  "leaf_entries ls = concat (map (\<lambda>(p, es, nxt). es) ls)"

lemma leaf_entries_simps [simp]:
  "leaf_entries [] = []" "leaf_entries ((p, es, nxt) # ls) = es @ leaf_entries ls"
  "leaf_entries (xs @ ys) = leaf_entries xs @ leaf_entries ys"
  by (simp_all add: leaf_entries_def)

lemma tree_entries_leaves: "tree_entries t = leaf_entries (leaves t)"
  by (simp add: tree_entries_def leaf_entries_def)

lemma leaf_entries_concat: "leaf_entries (concat (map leaves cs)) = concat (map tree_entries cs)"
  by (induction cs) (simp_all add: tree_entries_leaves)

lemma lefts_below:
  "lefts lo ks cs \<Longrightarrow> length ks = length cs \<Longrightarrow> \<forall>k \<in> set ks. k \<le> key \<Longrightarrow> e \<in> set (concat (map tree_entries cs)) \<Longrightarrow> leaf_sort_key e < key"
proof (induction lo ks cs rule: lefts.induct)
  case (1 lo k ks c cs)
  have "leaf_sort_key e < k" if "e \<in> set (tree_entries c)"
    using ordered_entries(1) [of lo "Some k" c] 1(2) that by (auto simp: entries_between_def)
  then show ?case using 1 by (auto intro: less_le_trans)
qed auto

lemma rights_above:
  "rights ks hi cs \<Longrightarrow> length ks = length cs \<Longrightarrow> \<forall>k \<in> set ks. key < k \<Longrightarrow> e \<in> set (concat (map tree_entries cs)) \<Longrightarrow> key < leaf_sort_key e"
proof (induction ks hi cs rule: rights.induct)
  case (1 k ks hi c cs)
  have "k \<le> leaf_sort_key e" if "e \<in> set (tree_entries c)"
    using ordered_entries(1) [of "Some k" _ c] 1(2) that by (auto simp: entries_between_def)
  then show ?case using 1 by (auto intro: less_le_trans)
qed auto

text \<open>The leaf \<open>(p, es, nxt)\<close> of the leaves \<open>ls\<close> is where \<open>key\<close> belongs.\<close>

definition key_leaf :: "bytes \<Rightarrow> (page_id \<times> bytes list \<times> page_id option) list \<Rightarrow> page_id \<Rightarrow> bool" where
  "key_leaf key ls p \<longleftrightarrow> (\<exists>xs es nxt ys. ls = xs @ (p, es, nxt) # ys \<and> (\<forall>e \<in> set (leaf_entries xs). leaf_sort_key e < key) \<and>
     (\<forall>e \<in> set (leaf_entries ys). key < leaf_sort_key e))"

lemma key_leaf_child:
  assumes "ordered lo hi (NodeAt p ks cs)" "i = child_index ks key" "key_leaf key (leaves (cs ! i)) q"
  shows "key_leaf key (leaves (NodeAt p ks cs)) q"
proof -
  have "sorted_wrt (<) ks" "length cs = Suc (length ks)" using assms(1) by auto
  then obtain ks1 ks2 cs1 cs2 where d: "ks = ks1 @ ks2" "cs = cs1 @ cs ! i # cs2" "length ks1 = length cs1" "length ks2 = length cs2"
    "length ks1 = child_index ks key" "\<forall>k \<in> set ks1. k \<le> key" "\<forall>k \<in> set ks2. key < k"
    using child_index_split [of ks cs key] unfolding assms(2) by metis
  have "ordereds lo hi (ks1 @ ks2) (cs1 @ cs ! i # cs2)" using assms(1) d(1,2) by (metis ordered.simps(2))
  then have o: "lefts lo ks1 cs1" "rights ks2 hi cs2" using d(3,4) by (auto simp: ordereds_append ordereds_Cons)
  obtain xs es nxt ys where q: "leaves (cs ! i) = xs @ (q, es, nxt) # ys" "\<forall>e \<in> set (leaf_entries xs). leaf_sort_key e < key"
    "\<forall>e \<in> set (leaf_entries ys). key < leaf_sort_key e"
    using assms(3) by (auto simp: key_leaf_def)
  have "leaves (NodeAt p ks cs) = (concat (map leaves cs1) @ xs) @ (q, es, nxt) # (ys @ concat (map leaves cs2))"
    by (subst d(2)) (simp add: q(1))
  moreover have "\<forall>e \<in> set (leaf_entries (concat (map leaves cs1) @ xs)). leaf_sort_key e < key"
    using lefts_below [OF o(1) d(3,6)] q(2) by (auto simp: leaf_entries_concat)
  moreover have "\<forall>e \<in> set (leaf_entries (ys @ concat (map leaves cs2))). key < leaf_sort_key e"
    using rights_above [OF o(2) d(4,7)] q(3) by (auto simp: leaf_entries_concat)
  ultimately show ?thesis unfolding key_leaf_def by blast
qed

lemma descend_to_leaf_finds:
  assumes "stored (pool_view bp) t" "ordered lo hi t" "distinct (tree_pages t)" "pool.held parent bp" "length parent \<le> 1"
    "fst ` set parent \<inter> set (tree_pages t) = {}" "1 < nframes bp"
  shows "\<exists>p path' bp'. descend_to_leaf key (tree_root t) parent path bp = Some (Inr (p, path'), bp') \<and>
    pool.held [] bp' \<and> pool.same_pages bp bp' \<and> key_leaf key (leaves t) p"
  using assms
proof (induction t arbitrary: parent path bp lo hi)
  case (LeafAt p es nxt)
  obtain v where v: "pool_view bp p = Some v" "node_holds v Leaf nxt es" using LeafAt.prems(1) by auto
  obtain f bp1 where f: "fetch_frame p bp = (Inr f, bp1)" "pool.held ((p, f) # parent) bp1" "pool.same_pages bp bp1"
    using pool.held_fetch [OF LeafAt.prems(4), of p] v(1) LeafAt.prems(5-7) by auto
  let ?bp2 = "drop_guards parent bp1"
  have d: "pool.held [(p, f)] ?bp2" "pool.same_pages bp1 ?bp2" using held_drop [of "[(p, f)]" parent "[]"] f(2) by auto
  have "pool_view ?bp2 p = Some v" using v(1) same_pagesD(1) [OF f(3)] same_pagesD(1) [OF d(2)] by simp
  then have "node_type_of (frame_data ?bp2 f) = Leaf"
    using held_reads(4) [OF d(1), of p f v] v(2) by (simp add: node_holds_def)
  then have "descend_to_leaf key p parent path bp = Some (Inr (p, path), unpin_frame f ?bp2)"
    by (simp add: descend_to_leaf.simps [of key p] f(1) Let_def)
  moreover have "pool.held [] (unpin_frame f ?bp2)" "pool.same_pages bp (unpin_frame f ?bp2)"
    using pool.held_unpin [of "[]" p f "[]" ?bp2] d f(3) by (auto intro: pool.same_pages_trans)
  moreover have "key_leaf key (leaves (LeafAt p es nxt)) p" unfolding key_leaf_def by (rule exI [of _ "[]"]) simp
  ultimately show ?case by auto
next
  case (NodeAt p ks cs)
  obtain v where v: "pool_view bp p = Some v" "node_holds v Internal (Some (hd (map tree_root cs))) (map2 build_internal_payload ks (tl (map tree_root cs)))"
    using NodeAt.prems(1) by (auto simp: node_at_def)
  obtain f bp1 where f: "fetch_frame p bp = (Inr f, bp1)" "pool.held ((p, f) # parent) bp1" "pool.same_pages bp bp1"
    using pool.held_fetch [OF NodeAt.prems(4), of p] v(1) NodeAt.prems(5-7) by auto
  let ?bp2 = "drop_guards parent bp1" and ?i = "child_index ks key"
  have d: "pool.held [(p, f)] ?bp2" "pool.same_pages bp1 ?bp2" using held_drop [of "[(p, f)]" parent "[]"] f(2) by auto
  have same: "pool.same_pages bp ?bp2" using f(3) d(2) pool.same_pages_trans by blast
  note S = same_pagesD [OF same]
  have v2: "pool_view ?bp2 p = Some v" using v(1) S(1) by simp
  have o: "length cs = Suc (length ks)" "\<forall>k \<in> set ks. small_sep k" "sorted_wrt (<) ks" using NodeAt.prems(2) by auto
  have i: "?i < length cs" using o(1) partition_point_le [of _ ks] by (simp add: child_index_def less_Suc_eq_le)
  then have c: "cs ! ?i \<in> set cs" by simp
  have "child_for_key (frame_data ?bp2 f) key p = Inr (tree_root (cs ! ?i))"
    using child_for_key_node(1) [OF v(2) _ o(2,3), of key p] o(1) i held_reads(9) [OF d(1), of p f v] v2 by simp
  moreover have "node_type_of (frame_data ?bp2 f) = Internal"
    using held_reads(4) [OF d(1), of p f v] v2 v(2) by (simp add: node_holds_def)
  ultimately have step: "descend_to_leaf key p parent path bp = descend_to_leaf key (tree_root (cs ! ?i)) [(p, f)] (path @ [p]) ?bp2"
    by (simp add: descend_to_leaf.simps [of key p] f(1) Let_def)
  obtain lo' hi' where "ordered lo' hi' (cs ! ?i)" using ordereds_nth i NodeAt.prems(2) by (metis ordered.simps(2))
  moreover have "stored (pool_view ?bp2) (cs ! ?i)" "distinct (tree_pages (cs ! ?i))" "p \<notin> set (tree_pages (cs ! ?i))"
    using NodeAt.prems(1,3) c S(1) by (auto simp: distinct_concat_iff)
  ultimately obtain q path' bp' where r: "descend_to_leaf key (tree_root (cs ! ?i)) [(p, f)] (path @ [p]) ?bp2 = Some (Inr (q, path'), bp')"
    "pool.held [] bp'" "pool.same_pages ?bp2 bp'" "key_leaf key (leaves (cs ! ?i)) q"
    using NodeAt.IH [OF c, of ?bp2 lo' hi' "[(p, f)]" "path @ [p]"] d(1) NodeAt.prems(7) S(2) by auto
  have "pool.same_pages bp bp'" by (rule pool.same_pages_trans [OF same r(3)])
  moreover have "key_leaf key (leaves (NodeAt p ks cs)) q" by (rule key_leaf_child [OF NodeAt.prems(2) refl r(4)])
  moreover have "descend_to_leaf key (tree_root (NodeAt p ks cs)) parent path bp = Some (Inr (q, path'), bp')" using step r(1) by simp
  ultimately show ?case using r(2) by blast
qed

section \<open>Looking a key up\<close>

text \<open>A leaf entry sorts by its key followed by its row. Entries of one key are next to each other
  when no key of the index is a proper prefix of another.\<close>

definition tells_apart :: "bytes \<Rightarrow> bytes list \<Rightarrow> bool" where
  "tells_apart key es \<longleftrightarrow> (\<forall>e \<in> set es. entry_key e = key \<or> entry_key e \<parallel> key)"

lemma parallel_less:
  assumes "a \<parallel> (b :: bytes)"
  shows "a @ x < b @ y \<longleftrightarrow> a < b"
proof -
  obtain as u a' v b' where d: "u \<noteq> v" "a = as @ u # a'" "b = as @ v # b'" using parallel_decomp [OF assms] by blast
  have "as @ u # p < as @ v # q \<longleftrightarrow> u < v" for p q using d(1) by (induction as) auto
  then show ?thesis unfolding d(2,3) by simp
qed

lemma small_entry_parts:
  assumes "small_entry e"
  shows "\<exists>rb. leaf_sort_key e = entry_key e @ rb"
  using assms by (auto simp: small_entry_def SMALL_KEY_def)

lemma matching_not_below: "small_entry e \<Longrightarrow> leaf_sort_key e < key \<Longrightarrow> entry_key e \<noteq> key"
proof
  assume a: "small_entry e" "leaf_sort_key e < key" "entry_key e = key"
  then obtain rb where "leaf_sort_key e = key @ rb" using small_entry_parts by metis
  moreover have "\<not> key @ rb < key" for key by (induction key) auto
  ultimately show False using a(2) by simp
qed

lemma no_match_after:
  assumes "small_entry e" "small_entry e'" "key \<le> leaf_sort_key e" "leaf_sort_key e < leaf_sort_key e'"
    "entry_key e \<parallel> key"
  shows "entry_key e' \<noteq> key"
proof
  assume k: "entry_key e' = key"
  obtain rb rb' where r: "leaf_sort_key e = entry_key e @ rb" "leaf_sort_key e' = key @ rb'"
    using small_entry_parts assms(1,2) k by metis
  have "entry_key e < key" using assms(4) parallel_less [OF assms(5)] r by simp
  then have "entry_key e @ rb < key @ []" by (simp only: parallel_less [OF assms(5)])
  then show False using assms(3) r(1) by simp
qed

lemma filter_sorted_matches:
  assumes "sorted_wrt (<) (map leaf_sort_key es)" "\<forall>e \<in> set es. small_entry e" "tells_apart key es"
    "\<forall>e \<in> set es. key \<le> leaf_sort_key e"
  shows "filter (\<lambda>e. entry_key e = key) es = takeWhile (\<lambda>e. entry_key e = key) es"
  using assms
proof (induction es)
  case (Cons e es)
  show ?case
  proof (cases "entry_key e = key")
    case False
    then have "entry_key e \<parallel> key" using Cons.prems(3) by (auto simp: tells_apart_def)
    then have "\<forall>e' \<in> set es. entry_key e' \<noteq> key" using Cons.prems(1,2,4) by (auto dest!: no_match_after)
    then show ?thesis using False by simp
  qed (use Cons in \<open>auto simp: tells_apart_def\<close>)
qed simp

lemma collect_rids_wf:
  assumes "node_wf v" "i + n = node_count v"
  shows "collect_rids v key pid i n = Inr (let es = takeWhile (\<lambda>e. entry_key e = key) (drop i (node_entries v)) in
    (map leaf_rid es, i + length es))"
  using assms(2)
proof (induction n arbitrary: i)
  case (Suc n)
  have i: "i < node_count v" using Suc.prems by simp
  then have d: "drop i (node_entries v) = node_entries v ! i # drop (Suc i) (node_entries v)" by (simp add: Cons_nth_drop_Suc)
  show ?case
    using Suc.IH [of "Suc i"] Suc.prems entry_payload_wf [OF assms(1) i] d by (simp add: Let_def del: and_then_eq_Inr)
qed simp

text \<open>What a lookup returns of the entries it passes: those with the key, from the first entry that does not
  sort before the key, up to the first entry with another key.\<close>

definition matches :: "bytes \<Rightarrow> bytes list \<Rightarrow> bytes list" where
  "matches key es = takeWhile (\<lambda>e. entry_key e = key) (dropWhile (\<lambda>e. leaf_sort_key e < key) es)"

lemma matches_append:
  assumes "sorted_wrt (<) (map leaf_sort_key (es @ fs))"
  shows "matches key (es @ fs) =
    (if matches key es = dropWhile (\<lambda>e. leaf_sort_key e < key) es then matches key es @ matches key fs else matches key es)"
  using assms
proof (induction es)
  case (Cons e es)
  show ?case
  proof (cases "leaf_sort_key e < key")
    case False
    have "dropWhile (\<lambda>e. leaf_sort_key e < key) fs = fs"
      using Cons.prems False by (cases fs) (auto simp: sorted_wrt_append)
    then show ?thesis using False by (auto simp: matches_def takeWhile_append takeWhile_eq_all_conv)
  qed (use Cons in \<open>simp add: matches_def\<close>)
qed (simp add: matches_def)

lemma matches_all:
  assumes "entries_between lo hi es" "tells_apart key es"
  shows "matches key es = filter (\<lambda>e. entry_key e = key) es"
  using assms
proof (induction es)
  case (Cons e es)
  have eb: "entries_between lo hi es" "tells_apart key es" "small_entry e" using Cons.prems by (auto simp: entries_between_def tells_apart_def)
  show ?case
  proof (cases "leaf_sort_key e < key")
    case True
    then have "matches key (e # es) = matches key es" by (simp add: matches_def)
    then show ?thesis using Cons.IH [OF eb(1,2)] matching_not_below [OF eb(3) True] by simp
  next
    case False
    then have "\<forall>x \<in> set (e # es). key \<le> leaf_sort_key x"
      using Cons.prems(1) by (force simp: entries_between_def not_less)
    then show ?thesis
      using filter_sorted_matches [of "e # es" key] Cons.prems False by (simp add: matches_def entries_between_def)
  qed
qed (simp add: matches_def)

lemma full_takeWhile: "length (takeWhile P xs) = length xs \<longleftrightarrow> takeWhile P xs = xs"
  by (metis order_refl take_all takeWhile_eq_take)

text \<open>One leaf contributes its matching entries; the search goes on where they reach its end.\<close>

lemma leaf_matches_wf:
  assumes v: "node_holds v Leaf nxt es" and srt: "sorted_wrt (<) (map leaf_sort_key es)"
  shows "leaf_matches v key pid = Inr (map leaf_rid (matches key es), matches key es = dropWhile (\<lambda>e. leaf_sort_key e < key) es)"
proof -
  have wf: "node_wf v" "node_entries v = es" "node_count v = length es"
    using v length_node_entries [of v] by (auto simp: node_holds_def)
  let ?i = "partition_point (\<lambda>p. leaf_sort_key p < key) es"
  have i: "?i \<le> length es" by (rule partition_point_le)
  have lb: "lower_bound_leaf v key pid = Inr ?i"
    using node_searches_wf(3) [OF wf(1)] srt wf(2) by (simp add: strict_sorted_imp_sorted)
  have d: "drop ?i es = dropWhile (\<lambda>e. leaf_sort_key e < key) es"
    by (simp add: partition_point_def dropWhile_eq_drop)
  have m: "takeWhile (\<lambda>e. entry_key e = key) (drop ?i es) = matches key es" by (simp add: matches_def d)
  have "?i + length (matches key es) = length es \<longleftrightarrow> matches key es = drop ?i es"
    using i full_takeWhile [of "\<lambda>e. entry_key e = key" "drop ?i es"] unfolding m by auto
  then show ?thesis
    using collect_rids_wf [OF wf(1), of ?i "length es - ?i" key pid] i lb node_wf_count(2) [OF wf(1), of pid] wf(2,3) m d
    by (simp add: leaf_matches_def node_count_def Let_def del: and_then_eq_Inr)
qed

lemma held_leaf_matches:
  assumes "pool.held gs bp" "(p, f) \<in> set gs" "pool_view bp p = Some v"
  shows "leaf_matches (frame_data bp f) key pid = leaf_matches v key pid"
proof -
  note H = held_reads [OF assms]
  have "collect_rids (frame_data bp f) key pid i n = collect_rids v key pid i n" for i n
    by (induction n arbitrary: i) (simp_all add: H(6) cong: if_cong)
  then show ?thesis by (simp add: leaf_matches_def lower_bound_leaf_def H(5,10))
qed

lemma get_loop_collects:
  assumes "chained (xs @ (p, es, nxt) # ys)" "\<forall>(q, fs, n) \<in> set ((p, es, nxt) # ys). \<exists>v. pool_view bp q = Some v \<and> node_holds v Leaf n fs"
    "distinct (map fst ((p, es, nxt) # ys))" "sorted_wrt (<) (map leaf_sort_key (es @ leaf_entries ys))"
    "pool.held [(p, f)] bp" "1 < nframes bp"
  shows "\<exists>bp'. get_loop key (p, f) results bp = Some (Inr (results @ map leaf_rid (matches key (es @ leaf_entries ys))), bp') \<and>
    pool.held [] bp' \<and> pool.same_pages bp bp'"
  using assms
proof (induction ys arbitrary: xs p es nxt f results bp)
  case Nil
  have nxt: "nxt = None" using Nil.prems(1) by (induction xs) (auto simp: chained_Cons split: list.splits)
  obtain v where v: "pool_view bp p = Some v" "node_holds v Leaf nxt es" using Nil.prems(2) by auto
  have "leaf_matches (frame_data bp f) key p = leaf_matches v key p" "tail_raw (frame_data bp f) = None"
    using held_leaf_matches [OF Nil.prems(5) _ v(1)] held_reads(3) [OF Nil.prems(5) _ v(1)] v(2) nxt by (simp_all add: node_holds_def)
  then have "get_loop key (p, f) results bp = Some (Inr (results @ map leaf_rid (matches key es)), unpin_frame f bp)"
    using leaf_matches_wf [OF v(2), of key p] Nil.prems(4) by (simp add: get_loop.simps [of key "(p, f)"])
  then show ?case using pool.held_unpin [of "[]" p f "[]" bp] Nil.prems(5) by auto
next
  case (Cons y ys)
  obtain q fs n where y: "y = (q, fs, n)" by (cases y) auto
  have nxt: "nxt = Some q" using Cons.prems(1) y by (induction xs) (auto simp: chained_Cons split: list.splits)
  obtain v where v: "pool_view bp p = Some v" "node_holds v Leaf nxt es" using Cons.prems(2) by auto
  have srt: "sorted_wrt (<) (map leaf_sort_key es)" "sorted_wrt (<) (map leaf_sort_key (fs @ leaf_entries ys))"
    using Cons.prems(4) y by (auto simp: sorted_wrt_append)
  note m = leaf_matches_wf [OF v(2) srt(1), of key p]
  note ma = matches_append [OF Cons.prems(4), of key]
  have r: "leaf_matches (frame_data bp f) key p = leaf_matches v key p" "tail_raw (frame_data bp f) = Some q"
    using held_leaf_matches [OF Cons.prems(5) _ v(1)] held_reads(3) [OF Cons.prems(5) _ v(1)] v(2) nxt by (simp_all add: node_holds_def)
  show ?case
  proof (cases "matches key es = dropWhile (\<lambda>e. leaf_sort_key e < key) es")
    case True
    have q: "pool_view bp q \<noteq> None" "q \<noteq> p" using Cons.prems(2,3) y by auto
    obtain g bp1 where g: "fetch_frame q bp = (Inr g, bp1)" "pool.held [(q, g), (p, f)] bp1" "pool.same_pages bp bp1"
      using pool.held_fetch [OF Cons.prems(5) q(1)] q(2) Cons.prems(6) by auto
    note U = pool.held_unpin [of "[(q, g)]" p f "[]" bp1, simplified, OF g(2)]
    have same: "pool.same_pages bp (unpin_frame f bp1)" by (rule pool.same_pages_trans [OF g(3) U(2)])
    let ?res = "results @ map leaf_rid (matches key es)"
    have step: "get_loop key (p, f) results bp = get_loop key (q, g) ?res (unpin_frame f bp1)"
      using m r True g(1) by (simp add: get_loop.simps [of key "(p, f)"])
    have "\<exists>bp'. get_loop key (q, g) ?res (unpin_frame f bp1) = Some (Inr (?res @ map leaf_rid (matches key (fs @ leaf_entries ys))), bp') \<and>
        pool.held [] bp' \<and> pool.same_pages (unpin_frame f bp1) bp'"
      by (rule Cons.IH [of "xs @ [(p, es, nxt)]" q fs n])
        (use Cons.prems(1-3,6) srt(2) U(1) same_pagesD(1,2) [OF same] y in auto)
    then show ?thesis using step y same ma True by (auto intro: pool.same_pages_trans)
  next
    case False
    then have "get_loop key (p, f) results bp = Some (Inr (results @ map leaf_rid (matches key es)), unpin_frame f bp)"
      using m r by (simp add: get_loop.simps [of key "(p, f)"])
    then show ?thesis using pool.held_unpin [of "[]" p f "[]" bp] Cons.prems(5) ma False by auto
  qed
qed

lemma stored_leaves: "stored vw t \<Longrightarrow> (q, fs, n) \<in> set (leaves t) \<Longrightarrow> \<exists>v. vw q = Some v \<and> node_holds v Leaf n fs"
  by (induction t) auto

lemma leaf_pages: "set (map fst (leaves t)) \<subseteq> set (tree_pages t)"
  by (induction t) auto

lemma distinct_leaf_lists:
  "\<forall>c \<in> set cs. distinct (map fst (leaves c)) \<Longrightarrow> distinct (concat (map tree_pages cs)) \<Longrightarrow>
   distinct (map fst (concat (map leaves cs))) \<and> set (map fst (concat (map leaves cs))) \<subseteq> set (concat (map tree_pages cs))"
proof (induction cs)
  case (Cons c cs)
  have B: "distinct (map fst (concat (map leaves cs)))" "set (map fst (concat (map leaves cs))) \<subseteq> set (concat (map tree_pages cs))"
    using Cons.IH Cons.prems by simp_all
  have "set (tree_pages c) \<inter> set (concat (map tree_pages cs)) = {}"
    using Cons.prems(2) by (simp only: list.map concat.simps distinct_append)
  then have "set (map fst (leaves c)) \<inter> set (map fst (concat (map leaves cs))) = {}" using B(2) leaf_pages [of c] by blast
  moreover have "distinct (map fst (leaves c))" using Cons.prems(1) by simp
  ultimately show ?case
    using B leaf_pages [of c] by (simp only: list.map concat.simps map_append distinct_append set_append) blast
qed simp

lemma distinct_leaf_pages: "distinct (tree_pages t) \<Longrightarrow> distinct (map fst (leaves t))"
proof (induction t)
  case (NodeAt p ks cs)
  then have "\<forall>c \<in> set cs. distinct (map fst (leaves c))" by (auto simp: distinct_concat_iff)
  then show ?case using distinct_leaf_lists [of cs] NodeAt.prems by simp
qed simp

lemma pool_quiet_held: "pool_quiet bp \<longleftrightarrow> pool.held [] bp \<and> 0 < nframes bp"
  using pool.quiet_held [of bp] by (simp add: pool_quiet_eq)

lemma index_treeD:
  assumes "index_tree vw t"
  shows "stored vw t" "ordered None None t" "chained (leaves t)" "distinct (tree_pages t)" "distinct (map fst (leaves t))"
    "entries_between None None (tree_entries t)"
  using assms ordered_entries(1) distinct_leaf_pages by (auto simp: index_tree_def)

text \<open>The rows a lookup returns, whatever the keys of the index.\<close>

lemma btree_get_matches:
  assumes i: "index_tree (pool_view bp) t" and q: "pool_quiet bp" "1 < nframes bp"
  shows "\<exists>bp'. btree_get (tree_root t) key bp = Some (Inr (map leaf_rid (matches key (tree_entries t))), bp') \<and>
    pool_quiet bp' \<and> pool_view bp' = pool_view bp"
proof -
  note I = index_treeD [OF i]
  obtain p path bp1 where d: "descend_to_leaf key (tree_root t) [] [] bp = Some (Inr (p, path), bp1)" "pool.held [] bp1"
    "pool.same_pages bp bp1" "key_leaf key (leaves t) p"
    using descend_to_leaf_finds [OF I(1,2,4), of "[]" key "[]"] q by (auto simp: pool_quiet_held)
  obtain xs es nxt ys where l: "leaves t = xs @ (p, es, nxt) # ys" "\<forall>e \<in> set (leaf_entries xs). leaf_sort_key e < key"
    using d(4) by (auto simp: key_leaf_def)
  note S = same_pagesD [OF d(3)]
  have st: "\<exists>v. pool_view bp r = Some v \<and> node_holds v Leaf n fs" if "(r, fs, n) \<in> set (leaves t)" for r fs n
    using stored_leaves [OF I(1) that] .
  obtain f bp2 where f: "fetch_frame p bp1 = (Inr f, bp2)" "pool.held [(p, f)] bp2" "pool.same_pages bp1 bp2"
    using pool.held_fetch [OF d(2), of p] st [of p es nxt] l(1) S(1,2) q by (auto simp: pool_quiet_held)
  note S2 = same_pagesD [OF f(3)]
  have srt: "sorted_wrt (<) (map leaf_sort_key (es @ leaf_entries ys))"
    using I(6) by (auto simp: tree_entries_leaves l(1) entries_between_def sorted_wrt_append)
  have m: "matches key (tree_entries t) = matches key (es @ leaf_entries ys)"
    using l(2) by (simp add: tree_entries_leaves l(1) matches_def)
  have "\<exists>bp'. get_loop key (p, f) [] bp2 = Some (Inr ([] @ map leaf_rid (matches key (es @ leaf_entries ys))), bp') \<and>
      pool.held [] bp' \<and> pool.same_pages bp2 bp'"
    by (rule get_loop_collects [OF I(3) [unfolded l(1)] _ _ srt f(2)])
      (use st I(5) S(1,2) S2(1,2) q(2) in \<open>auto simp: l(1)\<close>)
  then obtain bp' where g: "get_loop key (p, f) [] bp2 = Some (Inr (map leaf_rid (matches key (tree_entries t))), bp')"
    "pool.held [] bp'" "pool.same_pages bp2 bp'" using m by auto
  have "btree_get (tree_root t) key bp = Some (Inr (map leaf_rid (matches key (tree_entries t))), bp')"
    using d(1) f(1) g(1) by (simp add: btree_get_def)
  then show ?thesis using g(2) same_pagesD(1,2) [OF g(3)] S(1,2) S2(1,2) q by (auto simp: pool_quiet_held)
qed

end
