(* ===== verification/BTree_Insert.thy ===== *)
theory BTree_Insert
  imports BTree_Read
begin

text \<open>
  Inserting into an index: the descent keeps the guards a cascade of splits may need, a full leaf is
  split into two that fit, and the separators travel up until a node has room or a new root is made.
  The index afterwards is a well-formed tree with exactly one more entry, and no other page changed.
\<close>

section \<open>The way down\<close>

text \<open>The guards kept are those of the innermost holes, and the outermost of them has room for any
  separator unless all the way up is kept.\<close>

definition safe_hole :: "(page_id \<Rightarrow> bytes option) \<Rightarrow> hole \<Rightarrow> bool" where
  "safe_hole vw h \<longleftrightarrow> (\<exists>v. vw (hole_page h) = Some v \<and> node_will_fit v MAX_INTERNAL_PUSH_UP_SIZE)"

definition retained :: "(page_id \<Rightarrow> bytes option) \<Rightarrow> hole list \<Rightarrow> guard list \<Rightarrow> bool" where
  "retained vw ctx gs \<longleftrightarrow> length gs \<le> length ctx \<and> map fst gs = map hole_page (take (length gs) ctx) \<and>
     (length gs = length ctx \<or> 0 < length gs \<and> safe_hole vw (ctx ! (length gs - 1)))"

lemma retained_push: "retained vw ctx gs \<Longrightarrow> retained vw (h # ctx) ((hole_page h, f) # gs)"
  by (auto simp: retained_def nth_Cons split: nat.splits)

lemma retained_safe: "safe_hole vw h \<Longrightarrow> retained vw (h # ctx) [(hole_page h, f)]"
  by (simp add: retained_def)

lemma hole_page_in_pages: "h \<in> set ctx \<Longrightarrow> hole_page h \<in> set (hole_pages ctx)"
  by (induction ctx rule: hole_pages.induct) auto

lemma retained_pop:
  assumes "retained vw (h # ctx) (g # gs)" "\<not> safe_hole vw h" "\<And>q. q \<in> set (hole_pages ctx) \<Longrightarrow> vw' q = vw q"
  shows "retained vw' ctx gs"
proof (cases "length gs = length ctx")
  case False
  then have s: "safe_hole vw ((h # ctx) ! length gs)" "length gs < length ctx" using assms(1) by (auto simp: retained_def)
  then obtain m where m: "length gs = Suc m" using assms(2) by (cases gs) auto
  then have "ctx ! m \<in> set ctx" using s(2) by simp
  then have "vw' (hole_page (ctx ! m)) = vw (hole_page (ctx ! m))" using assms(3) hole_page_in_pages by blast
  then have "safe_hole vw' (ctx ! m)" using s(1) m by (simp add: safe_hole_def)
  then show ?thesis using assms(1) m by (simp add: retained_def)
qed (use assms(1) in \<open>simp add: retained_def\<close>)

lemma retained_cong: "retained vw ctx gs \<Longrightarrow> (\<And>q. q \<in> set (hole_pages ctx) \<Longrightarrow> vw' q = vw q) \<Longrightarrow> retained vw' ctx gs"
proof -
  assume a: "retained vw ctx gs" "\<And>q. q \<in> set (hole_pages ctx) \<Longrightarrow> vw' q = vw q"
  have "safe_hole vw' (ctx ! (length gs - 1))" if "safe_hole vw (ctx ! (length gs - 1))" "length gs \<noteq> length ctx"
  proof -
    have "ctx ! (length gs - 1) \<in> set ctx" using a(1) that by (intro nth_mem) (auto simp: retained_def)
    then show ?thesis using that a(2) hole_page_in_pages by (auto simp: safe_hole_def)
  qed
  then show ?thesis using a(1) by (auto simp: retained_def)
qed

lemma retained_pages:
  assumes "retained vw ctx gs"
  shows "fst ` set gs \<subseteq> set (hole_pages ctx)"
proof -
  have "set (map hole_page ctx) \<subseteq> set (hole_pages ctx)" by (induction ctx rule: hole_pages.induct) auto
  moreover have "fst ` set gs = set (map hole_page (take (length gs) ctx))" using assms by (metis retained_def set_map)
  ultimately show ?thesis using set_take_subset [of "length gs" ctx] unfolding set_map by blast
qed

definition leaf_reached ::
    "(page_id \<Rightarrow> bytes option) \<Rightarrow> bytes \<Rightarrow> nat \<Rightarrow> btree \<Rightarrow> hole list \<Rightarrow> page_id \<Rightarrow> bytes list \<Rightarrow> page_id option \<Rightarrow> guard list \<Rightarrow> bool" where
  "leaf_reached vw skey len t ctx p es nxt gs \<longleftrightarrow> plug (LeafAt p es nxt) ctx = t \<and> holes_ok ctx \<and>
     ordered (hole_low ctx) (hole_high ctx) (LeafAt p es nxt) \<and> at_least (hole_low ctx) skey \<and> below skey (hole_high ctx) \<and>
     (if node_bytes es + 4 + len \<le> 4075 then gs = [] else retained vw ctx gs)"

lemma descend_for_insert_finds:
  assumes "stored (pool_view bp) t" "holes_ok ctx" "ordered (hole_low ctx) (hole_high ctx) t"
    "distinct (tree_pages t)" "set (tree_pages t) \<inter> set (hole_pages ctx) = {}"
    "at_least (hole_low ctx) skey" "below skey (hole_high ctx)" "pool.held gs bp" "retained (pool_view bp) ctx gs"
    "uniform m t" "length gs + m < nframes bp"
  shows "\<exists>ctx' gs' p es nxt f bp'. descend_for_insert skey len (tree_root t) gs bp = Some (Inr (gs', (p, f)), bp') \<and>
    pool.held ((p, f) # gs') bp' \<and> pool.same_pages bp bp' \<and> length ctx' = length ctx + m \<and>
    leaf_reached (pool_view bp) skey len (plug t ctx) ctx' p es nxt gs'"
  using assms
proof (induction t arbitrary: ctx gs bp m)
  case (LeafAt p es nxt)
  obtain v where v: "pool_view bp p = Some v" "node_holds v Leaf nxt es" using LeafAt.prems(1) by auto
  obtain f bp1 where f: "fetch_frame p bp = (Inr f, bp1)" "pool.held ((p, f) # gs) bp1" "pool.same_pages bp bp1"
    using pool.held_fetch [OF LeafAt.prems(8), of p] v(1) LeafAt.prems(5,11) retained_pages [OF LeafAt.prems(9)] by auto
  have v1: "pool_view bp1 p = Some v" using v(1) same_pagesD(1) [OF f(3)] by simp
  have r: "node_type_of (frame_data bp1 f) = Leaf" "node_will_fit (frame_data bp1 f) len \<longleftrightarrow> node_bytes es + 4 + len \<le> 4075"
    using held_reads(4,7) [OF f(2) _ v1] v(2) node_holds_fit(2) [OF v(2)] by (auto simp: node_holds_def)
  show ?case
  proof (cases "node_bytes es + 4 + len \<le> 4075")
    case True
    have "descend_for_insert skey len p gs bp = Some (Inr ([], (p, f)), drop_guards gs bp1)"
      using r True by (simp add: descend_for_insert.simps [of skey len p] f(1) Let_def)
    moreover have "pool.held [(p, f)] (drop_guards gs bp1)" "pool.same_pages bp (drop_guards gs bp1)"
      using held_drop [of "[(p, f)]" gs "[]" bp1] f(2,3) by (auto intro: pool.same_pages_trans)
    ultimately show ?thesis
      using True LeafAt.prems by (intro exI [of _ ctx] exI [of _ "[]"] exI [of _ p] exI [of _ es] exI [of _ nxt]) (auto simp: leaf_reached_def)
  next
    case False
    then have "descend_for_insert skey len p gs bp = Some (Inr (gs, (p, f)), bp1)"
      using r by (simp add: descend_for_insert.simps [of skey len p] f(1) Let_def)
    then show ?thesis
      using False LeafAt.prems f by (intro exI [of _ ctx] exI [of _ gs] exI [of _ p] exI [of _ es] exI [of _ nxt]) (auto simp: leaf_reached_def)
  qed
next
  case (NodeAt p ks cs)
  obtain v where v: "pool_view bp p = Some v" "node_holds v Internal (Some (hd (map tree_root cs))) (map2 build_internal_payload ks (tl (map tree_root cs)))"
    using NodeAt.prems(1) by (auto simp: node_at_def)
  obtain f bp1 where f: "fetch_frame p bp = (Inr f, bp1)" "pool.held ((p, f) # gs) bp1" "pool.same_pages bp bp1"
    using pool.held_fetch [OF NodeAt.prems(8), of p] v(1) NodeAt.prems(5,11) retained_pages [OF NodeAt.prems(9)] by auto
  note S = same_pagesD [OF f(3)]
  have v1: "pool_view bp1 p = Some v" using v(1) S(1) by simp
  have o: "length cs = Suc (length ks)" "\<forall>k \<in> set ks. small_sep k" "sorted_wrt (<) ks" using NodeAt.prems(3) by auto
  let ?i = "child_index ks skey"
  have i: "?i < length cs" using o(1) partition_point_le [of _ ks] by (simp add: child_index_def less_Suc_eq_le)
  then have c: "cs ! ?i \<in> set cs" by simp
  have ch: "child_for_key (frame_data bp1 f) skey p = Inr (tree_root (cs ! ?i))"
    using child_for_key_node(1) [OF v(2) _ o(2,3), of skey p] o(1) i held_reads(9) [OF f(2) _ v1] by simp
  have ty: "node_type_of (frame_data bp1 f) = Internal" using held_reads(4) [OF f(2) _ v1] v(2) by (simp add: node_holds_def)
  obtain ks1 ks2 cs1 cs2 where d: "ks = ks1 @ ks2" "cs = cs1 @ cs ! ?i # cs2" "length ks1 = length cs1" "length ks2 = length cs2"
    "length ks1 = ?i" "\<forall>k \<in> set ks1. k \<le> skey" "\<forall>k \<in> set ks2. skey < k"
    using child_index_split [OF o(3,1), of skey] by metis
  let ?c = "cs ! ?i" and ?h = "Hole p ks1 cs1 ks2 cs2"
  have nd: "NodeAt p ks cs = NodeAt p (ks1 @ ks2) (cs1 @ ?c # cs2)" using d(1,2) by simp
  have H: "holes_ok (?h # ctx)" "ordered (hole_low (?h # ctx)) (hole_high (?h # ctx)) ?c"
    using ordered_hole [OF NodeAt.prems(2) d(3,4), of p ?c] NodeAt.prems(3) unfolding nd by blast+
  have bnd: "at_least (hole_low (?h # ctx)) skey" "below skey (hole_high (?h # ctx))"
    using NodeAt.prems(6,7) d(6,7) by (cases ks2; simp add: last_key_def next_key_def)+
  have pl: "plug ?c (?h # ctx) = plug (NodeAt p ks cs) ctx" unfolding nd by simp
  obtain m' where m: "m = Suc m'" "uniform m' ?c" using NodeAt.prems(10) c by (auto split: nat.splits)
  have pgs: "distinct (p # concat (map tree_pages cs1) @ tree_pages ?c @ concat (map tree_pages cs2))"
    using NodeAt.prems(4) by (subst (asm) d(2)) simp
  have dj: "set (tree_pages ?c) \<inter> set (hole_pages (?h # ctx)) = {}" "distinct (tree_pages ?c)"
    using pgs NodeAt.prems(5) c by auto
  define gs1 bp2 where "gs1 = (if node_will_fit v MAX_INTERNAL_PUSH_UP_SIZE then [(p, f)] else (p, f) # gs)"
    and "bp2 = (if node_will_fit v MAX_INTERNAL_PUSH_UP_SIZE then drop_guards gs bp1 else bp1)"
  have step: "descend_for_insert skey len p gs bp = descend_for_insert skey len (tree_root ?c) gs1 bp2"
    using ch ty held_reads(7) [OF f(2) _ v1, of f MAX_INTERNAL_PUSH_UP_SIZE]
    by (simp add: descend_for_insert.simps [of skey len p] f(1) Let_def gs1_def bp2_def)
  have h2: "pool.held gs1 bp2" "pool.same_pages bp bp2"
    using held_drop [of "[(p, f)]" gs "[]" bp1] f(2,3) by (auto simp: gs1_def bp2_def intro: pool.same_pages_trans)
  note S2 = same_pagesD [OF h2(2)]
  have ret: "retained (pool_view bp) (?h # ctx) gs1"
    using retained_push [OF NodeAt.prems(9), of ?h f] retained_safe [of "pool_view bp" ?h ctx f] v(1)
    by (auto simp: gs1_def safe_hole_def)
  have len: "length gs1 + m' < nframes bp" using NodeAt.prems(11) m(1) by (simp add: gs1_def)
  have "stored (pool_view bp2) ?c" using NodeAt.prems(1) c S2(1) by simp
  then obtain ctx' gs' q es nxt f' bp' where r: "descend_for_insert skey len (tree_root ?c) gs1 bp2 = Some (Inr (gs', (q, f')), bp')"
    "pool.held ((q, f') # gs') bp'" "pool.same_pages bp2 bp'" "length ctx' = length (?h # ctx) + m'"
    "leaf_reached (pool_view bp2) skey len (plug ?c (?h # ctx)) ctx' q es nxt gs'"
    using NodeAt.IH [OF c, of bp2 "?h # ctx" gs1 m'] H dj bnd h2(1) ret m(2) len S2(1,2) by auto
  have "pool.same_pages bp bp'" by (rule pool.same_pages_trans [OF h2(2) r(3)])
  moreover have "leaf_reached (pool_view bp) skey len (plug (NodeAt p ks cs) ctx) ctx' q es nxt gs'" using r(5) S2(1) pl by simp
  moreover have "descend_for_insert skey len (tree_root (NodeAt p ks cs)) gs bp = Some (Inr (gs', (q, f')), bp')" using step r(1) by simp
  moreover have "length ctx' = length ctx + m" using r(4) m(1) by simp
  ultimately show ?case using r(2) by blast
qed

section \<open>Splitting\<close>

lemma node_bytes_le: "\<forall>e \<in> set es. entry_cost e \<le> m \<Longrightarrow> node_bytes es \<le> length es * m"
  by (induction es) auto

lemma node_bytes_insert: "node_bytes (take i es @ e # drop i es) = node_bytes es + entry_cost e"
proof -
  have "node_bytes es = node_bytes (take i es) + node_bytes (drop i es)" by (metis append_take_drop_id node_bytes_simps(3))
  then show ?thesis by simp
qed

lemma overfull_split:
  assumes full: "4075 < node_bytes es + entry_cost e" and old: "node_bytes es \<le> 4075"
    and small: "\<forall>x \<in> set (e # es). entry_cost x \<le> 1358"
    and es': "es' = take i es @ e # drop i es"
  shows "4 \<le> length es'" "1 \<le> leaf_split_point es'" "leaf_split_point es' < length es'"
    "node_bytes (take (leaf_split_point es') es') \<le> 4075" "node_bytes (drop (leaf_split_point es') es') \<le> 4075"
    "1 \<le> internal_split_point es'" "Suc (internal_split_point es') < length es'"
    "node_bytes (take (internal_split_point es') es') \<le> 4075" "node_bytes (drop (Suc (internal_split_point es')) es') \<le> 4075"
proof -
  have tot: "node_bytes es' = node_bytes es + entry_cost e" unfolding es' by (rule node_bytes_insert)
  have sm: "\<forall>x \<in> set es'. entry_cost x \<le> 1358" using small by (auto simp: es' dest: in_set_takeD in_set_dropD)
  show l: "4 \<le> length es'" using node_bytes_le [OF sm] full tot by linarith
  have "node_bytes es' \<le> 5433" using tot old small by simp
  then have half: "sum_list (map entry_cost es') div 2 + 1358 \<le> 4075" unfolding node_bytes_def by linarith
  have l2: "2 \<le> length es'" "3 \<le> length es'" using l by auto
  show "1 \<le> leaf_split_point es'" "leaf_split_point es' < length es'" using leaf_split_bounds [OF l2(1)] by auto
  show "1 \<le> internal_split_point es'" "Suc (internal_split_point es') < length es'" using internal_split_bounds [OF l2(2)] by auto
  show "node_bytes (take (leaf_split_point es') es') \<le> 4075" "node_bytes (drop (leaf_split_point es') es') \<le> 4075"
    "node_bytes (take (internal_split_point es') es') \<le> 4075" "node_bytes (drop (Suc (internal_split_point es')) es') \<le> 4075"
    using leaf_split_costs [OF l2(1) sm] internal_split_costs [OF l2(2) sm] half by (simp_all add: node_bytes_def)
qed

text \<open>Enough log for a page allocation and two rebuilds.\<close>

definition SPLIT_ROOM :: nat where "SPLIT_ROOM = Suc (2 * REBUILD_ROOM)"

lemma held_next_page:
  assumes "pool.held gs bp" "pool_view bp p = Some v"
  shows "p < next_page bp" "p \<noteq> next_page bp" "next_page bp \<noteq> 0"
proof -
  show "p < next_page bp" using pool.view_range [OF held_pool_inv [OF assms(1)], of p] assms(2) by simp
  then show "p \<noteq> next_page bp" "next_page bp \<noteq> 0" by auto
qed

lemma new_node_effect:
  assumes h: "pool.held gs bp" and few: "length gs < nframes bp" and n: "next_page bp \<noteq> - 1" and fit: "node_bytes es \<le> 4075"
    and tail: "tail \<noteq> Some 0" and room: "log_room (Suc (REBUILD_ROOM + k)) bp"
  shows "\<exists>bp' w. new_node txn kind tail es bp = (Inr (next_page bp), bp') \<and> pool.held gs bp' \<and>
    pool_view bp' = (pool_view bp)(next_page bp \<mapsto> w) \<and> node_holds w kind tail es \<and> nframes bp' = nframes bp \<and>
    next_page bp' = next_page bp + 1 \<and> log_room k bp'"
proof -
  let ?q = "next_page bp"
  obtain f bp1 where a: "new_page txn bp = (Inr (?q, f), bp1)" "pool.held ((?q, f) # gs) bp1"
    "pool_view bp1 = (pool_view bp)(?q \<mapsto> blank_page)" "nframes bp1 = nframes bp" "next_page bp1 = ?q + 1" "log_room (REBUILD_ROOM + k) bp1"
    using pool.held_alloc [OF h few room n, of txn] by blast
  obtain bp2 w where r: "node_rebuild f ?q txn kind tail es bp1 = (Inr (), bp2)" "page_written ((?q, f) # gs) ?q w k bp1 bp2" "node_holds w kind tail es"
    using node_rebuild_effect [OF a(2) _ _ tail a(6), of ?q f es txn kind] fit by auto
  note U = pool.held_unpin [of "[]" ?q f gs bp2, simplified, OF page_written_held [OF r(2)]]
  have "new_node txn kind tail es bp = (Inr ?q, unpin_frame f bp2)" using a(1) r(1) by (simp add: new_node_def sbind_def)
  then show ?thesis using U(1) same_pagesD [OF U(2)] a(3-6) r(2,3) by (auto simp: page_written_def)
qed

lemma split_writes:
  assumes h: "pool.held gs bp" "(p, f) \<in> set gs" "pool_view bp p = Some v" and few: "length gs < nframes bp" and n: "next_page bp \<noteq> - 1"
    and fit: "node_bytes ls \<le> 4075" "node_bytes rs \<le> 4075" and tails: "rtail \<noteq> Some 0" and room: "log_room (SPLIT_ROOM + k) bp"
    and lt: "ltail (next_page bp) \<noteq> Some 0"
  shows "\<exists>bp' wl wr. sbind (new_node txn kind rtail rs) (\<lambda>right.
      sbind (node_rebuild f p txn kind (ltail right) ls) (\<lambda>_. sreturn (sep, right))) bp = (Inr (sep, next_page bp), bp') \<and>
    pool.held gs bp' \<and> pool_view bp' = (pool_view bp)(next_page bp \<mapsto> wr, p \<mapsto> wl) \<and> node_holds wr kind rtail rs \<and>
    node_holds wl kind (ltail (next_page bp)) ls \<and> nframes bp' = nframes bp \<and> next_page bp' = next_page bp + 1 \<and> log_room k bp'"
proof -
  have room1: "log_room (Suc (REBUILD_ROOM + (REBUILD_ROOM + k))) bp" using room by (simp add: SPLIT_ROOM_def mult_2 add.assoc)
  obtain bp1 wr where a: "new_node txn kind rtail rs bp = (Inr (next_page bp), bp1)" "pool.held gs bp1"
    "pool_view bp1 = (pool_view bp)(next_page bp \<mapsto> wr)" "node_holds wr kind rtail rs" "nframes bp1 = nframes bp"
    "next_page bp1 = next_page bp + 1" "log_room (REBUILD_ROOM + k) bp1"
    using new_node_effect [OF h(1) few n fit(2) tails room1, of txn kind] by blast
  obtain bp2 wl where b: "node_rebuild f p txn kind (ltail (next_page bp)) ls bp1 = (Inr (), bp2)" "page_written gs p wl k bp1 bp2"
    "node_holds wl kind (ltail (next_page bp)) ls"
    using node_rebuild_effect [OF a(2) h(2) _ lt a(7), of ls txn kind] fit(1) by auto
  show ?thesis using a b by (auto simp: sbind_def page_written_def)
qed

section \<open>The entries of the nodes involved\<close>

definition child_entries :: "bytes list \<Rightarrow> page_id list \<Rightarrow> bytes list" where
  "child_entries ks rs = map2 build_internal_payload ks (tl rs)"

lemma node_at_entries:
  "node_at vw p ks rs \<longleftrightarrow> (\<exists>v. vw p = Some v \<and> node_holds v Internal (Some (hd rs)) (child_entries ks rs))"
  by (simp add: node_at_def child_entries_def)

lemma length_child_entries [simp]: "length rs = Suc (length ks) \<Longrightarrow> length (child_entries ks rs) = length ks"
  by (simp add: child_entries_def)

lemma child_entries_insert:
  assumes "length rs1 = length ks1" "length rs2 = length ks2"
  shows "child_entries (ks1 @ k # ks2) (rs1 @ l # r # rs2) =
    take (length ks1) (child_entries (ks1 @ ks2) (rs1 @ l # rs2)) @ build_internal_payload k r #
      drop (length ks1) (child_entries (ks1 @ ks2) (rs1 @ l # rs2))"
proof -
  define ts where "ts = tl (rs1 @ [l])"
  have t: "tl (rs1 @ l # xs) = ts @ xs" for xs unfolding ts_def by (cases rs1) simp_all
  have n: "length ks1 = length ts" using assms(1) by (simp add: ts_def)
  show ?thesis using n by (simp add: child_entries_def t)
qed

lemma child_entries_split:
  assumes "length rs = Suc (length ks)" "m < length ks"
  shows "take m (child_entries ks rs) = child_entries (take m ks) (take (Suc m) rs)"
    "drop (Suc m) (child_entries ks rs) = child_entries (drop (Suc m) ks) (drop (Suc m) rs)"
    "child_entries ks rs ! m = build_internal_payload (ks ! m) (rs ! Suc m)"
proof -
  obtain r rs' where rs: "rs = r # rs'" "length rs' = length ks" using assms(1) by (cases rs) auto
  show "take m (child_entries ks rs) = child_entries (take m ks) (take (Suc m) rs)"
    by (simp add: child_entries_def rs take_map take_zip)
  have "tl (drop m rs') = drop (Suc m) rs'" by (simp add: tl_drop drop_Suc)
  then show "drop (Suc m) (child_entries ks rs) = child_entries (drop (Suc m) ks) (drop (Suc m) rs)"
    by (simp add: child_entries_def rs drop_map drop_zip)
  show "child_entries ks rs ! m = build_internal_payload (ks ! m) (rs ! Suc m)"
    using assms(2) rs by (simp add: child_entries_def)
qed

lemma child_entry_cost: "small_sep k \<Longrightarrow> entry_cost (build_internal_payload k r) \<le> 1358"
  by (simp add: entry_cost_def node_consts small_sep_len small_sep_def SMALL_KEY_def)

lemma child_entries_cost:
  assumes "\<forall>k \<in> set ks. small_sep k" "e \<in> set (child_entries ks rs)"
  shows "entry_cost e \<le> 1358"
  using assms child_entry_cost by (auto simp: child_entries_def dest!: set_zip_leftD)

lemma leaf_entry_cost: "small_entry e \<Longrightarrow> entry_cost e \<le> 1358"
  by (auto simp: small_entry_def entry_cost_def node_consts SMALL_KEY_def)

lemma entry_sort_key_small: "small_entry e \<Longrightarrow> small_sep (leaf_sort_key e)"
  by (auto simp: small_entry_def small_sep_def SMALL_KEY_def)

section \<open>A new entry in its leaf\<close>

definition entry_slot :: "bytes list \<Rightarrow> bytes \<Rightarrow> nat" where
  "entry_slot es e = partition_point (\<lambda>p. leaf_sort_key p \<le> leaf_sort_key e) es"

definition with_entry :: "bytes list \<Rightarrow> bytes \<Rightarrow> bytes list" where
  "with_entry es e = take (entry_slot es e) es @ e # drop (entry_slot es e) es"

lemma with_entry_sides:
  assumes "sorted_wrt (<) (map leaf_sort_key es)" "leaf_sort_key e \<notin> leaf_sort_key ` set es"
  shows "\<forall>x \<in> set (take (entry_slot es e) es). leaf_sort_key x < leaf_sort_key e"
    "\<forall>x \<in> set (drop (entry_slot es e) es). leaf_sort_key e < leaf_sort_key x"
proof -
  have p: "partitioned (\<lambda>p. leaf_sort_key p \<le> leaf_sort_key e) es"
    using sorted_partitioned(1) [of leaf_sort_key es] assms(1) by (simp add: strict_sorted_imp_sorted)
  have "\<forall>x \<in> set (take (entry_slot es e) es). leaf_sort_key x \<le> leaf_sort_key e"
    unfolding entry_slot_def partition_point_def takeWhile_eq_take [symmetric] by (auto dest: set_takeWhileD)
  then show "\<forall>x \<in> set (take (entry_slot es e) es). leaf_sort_key x < leaf_sort_key e"
    using assms(2) by (metis imageI in_set_takeD order_le_less)
  show "\<forall>x \<in> set (drop (entry_slot es e) es). leaf_sort_key e < leaf_sort_key x"
    using after_partition_point [OF p] by (auto simp: entry_slot_def in_set_conv_nth not_le)
qed

lemma with_entry_between:
  assumes "entries_between lo hi es" "small_entry e" "at_least lo (leaf_sort_key e)" "below (leaf_sort_key e) hi"
    "leaf_sort_key e \<notin> leaf_sort_key ` set es"
  shows "entries_between lo hi (with_entry es e)"
proof -
  have srt: "sorted_wrt (<) (map leaf_sort_key es)" using assms(1) by (simp add: entries_between_def)
  note W = with_entry_sides [OF srt assms(5)]
  let ?n = "entry_slot es e"
  have "sorted_wrt (<) (map leaf_sort_key (take ?n es))" "sorted_wrt (<) (map leaf_sort_key (drop ?n es))"
    using srt by (simp_all add: take_map [symmetric] drop_map [symmetric] sorted_wrt_take sorted_wrt_drop)
  then have "sorted_wrt (<) (map leaf_sort_key (with_entry es e))"
    using W by (fastforce simp: with_entry_def sorted_wrt_append)
  then show ?thesis using assms by (auto simp: entries_between_def with_entry_def dest: in_set_takeD in_set_dropD)
qed

text \<open>Two neighbouring parts of a list are in order when the whole list is.\<close>

lemma entries_split:
  assumes "entries_between lo hi es" "0 < m" "m < length es"
  defines "k \<equiv> leaf_sort_key (es ! m)"
  shows "entries_between lo (Some k) (take m es)" "entries_between (Some k) hi (drop m es)" "exceeds lo k" "below k hi" "small_sep k"
proof -
  have srt: "sorted_wrt (<) (map leaf_sort_key es)" using assms(1) by (simp add: entries_between_def)
  have l: "leaf_sort_key x < k" if "x \<in> set (take m es)" for x
    using that sorted_wrt_nth_less [OF srt, of _ m] assms(3) by (auto simp: in_set_conv_nth k_def)
  have r: "k \<le> leaf_sort_key x" if "x \<in> set (drop m es)" for x
    using that strict_sorted_imp_sorted [OF srt] sorted_nth_mono [of "map leaf_sort_key es" m] assms(3) by (auto simp: in_set_conv_nth k_def)
  have s: "sorted_wrt (<) (map leaf_sort_key (take m es))" "sorted_wrt (<) (map leaf_sort_key (drop m es))"
    using srt by (simp_all add: take_map [symmetric] drop_map [symmetric] sorted_wrt_take sorted_wrt_drop)
  show "entries_between lo (Some k) (take m es)" "entries_between (Some k) hi (drop m es)"
    using assms(1) l r s by (auto simp: entries_between_def dest: in_set_takeD in_set_dropD)
  have e0: "es ! 0 \<in> set (take m es)" using assms(2,3) by (auto simp: in_set_conv_nth intro!: exI [of _ 0])
  then have "at_least lo (leaf_sort_key (es ! 0))" using assms(1) by (auto simp: entries_between_def dest: in_set_takeD)
  then show "exceeds lo k" using l [OF e0] bound_trans(5) by blast
  have "es ! m \<in> set es" using assms(3) by simp
  then show "below k hi" "small_sep k" using assms(1) entry_sort_key_small by (auto simp: entries_between_def k_def)
qed

section \<open>A separator in its node\<close>

lemma hole_index:
  assumes "sorted_wrt (<) (ks1 @ k # ks2)"
  shows "child_index (ks1 @ ks2) k = length ks1"
proof -
  have l: "x < k" if "x \<in> set ks1" for x using assms that by (auto simp: sorted_wrt_append)
  have r: "k < x" if "x \<in> set ks2" for x using assms that by (auto simp: sorted_wrt_append)
  show ?thesis
    unfolding child_index_def
  proof (rule partition_point_unique)
    show "(ks1 @ ks2) ! i \<le> k" if "i < length ks1" for i using l [of "ks1 ! i"] that by (simp add: nth_append)
    show "\<not> (ks1 @ ks2) ! length ks1 \<le> k" if "length ks1 < length (ks1 @ ks2)"
      using r [of "ks2 ! 0"] that by (simp add: nth_append)
  qed simp
qed

text \<open>The node of a hole on its page, under a guard, with the separator that is to go into it.\<close>

definition sep_hole ::
    "guard list \<Rightarrow> buffer_pool \<Rightarrow> guard \<Rightarrow> bytes list \<Rightarrow> bytes list \<Rightarrow> page_id list \<Rightarrow> page_id list \<Rightarrow> page_id \<Rightarrow> bytes \<Rightarrow> bool" where
  "sep_hole gs bp g ks1 ks2 rs1 rs2 l k \<longleftrightarrow> pool.held gs bp \<and> g \<in> set gs \<and>
     node_at (pool_view bp) (fst g) (ks1 @ ks2) (rs1 @ l # rs2) \<and> length rs1 = length ks1 \<and> length rs2 = length ks2 \<and>
     sorted_wrt (<) (ks1 @ k # ks2) \<and> (\<forall>x \<in> set (ks1 @ k # ks2). small_sep x)"

lemma sep_hole_page:
  assumes "sep_hole gs bp (p, f) ks1 ks2 rs1 rs2 l k"
  obtains v where "pool.held gs bp" "(p, f) \<in> set gs" "pool_view bp p = Some v"
    "node_holds v Internal (Some (hd (rs1 @ l # rs2))) (child_entries (ks1 @ ks2) (rs1 @ l # rs2))"
    "length rs1 = length ks1" "length rs2 = length ks2" "sorted_wrt (<) (ks1 @ k # ks2)" "sorted_wrt (<) (ks1 @ ks2)"
    "\<forall>x \<in> set (ks1 @ k # ks2). small_sep x" "\<forall>x \<in> set (ks1 @ ks2). small_sep x"
proof -
  have "sorted_wrt (<) (ks1 @ ks2)" using assms by (auto simp: sep_hole_def sorted_wrt_append)
  then show thesis using that assms unfolding sep_hole_def node_at_entries by auto
qed

lemma sep_fit_iff:
  assumes "sep_hole gs bp (p, f) ks1 ks2 rs1 rs2 l k"
  shows "node_will_fit (frame_data bp f) (length (build_internal_payload k r)) \<longleftrightarrow>
    node_bytes (child_entries (ks1 @ ks2) (rs1 @ l # rs2)) + entry_cost (build_internal_payload k r) \<le> 4075"
proof -
  obtain v where h: "pool.held gs bp" "(p, f) \<in> set gs" "pool_view bp p = Some v"
    and v: "node_holds v Internal (Some (hd (rs1 @ l # rs2))) (child_entries (ks1 @ ks2) (rs1 @ l # rs2))"
    using sep_hole_page [OF assms] by metis
  show ?thesis using held_reads(7) [OF h] node_holds_fit(2) [OF v] by (simp add: entry_cost_def node_consts add.assoc)
qed

lemma sep_insert_effect:
  assumes s: "sep_hole gs bp (p, f) ks1 ks2 rs1 rs2 l k"
    and fit: "node_will_fit (frame_data bp f) (length (build_internal_payload k r))" and room: "log_room (4 + j) bp"
  shows "\<exists>bp' w. node_insert (p, f) txn k (build_internal_payload k r) bp = (Inr (), bp') \<and> page_written gs p w j bp bp' \<and>
    node_holds w Internal (Some (hd (rs1 @ l # r # rs2))) (child_entries (ks1 @ k # ks2) (rs1 @ l # r # rs2))"
proof -
  let ?es = "child_entries (ks1 @ ks2) (rs1 @ l # rs2)" and ?e = "build_internal_payload k r"
  obtain v where h: "pool.held gs bp" "(p, f) \<in> set gs" and v: "pool_view bp p = Some v" "node_holds v Internal (Some (hd (rs1 @ l # rs2))) ?es"
    and len: "length rs1 = length ks1" "length rs2 = length ks2" and keys: "sorted_wrt (<) (ks1 @ k # ks2)" "sorted_wrt (<) (ks1 @ ks2)"
      "\<forall>x \<in> set (ks1 @ ks2). small_sep x"
    using sep_hole_page [OF s] by metis
  have "upper_bound v k p = Inr (length ks1)"
    using child_for_key_node(2) [of v "rs1 @ l # rs2" "ks1 @ ks2" k p] v(2) len keys hole_index [OF keys(1)] by (simp add: child_entries_def)
  then have "find_insert_index (frame_data bp f) p k = Inr (length ks1)"
    using held_reads(11) [OF h v(1)] v(2) by (simp add: find_insert_index_def node_holds_def)
  moreover have "node_bytes ?es + 4 + length ?e \<le> 4075"
    using fit sep_fit_iff [OF s, of r] by (simp add: entry_cost_def node_consts)
  then have "\<exists>bp' w. node_insert_at f p txn (length ks1) ?e bp = (Inr (), bp') \<and> page_written gs p w j bp bp' \<and>
      node_holds w Internal (Some (hd (rs1 @ l # rs2))) (take (length ks1) ?es @ ?e # drop (length ks1) ?es)"
    using node_insert_at_effect [OF h v _ _ room, of "length ks1" ?e txn] len by simp
  moreover have "hd (rs1 @ l # rs2) = hd (rs1 @ l # r # rs2)" by (cases rs1) simp_all
  ultimately show ?thesis unfolding child_entries_insert [OF len] by (simp add: node_insert_def sbind_def)
qed

lemma split_internal_eq:
  assumes "read_entries (frame_data bp (snd g)) (fst g) = Inr (Some t, old)" "es' = take i old @ payload # drop i old"
    "upper_bound_in old key = i" "m = internal_split_point es'"
  shows "split_internal g txn key payload bp = sbind (new_node txn Internal (Some (internal_child (es' ! m))) (drop (Suc m) es')) (\<lambda>right.
      sbind (node_rebuild (snd g) (fst g) txn Internal (Some t) (take m es')) (\<lambda>_. sreturn (entry_key (es' ! m), right))) bp"
  by (simp add: split_internal_def sbind_Inr Let_def assms)

lemma split_leaf_eq:
  assumes "read_entries (frame_data bp (snd g)) (fst g) = Inr (t, old)" "es' = take i old @ payload # drop i old"
    "upper_bound_in_leaf old skey = i" "m = leaf_split_point es'"
  shows "split_leaf g txn skey payload bp = sbind (new_node txn Leaf t (drop m es')) (\<lambda>right.
      sbind (node_rebuild (snd g) (fst g) txn Leaf (Some right) (take m es')) (\<lambda>_. sreturn (leaf_sort_key (es' ! m), right))) bp"
  by (simp add: split_leaf_def sbind_Inr Let_def assms)

lemma sep_split_effect:
  assumes s: "sep_hole gs bp (p, f) ks1 ks2 rs1 rs2 l k"
    and full: "\<not> node_will_fit (frame_data bp f) (length (build_internal_payload k r))" and room: "log_room (SPLIT_ROOM + j) bp"
    and few: "length gs < nframes bp" and n: "next_page bp \<noteq> - 1" and nz: "0 \<notin> set (rs1 @ l # r # rs2)"
  shows "\<exists>ka k' kb ra rb bp' wl wr. split_internal (p, f) txn k (build_internal_payload k r) bp = (Inr (k', next_page bp), bp') \<and>
    ks1 @ k # ks2 = ka @ k' # kb \<and> rs1 @ l # r # rs2 = ra @ rb \<and> length ra = Suc (length ka) \<and> ka \<noteq> [] \<and> kb \<noteq> [] \<and>
    pool.held gs bp' \<and> pool_view bp' = (pool_view bp)(next_page bp \<mapsto> wr, p \<mapsto> wl) \<and>
    node_holds wl Internal (Some (hd ra)) (child_entries ka ra) \<and> node_holds wr Internal (Some (hd rb)) (child_entries kb rb) \<and>
    nframes bp' = nframes bp \<and> next_page bp' = next_page bp + 1 \<and> log_room j bp'"
proof -
  let ?es = "child_entries (ks1 @ ks2) (rs1 @ l # rs2)" and ?e = "build_internal_payload k r"
  let ?ks = "ks1 @ k # ks2" and ?rs = "rs1 @ l # r # rs2"
  obtain v where h: "pool.held gs bp" "(p, f) \<in> set gs" and v: "pool_view bp p = Some v" "node_holds v Internal (Some (hd (rs1 @ l # rs2))) ?es"
    and len: "length rs1 = length ks1" "length rs2 = length ks2" and keys: "sorted_wrt (<) ?ks" "sorted_wrt (<) (ks1 @ ks2)"
      "\<forall>x \<in> set ?ks. small_sep x" "\<forall>x \<in> set (ks1 @ ks2). small_sep x"
    by (rule sep_hole_page [OF s])
  have K: "map entry_key ?es = ks1 @ ks2"
    unfolding child_entries_def by (rule internal_keys(1)) (use len keys(4) in auto)
  have at: "upper_bound_in ?es k = length ks1"
    using hole_index [OF keys(1)] arg_cong [OF K, of "partition_point (\<lambda>x. x \<le> k)"]
    by (simp add: upper_bound_in_def child_index_def partition_point_def takeWhile_map o_def)
  define ks rs where "ks = ks1 @ k # ks2" and "rs = rs1 @ l # r # rs2"
  define es' where "es' = child_entries ks rs"
  have ins: "es' = take (length ks1) ?es @ ?e # drop (length ks1) ?es" unfolding es'_def ks_def rs_def by (rule child_entries_insert [OF len])
  have lrs: "length rs = Suc (length ks)" using len by (simp add: ks_def rs_def)
  have les: "length es' = length ks" using lrs by (simp add: es'_def)
  have over: "4075 < node_bytes ?es + entry_cost ?e" using full sep_fit_iff [OF s, of r] by simp
  have small: "\<forall>x \<in> set (?e # ?es). entry_cost x \<le> 1358"
    using child_entry_cost [of k r] child_entries_cost [OF keys(4)] keys(3) by auto
  note O = overfull_split [OF over node_holds_fit(1) [OF v(2)] small ins]
  define m where "m = internal_split_point es'"
  have m: "m < length ks" "Suc m < length ks" "0 < m" using O(6,7) les by (simp_all add: m_def)
  note C = child_entries_split [OF lrs m(1), folded es'_def]
  have hd_rs: "hd (rs1 @ l # rs2) = hd (take (Suc m) rs)" unfolding rs_def by (cases rs1) simp_all
  have hd_drop: "hd (drop (Suc m) rs) = rs ! Suc m" using m lrs by (intro hd_drop_conv_nth) simp
  have "ks ! m \<in> set ks" using m(1) by simp
  then have "length (ks ! m) < 65536" using keys(3) small_sep_len by (metis ks_def)
  then have ch: "internal_child (es' ! m) = rs ! Suc m" "entry_key (es' ! m) = ks ! m" unfolding C(3) by simp_all
  have "rs ! Suc m \<in> set rs" "hd (take (Suc m) rs) \<in> set rs" using m lrs by (simp, cases rs, simp_all)
  then have nzs: "Some (rs ! Suc m) \<noteq> Some 0" "Some (hd (rs1 @ l # rs2)) \<noteq> Some 0" using nz unfolding hd_rs rs_def [symmetric] by auto
  have rd: "read_entries (frame_data bp f) p = Inr (Some (hd (rs1 @ l # rs2)), ?es)"
    using held_reads(8) [OF h v(1)] read_entries_wf [of v p] v(2) by (simp add: node_holds_def)
  obtain bp' wl wr where w: "sbind (new_node txn Internal (Some (rs ! Suc m)) (drop (Suc m) es')) (\<lambda>right.
      sbind (node_rebuild f p txn Internal (Some (hd (rs1 @ l # rs2))) (take m es')) (\<lambda>_. sreturn (ks ! m, right))) bp = (Inr (ks ! m, next_page bp), bp')"
    "pool.held gs bp'" "pool_view bp' = (pool_view bp)(next_page bp \<mapsto> wr, p \<mapsto> wl)"
    "node_holds wr Internal (Some (rs ! Suc m)) (drop (Suc m) es')" "node_holds wl Internal (Some (hd (rs1 @ l # rs2))) (take m es')"
    "nframes bp' = nframes bp" "next_page bp' = next_page bp + 1" "log_room j bp'"
    using split_writes [OF h v(1) few n O(8,9) [folded m_def] nzs(1) room, of "\<lambda>_. Some (hd (rs1 @ l # rs2))" txn Internal "ks ! m"] nzs(2) by blast
  have "split_internal (p, f) txn k ?e bp = (Inr (ks ! m, next_page bp), bp')"
    using split_internal_eq [of bp "(p, f)" "hd (rs1 @ l # rs2)" ?es es' "length ks1" ?e k m txn] rd ins at w(1) ch m_def by simp
  moreover have "ks = take m ks @ ks ! m # drop (Suc m) ks" by (rule id_take_nth_drop [OF m(1)])
  moreover have "rs = take (Suc m) rs @ drop (Suc m) rs" by simp
  moreover have "length (take (Suc m) rs) = Suc (length (take m ks))" using m lrs by simp
  moreover have "take m ks \<noteq> []" "drop (Suc m) ks \<noteq> []" using m by auto
  moreover have "node_holds wl Internal (Some (hd (take (Suc m) rs))) (child_entries (take m ks) (take (Suc m) rs))"
    using w(5) unfolding C(1) hd_rs .
  moreover have "node_holds wr Internal (Some (hd (drop (Suc m) rs))) (child_entries (drop (Suc m) ks) (drop (Suc m) rs))"
    using w(4) unfolding C(2) hd_drop .
  ultimately show ?thesis using w(2,3,6-8) unfolding ks_def [symmetric] rs_def [symmetric] by blast
qed

section \<open>The way up\<close>

lemma stored_pages: "stored vw t \<Longrightarrow> q \<in> set (tree_pages t) \<Longrightarrow> vw q \<noteq> None"
  by (induction t) (auto simp: node_at_def)

lemma holes_stored_pages: "holes_stored vw c ctx \<Longrightarrow> q \<in> set (hole_pages ctx) \<Longrightarrow> vw q \<noteq> None"
  by (induction vw c ctx rule: holes_stored.induct) (auto simp: node_at_def dest: stored_pages)

lemma tree_root_plug: "tree_root (plug t ctx) = (if ctx = [] then tree_root t else hole_page (last ctx))"
  by (induction t ctx rule: plug.induct) auto

lemma will_fit_mono: "node_will_fit v n \<Longrightarrow> m \<le> n \<Longrightarrow> node_will_fit v m"
  by (simp add: node_will_fit_def)

lemma sep_payload_len: "small_sep k \<Longrightarrow> length (build_internal_payload k r) \<le> MAX_INTERNAL_PUSH_UP_SIZE"
  by (simp add: small_sep_len small_sep_def SMALL_KEY_def MAX_INTERNAL_PUSH_UP_SIZE_def MAX_KEY_SIZE_def node_consts PAGE_SIZE_def)

lemma map_eq_append: "map g xs = ys @ zs \<Longrightarrow> \<exists>us vs. xs = us @ vs \<and> map g us = ys \<and> map g vs = zs"
  by (metis map_eq_append_conv)

lemma hole_sep:
  assumes "holes_ok (Hole p ks1 cs1 ks2 cs2 # ctx)" "small_sep k" "exceeds (hole_low (Hole p ks1 cs1 ks2 cs2 # ctx)) k"
    "below k (hole_high (Hole p ks1 cs1 ks2 cs2 # ctx))"
    "holes_stored (pool_view bp) c (Hole p ks1 cs1 ks2 cs2 # ctx)" "pool.held gs bp" "(p, f) \<in> set gs"
  shows "sep_hole gs bp (p, f) ks1 ks2 (map tree_root cs1) (map tree_root cs2) c k"
proof -
  have "sorted_wrt (<) (ks1 @ k # ks2)" by (rule hole_key [of ks1 ks2 "hole_low ctx" "hole_high ctx" k]) (use assms in auto)
  then show ?thesis using assms by (auto simp: sep_hole_def)
qed

lemma max_page: "unat x + 1 < 2 ^ 32 \<Longrightarrow> x \<noteq> (- 1 :: page_id)"
  by (auto simp: unsigned_minus_1_eq_mask mask_eq_exp_minus_1)

definition cascaded ::
    "buffer_pool \<Rightarrow> hole list \<Rightarrow> btree \<Rightarrow> bytes \<Rightarrow> btree \<Rightarrow> nat \<Rightarrow> (storage_error + page_id) \<times> buffer_pool \<Rightarrow> bool" where
  "cascaded bp ctx l k r j res \<longleftrightarrow> (\<exists>t' ns bp'. res = (Inr (tree_root t'), bp') \<and> pool.held [] bp' \<and> grows ctx l k r ns t' \<and>
     stored (pool_view bp') t' \<and> (\<forall>q \<in> set ns. \<not> q < next_page bp \<and> q \<noteq> 0) \<and> distinct ns \<and>
     (\<forall>q. q \<notin> set (hole_pages ctx) \<longrightarrow> q < next_page bp \<longrightarrow> pool_view bp' q = pool_view bp q) \<and>
     nframes bp' = nframes bp \<and> unat (next_page bp') = unat (next_page bp) + length ns \<and> log_room j bp')"

lemma cascadedI:
  "res = (Inr (tree_root t'), bp') \<Longrightarrow> pool.held [] bp' \<Longrightarrow> grows ctx l k r ns t' \<Longrightarrow> stored (pool_view bp') t' \<Longrightarrow>
   (\<And>q. q \<in> set ns \<Longrightarrow> \<not> q < next_page bp \<and> q \<noteq> 0) \<Longrightarrow> distinct ns \<Longrightarrow>
   (\<And>q. q \<notin> set (hole_pages ctx) \<Longrightarrow> q < next_page bp \<Longrightarrow> pool_view bp' q = pool_view bp q) \<Longrightarrow>
   nframes bp' = nframes bp \<Longrightarrow> unat (next_page bp') = unat (next_page bp) + length ns \<Longrightarrow> log_room j bp' \<Longrightarrow>
   cascaded bp ctx l k r j res"
  unfolding cascaded_def by blast

lemma insert_up_root:
  assumes l: "stored (pool_view bp) l" and r: "stored (pool_view bp) r" and k: "small_sep k"
    and h: "pool.held [(tree_root l, f)] bp" and nz: "tree_root l \<noteq> 0"
    and few: "1 < nframes bp" and room: "log_room (SPLIT_ROOM + j) bp" and n: "next_page bp \<noteq> - 1"
  shows "cascaded bp [] l k r j (insert_up txn root [] (tree_root l, f) (k, tree_root r) bp)"
proof -
  let ?q = "next_page bp" and ?es = "[build_internal_payload k (tree_root r)]"
  have room': "log_room (Suc (REBUILD_ROOM + j)) bp" by (rule log_room_mono [OF room]) (simp add: SPLIT_ROOM_def)
  have fit: "node_bytes ?es \<le> 4075" using child_entry_cost [OF k, of "tree_root r"] by simp
  obtain bp1 w where w: "new_node txn Internal (Some (tree_root l)) ?es bp = (Inr ?q, bp1)" "pool.held [(tree_root l, f)] bp1"
    "pool_view bp1 = (pool_view bp)(?q \<mapsto> w)" "node_holds w Internal (Some (tree_root l)) ?es" "nframes bp1 = nframes bp" "log_room j bp1" "next_page bp1 = ?q + 1"
    using new_node_effect [OF h _ n fit _ room', of "Some (tree_root l)" txn Internal] few nz by auto
  note U = pool.held_unpin [of "[]" "tree_root l" f "[]" bp1, simplified, OF w(2)]
  note S = same_pagesD [OF U(2)]
  let ?bp' = "unpin_frame f bp1" and ?t = "NodeAt ?q [k] [l, r]"
  have old: "q < ?q" if "pool_view bp q \<noteq> None" for q using held_next_page(1) [OF h] that by blast
  have "stored (pool_view ?bp') c" if "stored (pool_view bp) c" for c
    using that stored_cong [of c "pool_view ?bp'" "pool_view bp"] stored_pages [OF that] old w(3) S(1) by force
  then have "stored (pool_view ?bp') ?t" using l r w(3,4) S(1) by (simp add: node_at_def)
  moreover have "insert_up txn root [] (tree_root l, f) (k, tree_root r) bp = (Inr (tree_root ?t), ?bp')" using w(1) by simp
  moreover have "grows [] l k r [?q] ?t" by (rule grows.root)
  moreover have "?q \<noteq> 0" using stored_pages [OF l, of "tree_root l"] old by force
  ultimately show ?thesis
    unfolding cascaded_def using U(1) w(3,5-7) S unat_plus_1 [OF n] by (intro exI [of _ ?t] exI [of _ "[?q]"] exI [of _ ?bp']) auto
qed

lemma insert_up_fits:
  assumes ok: "holes_ok (Hole p ks1 cs1 ks2 cs2 # ctx)" and sh: "sep_hole ((tree_root l, f) # (p, pf) # gs) bp (p, pf) ks1 ks2 (map tree_root cs1) (map tree_root cs2) (tree_root l) k"
    and st: "stored (pool_view bp) l" "stored (pool_view bp) r" "holes_stored (pool_view bp) (tree_root l) (Hole p ks1 cs1 ks2 cs2 # ctx)"
    and dist: "distinct (tree_pages l @ tree_pages r @ hole_pages (Hole p ks1 cs1 ks2 cs2 # ctx))"
    and fit: "node_will_fit (frame_data bp pf) (length (build_internal_payload k (tree_root r)))" and room: "log_room (SPLIT_ROOM + j) bp"
    and root: "root = tree_root (plug l (Hole p ks1 cs1 ks2 cs2 # ctx))"
  shows "cascaded bp (Hole p ks1 cs1 ks2 cs2 # ctx) l k r j (insert_up txn root ((p, pf) # gs) (tree_root l, f) (k, tree_root r) bp)"
proof -
  let ?gs = "(tree_root l, f) # (p, pf) # gs"
  have room': "log_room (4 + j) bp" by (rule log_room_mono [OF room]) (simp add: SPLIT_ROOM_def REBUILD_ROOM_def)
  obtain bp1 w where w: "node_insert (p, pf) txn k (build_internal_payload k (tree_root r)) bp = (Inr (), bp1)" "page_written ?gs p w j bp bp1"
    "node_holds w Internal (Some (hd (map tree_root cs1 @ tree_root l # tree_root r # map tree_root cs2)))
       (child_entries (ks1 @ k # ks2) (map tree_root cs1 @ tree_root l # tree_root r # map tree_root cs2))"
    using sep_insert_effect [OF sh fit room', of txn] by blast
  let ?bp' = "drop_guards ?gs bp1" and ?n = "NodeAt p (ks1 @ k # ks2) (cs1 @ l # r # cs2)"
  have D: "pool.held [] ?bp'" "pool.same_pages bp1 ?bp'"
    using held_drop [of "[]" ?gs "[]" bp1] page_written_held [OF w(2)] by auto
  note S = same_pagesD [OF D(2)]
  have vw: "pool_view ?bp' = (pool_view bp)(p \<mapsto> w)" using S(1) w(2) by (simp add: page_written_def)
  have "stored (pool_view ?bp') c" if "c \<in> {l, r} \<union> set cs1 \<union> set cs2" for c
    using stored_cong [of c "pool_view ?bp'" "pool_view bp"] that st dist vw by auto
  then have "stored (pool_view ?bp') ?n" using w(3) vw by (auto simp: node_at_entries)
  moreover have "holes_stored (pool_view ?bp') p ctx"
    using holes_stored_cong [of ctx "pool_view ?bp'" "pool_view bp" p] st(3) dist vw by auto
  ultimately have "stored (pool_view ?bp') (plug ?n ctx)" by (simp add: stored_plug)
  moreover have "insert_up txn root ((p, pf) # gs) (tree_root l, f) (k, tree_root r) bp = (Inr (tree_root (plug ?n ctx)), ?bp')"
    using fit w(1) root by (simp add: Let_def tree_root_plug)
  moreover have "grows (Hole p ks1 cs1 ks2 cs2 # ctx) l k r [] (plug ?n ctx)" by (rule grows.fits)
  moreover have "nframes ?bp' = nframes bp" "next_page ?bp' = next_page bp" "log_room j ?bp'" using S(2-4) w(2) unfolding page_written_def by auto
  moreover have "pool_view ?bp' q = pool_view bp q" if "q \<notin> set (hole_pages (Hole p ks1 cs1 ks2 cs2 # ctx))" for q
    using that vw by auto
  ultimately show ?thesis using D(1) by (intro cascadedI [where ns = "[]"]) (assumption | simp)+
qed

theorem insert_up_grows:
  assumes "retained (pool_view bp) ctx gs" "holes_ok ctx" "small_sep k" "exceeds (hole_low ctx) k" "below k (hole_high ctx)"
    "stored (pool_view bp) l" "stored (pool_view bp) r" "holes_stored (pool_view bp) (tree_root l) ctx"
    "distinct (tree_pages l @ tree_pages r @ hole_pages ctx)" "0 \<notin> set (tree_pages l @ tree_pages r @ hole_pages ctx)"
    "pool.held ((tree_root l, f) # gs) bp" "Suc (length gs) < nframes bp" "log_room (Suc (length gs) * SPLIT_ROOM + j) bp"
    "unat (next_page bp) + length gs + 1 < 2 ^ 32" "root = tree_root (plug l ctx)"
  shows "cascaded bp ctx l k r j (insert_up txn root gs (tree_root l, f) (k, tree_root r) bp)"
  using assms
proof (induction gs arbitrary: bp ctx l k r f)
  case Nil
  have "ctx = []" using Nil.prems(1) by (simp add: retained_def)
  moreover have "next_page bp \<noteq> - 1" using Nil.prems(14) by (intro max_page) simp
  moreover have "tree_root l \<noteq> 0" using Nil.prems(10) tree_root_in_pages [of l] by (metis UnCI set_append)
  ultimately show ?case using Nil.prems insert_up_root [of bp l r k f j txn root] by simp
next
  case (Cons g gs)
  obtain h ctx0 where ctx0: "ctx = h # ctx0" using Cons.prems(1) by (cases ctx) (auto simp: retained_def)
  obtain p ks1 cs1 ks2 cs2 where h: "h = Hole p ks1 cs1 ks2 cs2" by (cases h)
  note ctx = ctx0 [unfolded h]
  obtain pf where g: "g = (p, pf)" using Cons.prems(1) ctx by (cases g) (auto simp: retained_def)
  let ?gs = "(tree_root l, f) # (p, pf) # gs" and ?e = "build_internal_payload k (tree_root r)"
  have held: "pool.held ?gs bp" using Cons.prems(11) g by simp
  have sh: "sep_hole ?gs bp (p, pf) ks1 ks2 (map tree_root cs1) (map tree_root cs2) (tree_root l) k"
    by (rule hole_sep [of p ks1 cs1 ks2 cs2 ctx0]) (use Cons.prems(2-5,8) held ctx in auto)
  have room: "log_room (SPLIT_ROOM + (Suc (length gs) * SPLIT_ROOM + j)) bp" using Cons.prems(13) by (simp add: add.assoc)
  show ?case
  proof (cases "node_will_fit (frame_data bp pf) (length ?e)")
    case True
    have "log_room (SPLIT_ROOM + j) bp" by (rule log_room_mono [OF room]) simp
    then show ?thesis
      unfolding ctx g using insert_up_fits [of p ks1 cs1 ks2 cs2 ctx0 l f pf gs bp k r j root txn] Cons.prems(2,6-9,15) sh True unfolding ctx by simp
  next
    case False
    have n: "next_page bp \<noteq> - 1" using Cons.prems(14) by (intro max_page) simp
    have rts: "tree_root c \<noteq> 0" if "c \<in> {l, r} \<union> set cs1 \<union> set cs2" for c
    proof -
      have "0 \<notin> set (tree_pages c)" using Cons.prems(10) that ctx by auto
      then show ?thesis by (metis tree_root_in_pages)
    qed
    have nz: "0 \<notin> set (map tree_root cs1 @ tree_root l # tree_root r # map tree_root cs2)" using rts by force
    obtain ka k' kb ra rb bp1 wl wr where S: "split_internal (p, pf) txn k ?e bp = (Inr (k', next_page bp), bp1)"
      "ks1 @ k # ks2 = ka @ k' # kb" "map tree_root cs1 @ tree_root l # tree_root r # map tree_root cs2 = ra @ rb"
      "length ra = Suc (length ka)" "ka \<noteq> []" "kb \<noteq> []" "pool.held ?gs bp1" "pool_view bp1 = (pool_view bp)(next_page bp \<mapsto> wr, p \<mapsto> wl)"
      "node_holds wl Internal (Some (hd ra)) (child_entries ka ra)" "node_holds wr Internal (Some (hd rb)) (child_entries kb rb)"
      "nframes bp1 = nframes bp" "next_page bp1 = next_page bp + 1" "log_room (Suc (length gs) * SPLIT_ROOM + j) bp1"
      using sep_split_effect [OF sh False room _ n nz, of txn] Cons.prems(12) g by auto
    have "map tree_root (cs1 @ l # r # cs2) = ra @ rb" using S(3) by simp
    then obtain ca cb where C: "cs1 @ l # r # cs2 = ca @ cb" "map tree_root ca = ra" "map tree_root cb = rb" using map_eq_append by metis
    let ?q = "next_page bp" and ?l = "NodeAt p ka ca" and ?r = "NodeAt (next_page bp) kb cb" and ?bp2 = "unpin_frame f bp1"
    note U = pool.held_unpin [of "[]" "tree_root l" f "(p, pf) # gs" bp1, simplified, OF S(7)]
    note P = same_pagesD [OF U(2)]
    have vw: "pool_view ?bp2 = (pool_view bp)(?q \<mapsto> wr, p \<mapsto> wl)" using P(1) S(8) by simp
    have pgs: "mset (tree_pages ?l @ tree_pages ?r @ hole_pages ctx0) = mset (?q # tree_pages l @ tree_pages r @ hole_pages ctx)"
    proof -
      have "mset (concat (map tree_pages ca)) + mset (concat (map tree_pages cb)) = mset (concat (map tree_pages (cs1 @ l # r # cs2)))"
        unfolding C(1) by simp
      then show ?thesis by (simp add: ctx ac_simps)
    qed
    have fresh: "q < ?q" if "q \<in> set (tree_pages l @ tree_pages r @ hole_pages ctx)" for q
    proof -
      have "pool_view bp q \<noteq> None"
        using that stored_pages [OF Cons.prems(6)] stored_pages [OF Cons.prems(7)] holes_stored_pages [OF Cons.prems(8)] by auto
      then show ?thesis using held_next_page(1) [OF held] by blast
    qed
    have dist: "distinct (tree_pages ?l @ tree_pages ?r @ hole_pages ctx0)"
      unfolding mset_eq_imp_distinct_iff [OF pgs] using Cons.prems(9) fresh by force
    have qz: "?q \<noteq> 0" using fresh [of "tree_root l"] by auto
    have set_pgs: "set (tree_pages ?l @ tree_pages ?r @ hole_pages ctx0) = insert ?q (set (tree_pages l @ tree_pages r @ hole_pages ctx))"
      using mset_eq_setD [OF pgs] by simp
    have keep: "pool_view ?bp2 q = pool_view bp q" if "q \<noteq> p" "q < ?q" for q using that vw by auto
    have stc: "stored (pool_view ?bp2) c" if "c \<in> set ca \<union> set cb" for c
    proof -
      have c: "c \<in> {l, r} \<union> set cs1 \<union> set cs2" using that arg_cong [OF C(1), of set] by auto
      then have "stored (pool_view bp) c" using Cons.prems(6-8) ctx by auto
      moreover have "q \<noteq> p \<and> q < ?q" if "q \<in> set (tree_pages c)" for q
        using that c Cons.prems(9) fresh [of q] ctx by auto
      ultimately show ?thesis using stored_cong [of c "pool_view ?bp2" "pool_view bp"] keep by blast
    qed
    have "p \<noteq> ?q" using fresh [of p] ctx by auto
    then have st: "stored (pool_view ?bp2) ?l" "stored (pool_view ?bp2) ?r"
      using stc S(9,10) C(2,3) vw by (simp_all add: node_at_entries)
    have p_ctx0: "q \<noteq> p \<and> q < ?q" if "q \<in> set (hole_pages ctx0)" for q using that Cons.prems(9) fresh [of q] ctx by auto
    have hs: "holes_stored (pool_view ?bp2) (tree_root ?l) ctx0"
      using holes_stored_cong [of ctx0 "pool_view ?bp2" "pool_view bp" p] Cons.prems(8) p_ctx0 keep ctx by auto
    have kin: "k' \<in> set (ks1 @ k # ks2)" unfolding S(2) by simp
    have kk: "small_sep k'" "exceeds (hole_low ctx0) k'" "below k' (hole_high ctx0)"
      using kin Cons.prems(2-5) hole_key(2,3) [of ks1 ks2 "hole_low ctx0" "hole_high ctx0" k] ctx by auto
    have ret: "retained (pool_view ?bp2) ctx0 gs"
    proof (rule retained_pop [of "pool_view bp" "Hole p ks1 cs1 ks2 cs2" ctx0 "(p, pf)" gs])
      show "retained (pool_view bp) (Hole p ks1 cs1 ks2 cs2 # ctx0) ((p, pf) # gs)" using Cons.prems(1) ctx g by simp
      obtain v where v: "pool_view bp p = Some v" using Cons.prems(8) ctx by (auto simp: node_at_def)
      have "\<not> node_will_fit v MAX_INTERNAL_PUSH_UP_SIZE"
        using False will_fit_mono [OF _ sep_payload_len [OF Cons.prems(3), of "tree_root r"]] held_reads(7) [OF held _ v, of pf] by auto
      then show "\<not> safe_hole (pool_view bp) (Hole p ks1 cs1 ks2 cs2)" using v by (simp add: safe_hole_def)
      show "pool_view ?bp2 q = pool_view bp q" if "q \<in> set (hole_pages ctx0)" for q using p_ctx0 [OF that] keep by blast
    qed
    have nn: "unat (?q + 1) = Suc (unat ?q)" using unat_plus_1 [OF n] by simp
    have "cascaded ?bp2 ctx0 ?l k' ?r j (insert_up txn root gs (tree_root ?l, pf) (k', tree_root ?r) ?bp2)"
    proof (rule Cons.IH [OF ret _ kk st hs dist])
      show "holes_ok ctx0" using Cons.prems(2) ctx by simp
      show "0 \<notin> set (tree_pages ?l @ tree_pages ?r @ hole_pages ctx0)" unfolding set_pgs using Cons.prems(10) qz by auto
      show "pool.held ((tree_root ?l, pf) # gs) ?bp2" using U(1) by simp
      show "Suc (length gs) < nframes ?bp2" using Cons.prems(12) P(2) S(11) by simp
      show "log_room (Suc (length gs) * SPLIT_ROOM + j) ?bp2" using P(4) S(13) by blast
      show "unat (next_page ?bp2) + length gs + 1 < 2 ^ 32" using Cons.prems(14) P(3) S(12) nn by simp
      show "root = tree_root (plug ?l ctx0)" using Cons.prems(15) ctx by (simp add: tree_root_plug)
    qed
    then obtain t' ns bp' where R: "insert_up txn root gs (p, pf) (k', ?q) ?bp2 = (Inr (tree_root t'), bp')" "pool.held [] bp'"
      "grows ctx0 ?l k' ?r ns t'" "stored (pool_view bp') t'" "\<And>q. q \<in> set ns \<Longrightarrow> \<not> q < next_page ?bp2 \<and> q \<noteq> 0" "distinct ns"
      "\<And>q. q \<notin> set (hole_pages ctx0) \<Longrightarrow> q < next_page ?bp2 \<Longrightarrow> pool_view bp' q = pool_view ?bp2 q"
      "nframes bp' = nframes ?bp2" "log_room j bp'" "unat (next_page bp') = unat (next_page ?bp2) + length ns"
      unfolding cascaded_def by auto
    have lt: "?q < ?q + 1" "q < ?q \<Longrightarrow> q < ?q + 1" for q using nn by (auto simp: word_less_nat_alt)
    have len: "length ca = Suc (length ka)" using S(4) C(2) by auto
    show ?thesis
    proof (rule cascadedI [where ns = "?q # ns" and t' = t' and bp' = bp'])
      show "insert_up txn root (g # gs) (tree_root l, f) (k, tree_root r) bp = (Inr (tree_root t'), bp')"
        using False S(1) R(1) g by (simp add: Let_def)
      show "grows ctx l k r (?q # ns) t'" unfolding ctx by (rule grows.split [OF S(2) C(1) len S(5,6) R(3)])
      show "\<not> q < ?q \<and> q \<noteq> 0" if "q \<in> set (?q # ns)" for q using that R(5) [of q] qz lt(2) P(3) S(12) by auto
      show "distinct (?q # ns)" using R(5) [of ?q] R(6) lt(1) P(3) S(12) by auto
      show "pool_view bp' q = pool_view bp q" if "q \<notin> set (hole_pages ctx)" "q < ?q" for q
        using that R(7) [of q] keep [of q] lt(2) P(3) S(12) ctx by auto
      show "nframes bp' = nframes bp" using R(8) P(2) S(11) by simp
      show "unat (next_page bp') = unat ?q + length (?q # ns)" using R(10) P(3) S(12) nn by simp
    qed (use R in auto)
  qed
qed

section \<open>The whole insertion\<close>

lemma left_of_hole:
  "holes_ok ctx \<Longrightarrow> at_least (hole_low ctx) skey \<Longrightarrow> e \<in> set (leaf_entries (leaves_left ctx)) \<Longrightarrow> leaf_sort_key e < skey"
proof (induction ctx rule: leaves_left.induct)
  case (2 p ks1 cs1 ks2 cs2 ctx)
  have ks: "k \<le> skey" if "k \<in> set ks1" for k
  proof -
    have "k \<le> last ks1" using that 2(2) by (cases ks1 rule: rev_cases) (auto simp: sorted_wrt_append intro: less_imp_le)
    also have "last ks1 \<le> skey" using that 2(3) by (auto simp: last_key_def split: if_splits)
    finally show ?thesis .
  qed
  have up: "at_least (hole_low ctx) skey"
  proof (cases ks1)
    case (Cons k ks)
    then have "exceeds (hole_low ctx) k" using 2(2) by simp
    then show ?thesis using bound_trans(3,4) ks [of k] Cons by (metis list.set_intros(1))
  qed (use 2(3) in \<open>simp add: last_key_def\<close>)
  have "leaf_sort_key e < skey" if "e \<in> set (concat (map tree_entries cs1))"
    by (rule lefts_below [of "hole_low ctx" ks1 cs1]) (use 2(2) ks that in auto)
  then show ?case using 2(1) [OF _ up] 2(2,4) by (auto simp: leaf_entries_concat)
qed simp

lemma right_of_hole:
  "holes_ok ctx \<Longrightarrow> below skey (hole_high ctx) \<Longrightarrow> e \<in> set (leaf_entries (leaves_right ctx)) \<Longrightarrow> skey < leaf_sort_key e"
proof (induction ctx rule: leaves_right.induct)
  case (2 p ks1 cs1 ks2 cs2 ctx)
  have ks: "skey < k" if "k \<in> set ks2" for k
    using that 2(2,3) by (cases ks2) (auto simp: next_key_def sorted_wrt_append)
  have up: "below skey (hole_high ctx)"
  proof (cases ks2)
    case (Cons k ks)
    then have "below k (hole_high ctx)" using 2(2) by simp
    then show ?thesis using bound_trans(2) ks [of k] Cons by (metis list.set_intros(1) less_imp_le)
  qed (use 2(3) in \<open>simp add: next_key_def\<close>)
  have "skey < leaf_sort_key e" if "e \<in> set (concat (map tree_entries cs2))"
    by (rule rights_above [of ks2 "hole_high ctx" cs2]) (use 2(2) ks that in auto)
  then show ?case using 2(1) [OF _ up] 2(2,4) by (auto simp: leaf_entries_concat)
qed simp

lemma with_entry_append:
  assumes "\<forall>x \<in> set xs. leaf_sort_key x < leaf_sort_key e" "\<forall>x \<in> set zs. leaf_sort_key e < leaf_sort_key x"
  shows "with_entry (xs @ ys @ zs) e = xs @ with_entry ys e @ zs"
proof -
  let ?P = "\<lambda>p. leaf_sort_key p \<le> leaf_sort_key e"
  have "takeWhile ?P zs = []" using assms(2) by (cases zs) auto
  then have "takeWhile ?P (ys @ zs) = takeWhile ?P ys" by (induction ys) auto
  moreover have "takeWhile ?P (xs @ ys @ zs) = xs @ takeWhile ?P (ys @ zs)"
    by (rule takeWhile_append2) (use assms(1) in \<open>auto intro: less_imp_le\<close>)
  ultimately have "takeWhile ?P (xs @ ys @ zs) = xs @ takeWhile ?P ys" by simp
  then have "entry_slot (xs @ ys @ zs) e = length xs + entry_slot ys e" by (simp add: entry_slot_def partition_point_def)
  moreover have "entry_slot ys e \<le> length ys" by (simp add: entry_slot_def partition_point_le)
  ultimately show ?thesis by (simp add: with_entry_def)
qed

text \<open>The leaf a descent ended at, seen from the whole tree.\<close>

lemma leaf_reached_tree:
  assumes "leaf_reached vw skey len t ctx p es nxt gs" "index_tree vw t" "uniform h t" "length ctx = h"
  shows "stored vw (LeafAt p es nxt)" "holes_stored vw p ctx" "holes_uniform 0 ctx"
    "distinct (p # hole_pages ctx)" "0 \<notin> set (p # hole_pages ctx)" "set (tree_pages t) = set (p # hole_pages ctx)"
    "chained (leaves_left ctx @ (p, es, nxt) # leaves_right ctx)"
    "tree_entries t = leaf_entries (leaves_left ctx) @ es @ leaf_entries (leaves_right ctx)"
    "entries_between (hole_low ctx) (hole_high ctx) es" "tree_root t = tree_root (plug (LeafAt p es nxt) ctx)"
proof -
  have t: "t = plug (LeafAt p es nxt) ctx" using assms(1) by (simp add: leaf_reached_def)
  show "stored vw (LeafAt p es nxt)" "holes_stored vw p ctx" using assms(2) by (simp_all add: index_tree_def t stored_plug)
  show "holes_uniform 0 ctx" using assms(3,4) uniform_plug [of 0 ctx "LeafAt p es nxt"] by (simp add: t)
  have m: "mset (tree_pages t) = mset (p # hole_pages ctx)" by (simp add: t pages_plug)
  show "distinct (p # hole_pages ctx)" using assms(2) mset_eq_imp_distinct_iff [OF m] by (simp add: index_tree_def)
  show s: "set (tree_pages t) = set (p # hole_pages ctx)" by (rule mset_eq_setD [OF m])
  show "0 \<notin> set (p # hole_pages ctx)" using assms(2) unfolding index_tree_def s by simp
  show "chained (leaves_left ctx @ (p, es, nxt) # leaves_right ctx)" using assms(2) by (simp add: index_tree_def t leaves_plug)
  show "tree_entries t = leaf_entries (leaves_left ctx) @ es @ leaf_entries (leaves_right ctx)"
    by (simp add: t tree_entries_leaves leaves_plug)
  show "entries_between (hole_low ctx) (hole_high ctx) es" using assms(1) by (simp add: leaf_reached_def entries_between_def)
  show "tree_root t = tree_root (plug (LeafAt p es nxt) ctx)" by (simp add: t)
qed

definition inserted :: "nat \<Rightarrow> buffer_pool \<Rightarrow> btree \<Rightarrow> bytes \<Rightarrow> nat \<Rightarrow> (storage_error + page_id) \<times> buffer_pool \<Rightarrow> bool" where
  "inserted h bp t e j res \<longleftrightarrow> (\<exists>t' bp'. res = (Inr (tree_root t'), bp') \<and> index_tree (pool_view bp') t' \<and>
     tree_entries t' = with_entry (tree_entries t) e \<and> pool_quiet bp' \<and> nframes bp' = nframes bp \<and> log_room j bp' \<and>
     (\<exists>h' \<le> Suc h. uniform h' t') \<and> unat (next_page bp') \<le> unat (next_page bp) + h + 2 \<and>
     (\<forall>q. q \<notin> set (tree_pages t) \<longrightarrow> q < next_page bp \<longrightarrow> pool_view bp' q = pool_view bp q))"

lemma insertedI:
  "res = (Inr (tree_root t'), bp') \<Longrightarrow> index_tree (pool_view bp') t' \<Longrightarrow> tree_entries t' = with_entry (tree_entries t) e \<Longrightarrow>
   pool_quiet bp' \<Longrightarrow> nframes bp' = nframes bp \<Longrightarrow> log_room j bp' \<Longrightarrow> h' \<le> Suc h \<Longrightarrow> uniform h' t' \<Longrightarrow>
   unat (next_page bp') \<le> unat (next_page bp) + h + 2 \<Longrightarrow>
   (\<And>q. q \<notin> set (tree_pages t) \<Longrightarrow> q < next_page bp \<Longrightarrow> pool_view bp' q = pool_view bp q) \<Longrightarrow> inserted h bp t e j res"
  unfolding inserted_def by blast

lemma insert_in_leaf:
  assumes r: "leaf_reached (pool_view bp) (leaf_sort_key e) (length e) t ctx p es nxt []" and i: "index_tree (pool_view bp) t" "uniform h t" "length ctx = h"
    and held: "pool.held [(p, f)] bp" and fit: "node_bytes es + 4 + length e \<le> 4075" and e: "small_entry e" "leaf_sort_key e \<notin> leaf_sort_key ` set (tree_entries t)"
    and room: "log_room (SPLIT_ROOM + j) bp" and few: "0 < nframes bp"
  shows "\<exists>bp1. node_insert (p, f) txn (leaf_sort_key e) e bp = (Inr (), bp1) \<and> inserted h bp t e j (Inr (tree_root t), unpin_frame f bp1)"
proof -
  note T = leaf_reached_tree [OF r i]
  have R: "holes_ok ctx" "at_least (hole_low ctx) (leaf_sort_key e)" "below (leaf_sort_key e) (hole_high ctx)" using r by (auto simp: leaf_reached_def)
  obtain v where v: "pool_view bp p = Some v" "node_holds v Leaf nxt es" using T(1) by auto
  have ne: "leaf_sort_key e \<notin> leaf_sort_key ` set es" using e(2) by (auto simp: T(8))
  let ?es = "with_entry es e" and ?t = "plug (LeafAt p (with_entry es e) nxt) ctx"
  have srt: "sorted (map leaf_sort_key es)" using T(9) by (simp add: entries_between_def strict_sorted_imp_sorted)
  have wf: "node_wf v" "node_entries v = es" "node_type_of v = Leaf" using v(2) by (simp_all add: node_holds_def)
  have "find_insert_index v p (leaf_sort_key e) = Inr (entry_slot es e)"
    using node_searches_wf(2) [OF wf(1), of "leaf_sort_key e" p] wf srt by (simp add: find_insert_index_def entry_slot_def)
  then have idx: "find_insert_index (frame_data bp f) p (leaf_sort_key e) = Inr (entry_slot es e)" using held_reads(11) [OF held _ v(1)] by simp
  have room': "log_room (4 + j) bp" by (rule log_room_mono [OF room]) (simp add: SPLIT_ROOM_def REBUILD_ROOM_def)
  have "entry_slot es e \<le> length es" by (simp add: entry_slot_def partition_point_le)
  then obtain bp2 w where w: "node_insert_at f p txn (entry_slot es e) e bp = (Inr (), bp2)" "page_written [(p, f)] p w j bp bp2" "node_holds w Leaf nxt ?es"
    using node_insert_at_effect [OF held _ v _ fit room', of f "entry_slot es e" txn] by (auto simp: with_entry_def)
  have res: "node_insert (p, f) txn (leaf_sort_key e) e bp = (Inr (), bp2)" using idx w(1) by (simp add: node_insert_def sbind_def)
  note U = pool.held_unpin [of "[]" p f "[]" bp2, simplified, OF page_written_held [OF w(2)]]
  note P = same_pagesD [OF U(2)]
  let ?bp' = "unpin_frame f bp2"
  have vw: "pool_view ?bp' = (pool_view bp)(p \<mapsto> w)" using P(1) w(2) by (simp add: page_written_def)
  have "holes_stored (pool_view ?bp') p ctx" using holes_stored_cong [of ctx "pool_view ?bp'" "pool_view bp" p] T(2,4) vw by auto
  then have st: "stored (pool_view ?bp') ?t" using w(3) vw by (simp add: stored_plug)
  have "entries_between (hole_low ctx) (hole_high ctx) ?es" by (rule with_entry_between [OF T(9) e(1) R(2,3) ne])
  then have o: "ordered None None ?t" by (intro ordered_plug [OF R(1)]) (simp add: entries_between_def)
  have c: "chained (leaves ?t)" using chained_update [OF T(7)] by (simp add: leaves_plug)
  have m: "mset (tree_pages ?t) = mset (p # hole_pages ctx)" by (simp add: pages_plug)
  have un: "uniform (0 + length ctx) ?t" using T(3) by (subst uniform_plug) simp
  then have it: "index_tree (pool_view ?bp') ?t"
    using st o c T(4,5) mset_eq_imp_distinct_iff [OF m] mset_eq_setD [OF m] unfolding index_tree_def by auto
  have "inserted h bp t e j (Inr (tree_root t), ?bp')"
  proof (rule insertedI [OF _ it])
    show "(Inr (tree_root t), ?bp') = (Inr (tree_root ?t), ?bp')" by (simp add: T(10) tree_root_plug)
    show "tree_entries ?t = with_entry (tree_entries t) e"
      unfolding T(8) using with_entry_append [of "leaf_entries (leaves_left ctx)" e "leaf_entries (leaves_right ctx)" es]
        left_of_hole [OF R(1,2)] right_of_hole [OF R(1,3)] by (simp add: tree_entries_leaves leaves_plug)
    show "pool_quiet ?bp'" "nframes ?bp' = nframes bp" "log_room j ?bp'" "unat (next_page ?bp') \<le> unat (next_page bp) + h + 2"
      using U(1) P(2-4) w(2) few unfolding pool_quiet_held page_written_def by auto
    show "uniform h ?t" "h \<le> Suc h" using un i(3) by simp_all
    show "pool_view ?bp' q = pool_view bp q" if "q \<notin> set (tree_pages t)" for q using that T(6) vw by auto
  qed
  then show ?thesis using res by blast
qed

lemma tail_not_zero: "node_holds v kind nxt es \<Longrightarrow> nxt \<noteq> Some 0"
  by (auto simp: node_holds_def tail_raw_def Let_def split: if_splits)

lemma insert_by_split:
  assumes r: "leaf_reached (pool_view bp) (leaf_sort_key e) (length e) t ctx p es nxt gs" and i: "index_tree (pool_view bp) t" "uniform h t" "length ctx = h"
    and held: "pool.held ((p, f) # gs) bp" and full: "\<not> node_bytes es + 4 + length e \<le> 4075"
    and e: "small_entry e" "leaf_sort_key e \<notin> leaf_sort_key ` set (tree_entries t)"
    and room: "log_room (Suc (Suc h) * SPLIT_ROOM + j) bp" and few: "Suc h < nframes bp" and pages: "unat (next_page bp) + h + 2 < 2 ^ 32"
  shows "\<exists>pushed bp1. split_leaf (p, f) txn (leaf_sort_key e) e bp = (Inr pushed, bp1) \<and>
    inserted h bp t e j (insert_up txn (tree_root t) gs (p, f) pushed bp1)"
proof -
  note T = leaf_reached_tree [OF r i]
  have R: "holes_ok ctx" "at_least (hole_low ctx) (leaf_sort_key e)" "below (leaf_sort_key e) (hole_high ctx)" "retained (pool_view bp) ctx gs"
    using r full by (auto simp: leaf_reached_def)
  have gs: "length gs \<le> h" using R(4) i(3) by (simp add: retained_def)
  obtain v where v: "pool_view bp p = Some v" "node_holds v Leaf nxt es" using T(1) by auto
  have ne: "leaf_sort_key e \<notin> leaf_sort_key ` set es" using e(2) by (auto simp: T(8))
  define es' where "es' = with_entry es e"
  have eb: "entries_between (hole_low ctx) (hole_high ctx) es'" unfolding es'_def by (rule with_entry_between [OF T(9) e(1) R(2,3) ne])
  have small: "\<forall>x \<in> set (e # es). entry_cost x \<le> 1358" using e(1) T(9) leaf_entry_cost by (auto simp: entries_between_def)
  have over: "4075 < node_bytes es + entry_cost e" using full by (simp add: entry_cost_def node_consts)
  note O = overfull_split [OF over node_holds_fit(1) [OF v(2)] small es'_def [unfolded with_entry_def]]
  define m where "m = leaf_split_point es'"
  have m: "0 < m" "m < length es'" using O(2,3) by (simp_all add: m_def)
  let ?q = "next_page bp" and ?k = "leaf_sort_key (es' ! m)"
  note E = entries_split [OF eb m]
  have n: "?q \<noteq> - 1" using pages by (intro max_page) simp
  have qz: "Some ?q \<noteq> Some 0" using held_next_page(3) [OF held v(1)] by simp
  have rd: "read_entries (frame_data bp f) p = Inr (nxt, es)"
    using held_reads(8) [OF held _ v(1), of f p] read_entries_wf [of v p] v(2) by (simp add: node_holds_def)
  have room1: "log_room (SPLIT_ROOM + (Suc h * SPLIT_ROOM + j)) bp" using room by (simp add: add.assoc)
  obtain bp1 wl wr where w: "sbind (new_node txn Leaf nxt (drop m es')) (\<lambda>right.
      sbind (node_rebuild f p txn Leaf (Some right) (take m es')) (\<lambda>_. sreturn (?k, right))) bp = (Inr (?k, ?q), bp1)"
    "pool.held ((p, f) # gs) bp1" "pool_view bp1 = (pool_view bp)(?q \<mapsto> wr, p \<mapsto> wl)"
    "node_holds wr Leaf nxt (drop m es')" "node_holds wl Leaf (Some ?q) (take m es')"
    "nframes bp1 = nframes bp" "next_page bp1 = ?q + 1" "log_room (Suc h * SPLIT_ROOM + j) bp1"
    using split_writes [OF held _ v(1) _ n O(4,5) [folded m_def] tail_not_zero [OF v(2)] room1, of f Some txn Leaf ?k] qz few gs by auto
  have sp: "split_leaf (p, f) txn (leaf_sort_key e) e bp = (Inr (?k, ?q), bp1)"
    using split_leaf_eq [of bp "(p, f)" nxt es es' "entry_slot es e" e "leaf_sort_key e" m txn] rd w(1)
    by (simp add: es'_def with_entry_def m_def upper_bound_in_leaf_def entry_slot_def)
  let ?l = "LeafAt p (take m es') (Some ?q)" and ?r = "LeafAt ?q (drop m es') nxt"
  have fresh: "x < ?q" if "x \<in> set (p # hole_pages ctx)" for x
  proof -
    have "pool_view bp x \<noteq> None" using that v(1) holes_stored_pages [OF T(2)] by auto
    then show ?thesis using held_next_page(1) [OF held] by blast
  qed
  have pq: "p \<noteq> ?q" "?q \<notin> set (hole_pages ctx)" using fresh by auto
  have st: "stored (pool_view bp1) ?l" "stored (pool_view bp1) ?r" using w(3-5) pq by auto
  have keep: "pool_view bp1 x = pool_view bp x" if "x \<in> set (hole_pages ctx)" for x using that w(3) pq T(4) by auto
  have hs: "holes_stored (pool_view bp1) (tree_root ?l) ctx" using holes_stored_cong [of ctx "pool_view bp1" "pool_view bp" p] T(2) keep by simp
  have ret: "retained (pool_view bp1) ctx gs" by (rule retained_cong [OF R(4) keep])
  have "cascaded bp1 ctx ?l ?k ?r j (insert_up txn (tree_root t) gs (tree_root ?l, f) (?k, tree_root ?r) bp1)"
  proof (rule insert_up_grows [OF ret R(1) E(5,3,4) st hs])
    show "distinct (tree_pages ?l @ tree_pages ?r @ hole_pages ctx)" "0 \<notin> set (tree_pages ?l @ tree_pages ?r @ hole_pages ctx)"
      using T(4,5) pq qz by auto
    show "pool.held ((tree_root ?l, f) # gs) bp1" "Suc (length gs) < nframes bp1" using w(2,6) few gs by auto
    show "log_room (Suc (length gs) * SPLIT_ROOM + j) bp1" by (rule log_room_mono [OF w(8)]) (use gs in simp)
    have "unat (?q + 1) = Suc (unat ?q)" using unat_plus_1 [OF n] by simp
    then show "unat (next_page bp1) + length gs + 1 < 2 ^ 32" using w(7) pages gs by simp
    show "tree_root t = tree_root (plug ?l ctx)" by (simp add: T(10) tree_root_plug)
  qed
  then obtain t' ns bp' where C: "insert_up txn (tree_root t) gs (p, f) (?k, ?q) bp1 = (Inr (tree_root t'), bp')" "pool.held [] bp'"
    "grows ctx ?l ?k ?r ns t'" "stored (pool_view bp') t'" "\<forall>q \<in> set ns. \<not> q < next_page bp1 \<and> q \<noteq> 0" "distinct ns"
    "\<forall>q. q \<notin> set (hole_pages ctx) \<longrightarrow> q < next_page bp1 \<longrightarrow> pool_view bp' q = pool_view bp1 q"
    "nframes bp' = nframes bp1" "log_room j bp'" "unat (next_page bp') = unat (next_page bp1) + length ns"
    unfolding cascaded_def by auto
  have lt: "x < ?q + 1 \<longleftrightarrow> x < ?q \<or> x = ?q" for x using unat_plus_1 [OF n] by (auto simp: word_less_nat_alt less_Suc_eq word_unat_eq_iff)
  note L = grows_leaves [OF C(3)]
  have o: "ordered None None t'"
    by (rule grows_ordered [OF C(3) R(1) E(5,3,4)]) (use E(1,2) in \<open>simp_all add: entries_between_def\<close>)
  have c: "chained (leaves t')" using chained_split [OF T(7)] by (simp add: L)
  obtain u where u: "uniform u t'" "u \<le> Suc h" using grows_uniform [OF C(3) T(3)] i(3) by auto
  have pm: "mset (tree_pages t') = mset (ns @ ?q # p # hole_pages ctx)" using grows_pages [OF C(3)] by simp
  have "distinct (ns @ ?q # p # hole_pages ctx)" "0 \<notin> set (ns @ ?q # p # hole_pages ctx)"
    using C(5,6) T(4,5) pq qz fresh lt w(7) by auto
  then have it: "index_tree (pool_view bp') t'"
    using C(4) o c u mset_eq_imp_distinct_iff [OF pm] mset_eq_setD [OF pm] unfolding index_tree_def by auto
  have "inserted h bp t e j (Inr (tree_root t'), bp')"
  proof (rule insertedI [OF refl it _ _ _ _ u(2,1)])
    have "tree_entries t' = leaf_entries (leaves_left ctx) @ es' @ leaf_entries (leaves_right ctx)"
      by (simp add: tree_entries_leaves L)
    then show "tree_entries t' = with_entry (tree_entries t) e"
      unfolding T(8) es'_def using with_entry_append [of "leaf_entries (leaves_left ctx)" e "leaf_entries (leaves_right ctx)" es]
        left_of_hole [OF R(1,2)] right_of_hole [OF R(1,3)] by simp
    show "pool_quiet bp'" "nframes bp' = nframes bp" "log_room j bp'" using C(2,8,9) w(6) few by (auto simp: pool_quiet_held)
    show "unat (next_page bp') \<le> unat (next_page bp) + h + 2" using C(10) w(7) grows_new [OF C(3)] i(3) unat_plus_1 [OF n] by simp
    show "pool_view bp' q = pool_view bp q" if "q \<notin> set (tree_pages t)" "q < ?q" for q
      using that C(7) w(3,7) T(6) lt by auto
  qed
  then show ?thesis using sp C(1) by auto
qed

lemma btree_insert_inserts:
  assumes i: "index_tree (pool_view bp) t" "uniform h t" and q: "pool_quiet bp" "Suc h < nframes bp"
    and key: "length key \<le> SMALL_KEY" and new: "leaf_sort_key (build_leaf_payload key r) \<notin> leaf_sort_key ` set (tree_entries t)"
    and room: "log_room (Suc (Suc h) * SPLIT_ROOM + j) bp" and pages: "unat (next_page bp) + h + 2 < 2 ^ 32"
  shows "\<exists>res. btree_insert (tree_root t) txn key r bp = Some res \<and> inserted h bp t (build_leaf_payload key r) j res"
proof -
  let ?e = "build_leaf_payload key r"
  have small: "small_entry ?e" using key unfolding small_entry_def by blast
  note I = index_treeD [OF i(1)]
  obtain ctx gs p es nxt f bp1 where d: "descend_for_insert (leaf_sort_key ?e) (length ?e) (tree_root t) [] bp = Some (Inr (gs, (p, f)), bp1)"
    "pool.held ((p, f) # gs) bp1" "pool.same_pages bp bp1" "length ctx = h"
    "leaf_reached (pool_view bp) (leaf_sort_key ?e) (length ?e) t ctx p es nxt gs"
    using descend_for_insert_finds [OF I(1) _ _ I(4), of "[]" "leaf_sort_key ?e" "[]" h "length ?e"] I(2) i(2) q by (auto simp: pool_quiet_held retained_def)
  note S = same_pagesD [OF d(3)]
  have it: "index_tree (pool_view bp1) t" and lr: "leaf_reached (pool_view bp1) (leaf_sort_key ?e) (length ?e) t ctx p es nxt gs" using i(1) d(5) S(1) by simp_all
  have rm: "log_room (Suc (Suc h) * SPLIT_ROOM + j) bp1" using S(4) room by blast
  obtain v where v: "pool_view bp1 p = Some v" "node_holds v Leaf nxt es" using leaf_reached_tree(1) [OF lr it i(2) d(4)] by auto
  have fit: "node_will_fit (frame_data bp1 f) (length ?e) \<longleftrightarrow> node_bytes es + 4 + length ?e \<le> 4075"
    using held_reads(7) [OF d(2) _ v(1)] node_holds_fit(2) [OF v(2)] by simp
  have mk: "\<not> MAX_KEY_SIZE < length key" using key by (simp add: SMALL_KEY_def MAX_KEY_SIZE_def node_consts PAGE_SIZE_def)
  have same: "inserted h bp1 t ?e j res \<Longrightarrow> inserted h bp t ?e j res" for res by (simp add: inserted_def S(1-3))
  show ?thesis
  proof (cases "node_bytes es + 4 + length ?e \<le> 4075")
    case True
    then have gs: "gs = []" using lr by (simp add: leaf_reached_def)
    have nf: "0 < nframes bp1" using S(2) q(2) by linarith
    have "log_room (SPLIT_ROOM + j) bp1" by (rule log_room_mono [OF rm]) simp
    then obtain bp2 where n: "node_insert (p, f) txn (leaf_sort_key ?e) ?e bp1 = (Inr (), bp2)" "inserted h bp1 t ?e j (Inr (tree_root t), unpin_frame f bp2)"
      using insert_in_leaf [OF lr [unfolded gs] it i(2) d(4) d(2) [unfolded gs] True small new _ nf, of j txn] by blast
    have "btree_insert (tree_root t) txn key r bp = Some (Inr (tree_root t), unpin_frame f bp2)"
      using d(1) True fit n(1) mk gs by (simp add: btree_insert_def Let_def)
    then show ?thesis using same [OF n(2)] by blast
  next
    case False
    obtain pushed bp2 where n: "split_leaf (p, f) txn (leaf_sort_key ?e) ?e bp1 = (Inr pushed, bp2)" "inserted h bp1 t ?e j (insert_up txn (tree_root t) gs (p, f) pushed bp2)"
      using insert_by_split [OF lr it i(2) d(4,2) False small new rm, of txn] S(2,3) q(2) pages by auto
    have "btree_insert (tree_root t) txn key r bp = Some (insert_up txn (tree_root t) gs (p, f) pushed bp2)"
      using d(1) False fit n(1) mk by (simp add: btree_insert_def Let_def)
    then show ?thesis using same [OF n(2)] by blast
  qed
qed

text \<open>A new index is one empty leaf.\<close>

lemma btree_create_empty:
  assumes q: "pool_quiet bp" and n: "next_page bp \<noteq> - 1" "next_page bp \<noteq> 0" and room: "log_room (Suc (Suc k)) bp"
  shows "\<exists>bp'. btree_create txn bp = (Inr (next_page bp), bp') \<and> pool_quiet bp' \<and> index_tree (pool_view bp') (LeafAt (next_page bp) [] None) \<and>
    nframes bp' = nframes bp \<and> next_page bp' = next_page bp + 1 \<and> log_room k bp'"
proof -
  let ?p = "next_page bp"
  have held: "pool.held [] bp" "0 < nframes bp" using q by (simp_all add: pool_quiet_held)
  obtain f bp1 where a: "new_page txn bp = (Inr (?p, f), bp1)" "pool.held [(?p, f)] bp1"
    "pool_view bp1 = (pool_view bp)(?p \<mapsto> blank_page)" "nframes bp1 = nframes bp" "next_page bp1 = ?p + 1" "log_room (Suc k) bp1"
    using pool.held_alloc [OF held(1) _ room n(1), of txn] held(2) by auto
  have hdr: "node_tag Leaf # replicate 4 0 @ u32_le 0 = replicate 9 0" by (simp add: node_consts u32_le_def numeral_eq_Suc)
  have blank: "page_body blank_page = replicate 4084 0"
    by (simp add: PAGE_SIZE_def)
  have "pool_view bp1 ?p = Some blank_page" using a(3) by simp
  then obtain bp2 w where w: "guard_write f ?p txn 12 (replicate 9 0) bp1 = (Inr (), bp2)" "page_written [(?p, f)] ?p w k bp1 bp2"
    "page_body w = splice (page_body blank_page) (12 - 12) (replicate 9 0)"
    using held_guard_write [OF a(2), of ?p f blank_page 12 "replicate 9 0" k txn] a(6) by (auto simp: PAGE_SIZE_def)
  have body: "page_body w = replicate 4084 0" unfolding w(3) blank by (simp add: splice_def replicate_add [symmetric])
  have wl: "length w = PAGE_SIZE" "stamp_checksum w = w" using page_written_wf [OF w(2)] by auto
  have at: "bytes_at w off m = replicate m 0" if "12 \<le> off" "off + m \<le> 4096" for off m
    unfolding bytes_at_body [OF that(1)] body using that by (simp add: bytes_at_def)
  have le: "le_u16 (replicate 2 0) = 0" "le_u32 (replicate 4 0) = 0" by (simp_all add: le_u16_def le_u32_def numeral_eq_Suc)
  have z: "node_slot_count w = 0" "node_data_used w = 0" "tail_raw w = None"
    using at [of 13 2] at [of 15 2] at [of 17 4] le
    by (simp_all add: node_slot_count_def node_data_used_def tail_raw_def read_u16_def read_u32_def node_consts)
  have w12: "w ! 12 = 0" using arg_cong [OF body, of "\<lambda>b. b ! 0"] wl(1) by (simp add: PAGE_SIZE_def)
  have "node_holds w Leaf None []"
    using node_contentsI [OF wl, of "[]" "\<lambda>_. 0"] z w12
    by (simp add: node_holds_def node_type_of_def node_consts node_data_start_def node_slot_offset_def PAGE_SIZE_def)
  note U = pool.held_unpin [of "[]" ?p f "[]" bp2, simplified, OF page_written_held [OF w(2)]]
  note P = same_pagesD [OF U(2)]
  have "btree_create txn bp = (Inr ?p, unpin_frame f bp2)"
    using a(1) w(1) hdr by (simp add: btree_create_def sbind_def node_init_def node_consts)
  moreover have "index_tree (pool_view (unpin_frame f bp2)) (LeafAt ?p [] None)"
    using \<open>node_holds w Leaf None []\<close> P(1) w(2) n(2) by (auto simp: index_tree_def page_written_def)
  ultimately show ?thesis using U(1) P(2-4) w(2) a(4,5) held(2) by (auto simp: pool_quiet_held page_written_def)
qed

end
