(* ===== verification/BTree_Range.thy ===== *)
theory BTree_Range
  imports BTree_Insert Memcomparable
begin

text \<open>
  Range scans of an index and the properties of the whole component. One call of the iterator yields
  the first entry after its position, on whichever leaf it is; run to its end it yields the entries
  of the range in key order.
\<close>

section \<open>Scanning one leaf\<close>

definition scanned :: "bytes option \<Rightarrow> bytes \<Rightarrow> bool" where
  "scanned after e = (case after of None \<Rightarrow> False | Some k \<Rightarrow> leaf_sort_key e \<le> k)"

lemma partition_next:
  assumes "sorted_wrt (<) (map leaf_sort_key es)"
  shows "partition_point (\<lambda>p. leaf_sort_key p \<le> k) es =
    (let i = partition_point (\<lambda>p. leaf_sort_key p < k) es
     in if i < length es \<and> leaf_sort_key (es ! i) = k then i + 1 else i)"
  using assms unfolding partition_point_def
proof (induction es)
  case (Cons e es)
  show ?case
  proof (cases "leaf_sort_key e < k")
    case True
    then show ?thesis using Cons by auto
  next
    case False
    show ?thesis
    proof (cases "leaf_sort_key e = k")
      case True
      then have "takeWhile (\<lambda>p. leaf_sort_key p \<le> k) es = []" using Cons.prems by (cases es) auto
      then show ?thesis using True False by simp
    qed (use False in auto)
  qed
qed simp

lemma dropWhile_partition: "dropWhile P xs = drop (partition_point P xs) xs"
  by (simp add: partition_point_def dropWhile_eq_drop)

lemma scan_leaf_wf:
  assumes v: "node_holds v Leaf nxt es" and srt: "sorted_wrt (<) (map leaf_sort_key es)"
  shows "scan_leaf_bytes v pid after = Inr (case dropWhile (scanned after) es of
      [] \<Rightarrow> EndOfLeaf nxt
    | e # _ \<Rightarrow> ScanEntry (partition_point (scanned after) es) (entry_key e) (leaf_sort_key e) (leaf_rid e))"
proof -
  have wf: "node_wf v" "node_entries v = es" "node_count v = length es" "tail_raw v = nxt"
    using v length_node_entries [of v] by (auto simp: node_holds_def)
  have cnt: "node_checked_count v pid = Inr (node_slot_count v)" "unat (node_slot_count v) = length es"
    using node_wf_count(2) [OF wf(1)] wf(3) by (simp_all add: node_count_def)
  let ?i = "partition_point (scanned after) es"
  have pay: "entry_payload v j pid = Inr (es ! j)" if "j < length es" for j
    using entry_payload_wf [OF wf(1), of j pid] that wf(2,3) by simp
  have fin: "(if ?i \<ge> length es then Inr (EndOfLeaf nxt)
      else and_then (entry_payload v ?i pid) (\<lambda>p. Inr (ScanEntry ?i (entry_key p) (leaf_sort_key p) (leaf_rid p)))) =
      Inr (case dropWhile (scanned after) es of [] \<Rightarrow> EndOfLeaf nxt
        | e # _ \<Rightarrow> ScanEntry ?i (entry_key e) (leaf_sort_key e) (leaf_rid e))"
  proof (cases "?i < length es")
    case True
    then have "drop ?i es = es ! ?i # drop (Suc ?i) es" by (rule Cons_nth_drop_Suc [symmetric])
    then show ?thesis using True pay [OF True] by (simp add: dropWhile_partition del: and_then_eq_Inr)
  qed (simp add: dropWhile_partition)
  show ?thesis
  proof (cases after)
    case None
    then have "scanned after = (\<lambda>_. False)" by (simp add: scanned_def fun_eq_iff)
    then have i0: "?i = 0" by (cases es) (simp_all add: partition_point_def)
    show ?thesis using fin cnt wf(4) unfolding i0 by (auto simp: None scan_leaf_bytes_def simp del: and_then_eq_Inr)
  next
    case (Some k)
    let ?j = "partition_point (\<lambda>p. leaf_sort_key p < k) es"
    have lb: "lower_bound_leaf v k pid = Inr ?j"
      using node_searches_wf(3) [OF wf(1)] srt wf(2) by (simp add: strict_sorted_imp_sorted)
    have "scanned after = (\<lambda>p. leaf_sort_key p \<le> k)" using Some by (simp add: scanned_def fun_eq_iff)
    then have i: "?i = (if ?j < length es \<and> leaf_sort_key (es ! ?j) = k then ?j + 1 else ?j)" using partition_next [OF srt, of k] by (simp add: Let_def)
    have "(if ?j < unat (node_slot_count v) then and_then (entry_payload v ?j pid) (\<lambda>p. Inr (if leaf_sort_key p = k then ?j + 1 else ?j)) else Inr ?j)
        = (Inr ?i :: storage_error + nat)"
      using pay [of ?j] cnt(2) i by (auto simp del: and_then_eq_Inr)
    then show ?thesis using fin cnt lb wf(4) unfolding Some by (auto simp: scan_leaf_bytes_def simp del: and_then_eq_Inr)
  qed
qed

lemma scan_leaf_bytes_read:
  assumes "pool.held gs bp" "(p, f) \<in> set gs" "pool_view bp p = Some v"
  shows "scan_leaf_bytes (frame_data bp f) pid after = scan_leaf_bytes v pid after"
proof -
  note H = held_reads [OF assms]
  show ?thesis by (simp add: scan_leaf_bytes_def lower_bound_leaf_def H(3,5,6,10) cong: if_cong option.case_cong)
qed

text \<open>Reading one page under a guard of its own.\<close>

lemma with_page_read:
  assumes h: "pool.held [] bp" "0 < nframes bp" and v: "pool_view bp p = Some v"
    and g: "\<And>f bp1. pool.held [(p, f)] bp1 \<Longrightarrow> pool_view bp1 p = Some v \<Longrightarrow> g f bp1 = r"
  shows "\<exists>bp'. with_page p (\<lambda>f bp. (g f bp, bp)) bp = (r, bp') \<and> pool.held [] bp' \<and> pool.same_pages bp bp'"
proof -
  obtain f bp1 where f: "fetch_frame p bp = (Inr f, bp1)" "pool.held [(p, f)] bp1" "pool.same_pages bp bp1"
    using pool.held_fetch [OF h(1), of p] v h(2) by auto
  note U = pool.held_unpin [of "[]" p f "[]" bp1, simplified, OF f(2)]
  have "with_page p (\<lambda>f bp. (g f bp, bp)) bp = (r, unpin_frame f bp1)"
    using f(1) g [OF f(2)] same_pagesD(1) [OF f(3)] v by (simp add: with_page_def sbind_def)
  then show ?thesis using U(1) pool.same_pages_trans [OF f(3) U(2)] by blast
qed

section \<open>Finding the first leaf\<close>

lemma ordered_leaves: "ordered lo hi t \<Longrightarrow> leaves t \<noteq> []"
proof (induction t arbitrary: lo hi)
  case (NodeAt p ks cs)
  then obtain c cs' where c: "cs = c # cs'" by (cases cs) auto
  obtain lo' hi' where "ordered lo' hi' c" using ordereds_nth [of lo hi ks cs 0] NodeAt.prems c by auto
  then show ?case using NodeAt.IH [of c] c by simp
qed simp

lemma leftmost_leaf_finds:
  assumes "stored (pool_view bp) t" "ordered lo hi t" "pool.held [] bp" "0 < nframes bp"
  shows "\<exists>bp'. leftmost_leaf (tree_root t) bp = Some (Inr (fst (hd (leaves t))), bp') \<and> pool.held [] bp' \<and> pool.same_pages bp bp'"
  using assms
proof (induction t arbitrary: bp lo hi)
  case (LeafAt p es nxt)
  obtain v where v: "pool_view bp p = Some v" "node_holds v Leaf nxt es" using LeafAt.prems(1) by auto
  have "\<exists>bp'. leftmost_step p bp = (Inr None, bp') \<and> pool.held [] bp' \<and> pool.same_pages bp bp'"
    unfolding leftmost_step_def by (rule with_page_read [OF LeafAt.prems(3,4) v(1)]) (use v(2) in \<open>simp add: held_reads(4) node_holds_def\<close>)
  then show ?case by (auto simp: leftmost_leaf.simps [of p])
next
  case (NodeAt p ks cs)
  obtain v where v: "pool_view bp p = Some v" "node_holds v Internal (Some (hd (map tree_root cs))) (map2 build_internal_payload ks (tl (map tree_root cs)))"
    using NodeAt.prems(1) by (auto simp: node_at_def)
  obtain c cs' where c: "cs = c # cs'" using NodeAt.prems(2) by (cases cs) auto
  have "\<exists>bp'. leftmost_step p bp = (Inr (Some (tree_root c)), bp') \<and> pool.held [] bp' \<and> pool.same_pages bp bp'"
    unfolding leftmost_step_def by (rule with_page_read [OF NodeAt.prems(3,4) v(1)]) (use v(2) c in \<open>simp add: held_reads(3,4) node_holds_def\<close>)
  then obtain bp1 where s: "leftmost_step p bp = (Inr (Some (tree_root c)), bp1)" "pool.held [] bp1" "pool.same_pages bp bp1" by blast
  note S = same_pagesD [OF s(3)]
  obtain lo' hi' where o: "ordered lo' hi' c" using ordereds_nth [of lo hi ks cs 0] NodeAt.prems(2) c by auto
  have "stored (pool_view bp1) c" "0 < nframes bp1" using NodeAt.prems(1,4) S(1,2) c by auto
  from NodeAt.IH [of c, OF _ this(1) o s(2) this(2)] c
  obtain bp' where r: "leftmost_leaf (tree_root c) bp1 = Some (Inr (fst (hd (leaves c))), bp')" "pool.held [] bp'" "pool.same_pages bp1 bp'"
    by auto
  have "hd (leaves (NodeAt p ks cs)) = hd (leaves c)" using ordered_leaves [OF o] c by simp
  then have "leftmost_leaf p bp = Some (Inr (fst (hd (leaves (NodeAt p ks cs)))), bp')"
    using s(1) r(1) by (simp add: leftmost_leaf.simps [of p])
  then show ?case using r(2) pool.same_pages_trans [OF s(3) r(3)] by auto
qed

text \<open>A position of the iterator: everything on the leaves before its own is scanned.\<close>

definition at_leaf :: "(page_id \<times> bytes list \<times> page_id option) list \<Rightarrow> bytes option \<Rightarrow> page_id \<Rightarrow> bool" where
  "at_leaf ls after p \<longleftrightarrow> (\<exists>xs es nxt ys. ls = xs @ (p, es, nxt) # ys \<and> (\<forall>e \<in> set (leaf_entries xs). scanned after e))"

lemma leaf_for_start_finds:
  assumes i: "index_tree (pool_view bp) t" and h: "pool.held [] bp" "1 < nframes bp"
  shows "\<exists>p bp'. leaf_for_start (tree_root t) start bp = Some (Inr p, bp') \<and> at_leaf (leaves t) start p \<and>
    pool.held [] bp' \<and> pool.same_pages bp bp'"
proof (cases start)
  case None
  obtain p es nxt ls where l: "leaves t = (p, es, nxt) # ls" using ordered_leaves [OF index_treeD(2) [OF i]] by (cases "leaves t") auto
  have "at_leaf (leaves t) start p" unfolding at_leaf_def by (rule exI [of _ "[]"]) (use l in simp)
  moreover have "0 < nframes bp" using h(2) by linarith
  note leftmost_leaf_finds [OF index_treeD(1,2) [OF i] h(1) this]
  ultimately show ?thesis using l None by (auto simp: leaf_for_start_def)
next
  case (Some key)
  obtain p path bp' where d: "descend_to_leaf key (tree_root t) [] [] bp = Some (Inr (p, path), bp')" "pool.held [] bp'"
    "pool.same_pages bp bp'" "key_leaf key (leaves t) p"
    using descend_to_leaf_finds [OF index_treeD(1,2,4) [OF i], of "[]" key "[]"] h by auto
  have "at_leaf (leaves t) start p" using d(4) Some unfolding at_leaf_def key_leaf_def scanned_def by (fastforce intro: less_imp_le)
  then show ?thesis using d(1-3) Some by (auto simp: leaf_for_start_def)
qed

section \<open>One call of the iterator\<close>

lemma dropWhile_scanned: "\<forall>e \<in> set xs. scanned after e \<Longrightarrow> dropWhile (scanned after) (xs @ ys) = dropWhile (scanned after) ys"
  by (induction xs) simp_all

lemma dropWhile_found: "dropWhile P xs = y # ys \<Longrightarrow> dropWhile P (xs @ zs) = y # ys @ zs"
  by (induction xs) (auto split: if_splits)

lemma earlier_scanned:
  assumes "sorted_wrt (<) (map leaf_sort_key (xs @ ys))" "e \<in> set ys" "e' \<in> set xs"
  shows "scanned (Some (leaf_sort_key e)) e'"
  using assms by (auto simp: scanned_def sorted_wrt_append intro: less_imp_le)

definition range_yields :: "btree \<Rightarrow> bytes option \<Rightarrow> bytes option \<Rightarrow> buffer_pool \<Rightarrow>
    ((storage_error + bytes \<times> rid) option \<times> range_state \<times> buffer_pool) option \<Rightarrow> bool" where
  "range_yields t fin after bp res \<longleftrightarrow> (\<exists>bp'. pool.held [] bp' \<and> pool.same_pages bp bp' \<and>
     (case dropWhile (scanned after) (tree_entries t) of
        [] \<Rightarrow> res = Some (None, RangeDone, bp')
      | e # _ \<Rightarrow>
          if past_end fin (entry_key e) then res = Some (None, RangeDone, bp')
          else \<exists>q. res = Some (Some (Inr (entry_key e, leaf_rid e)), InLeaf q (Some (leaf_sort_key e)), bp') \<and>
            at_leaf (leaves t) (Some (leaf_sort_key e)) q))"

lemma range_yields_later: "pool.same_pages bp bp1 \<Longrightarrow> range_yields t fin after bp1 res \<Longrightarrow> range_yields t fin after bp res"
  unfolding range_yields_def using pool.same_pages_trans by blast

lemma scan_leaf_effect:
  assumes i: "index_tree (pool_view bp) t" and h: "pool.held [] bp" "0 < nframes bp" and l: "(p, es, nxt) \<in> set (leaves t)"
    and srt: "sorted_wrt (<) (map leaf_sort_key es)"
  shows "\<exists>bp'. scan_leaf p after bp = (Inr (case dropWhile (scanned after) es of
      [] \<Rightarrow> EndOfLeaf nxt
    | e # _ \<Rightarrow> ScanEntry (partition_point (scanned after) es) (entry_key e) (leaf_sort_key e) (leaf_rid e)), bp') \<and>
    pool.held [] bp' \<and> pool.same_pages bp bp'"
proof -
  obtain v where v: "pool_view bp p = Some v" "node_holds v Leaf nxt es" using stored_leaves [OF index_treeD(1) [OF i] l] by blast
  show ?thesis unfolding scan_leaf_def
    by (rule with_page_read [OF h v(1)]) (use scan_leaf_bytes_read scan_leaf_wf [OF v(2) srt] in auto)
qed

lemma leaf_sorted:
  assumes "index_tree vw t" "leaves t = xs @ (p, es, nxt) # ys"
  shows "tree_entries t = leaf_entries xs @ es @ leaf_entries ys"
    "sorted_wrt (<) (map leaf_sort_key (leaf_entries xs @ es))" "sorted_wrt (<) (map leaf_sort_key es)"
proof -
  show te: "tree_entries t = leaf_entries xs @ es @ leaf_entries ys" by (simp add: tree_entries_leaves assms(2))
  show "sorted_wrt (<) (map leaf_sort_key (leaf_entries xs @ es))" "sorted_wrt (<) (map leaf_sort_key es)"
    using index_treeD(6) [OF assms(1)] te by (auto simp: entries_between_def sorted_wrt_append)
qed

lemma range_next_hit:
  assumes i: "index_tree (pool_view bp) t" and h: "pool.held [] bp" "0 < nframes bp"
    and l: "leaves t = xs @ (p, es, nxt) # ys" and xs: "\<forall>e \<in> set (leaf_entries xs). scanned after e"
    and d: "dropWhile (scanned after) es = e # es'"
  shows "range_yields t fin after bp (range_next root fin (InLeaf p after) bp)"
proof -
  note L = leaf_sorted [OF i l]
  obtain bp' where s: "scan_leaf p after bp = (Inr (ScanEntry (partition_point (scanned after) es) (entry_key e) (leaf_sort_key e) (leaf_rid e)), bp')"
    "pool.held [] bp'" "pool.same_pages bp bp'"
    using scan_leaf_effect [OF i h _ L(3), of p nxt after] l d by auto
  have dw: "dropWhile (scanned after) (tree_entries t) = e # es' @ leaf_entries ys"
    unfolding L(1) by (subst dropWhile_scanned [OF xs]) (rule dropWhile_found [OF d])
  have "e \<in> set es" using d set_dropWhileD [of e "scanned after" es] by simp
  then have "\<forall>e' \<in> set (leaf_entries xs). scanned (Some (leaf_sort_key e)) e'" using earlier_scanned [OF L(2)] by blast
  then have "at_leaf (leaves t) (Some (leaf_sort_key e)) p" using l unfolding at_leaf_def by blast
  then show ?thesis using s dw by (auto simp: range_yields_def range_next.simps [of root fin "InLeaf p after"])
qed

lemma range_next_leaf:
  assumes "index_tree (pool_view bp) t" "pool.held [] bp" "0 < nframes bp"
    "leaves t = xs @ (p, es, nxt) # ys" "\<forall>e \<in> set (leaf_entries xs). scanned after e"
  shows "range_yields t fin after bp (range_next root fin (InLeaf p after) bp)"
  using assms
proof (induction ys arbitrary: xs p es nxt bp)
  case (Nil xs p es nxt bp)
  note L = leaf_sorted [OF Nil.prems(1,4)]
  show ?case
  proof (cases "dropWhile (scanned after) es")
    case [simp]: Nil
    have nxt: "nxt = None" using index_treeD(3) [OF Nil.prems(1)] unfolding Nil.prems(4)
      by (induction xs) (auto simp: chained_Cons split: list.splits)
    obtain bp' where s: "scan_leaf p after bp = (Inr (EndOfLeaf None), bp')" "pool.held [] bp'" "pool.same_pages bp bp'"
      using scan_leaf_effect [OF Nil.prems(1-3) _ L(3), of p nxt after] Nil.prems(4) nxt by auto
    have dw: "dropWhile (scanned after) (tree_entries t) = []"
      unfolding L(1) by (subst dropWhile_scanned [OF Nil.prems(5)]) simp
    have "range_next root fin (InLeaf p after) bp = Some (None, RangeDone, bp')"
      by (simp add: s(1) range_next.simps [of root fin "InLeaf p after"] range_next.simps [of root fin RangeDone])
    then show ?thesis using s(2,3) unfolding range_yields_def dw by auto
  qed (rule range_next_hit [OF Nil.prems])
next
  case (Cons y ys xs p es nxt bp)
  note L = leaf_sorted [OF Cons.prems(1,4)]
  obtain q fs n where y: "y = (q, fs, n)" by (cases y) auto
  show ?case
  proof (cases "dropWhile (scanned after) es")
    case Nil
    then have es: "\<forall>e \<in> set es. scanned after e" by simp
    have nxt: "nxt = Some q" using index_treeD(3) [OF Cons.prems(1)] unfolding Cons.prems(4) y
      by (induction xs) (auto simp: chained_Cons split: list.splits)
    obtain bp1 where s: "scan_leaf p after bp = (Inr (EndOfLeaf (Some q)), bp1)" "pool.held [] bp1" "pool.same_pages bp bp1"
      using scan_leaf_effect [OF Cons.prems(1-3) _ L(3), of p nxt after] Cons.prems(4) nxt Nil by auto
    note S = same_pagesD [OF s(3)]
    have "range_yields t fin after bp1 (range_next root fin (InLeaf q after) bp1)"
      by (rule Cons.IH [of _ "xs @ [(p, es, nxt)]" _ fs n]) (use Cons.prems s(2) S(1,2) y es in auto)
    moreover have "range_next root fin (InLeaf p after) bp = range_next root fin (InLeaf q after) bp1"
      by (subst range_next.simps) (simp add: s(1))
    ultimately show ?thesis using range_yields_later [OF s(3)] by simp
  qed (rule range_next_hit [OF Cons.prems])
qed

section \<open>A whole scan\<close>

text \<open>Collecting the items of the iterator, as \<open>collect\<close> into a result does: the first error ends it.\<close>

partial_function (option) range_collect ::
    "page_id \<Rightarrow> bytes option \<Rightarrow> range_state \<Rightarrow> buffer_pool \<Rightarrow> ((storage_error + (bytes \<times> rid) list) \<times> buffer_pool) option" where
  "range_collect root fin st bp =
     (case range_next root fin st bp of
        None \<Rightarrow> None
      | Some (item, st', bp') \<Rightarrow>
          (case item of
             None \<Rightarrow> Some (Inr [], bp')
           | Some (Inl e) \<Rightarrow> Some (Inl e, bp')
           | Some (Inr kr) \<Rightarrow> Option.bind (range_collect root fin st' bp') (\<lambda>(rest, bp''). Some (and_then rest (\<lambda>l. Inr (kr # l)), bp''))))"

definition range_entries :: "bytes option \<Rightarrow> bytes option \<Rightarrow> bytes list \<Rightarrow> (bytes \<times> rid) list" where
  "range_entries start fin es =
     map (\<lambda>e. (entry_key e, leaf_rid e)) (takeWhile (\<lambda>e. \<not> past_end fin (entry_key e)) (dropWhile (scanned start) es))"

lemma dropWhile_next:
  assumes "sorted_wrt (<) (map leaf_sort_key es)" "dropWhile (scanned after) es = e # es'"
  shows "dropWhile (scanned (Some (leaf_sort_key e))) es = es'"
proof -
  obtain xs where es: "es = xs @ e # es'" using assms(2) by (metis takeWhile_dropWhile_id)
  have "dropWhile (scanned (Some (leaf_sort_key e))) ((xs @ [e]) @ es') = dropWhile (scanned (Some (leaf_sort_key e))) es'"
    using assms(1) es by (intro dropWhile_scanned) (auto simp: scanned_def sorted_wrt_append intro: less_imp_le)
  moreover have "dropWhile (scanned (Some (leaf_sort_key e))) es' = es'"
    using assms(1) es by (cases es') (auto simp: scanned_def sorted_wrt_append)
  ultimately show ?thesis using es by simp
qed

lemma range_collect_leaf:
  assumes "index_tree (pool_view bp) t" "pool.held [] bp" "0 < nframes bp" "at_leaf (leaves t) after p"
  shows "\<exists>bp'. range_collect root fin (InLeaf p after) bp = Some (Inr (range_entries after fin (tree_entries t)), bp') \<and>
    pool.held [] bp' \<and> pool.same_pages bp bp'"
  using assms
proof (induction "dropWhile (scanned after) (tree_entries t)" arbitrary: after p bp)
  case Nil
  have y: "range_yields t fin after bp (range_next root fin (InLeaf p after) bp)"
    using Nil.prems range_next_leaf unfolding at_leaf_def by blast
  then show ?case using Nil.hyps
    by (auto simp: range_yields_def range_entries_def range_collect.simps [of root fin "InLeaf p after"] simp del: dropWhile_eq_Nil_conv)
next
  case (Cons e es)
  have y: "range_yields t fin after bp (range_next root fin (InLeaf p after) bp)"
    using Cons.prems range_next_leaf unfolding at_leaf_def by blast
  show ?case
  proof (cases "past_end fin (entry_key e)")
    case True
    then show ?thesis using y Cons.hyps(2) [symmetric]
      by (auto simp: range_yields_def range_entries_def range_collect.simps [of root fin "InLeaf p after"])
  next
    case False
    then obtain q bp1 where n: "range_next root fin (InLeaf p after) bp = Some (Some (Inr (entry_key e, leaf_rid e)), InLeaf q (Some (leaf_sort_key e)), bp1)"
      "pool.held [] bp1" "pool.same_pages bp bp1" "at_leaf (leaves t) (Some (leaf_sort_key e)) q"
      using y Cons.hyps(2) [symmetric] by (auto simp: range_yields_def)
    note S = same_pagesD [OF n(3)]
    have srt: "sorted_wrt (<) (map leaf_sort_key (tree_entries t))" using index_treeD(6) [OF Cons.prems(1)] by (simp add: entries_between_def)
    have d: "dropWhile (scanned (Some (leaf_sort_key e))) (tree_entries t) = es" by (rule dropWhile_next [OF srt Cons.hyps(2) [symmetric]])
    obtain bp' where r: "range_collect root fin (InLeaf q (Some (leaf_sort_key e))) bp1 = Some (Inr (range_entries (Some (leaf_sort_key e)) fin (tree_entries t)), bp')"
      "pool.held [] bp'" "pool.same_pages bp1 bp'"
      using Cons.hyps(1) [OF d [symmetric], of bp1 q] Cons.prems(1,3) S(1,2) n(2,4) by auto
    have "range_entries after fin (tree_entries t) = (entry_key e, leaf_rid e) # range_entries (Some (leaf_sort_key e)) fin (tree_entries t)"
      using False d Cons.hyps(2) [symmetric] by (simp add: range_entries_def)
    then have "range_collect root fin (InLeaf p after) bp = Some (Inr (range_entries after fin (tree_entries t)), bp')"
      using n(1) r(1) by (simp add: range_collect.simps [of root fin "InLeaf p after"])
    then show ?thesis using r(2) pool.same_pages_trans [OF n(3) r(3)] by blast
  qed
qed

lemma range_collect_entries:
  assumes i: "index_tree (pool_view bp) t" and q: "pool_quiet bp" "1 < nframes bp"
  shows "\<exists>bp'. range_collect (tree_root t) fin (NotStarted start) bp = Some (Inr (range_entries start fin (tree_entries t)), bp') \<and>
    pool_quiet bp' \<and> pool_view bp' = pool_view bp"
proof -
  have h: "pool.held [] bp" "0 < nframes bp" using q(1) by (simp_all add: pool_quiet_held)
  obtain p bp1 where l: "leaf_for_start (tree_root t) start bp = Some (Inr p, bp1)" "at_leaf (leaves t) start p"
    "pool.held [] bp1" "pool.same_pages bp bp1" using leaf_for_start_finds [OF i h(1) q(2)] by blast
  note S = same_pagesD [OF l(4)]
  have "range_next (tree_root t) fin (NotStarted start) bp = range_next (tree_root t) fin (InLeaf p start) bp1"
    by (subst range_next.simps) (simp add: l(1))
  then have "range_collect (tree_root t) fin (NotStarted start) bp = range_collect (tree_root t) fin (InLeaf p start) bp1"
    by (subst (1 2) range_collect.simps) simp
  moreover obtain bp' where r: "range_collect (tree_root t) fin (InLeaf p start) bp1 = Some (Inr (range_entries start fin (tree_entries t)), bp')"
    "pool.held [] bp'" "pool.same_pages bp1 bp'"
    using range_collect_leaf [of bp1 t start p "tree_root t" fin] i l(2,3) S(1,2) h(2) by auto
  ultimately show ?thesis using same_pagesD(1,2) [OF r(3)] S(1,2) h(2) by (auto simp: pool_quiet_held)
qed

section \<open>The operations of an index\<close>

lemma demo_pool_room: "log_room 100000 (demo_pool n)"
  by (simp add: log_room_def demo_pool_def pool_new_def log0_def RECORD_ROOM_def)

definition demo_btree :: buffer_pool where "demo_btree = snd (btree_create 7 (demo_pool 4))"

lemma demo_btree_facts:
  "btree_create 7 (demo_pool 4) = (Inr 1, demo_btree)" "pool_quiet demo_btree" "index_tree (pool_view demo_btree) (LeafAt 1 [] None)"
  "nframes demo_btree = 4" "next_page demo_btree = 2" "log_room 99998 demo_btree"
proof -
  obtain bp' where b: "btree_create 7 (demo_pool 4) = (Inr 1, bp')" "pool_quiet bp'" "index_tree (pool_view bp') (LeafAt 1 [] None)"
    "nframes bp' = 4" "next_page bp' = 1 + 1" "log_room 99998 bp'"
    using btree_create_empty [of "demo_pool 4" 99998 7] demo_pool_room [of 4] by (auto simp: demo_pool_facts)
  have "bp' = demo_btree" using b(1) by (simp add: demo_btree_def)
  then show "btree_create 7 (demo_pool 4) = (Inr 1, demo_btree)" "pool_quiet demo_btree" "index_tree (pool_view demo_btree) (LeafAt 1 [] None)"
    "nframes demo_btree = 4" "next_page demo_btree = 2" "log_room 99998 demo_btree" using b by auto
qed

text \<open>One row in the index, and the step that adds another.\<close>

lemma add_row:
  assumes "index_tree (pool_view bp) t" "uniform h t" "h \<le> m" "pool_quiet bp" "Suc m < nframes bp" "length key \<le> SMALL_KEY"
    "leaf_sort_key (build_leaf_payload key r) \<notin> leaf_sort_key ` set (tree_entries t)"
    "log_room (Suc (Suc m) * SPLIT_ROOM + j) bp" "unat (next_page bp) + m + 2 < 2 ^ 32"
  obtains t' bp' h' where "btree_insert (tree_root t) txn key r bp = Some (Inr (tree_root t'), bp')" "index_tree (pool_view bp') t'"
    "tree_entries t' = with_entry (tree_entries t) (build_leaf_payload key r)" "pool_quiet bp'" "nframes bp' = nframes bp" "log_room j bp'"
    "uniform h' t'" "h' \<le> Suc m" "unat (next_page bp') \<le> unat (next_page bp) + m + 2"
proof -
  have room: "log_room (Suc (Suc h) * SPLIT_ROOM + j) bp" by (rule log_room_mono [OF assms(8)]) (use assms(3) in simp)
  have *: "Suc h < nframes bp" "unat (next_page bp) + h + 2 < 2 ^ 32" using assms(3,5,9) by linarith+
  obtain t' bp' h' where "btree_insert (tree_root t) txn key r bp = Some (Inr (tree_root t'), bp')" "index_tree (pool_view bp') t'"
    "tree_entries t' = with_entry (tree_entries t) (build_leaf_payload key r)" "pool_quiet bp'" "nframes bp' = nframes bp" "log_room j bp'"
    "h' \<le> Suc h" "uniform h' t'" "unat (next_page bp') \<le> unat (next_page bp) + h + 2"
    using btree_insert_inserts [OF assms(1,2,4) *(1) assms(6,7) room *(2), of txn] by (auto simp: inserted_def)
  then show ?thesis using that [of t' bp' h'] assms(3) by simp
qed

lemma demo_btree_row:
  obtains t bp where "btree_insert 1 9 [1, 6] (5, 0) demo_btree = Some (Inr (tree_root t), bp)" "index_tree (pool_view bp) t"
    "tree_entries t = [build_leaf_payload [1, 6] (5, 0)]" "pool_quiet bp" "nframes bp = 4"
proof -
  note D = demo_btree_facts
  have "\<exists>res. btree_insert (tree_root (LeafAt 1 [] None)) 9 [1, 6] (5, 0) demo_btree = Some res \<and>
      inserted 0 demo_btree (LeafAt 1 [] None) (build_leaf_payload [1, 6] (5, 0)) 0 res"
    by (rule btree_insert_inserts [OF D(3), of 0])
      (use D log_room_mono [OF D(6)] in \<open>auto simp: SMALL_KEY_def SPLIT_ROOM_def REBUILD_ROOM_def tree_entries_def\<close>)
  then show ?thesis using that D(4) by (auto simp: inserted_def with_entry_def tree_entries_def)
qed

text \<open>C3: Looking a key up in an index ends and returns the rows of exactly the entries with that key, in order,
  over as many leaves as they span, whatever else the index holds, provided that no key of the index is
  a proper prefix of the key or the other way round. It changes no page and returns every pin.\<close>

theorem btree_get_finds:
  assumes i: "index_tree (pool_view bp) t" and q: "pool_quiet bp" "1 < nframes bp" and ta: "tells_apart key (tree_entries t)"
  shows "\<exists>bp'. btree_get (tree_root t) key bp = Some (Inr (map leaf_rid (filter (\<lambda>e. entry_key e = key) (tree_entries t))), bp') \<and>
    pool_quiet bp' \<and> pool_view bp' = pool_view bp"
  using btree_get_matches [OF i q, of key] by (simp add: matches_all [OF index_treeD(6) [OF i] ta])

theorem btree_get_finds_witness:
  "\<exists>root bp bp'. btree_insert 1 9 [1, 6] (5, 0) demo_btree = Some (Inr root, bp) \<and> btree_get root [1, 6] bp = Some (Inr [(5, 0)], bp')"
proof -
  obtain t bp where b: "btree_insert 1 9 [1, 6] (5, 0) demo_btree = Some (Inr (tree_root t), bp)" "index_tree (pool_view bp) t"
    "tree_entries t = [build_leaf_payload [1, 6] (5, 0)]" "pool_quiet bp" "nframes bp = 4" by (rule demo_btree_row)
  have "tells_apart [1, 6] (tree_entries t)" using b(3) by (simp add: tells_apart_def)
  from btree_get_finds [OF b(2,4) _ this] show ?thesis using b(1,3,5) by auto
qed

text \<open>C2: Inserting a row under a key that fits and is not yet in the index ends without an error, whatever
  it splits: it returns the root of a tree of the pages that is again ordered, linked, of a uniform depth at most one greater and on
  pages of its own, and whose entries are the old ones with the new one at its place in key order. Pages
  outside the index keep their bytes and every pin is returned.\<close>

theorem btree_insert_adds:
  assumes "index_tree (pool_view bp) t" "uniform h t" "pool_quiet bp" "Suc h < nframes bp" "length key \<le> SMALL_KEY"
    "leaf_sort_key (build_leaf_payload key r) \<notin> leaf_sort_key ` set (tree_entries t)"
    "log_room (Suc (Suc h) * SPLIT_ROOM) bp" "unat (next_page bp) + h + 2 < 2 ^ 32"
  shows "\<exists>t' bp'. btree_insert (tree_root t) txn key r bp = Some (Inr (tree_root t'), bp') \<and>
    index_tree (pool_view bp') t' \<and> (\<exists>h' \<le> Suc h. uniform h' t') \<and>
    tree_entries t' = with_entry (tree_entries t) (build_leaf_payload key r) \<and> pool_quiet bp' \<and>
    (\<forall>q. q \<notin> set (tree_pages t) \<longrightarrow> q < next_page bp \<longrightarrow> pool_view bp' q = pool_view bp q)"
proof -
  have "log_room (Suc (Suc h) * SPLIT_ROOM + 0) bp" using assms(7) by simp
  from btree_insert_inserts [OF assms(1-6) this assms(8), of txn] show ?thesis by (auto simp: inserted_def)
qed

theorem btree_insert_adds_witness:
  "\<exists>t bp. btree_insert 1 9 [1] (5, 0) demo_btree = Some (Inr (tree_root t), bp) \<and> index_tree (pool_view bp) t \<and>
    tree_entries t = [build_leaf_payload [1] (5, 0)] \<and> pool_view bp 0 = pool_view demo_btree 0"
proof -
  note D = demo_btree_facts
  have "log_room (Suc (Suc 0) * SPLIT_ROOM) demo_btree"
    by (rule log_room_mono [OF D(6)]) (simp add: SPLIT_ROOM_def REBUILD_ROOM_def)
  from btree_insert_adds [OF D(3) _ D(2) _ _ _ this, of "[1]" "(5, 0)" 9] D(4,5)
  show ?thesis by (auto simp: SMALL_KEY_def with_entry_def tree_entries_def)
qed



lemma replicate_2: "replicate 2 x = [x, x]"
  by (simp add: numeral_2_eq_2)

lemma nat_le_small: "x < 256 \<Longrightarrow> nat_le 4 x = [of_nat x, 0, 0, 0]"
proof -
  have four: "(4 :: nat) = Suc (Suc (Suc (Suc 0)))" by simp
  show "x < 256 \<Longrightarrow> nat_le 4 x = [of_nat x, 0, 0, 0]" unfolding four by simp
qed

text \<open>C40: The encoding of VARCHAR keys has no terminator and a leaf entry sorts by its key followed by the bytes of its
  row, so a longer key can sort between two rows of a shorter one, its prefix. After the rows (50, 0) and (200, 0) of the
  key 'a' and a row of the key 'ab' are in an index, a lookup of 'a' returns the first row only, and so does the range scan
  from the key to its successor with which an equality is answered.\<close>

theorem varchar_lookup_misses_row:
  "encode_memcomparable (VVarchar [97]) [] = Inr [1, 97] \<and> encode_memcomparable (VVarchar [97, 98]) [] = Inr [1, 97, 98] \<and>
   (\<exists>r1 bp1 r2 bp2 r3 bp3 bp4 bp5.
     btree_insert 1 9 [1, 97] (50, 0) demo_btree = Some (Inr r1, bp1) \<and>
     btree_insert r1 9 [1, 97] (200, 0) bp1 = Some (Inr r2, bp2) \<and>
     btree_insert r2 9 [1, 97, 98] (60, 0) bp2 = Some (Inr r3, bp3) \<and>
     btree_get r3 [1, 97] bp3 = Some (Inr [(50, 0)], bp4) \<and>
     range_collect r3 (Some [1, 97, 0]) (NotStarted (Some [1, 97])) bp3 = Some (Inr [([1, 97], (50, 0))], bp5))"
proof -
  note D = demo_btree_facts
  let ?e1 = "build_leaf_payload [1, 97] (50, 0)" and ?e2 = "build_leaf_payload [1, 97] (200, 0)" and ?e3 = "build_leaf_payload [1, 97, 98] (60, 0)"
  have k: "leaf_sort_key ?e1 = [1, 97, 50, 0, 0, 0, 0, 0]" "leaf_sort_key ?e2 = [1, 97, 200, 0, 0, 0, 0, 0]" "leaf_sort_key ?e3 = [1, 97, 98, 60, 0, 0, 0, 0, 0]"
    by (simp_all add: u32_le_def u16_le_def nat_le_small replicate_2)
  have room: "log_room (Suc (Suc 0) * SPLIT_ROOM + (Suc (Suc 1) * SPLIT_ROOM + (Suc (Suc 2) * SPLIT_ROOM + 0))) demo_btree"
    by (rule log_room_mono [OF D(6)]) (simp add: SPLIT_ROOM_def REBUILD_ROOM_def)
  obtain t1 bp1 h1 where A: "btree_insert 1 9 [1, 97] (50, 0) demo_btree = Some (Inr (tree_root t1), bp1)" "index_tree (pool_view bp1) t1"
    "tree_entries t1 = [?e1]" "pool_quiet bp1" "nframes bp1 = 4" "log_room (Suc (Suc 1) * SPLIT_ROOM + (Suc (Suc 2) * SPLIT_ROOM + 0)) bp1"
    "uniform h1 t1" "h1 \<le> 1" "unat (next_page bp1) \<le> 4"
    by (rule add_row [OF D(3) _ _ D(2) _ _ _ room, of 0 "[1, 97]" "(50, 0)" 9])
      (use D(4,5) in \<open>simp_all add: SMALL_KEY_def tree_entries_def with_entry_def\<close>)
  obtain t2 bp2 h2 where B: "btree_insert (tree_root t1) 9 [1, 97] (200, 0) bp1 = Some (Inr (tree_root t2), bp2)" "index_tree (pool_view bp2) t2"
    "tree_entries t2 = [?e1, ?e2]" "pool_quiet bp2" "nframes bp2 = 4" "log_room (Suc (Suc 2) * SPLIT_ROOM + 0) bp2"
    "uniform h2 t2" "h2 \<le> 2" "unat (next_page bp2) \<le> 7"
    by (rule add_row [OF A(2,7,8,4) _ _ _ A(6), of "[1, 97]" "(200, 0)" 9])
      (use A in \<open>simp_all add: SMALL_KEY_def with_entry_def entry_slot_def partition_point_def k\<close>)
  obtain t3 bp3 h3 where C: "btree_insert (tree_root t2) 9 [1, 97, 98] (60, 0) bp2 = Some (Inr (tree_root t3), bp3)" "index_tree (pool_view bp3) t3"
    "tree_entries t3 = [?e1, ?e3, ?e2]" "pool_quiet bp3" "nframes bp3 = 4"
    by (rule add_row [OF B(2,7,8,4) _ _ _ B(6), of "[1, 97, 98]" "(60, 0)" 9])
      (use B in \<open>simp_all add: SMALL_KEY_def with_entry_def entry_slot_def partition_point_def k\<close>)
  have "matches [1, 97] (tree_entries t3) = [?e1]" unfolding C(3) by (simp add: matches_def k)
  then have g: "\<exists>bp4. btree_get (tree_root t3) [1, 97] bp3 = Some (Inr [(50, 0)], bp4)"
    using btree_get_matches [OF C(2,4), of "[1, 97]"] C(5) by auto
  have "range_entries (Some [1, 97]) (Some [1, 97, 0]) (tree_entries t3) = [([1, 97], (50, 0))]"
    unfolding C(3) by (simp add: range_entries_def scanned_def past_end_def k)
  then have "\<exists>bp5. range_collect (tree_root t3) (Some [1, 97, 0]) (NotStarted (Some [1, 97])) bp3 = Some (Inr [([1, 97], (50, 0))], bp5)"
    using range_collect_entries [OF C(2,4), of "Some [1, 97, 0]" "Some [1, 97]"] C(5) by auto
  then show ?thesis using A(1) B(1) C(1) g by (auto simp: VALUE_TAG_def)
qed

end
