(* ===== verification/Spec2Isabelle.thy ===== *)
theory Spec2Isabelle
  imports Memcomparable Tuple_Codec Log_Rep Lock_Manager Version_Store
    Table_Heap Txn_Manager History Sql_Roundtrip Planner Parameters BTree_Range
begin

text \<open>
  A verification library for a relational database engine written in Rust (\<open>src/crates\<close>). Paths below are relative to that directory.

  \<^bold>\<open>The program.\<close> A statement is lexed, parsed, bound against the catalog, planned, optimised and executed. Rows live in
  table heaps and B+ tree indexes, both on pages of 4096 bytes that the buffer pool caches. Changes go through page
  guards, which log them before they are made; dirty pages reach the database file through the log and a double-write buffer.
  Transactions take locks or read versions, and recovery replays the log at start-up.

  \<^bold>\<open>Conventions.\<close> A fallible function returns \<open>'e + 'a\<close>, with the error on the left and a constructor per error of the
  source. State is passed explicitly; \<open>('s, 'e, 'a) sresult\<close> of \<open>Prelude\<close> is a result with the state after it. Machine
  integers are words. Text is its UTF-8 bytes and an \<open>f64\<close> its 64 bits. A loop that follows links of pages or of the log is a
  partial function into \<open>option\<close>, and the properties show that it ends; the parser's recursion has a depth bound that is shown to be enough.

  \<^bold>\<open>Values and codecs.\<close>
  \<^item> \<open>Prelude\<close>: bytes, integer encodings, slices, results and state, with the lemmas the codecs share.
  \<^item> \<open>Crc\<close> (\<open>common/src/crc.rs\<close>) and \<open>Page\<close> (\<open>storage/src/page.rs\<close>): the table-driven checksum is the bit-serial one, and a
    stamped page betrays every change of one byte.
  \<^item> \<open>Types_Value\<close>, \<open>Memcomparable\<close>, \<open>Tuple_Codec\<close> (\<open>types/src\<close>): values and their order, keys whose byte order is the order of the
    values, rows that decode to what was encoded.
  \<^item> \<open>Catalog_Codec\<close>, \<open>Catalog_State\<close> (\<open>catalog/src\<close>): table and index descriptions, the rows that store them, the in-memory maps.

  \<^bold>\<open>Storage.\<close>
  \<^item> \<open>Storage_Base\<close>, \<open>Disk\<close>, \<open>Double_Write\<close> (\<open>storage/src/error.rs\<close>, \<open>block_device.rs\<close>, \<open>disk.rs\<close>, \<open>dwb.rs\<close>): devices as bytes, the page file, and
    the repair of torn pages.
  \<^item> \<open>Wal_Record\<close>, \<open>Log_Manager\<close>, \<open>Log_Rep\<close> (\<open>storage/src/wal.rs\<close>): record codec, segments, append, flush, roll, truncation and reopening.
    A representation invariant relates the files to the list of records, and the properties are stated over every run of the log.
    A run may crash between operations, after any number of bytes of a flush, or inside a segment roll (\<open>crash_left\<close>).
  \<^item> \<open>Replacer\<close> (\<open>storage/src/replacer.rs\<close>): the trait as the locale \<open>replacer\<close>, LRU-K as its interpretation \<open>lruk\<close>.
    The victim is compared with an order defined on the access times of the run alone (\<open>given_up_before\<close>).
  \<^item> \<open>Buffer_Pool\<close>, \<open>Pool_Inv\<close>, \<open>Pool_Ops\<close>, \<open>Flush_Crash\<close>, \<open>Pool_Run\<close> (\<open>storage/src/buffer.rs\<close>): the pool driven by one thread, its invariant, and its
    abstraction to a map from page ids to contents. The locale \<open>page_store\<close> is the interface to that map, with guards and pins,
    and \<open>pool\<close> its interpretation; the heap and the index are verified against it. \<open>Flush_Crash\<close> interrupts a flush at any write or
    sync of the double-write file and the page file, tearing pages; the runs of \<open>Pool_Run\<close> crash there too and restart. Such a restart
    assumes that the checksum detects the tear (\<open>torn_detected\<close>) and that no image of the batch is all zeros (\<open>sound_image\<close>).
  \<^item> \<open>Heap\<close>, \<open>Slotted_Page\<close>, \<open>Table_Heap\<close> (\<open>storage/src/heap.rs\<close>): slotted pages and tables as chains of them; each operation refines
    one on the list of rows.
  \<^item> \<open>BTree_Node\<close>, \<open>BTree_Page\<close>, \<open>BTree_Write\<close>, \<open>BTree\<close>, \<open>BTree_Tree\<close>, \<open>BTree_Read\<close>, \<open>BTree_Insert\<close>, \<open>BTree_Range\<close>
    (\<open>storage/src/btree.rs\<close>): node pages, the operations with their guards, and the trees the pages represent. Insertion
    keeps the tree well formed whatever it splits; lookup and range scan return the entries the tree has.
  \<^item> \<open>Recovery\<close>, \<open>History\<close> (\<open>storage/src/recovery.rs\<close>): analysis, redo and undo, and pages as the log describes them.

  \<^bold>\<open>Transactions.\<close>
  \<^item> \<open>Lock_Manager\<close> (\<open>txn/src/lock_manager.rs\<close>): each pass of the loop of \<open>acquire\<close> is one step, and the interleavings of all
    threads are the runs of \<open>lock_step\<close>; mutual exclusion and absence of deadlock are invariants of them. A transaction is driven by
    one thread there; \<open>released_waiter_reacquires\<close> shows what a second thread on it can do.
  \<^item> \<open>Version_Store\<close> (\<open>txn/src/mvcc.rs\<close>, \<open>version_store.rs\<close>): version chains, visibility, abort and pruning.
  \<^item> \<open>Txn_Manager\<close> (\<open>txn/src/manager.rs\<close>, \<open>checkpoint.rs\<close>): begin, commit, abort and checkpoints over the pool.

  \<^bold>\<open>SQL.\<close>
  \<^item> \<open>Sql_Ast\<close>, \<open>Sql_Lexer\<close>, \<open>Sql_Parser\<close>, \<open>Sql_Print\<close>, \<open>Sql_Roundtrip\<close> (\<open>sql/src\<close>): the front end is checked against a printer: reading a
    printed statement gives it back, and reading ends on every input. The printer writes no float literals.
  \<^item> \<open>Binder\<close>, \<open>Expression\<close> (\<open>planner/src/binder.rs\<close>, \<open>executor/src/expression.rs\<close>): what binds evaluates without a type error.
  \<^item> \<open>Planner\<close> (\<open>planner/src/plan.rs\<close>, \<open>logical_plan.rs\<close>, \<open>physical_plan.rs\<close>, \<open>optimizer.rs\<close>): an index scan reads every key its filter accepts.
  \<^item> \<open>Parameters\<close> (\<open>planner/src/parameters.rs\<close>): inference and substitution of parameters agree, surplus values of an \<open>INSERT\<close>
    row apart (\<open>surplus_parameter_unseen\<close>).

  \<^bold>\<open>Bounds.\<close> Properties of the pool assume room in the 64-bit log sequence (\<open>log_room k\<close>: \<open>k\<close> records of the largest size fit) and in the 32-bit
  page numbers. Properties of the index take keys of at most \<open>SMALL_KEY\<close> bytes, three of which fit a node, because a split
  of larger keys that are accepted can fail (\<open>leaf_split_overflows\<close>); a split takes at most \<open>SPLIT_ROOM\<close> records, and an insertion into a tree of depth \<open>h\<close> at
  most \<open>h + 2\<close> splits and as many pages.

  \<^bold>\<open>Faults of the code.\<close> Properties named for a behaviour that the documentation rules out prove that it occurs:
  \<open>varchar_lookup_misses_row\<close>, \<open>leaf_split_overflows\<close>, \<open>negative_integer_rejected\<close>, \<open>stale_enrolment_unhides_aborted_row\<close>,
  \<open>released_waiter_reacquires\<close> and the lemma \<open>surplus_parameter_unseen\<close>.

  \<^bold>\<open>Not modelled.\<close> Threads inside the pool, the index and the log (each call runs alone; only the lock manager is modelled with its
  interleavings); failing devices that keep running after the failure, outside a flush; the choice of the segment files by name when the log is opened (the
  model has the segments as a map from their numbers); catalog operations that write pages;
  query operators, sessions and the worker pool; the wire protocol, the HTTP probes and the command line; metrics, tracing, \<open>EXPLAIN\<close> text and
  fingerprints, which nothing else reads.
\<close>

end
